(* ===== verification/YJC_Prelude.thy ===== *)
theory YJC_Prelude
  imports Main "HOL-Library.Word" "HOL-Library.Monad_Syntax"
begin

text \<open>
  Shared vocabulary of the development: the machine-integer types of the C sources, the
  conversions between C integer types that wrap around, and bounds-checked memory. A C array
  is a list; every read, write, \<open>memcpy\<close>, \<open>memmove\<close> and \<open>memset\<close> is checked against the
  length of the list and is \<open>None\<close> when the C code would leave the array, so that a theorem
  with \<open>Some\<close> on its right-hand side also says that no out-of-bounds access happens.
\<close>

unbundle bit_operations_syntax

section \<open>Machine integers\<close>

type_synonym u8 = "8 word"
type_synonym u16 = "16 word"
type_synonym u32 = "32 word"
type_synonym u64 = "64 word"

named_theorems mem_simps \<open>bounds-checked memory, unfolded under the bounds\<close>
named_theorems cint_simps \<open>C integer conversions that do not wrap\<close>

text \<open>Conversion of a mathematical value to \<open>size_t\<close> (64 bit) and to \<open>ssize_t\<close>.\<close>

definition to_size :: "int \<Rightarrow> nat" where
  "to_size x = nat (x mod 2 ^ 64)"

definition to_ssize :: "int \<Rightarrow> int" where
  "to_ssize x = (x + 2 ^ 63) mod 2 ^ 64 - 2 ^ 63"

text \<open>Conversion to \<open>unsigned int\<close> and to \<open>int\<close> (32 bit).\<close>

definition to_uint :: "int \<Rightarrow> nat" where
  "to_uint x = nat (x mod 2 ^ 32)"

definition to_int :: "int \<Rightarrow> int" where
  "to_int x = (x + 2 ^ 31) mod 2 ^ 32 - 2 ^ 31"

section \<open>Pointers\<close>

text \<open>Addresses of heap objects; a store is a partial map from addresses to objects.\<close>

type_synonym ptr = nat

abbreviation NULL :: ptr where "NULL \<equiv> 0"

section \<open>Bounds-checked memory\<close>

definition mem_read :: "'a list \<Rightarrow> nat \<Rightarrow> 'a option" where
  "mem_read xs i = (if i < length xs then Some (xs ! i) else None)"

definition mem_write :: "'a list \<Rightarrow> nat \<Rightarrow> 'a \<Rightarrow> 'a list option" where
  "mem_write xs i v = (if i < length xs then Some (xs[i := v]) else None)"

text \<open>\<open>memcpy (dst + d, src + s, n)\<close> on two arrays.\<close>

definition mem_copy :: "'a list \<Rightarrow> nat \<Rightarrow> 'a list \<Rightarrow> nat \<Rightarrow> nat \<Rightarrow> 'a list option" where
  "mem_copy dst d src s n =
     (if d + n \<le> length dst \<and> s + n \<le> length src
      then Some (take d dst @ take n (drop s src) @ drop (d + n) dst) else None)"

text \<open>\<open>memmove (xs + d, xs + s, n)\<close> inside one array, as if through a temporary.\<close>

definition mem_move :: "'a list \<Rightarrow> nat \<Rightarrow> nat \<Rightarrow> nat \<Rightarrow> 'a list option" where
  "mem_move xs d s n = mem_copy xs d xs s n"

text \<open>\<open>memset (xs + d, v, n)\<close>, in elements.\<close>

definition mem_set :: "'a list \<Rightarrow> nat \<Rightarrow> 'a \<Rightarrow> nat \<Rightarrow> 'a list option" where
  "mem_set xs d v n = mem_copy xs d (replicate n v) 0 n"

section \<open>Shared lemmas\<close>

lemma to_size_id [cint_simps]: "0 \<le> x \<Longrightarrow> x < 2 ^ 64 \<Longrightarrow> to_size x = nat x"
  by (simp add: to_size_def)

lemma to_ssize_id [cint_simps]: "- (2 ^ 63) \<le> x \<Longrightarrow> x < 2 ^ 63 \<Longrightarrow> to_ssize x = x"
  by (simp add: to_ssize_def)

lemma to_uint_id [cint_simps]: "0 \<le> x \<Longrightarrow> x < 2 ^ 32 \<Longrightarrow> to_uint x = nat x"
  by (simp add: to_uint_def)

lemma to_int_id [cint_simps]: "- (2 ^ 31) \<le> x \<Longrightarrow> x < 2 ^ 31 \<Longrightarrow> to_int x = x"
  by (simp add: to_int_def)

lemma to_size_less: "to_size x < 2 ^ 64"
  by (simp add: to_size_def nat_less_iff)

lemma to_uint_less: "to_uint x < 2 ^ 32"
  by (simp add: to_uint_def nat_less_iff)

lemma mem_read_Some [mem_simps]: "i < length xs \<Longrightarrow> mem_read xs i = Some (xs ! i)"
  by (simp add: mem_read_def)

lemma mem_read_None [mem_simps]: "length xs \<le> i \<Longrightarrow> mem_read xs i = None"
  by (simp add: mem_read_def)

lemma mem_write_Some [mem_simps]: "i < length xs \<Longrightarrow> mem_write xs i v = Some (xs[i := v])"
  by (simp add: mem_write_def)

lemma mem_copy_Some [mem_simps]:
  "d + n \<le> length dst \<Longrightarrow> s + n \<le> length src \<Longrightarrow>
   mem_copy dst d src s n = Some (take d dst @ take n (drop s src) @ drop (d + n) dst)"
  by (simp add: mem_copy_def)

lemma mem_copy_length: "mem_copy dst d src s n = Some dst' \<Longrightarrow> length dst' = length dst"
  by (auto simp: mem_copy_def split: if_splits)

lemma mem_move_Some [mem_simps]:
  "d + n \<le> length xs \<Longrightarrow> s + n \<le> length xs \<Longrightarrow>
   mem_move xs d s n = Some (take d xs @ take n (drop s xs) @ drop (d + n) xs)"
  by (simp add: mem_move_def mem_copy_Some)

lemma mem_set_Some [mem_simps]:
  "d + n \<le> length xs \<Longrightarrow>
   mem_set xs d v n = Some (take d xs @ replicate n v @ drop (d + n) xs)"
  by (simp add: mem_set_def mem_copy_Some)

lemma take_split3: "s \<le> e \<Longrightarrow> take s D @ drop s (take e D) @ drop e D = D"
  by (metis append.assoc append_take_drop_id min.absorb1 take_take)

lemma mem_copy_0 [simp]: "d \<le> length dst \<Longrightarrow> s \<le> length src \<Longrightarrow> mem_copy dst d src s 0 = Some dst"
  by (simp add: mem_copy_def)

lemma mem_copy_take:
  "s + n \<le> k \<Longrightarrow> k \<le> length src \<Longrightarrow> mem_copy dst d (take k src) s n = mem_copy dst d src s n"
  by (simp add: mem_copy_def drop_take min_absorb1)

lemma to_uint_sub: "k \<le> n \<Longrightarrow> n < 2 ^ 32 \<Longrightarrow> to_uint (int n - int k) = n - k"
  by (simp add: to_uint_def)

lemma read_mid [simp]: "mem_read (pre @ x # r) (length pre) = Some x"
  by (simp add: mem_read_def)

lemma read_mid1 [simp]: "mem_read (pre @ x # y # r) (Suc (length pre)) = Some y"
  by (simp add: mem_read_def nth_append)

lemma read_mid2 [simp]: "mem_read (pre @ x # y # z # r) (Suc (Suc (length pre))) = Some z"
  by (simp add: mem_read_def nth_append)

lemma read_mid3 [simp]: "mem_read (pre @ x # y # z # u # r) (Suc (Suc (Suc (length pre)))) = Some u"
  by (simp add: mem_read_def nth_append)

section \<open>Masks and shifts as arithmetic\<close>

lemma unat_and_mask: "unat (x AND mask n) = unat (x :: 'a::len word) mod 2 ^ n"
  unfolding take_bit_eq_mask [symmetric] unsigned_take_bit_eq by (simp only: take_bit_eq_mod)

lemma unat_and_3: "unat (x AND (0x3 :: u32)) = unat x mod 4"
  using unat_and_mask [of x 2] by (simp add: mask_eq_exp_minus_1)
lemma unat_and_F: "unat (x AND (0xF :: u32)) = unat x mod 16"
  using unat_and_mask [of x 4] by (simp add: mask_eq_exp_minus_1)
lemma unat_and_3F: "unat (x AND (0x3F :: u32)) = unat x mod 64"
  using unat_and_mask [of x 6] by (simp add: mask_eq_exp_minus_1)
lemma unat_and_FF: "unat (x AND (0xFF :: u32)) = unat x mod 256"
  using unat_and_mask [of x 8] by (simp add: mask_eq_exp_minus_1)

lemmas unat_masks = unat_and_3 unat_and_F unat_and_3F unat_and_FF

lemma unat_u8_less: "unat (x :: u8) < 256"
  using unsigned_less [of x] by simp

lemma unat_u8_u32 [simp]: "unat (ucast (x :: u8) :: u32) = unat x"
  using unat_u8_less [of x] by (simp add: unsigned_ucast_eq take_bit_eq_mod)

lemma unat_drop_bit: "unat (drop_bit n x) = unat (x :: 'a::len word) div 2 ^ n"
  unfolding unat_drop_bit_eq by (simp only: drop_bit_eq_div)

lemma unat_push_bit: "unat (push_bit n x) = (unat (x :: u32) * 2 ^ n) mod 2 ^ 32"
  unfolding unsigned_push_bit_eq by (simp add: take_bit_eq_mod push_bit_eq_mult)

lemma unat_ucast_u8: "unat (ucast (x :: u32) :: u8) = unat x mod 256"
  by (simp add: unsigned_ucast_eq take_bit_eq_mod)

section \<open>Strings\<close>

text \<open>\<open>strcmp\<close> on the bytes before the terminator, compared as \<open>unsigned char\<close>.\<close>

fun strcmp :: "u8 list \<Rightarrow> u8 list \<Rightarrow> int" where
  "strcmp [] [] = 0"
| "strcmp [] (y # ys) = - 1"
| "strcmp (x # xs) [] = 1"
| "strcmp (x # xs) (y # ys) = (if x = y then strcmp xs ys else if x < y then - 1 else 1)"

lemma strcmp_anti: "strcmp xs ys < 0 \<longleftrightarrow> strcmp ys xs > 0"
  by (induction xs ys rule: strcmp.induct) auto

lemma strcmp_trans: "strcmp xs ys \<le> 0 \<Longrightarrow> strcmp ys zs \<le> 0 \<Longrightarrow> strcmp xs zs \<le> 0"
proof (induction xs ys arbitrary: zs rule: strcmp.induct)
  case (2 y ys)
  then show ?case by (cases zs) auto
next
  case (4 x xs y ys)
  then show ?case by (cases zs) (auto split: if_splits)
qed auto

lemma strcmp_0 [simp]: "strcmp xs ys = 0 \<longleftrightarrow> xs = ys"
  by (induction xs ys rule: strcmp.induct) auto

end
