(* ===== verification/Interfaces.thy ===== *)
theory Interfaces
  imports YJC_Prelude "HOL-Library.Multiset"
begin

text \<open>
  The contracts several components of the library share, as locales: a bounded FIFO of
  elements with bulk \<open>put\<close> and \<open>get\<close>, and a stack with a capacity. Each locale fixes the
  operations, the invariant and the abstraction to a list; what a client may conclude is
  proved once inside the locale and is available to every component that interprets it.
\<close>

section \<open>Client programs\<close>

text \<open>A producer and a consumer on one FIFO: offer the elements \<open>xs\<close>, or ask for \<open>n\<close>.\<close>

datatype 'a fifo_op = Put "'a list" | Get nat

text \<open>
  The run of a sequence of operations: the elements accepted, the elements delivered and the
  final state; \<open>None\<close> when an operation fails.
\<close>

fun fifo_run :: "('b \<Rightarrow> 'a list \<Rightarrow> nat \<Rightarrow> (nat \<times> 'b) option) \<Rightarrow>
    ('b \<Rightarrow> 'a list \<Rightarrow> nat \<Rightarrow> (nat \<times> 'a list \<times> 'b) option) \<Rightarrow>
    'b \<Rightarrow> ('a::zero) fifo_op list \<Rightarrow> ('a list \<times> 'a list \<times> 'b) option" where
  "fifo_run put get b [] = Some ([], [], b)"
| "fifo_run put get b (Put xs # ops) =
     do { (k, b1) \<leftarrow> put b xs (length xs);
          (acc, out, b2) \<leftarrow> fifo_run put get b1 ops;
          Some (take k xs @ acc, out, b2) }"
| "fifo_run put get b (Get n # ops) =
     do { (k, dp, b1) \<leftarrow> get b (replicate n 0) n;
          (acc, out, b2) \<leftarrow> fifo_run put get b1 ops;
          Some (acc, take k dp @ out, b2) }"

text \<open>Pushing the elements of a list one after the other, and popping \<open>n\<close> elements.\<close>

fun push_all :: "('b \<Rightarrow> 'a \<Rightarrow> 'b option) \<Rightarrow> 'b \<Rightarrow> 'a list \<Rightarrow> 'b option" where
  "push_all push b [] = Some b"
| "push_all push b (x # xs) = do { b' \<leftarrow> push b x; push_all push b' xs }"

fun pop_all :: "('b \<Rightarrow> ('a \<times> 'b) option) \<Rightarrow> 'b \<Rightarrow> nat \<Rightarrow> ('a list \<times> 'b) option" where
  "pop_all pop b 0 = Some ([], b)"
| "pop_all pop b (Suc n) =
     do { (x, b1) \<leftarrow> pop b; (xs, b2) \<leftarrow> pop_all pop b1 n; Some (x # xs, b2) }"

section \<open>Bounded FIFO\<close>

locale bounded_fifo =
  fixes put :: "'b \<Rightarrow> ('a::zero) list \<Rightarrow> nat \<Rightarrow> (nat \<times> 'b) option"
    and get :: "'b \<Rightarrow> 'a list \<Rightarrow> nat \<Rightarrow> (nat \<times> 'a list \<times> 'b) option"
    and cap :: "'b \<Rightarrow> nat"
    and content :: "'b \<Rightarrow> 'a list"
    and invar :: "'b \<Rightarrow> bool"
  assumes content_cap: "invar b \<Longrightarrow> length (content b) \<le> cap b"
    and put_content: "invar b \<Longrightarrow> n \<le> length xs \<Longrightarrow>
      \<exists>b'. put b xs n = Some (min n (cap b - length (content b)), b') \<and> invar b' \<and> cap b' = cap b \<and>
           content b' = content b @ take (min n (cap b - length (content b))) xs"
    and get_content: "invar b \<Longrightarrow> n \<le> length dp \<Longrightarrow>
      \<exists>b'. get b dp n =
             Some (min (length (content b)) n,
               take (min (length (content b)) n) (content b) @ drop (min (length (content b)) n) dp, b') \<and>
           invar b' \<and> cap b' = cap b \<and> content b' = drop (min (length (content b)) n) (content b)"
begin

text \<open>No run fails, and what was in the buffer and went in is what came out and is left.\<close>

lemma run_stream:
  "invar b \<Longrightarrow> \<exists>acc out b'. fifo_run put get b ops = Some (acc, out, b') \<and> invar b' \<and>
     cap b' = cap b \<and> content b @ acc = out @ content b'"
proof (induction ops arbitrary: b)
  case Nil
  then show ?case by simp
next
  case (Cons op ops)
  show ?case
  proof (cases op)
    case (Put xs)
    let ?k = "min (length xs) (cap b - length (content b))"
    obtain b1 where b1: "put b xs (length xs) = Some (?k, b1)" "invar b1" "cap b1 = cap b"
      "content b1 = content b @ take ?k xs" using put_content [OF Cons.prems order_refl] by blast
    with Cons.IH [OF b1(2)] Put show ?thesis by auto
  next
    case (Get n)
    let ?k = "min (length (content b)) n" and ?dp = "replicate n (0::'a)"
    obtain b1 where b1: "get b ?dp n = Some (?k, take ?k (content b) @ drop ?k ?dp, b1)" "invar b1"
      "cap b1 = cap b" "content b1 = drop ?k (content b)"
      using get_content [OF Cons.prems, of n ?dp] by auto
    obtain acc out b2 where b2: "fifo_run put get b1 ops = Some (acc, out, b2)" "invar b2"
      "cap b2 = cap b" "content b1 @ acc = out @ content b2"
      using Cons.IH [OF b1(2)] b1(3) by auto
    have "content b @ acc = (take ?k (content b) @ out) @ content b2"
      using b1(4) b2(4) by (metis append.assoc append_take_drop_id)
    with b1 b2 Get show ?thesis by auto
  qed
qed

end

section \<open>Stacks\<close>

locale bounded_stack =
  fixes push :: "'b \<Rightarrow> 'a \<Rightarrow> 'b option"
    and pop :: "'b \<Rightarrow> ('a \<times> 'b) option"
    and invar :: "'b \<Rightarrow> bool"
    and content :: "'b \<Rightarrow> 'a list"
    and limit :: nat
  assumes push_content: "invar b \<Longrightarrow> length (content b) < limit \<Longrightarrow>
      \<exists>b'. push b x = Some b' \<and> invar b' \<and> content b' = content b @ [x]"
    and pop_content: "invar b \<Longrightarrow> content b \<noteq> [] \<Longrightarrow>
      \<exists>b'. pop b = Some (last (content b), b') \<and> invar b' \<and> content b' = butlast (content b)"
begin

lemma push_all_content:
  "invar b \<Longrightarrow> length (content b) + length xs \<le> limit \<Longrightarrow>
   \<exists>b'. push_all push b xs = Some b' \<and> invar b' \<and> content b' = content b @ xs"
proof (induction xs arbitrary: b)
  case (Cons x xs)
  then obtain b1 where b1: "push b x = Some b1" "invar b1" "content b1 = content b @ [x]"
    using push_content [of b x] by auto
  from Cons.IH [OF b1(2)] b1 Cons.prems show ?case by auto
qed simp

lemma pop_all_content:
  "invar b \<Longrightarrow> n \<le> length (content b) \<Longrightarrow>
   \<exists>b'. pop_all pop b n = Some (take n (rev (content b)), b') \<and> invar b' \<and>
     content b' = take (length (content b) - n) (content b)"
proof (induction n arbitrary: b)
  case (Suc n)
  then have ne: "content b \<noteq> []" by auto
  then obtain b1 where b1: "pop b = Some (last (content b), b1)" "invar b1"
    "content b1 = butlast (content b)" using pop_content [OF Suc.prems(1)] by blast
  have "n \<le> length (content b1)" using Suc.prems b1 by simp
  from Suc.IH [OF b1(2) this] obtain b2 where
    b2: "pop_all pop b1 n = Some (take n (rev (content b1)), b2)" "invar b2"
    "content b2 = take (length (content b1) - n) (content b1)" by blast
  have "content b = butlast (content b) @ [last (content b)]" using ne by simp
  then have "take (Suc n) (rev (content b)) = last (content b) # take n (rev (content b1))"
    using b1 by (metis rev.simps(2) rev_rev_ident take_Suc_Cons)
  moreover have "content b2 = take (length (content b) - Suc n) (content b)"
    using b1 b2 ne by (simp add: butlast_conv_take min_def)
  ultimately show ?case using b1 b2 by simp
qed simp

text \<open>Last in, first out.\<close>

lemma lifo:
  assumes "invar b" "length (content b) + length xs \<le> limit"
  shows "\<exists>b1 b2. push_all push b xs = Some b1 \<and> pop_all pop b1 (length xs) = Some (rev xs, b2) \<and>
    invar b2 \<and> content b2 = content b"
proof -
  obtain b1 where b1: "push_all push b xs = Some b1" "invar b1" "content b1 = content b @ xs"
    using push_all_content [OF assms] by blast
  with pop_all_content [OF b1(2), of "length xs"] show ?thesis by auto
qed

end

section \<open>Comparison\<close>

definition sorted_by :: "('a \<Rightarrow> 'a \<Rightarrow> int) \<Rightarrow> 'a list \<Rightarrow> bool" where
  "sorted_by cmp xs \<longleftrightarrow> sorted_wrt (\<lambda>x y. cmp x y \<le> 0) xs"

definition strict_by :: "('a \<Rightarrow> 'a \<Rightarrow> int) \<Rightarrow> 'a list \<Rightarrow> bool" where
  "strict_by cmp xs \<longleftrightarrow> sorted_wrt (\<lambda>x y. cmp x y < 0) xs"

definition insert_by :: "('a \<Rightarrow> 'a \<Rightarrow> int) \<Rightarrow> 'a \<Rightarrow> 'a list \<Rightarrow> 'a list" where
  "insert_by cmp v xs = takeWhile (\<lambda>x. \<not> cmp v x < 0) xs @ v # dropWhile (\<lambda>x. \<not> cmp v x < 0) xs"

lemma sorted_wrt_mid:
  "sorted_wrt R (xs @ ys) \<Longrightarrow> \<forall>x \<in> set xs. R x v \<Longrightarrow> \<forall>y \<in> set ys. R v y \<Longrightarrow> sorted_wrt R (xs @ v # ys)"
  by (auto simp: sorted_wrt_append)

locale comparison =
  fixes cmp :: "'a \<Rightarrow> 'a \<Rightarrow> int"
  assumes cmp_anti: "cmp x y < 0 \<longleftrightarrow> cmp y x > 0"
    and cmp_trans: "cmp x y \<le> 0 \<Longrightarrow> cmp y z \<le> 0 \<Longrightarrow> cmp x z \<le> 0"
begin

lemma cmp_refl: "cmp x x = 0"
  using cmp_anti [of x x] by linarith

lemma cmp_le: "cmp x y \<le> 0 \<longleftrightarrow> cmp y x \<ge> 0"
  using cmp_anti [of y x] by linarith

lemma cmp_less_trans: "cmp x y \<le> 0 \<Longrightarrow> cmp y z < 0 \<Longrightarrow> cmp x z < 0"
  using cmp_trans [of z x y] cmp_le [of z x] cmp_anti [of y z] by linarith

lemma cmp_less_trans2: "cmp x y < 0 \<Longrightarrow> cmp y z \<le> 0 \<Longrightarrow> cmp x z < 0"
  using cmp_trans [of y z x] cmp_le [of z x] cmp_anti [of x y] by linarith

lemma dropWhile_above:
  assumes "sorted_by cmp xs" "x \<in> set (dropWhile (\<lambda>x. \<not> cmp v x < 0) xs)"
  shows "cmp v x < 0"
  using assms by (induction xs) (auto simp: sorted_by_def intro: cmp_less_trans2 split: if_splits)

lemma insert_by_sorted:
  assumes "sorted_by cmp xs"
  shows "sorted_by cmp (insert_by cmp v xs)"
proof -
  let ?P = "\<lambda>x. \<not> cmp v x < 0"
  have s: "sorted_by cmp (takeWhile ?P xs @ dropWhile ?P xs)" using assms by simp
  have "\<forall>x \<in> set (takeWhile ?P xs). cmp x v \<le> 0"
    using set_takeWhileD [of _ ?P xs] cmp_le [of _ v] by (metis not_less)
  moreover have "\<forall>y \<in> set (dropWhile ?P xs). cmp v y \<le> 0"
    using dropWhile_above [OF assms, of _ v] less_imp_le by blast
  ultimately show ?thesis
    using s unfolding insert_by_def sorted_by_def by (intro sorted_wrt_mid)
qed

lemma strict_sorted: "strict_by cmp xs \<Longrightarrow> sorted_by cmp xs"
  unfolding strict_by_def sorted_by_def by (erule sorted_wrt_mono_rel [rotated]) simp

lemma dropWhile_strict:
  assumes "strict_by cmp xs" "dropWhile (\<lambda>x. cmp v x > 0) xs = y # ys" "z \<in> set ys"
  shows "cmp v z < 0"
proof -
  have "strict_by cmp (y # ys)"
    using assms(1) unfolding assms(2) [symmetric] strict_by_def by (metis sorted_wrt_append takeWhile_dropWhile_id)
  moreover have "cmp v y \<le> 0" using hd_dropWhile [of "\<lambda>x. cmp v x > 0" xs] assms(2) by simp
  ultimately show ?thesis using assms(3) cmp_less_trans [of v y z] by (simp add: strict_by_def)
qed

lemma nodup_found:
  assumes "strict_by cmp xs"
  shows "(\<exists>x \<in> set xs. cmp v x = 0) \<longleftrightarrow>
    (case dropWhile (\<lambda>x. cmp v x > 0) xs of [] \<Rightarrow> False | y # _ \<Rightarrow> cmp v y = 0)"
proof (cases "dropWhile (\<lambda>x. cmp v x > 0) xs")
  case Nil
  then show ?thesis by (metis dropWhile_eq_Nil_conv less_irrefl list.simps(4))
next
  case (Cons y ys)
  have "set xs = set (takeWhile (\<lambda>x. cmp v x > 0) xs) \<union> set (y # ys)"
    using Cons by (metis set_append takeWhile_dropWhile_id)
  then show ?thesis using Cons dropWhile_strict [OF assms Cons] by (fastforce dest: set_takeWhileD)
qed

lemma nodup_insert_by:
  assumes "strict_by cmp xs" "\<forall>x \<in> set xs. cmp v x \<noteq> 0"
  shows "takeWhile (\<lambda>x. cmp v x > 0) xs @ v # dropWhile (\<lambda>x. cmp v x > 0) xs = insert_by cmp v xs"
    "strict_by cmp (insert_by cmp v xs)"
proof -
  have e: "cmp v x > 0 \<longleftrightarrow> \<not> cmp v x < 0" if "x \<in> set xs" for x using assms(2) that by force
  then show i: "takeWhile (\<lambda>x. cmp v x > 0) xs @ v # dropWhile (\<lambda>x. cmp v x > 0) xs = insert_by cmp v xs"
    unfolding insert_by_def by (metis (no_types, lifting) dropWhile_cong takeWhile_cong)
  let ?P = "\<lambda>x. \<not> cmp v x < 0"
  have s: "strict_by cmp (takeWhile ?P xs @ dropWhile ?P xs)" using assms by simp
  have "\<forall>x \<in> set (takeWhile ?P xs). cmp x v < 0"
  proof
    fix x assume "x \<in> set (takeWhile ?P xs)"
    then have x: "x \<in> set xs" "\<not> cmp v x < 0" by (auto dest: set_takeWhileD)
    then have "cmp v x \<noteq> 0" using assms(2) by simp
    then show "cmp x v < 0" using x(2) cmp_anti [of x v] by linarith
  qed
  moreover have "\<forall>y \<in> set (dropWhile ?P xs). cmp v y < 0"
    using dropWhile_above [OF strict_sorted [OF assms(1)], of _ v] by blast
  ultimately show "strict_by cmp (insert_by cmp v xs)"
    using s unfolding insert_by_def strict_by_def by (intro sorted_wrt_mid)
qed

lemma insert_by_mset: "mset (insert_by cmp v xs) = add_mset v (mset xs)"
  unfolding insert_by_def by (metis mset_append mset.simps(2) takeWhile_dropWhile_id union_mset_add_mset_right)

end

end
