(* ===== verification/Ringbuf.thy ===== *)
theory Ringbuf
  imports Interfaces
begin

text \<open>
  The circular byte buffer of \<^verbatim>\<open>src/container/ringbuf.c\<close>. The record is \<open>struct ringbuf\<close>;
  \<open>start\<close> and \<open>end\<close> are \<open>ssize_t\<close>, \<open>size\<close> is \<open>size_t\<close>. The operations that copy return
  \<open>None\<close> where a \<open>memcpy\<close> would leave an array. The buffer is shown to be a bounded FIFO
  of bytes: \<open>rb_content\<close> is the sequence of readable bytes, and every operation is
  described by what it does to that sequence.
\<close>

section \<open>Model\<close>

record ringbuf =
  rb_size :: nat
  rb_start :: int
  rb_end :: int
  rb_empty :: bool
  rb_data :: "u8 list"

definition ringbuf_new :: "nat \<Rightarrow> ringbuf" where
  "ringbuf_new sz =
     \<lparr>rb_size = sz, rb_start = 0, rb_end = 0, rb_empty = True, rb_data = replicate sz 0\<rparr>"

definition ringbuf_remain :: "ringbuf \<Rightarrow> nat" where
  "ringbuf_remain buf =
     (let diff0 = to_ssize (rb_end buf - rb_start buf);
          diff1 = to_ssize (diff0 + (if diff0 = 0 \<and> \<not> rb_empty buf then int (rb_size buf) else 0));
          diff2 = to_ssize (diff1 + (if diff1 < 0 then int (rb_size buf) else 0))
      in to_size diff2)"

definition ringbuf_space :: "ringbuf \<Rightarrow> nat" where
  "ringbuf_space buf = to_size (int (rb_size buf) - int (ringbuf_remain buf))"

definition ringbuf_put :: "ringbuf \<Rightarrow> u8 list \<Rightarrow> nat \<Rightarrow> (nat \<times> ringbuf) option" where
  "ringbuf_put buf dp sz =
     (let space = ringbuf_space buf;
          copysize = min sz space;
          ts = to_size (int (rb_size buf) - rb_end buf) in
      do {
        (data1, end1, tocopy, off) \<leftarrow>
          (if copysize \<ge> ts
           then do { d \<leftarrow> mem_copy (rb_data buf) (nat (rb_end buf)) dp 0 ts;
                     Some (d, 0, copysize - ts, ts) }
           else Some (rb_data buf, rb_end buf, copysize, 0));
        data2 \<leftarrow> mem_copy data1 (nat end1) dp off tocopy;
        let end2 = end1 + int tocopy in
        Some (copysize,
          buf\<lparr>rb_data := data2, rb_end := end2,
              rb_empty := (rb_start buf = end2 \<and> rb_empty buf \<and> copysize = 0)\<rparr>)
      })"

text \<open>
  The destination of \<open>get\<close> and \<open>peek\<close> is the caller's array; the result is the number of
  bytes copied, the array afterwards and, for \<open>get\<close>, the buffer.
\<close>

definition ringbuf_get :: "ringbuf \<Rightarrow> u8 list \<Rightarrow> nat \<Rightarrow> (nat \<times> u8 list \<times> ringbuf) option" where
  "ringbuf_get buf dp sz =
     (let remain = ringbuf_remain buf;
          copysize = min remain sz;
          ts = to_size (int (rb_size buf) - rb_start buf) in
      do {
        (dp1, start1, tocopy, off) \<leftarrow>
          (if copysize \<ge> ts
           then do { d \<leftarrow> mem_copy dp 0 (rb_data buf) (nat (rb_start buf)) ts;
                     Some (d, 0, copysize - ts, ts) }
           else Some (dp, rb_start buf, copysize, 0));
        dp2 \<leftarrow> mem_copy dp1 off (rb_data buf) (nat start1) tocopy;
        let start2 = start1 + int tocopy in
        Some (copysize, dp2,
          buf\<lparr>rb_start := start2,
              rb_empty := (start2 = rb_end buf \<and> (rb_empty buf \<or> copysize \<noteq> 0))\<rparr>)
      })"

definition ringbuf_peek :: "ringbuf \<Rightarrow> nat \<Rightarrow> u8 list \<Rightarrow> nat \<Rightarrow> (nat \<times> u8 list) option" where
  "ringbuf_peek buf offset dp sz =
     (let remain = ringbuf_remain buf in
      if offset \<ge> remain then Some (0, dp)
      else
        let copysize = max (min (remain - offset) sz) 0;
            cstart = to_size (rb_start buf + int offset) mod rb_size buf;
            ts = to_size (int (rb_size buf) - int cstart) in
        do {
          (dp1, cstart1, tocopy, off) \<leftarrow>
            (if copysize \<ge> ts
             then do { d \<leftarrow> mem_copy dp 0 (rb_data buf) cstart ts;
                       Some (d, 0, copysize - ts, ts) }
             else Some (dp, cstart, copysize, 0));
          dp2 \<leftarrow> mem_copy dp1 off (rb_data buf) cstart1 tocopy;
          Some (copysize, dp2)
        })"

definition ringbuf_copy :: "ringbuf \<Rightarrow> ringbuf \<Rightarrow> nat \<Rightarrow> (nat \<times> ringbuf) option" where
  "ringbuf_copy to from sz =
     (let tocopy = min (ringbuf_space to) sz in
      do {
        (tocopy', cbuf) \<leftarrow> ringbuf_peek from 0 (replicate tocopy 0) tocopy;
        ringbuf_put to cbuf tocopy'
      })"

definition ringbuf_reset :: "ringbuf \<Rightarrow> ringbuf" where
  "ringbuf_reset buf = buf\<lparr>rb_start := 0, rb_end := 0, rb_empty := True\<rparr>"

definition ringbuf_wipe :: "ringbuf \<Rightarrow> ringbuf option" where
  "ringbuf_wipe buf =
     do { d \<leftarrow> mem_set (rb_data buf) 0 0 (rb_size buf);
          Some (ringbuf_reset (buf\<lparr>rb_data := d\<rparr>)) }"

section \<open>Invariant and abstraction\<close>

text \<open>The cursors stay inside the array, or the buffer has no storage at all.\<close>

definition rb_inv :: "ringbuf \<Rightarrow> bool" where
  "rb_inv b \<longleftrightarrow>
     rb_size b < 2 ^ 63 \<and> length (rb_data b) = rb_size b \<and>
     0 \<le> rb_start b \<and> 0 \<le> rb_end b \<and>
     (if rb_size b = 0 then rb_start b = 0 \<and> rb_end b = 0 \<and> rb_empty b
      else rb_start b < int (rb_size b) \<and> rb_end b < int (rb_size b)) \<and>
     (rb_empty b \<longrightarrow> rb_start b = rb_end b)"

definition rb_rot :: "ringbuf \<Rightarrow> u8 list" where
  "rb_rot b = drop (nat (rb_start b)) (rb_data b) @ take (nat (rb_start b)) (rb_data b)"

definition rb_content :: "ringbuf \<Rightarrow> u8 list" where
  "rb_content b = take (ringbuf_remain b) (rb_rot b)"

text \<open>
  The two shapes of a non-degenerate buffer: the readable bytes are one run \<open>C\<close> with the
  used-up prefix \<open>A\<close> before and the free suffix \<open>F\<close> behind, or they wrap around as
  \<open>C1 @ C2\<close> with the free run \<open>F\<close> in the middle of the array.
\<close>

definition rb_lin :: "ringbuf \<Rightarrow> u8 list \<Rightarrow> u8 list \<Rightarrow> u8 list \<Rightarrow> bool" where
  "rb_lin b A C F \<longleftrightarrow>
     rb_data b = A @ C @ F \<and> rb_size b = length (A @ C @ F) \<and> rb_size b < 2 ^ 63 \<and>
     rb_start b = int (length A) \<and> rb_end b = int (length A + length C) \<and>
     F \<noteq> [] \<and> (rb_empty b \<longleftrightarrow> C = [])"

definition rb_wrap :: "ringbuf \<Rightarrow> u8 list \<Rightarrow> u8 list \<Rightarrow> u8 list \<Rightarrow> bool" where
  "rb_wrap b C2 F C1 \<longleftrightarrow>
     rb_data b = C2 @ F @ C1 \<and> rb_size b = length (C2 @ F @ C1) \<and> rb_size b < 2 ^ 63 \<and>
     rb_start b = int (length C2 + length F) \<and> rb_end b = int (length C2) \<and>
     C1 \<noteq> [] \<and> \<not> rb_empty b"

section \<open>Correctness\<close>

lemma rb_remain_eq:
  assumes "rb_inv b" and s: "rb_start b = int s" and e: "rb_end b = int e"
  shows "ringbuf_remain b =
    (if rb_empty b then 0 else if s < e then e - s else rb_size b + e - s)"
proof -
  have b: "rb_size b < 2 ^ 63" "s \<le> rb_size b" "e \<le> rb_size b" "rb_empty b \<longrightarrow> s = e"
    using assms by (auto simp: rb_inv_def split: if_splits)
  then have d: "to_ssize (int e - int s) = int e - int s"
    by (simp add: to_ssize_id)
  consider "rb_empty b" | "\<not> rb_empty b" "s < e" | "\<not> rb_empty b" "s = e"
    | "\<not> rb_empty b" "e < s" by linarith
  then show ?thesis
    using b d s e by cases (simp_all add: ringbuf_remain_def Let_def to_ssize_id to_size_id)
qed

lemma rb_lin_facts:
  assumes "rb_lin b A C F"
  shows "rb_inv b" "ringbuf_remain b = length C" "rb_content b = C"
proof -
  show inv: "rb_inv b" using assms by (cases F) (auto simp: rb_lin_def rb_inv_def)
  show rem: "ringbuf_remain b = length C"
    using assms rb_remain_eq [OF inv, of "length A" "length A + length C"]
    by (auto simp: rb_lin_def)
  show "rb_content b = C"
    using assms rem by (simp add: rb_lin_def rb_content_def rb_rot_def)
qed

lemma rb_wrap_facts:
  assumes "rb_wrap b C2 F C1"
  shows "rb_inv b" "ringbuf_remain b = length C1 + length C2" "rb_content b = C1 @ C2"
proof -
  show inv: "rb_inv b" using assms by (cases C1) (auto simp: rb_wrap_def rb_inv_def)
  show rem: "ringbuf_remain b = length C1 + length C2"
    using assms rb_remain_eq [OF inv, of "length C2 + length F" "length C2"]
    by (auto simp: rb_wrap_def)
  show "rb_content b = C1 @ C2"
    using assms rem by (simp add: rb_wrap_def rb_content_def rb_rot_def nat_int_add)
qed

lemma rb_inv_cases:
  assumes inv: "rb_inv b"
  obtains (zero) "rb_size b = 0" "rb_data b = []" "rb_start b = 0" "rb_end b = 0" "rb_empty b"
    | (lin) A C F where "rb_lin b A C F"
    | (wrap) C2 F C1 where "rb_wrap b C2 F C1"
proof (cases "rb_size b = 0")
  case True
  with inv zero show thesis by (simp add: rb_inv_def)
next
  case False
  define s e D where sed: "s = nat (rb_start b)" "e = nat (rb_end b)" "D = rb_data b"
  have b: "rb_size b < 2 ^ 63" "length D = rb_size b" "s < rb_size b" "e < rb_size b"
    "rb_start b = int s" "rb_end b = int e" "rb_empty b \<longrightarrow> s = e"
    using inv False by (auto simp: rb_inv_def sed)
  show thesis
  proof (cases "rb_empty b \<or> s < e")
    case True
    then have "s \<le> e" using b by auto
    then have "rb_lin b (take s D) (drop s (take e D)) (drop e D)"
      using b True take_split3 [of s e D] by (auto simp: rb_lin_def sed(3) [symmetric])
    then show thesis by (rule lin)
  next
    case False
    then have "rb_wrap b (take e D) (drop e (take s D)) (drop s D)"
      using b take_split3 [of e s D] by (auto simp: rb_wrap_def sed(3) [symmetric])
    then show thesis by (rule wrap)
  qed
qed

lemma rb_zero_facts:
  assumes "rb_inv b" "rb_size b = 0"
  shows "ringbuf_remain b = 0" "rb_content b = []"
  using assms rb_remain_eq [OF assms(1), of 0 0] by (auto simp: rb_inv_def rb_content_def)

lemma rb_remain_content: "rb_inv b \<Longrightarrow> ringbuf_remain b = length (rb_content b)"
  by (cases b rule: rb_inv_cases) (auto simp: rb_zero_facts rb_lin_facts rb_wrap_facts)

lemma rb_content_le: "rb_inv b \<Longrightarrow> length (rb_content b) \<le> rb_size b"
  by (cases b rule: rb_inv_cases)
     (auto simp: rb_zero_facts rb_lin_facts rb_wrap_facts, simp_all add: rb_lin_def rb_wrap_def)

lemma rb_space_eq: "rb_inv b \<Longrightarrow> ringbuf_space b = rb_size b - length (rb_content b)"
  using rb_content_le [of b]
  by (simp add: ringbuf_space_def rb_remain_content rb_inv_def to_size_id of_nat_diff)

lemma ringbuf_put_lin:
  assumes lin: "rb_lin b A C F" and n: "n \<le> length dp"
  defines "k \<equiv> min n (length A + length F)"
  shows "\<exists>b'. ringbuf_put b dp n = Some (k, b') \<and> rb_size b' = rb_size b \<and>
    (if k < length F then rb_lin b' A (C @ take k dp) (drop k F)
     else rb_wrap b' (take (k - length F) (drop (length F) dp)) (drop (k - length F) A)
            (C @ take (length F) dp))"
proof -
  have cs: "min n (ringbuf_space b) = k"
    using rb_space_eq [of b] rb_lin_facts [OF lin] lin by (simp add: rb_lin_def k_def)
  have ts: "to_size (int (rb_size b) - rb_end b) = length F"
    using lin by (simp add: rb_lin_def to_size_id)
  have kn: "k \<le> length dp" "k \<le> length A + length F" using n by (auto simp: k_def)
  note put = ringbuf_put_def [of b dp n, unfolded Let_def cs ts]
  show ?thesis
  proof (cases "k < length F")
    case True
    then show ?thesis using lin kn
      by (auto simp: put rb_lin_def mem_copy_Some nat_int_add)
  next
    case False
    then show ?thesis using lin kn
      by (cases F) (auto simp: put rb_lin_def rb_wrap_def mem_copy_Some nat_int_add)
  qed
qed

lemma ringbuf_put_wrap:
  assumes wrap: "rb_wrap b C2 F C1" and n: "n \<le> length dp"
  defines "k \<equiv> min n (length F)"
  shows "\<exists>b'. ringbuf_put b dp n = Some (k, b') \<and> rb_size b' = rb_size b \<and>
    rb_wrap b' (C2 @ take k dp) (drop k F) C1"
proof -
  have cs: "min n (ringbuf_space b) = k"
    using rb_space_eq [of b] rb_wrap_facts [OF wrap] wrap by (simp add: rb_wrap_def k_def)
  have ts: "to_size (int (rb_size b) - rb_end b) = length F + length C1"
    using wrap by (simp add: rb_wrap_def to_size_id)
  have kn: "k \<le> length dp" "k \<le> length F" "\<not> k \<ge> length F + length C1"
    using n wrap by (auto simp: k_def rb_wrap_def)
  note put = ringbuf_put_def [of b dp n, unfolded Let_def cs ts]
  show ?thesis using wrap kn by (auto simp: put rb_wrap_def mem_copy_Some nat_int_add)
qed

lemma ringbuf_put_zero:
  assumes inv: "rb_inv b" and z: "rb_size b = 0"
  shows "ringbuf_put b dp n = Some (0, b)"
proof -
  have "ringbuf_space b = 0" using rb_space_eq [OF inv] z by simp
  with inv z show ?thesis by (simp add: ringbuf_put_def rb_inv_def to_size_def)
qed

text \<open>The three operations that move bytes, on the sequence of readable bytes.\<close>

lemma ringbuf_put_content:
  assumes inv: "rb_inv b" and n: "n \<le> length dp"
  defines "k \<equiv> min n (rb_size b - length (rb_content b))"
  shows "\<exists>b'. ringbuf_put b dp n = Some (k, b') \<and> rb_inv b' \<and> rb_size b' = rb_size b \<and>
    rb_content b' = rb_content b @ take k dp"
  using inv
proof (cases b rule: rb_inv_cases)
  case zero
  then show ?thesis using inv ringbuf_put_zero [OF inv] by (simp add: k_def rb_zero_facts)
next
  case (lin A C F)
  have k: "k = min n (length A + length F)"
    using lin rb_lin_facts [OF lin] by (simp add: k_def rb_lin_def)
  obtain b' where b': "ringbuf_put b dp n = Some (k, b')" "rb_size b' = rb_size b"
    "if k < length F then rb_lin b' A (C @ take k dp) (drop k F)
     else rb_wrap b' (take (k - length F) (drop (length F) dp)) (drop (k - length F) A)
            (C @ take (length F) dp)"
    using ringbuf_put_lin [OF lin n] k by auto
  show ?thesis
  proof (cases "k < length F")
    case True
    with b' show ?thesis using rb_lin_facts rb_lin_facts [OF lin] by auto
  next
    case False
    then have "take (length F) dp @ take (k - length F) (drop (length F) dp) = take k dp"
      by (simp flip: take_add)
    with False b' show ?thesis using rb_wrap_facts rb_lin_facts [OF lin] by auto
  qed
next
  case (wrap C2 F C1)
  have k: "k = min n (length F)"
    using wrap rb_wrap_facts [OF wrap] by (simp add: k_def rb_wrap_def)
  show ?thesis
    using ringbuf_put_wrap [OF wrap n] rb_wrap_facts rb_wrap_facts [OF wrap] k by auto
qed

lemma ringbuf_get_lin:
  assumes lin: "rb_lin b A C F" and n: "min (length C) n \<le> length dp"
  defines "k \<equiv> min (length C) n"
  shows "\<exists>b'. ringbuf_get b dp n = Some (k, take k C @ drop k dp, b') \<and>
    rb_size b' = rb_size b \<and> rb_lin b' (A @ take k C) (drop k C) F"
proof -
  have cs: "min (ringbuf_remain b) n = k" using rb_lin_facts [OF lin] by (simp add: k_def)
  have ts: "to_size (int (rb_size b) - rb_start b) = length C + length F"
    using lin by (simp add: rb_lin_def to_size_id)
  have kn: "k \<le> length dp" "k \<le> length C" "\<not> k \<ge> length C + length F"
    using n lin by (auto simp: k_def rb_lin_def)
  note get = ringbuf_get_def [of b dp n, unfolded Let_def cs ts]
  show ?thesis using lin kn by (auto simp: get rb_lin_def mem_copy_Some nat_int_add)
qed

lemma ringbuf_get_wrap:
  assumes wrap: "rb_wrap b C2 F C1" and n: "min (length C1 + length C2) n \<le> length dp"
  defines "k \<equiv> min (length C1 + length C2) n"
  shows "\<exists>b'. ringbuf_get b dp n = Some (k, take k (C1 @ C2) @ drop k dp, b') \<and>
    rb_size b' = rb_size b \<and>
    (if k < length C1 then rb_wrap b' C2 (F @ take k C1) (drop k C1)
     else rb_lin b' (take (k - length C1) C2) (drop (k - length C1) C2) (F @ C1))"
proof -
  have cs: "min (ringbuf_remain b) n = k" using rb_wrap_facts [OF wrap] by (simp add: k_def)
  have ts: "to_size (int (rb_size b) - rb_start b) = length C1"
    using wrap by (simp add: rb_wrap_def to_size_id)
  have kn: "k \<le> length dp" "k \<le> length C1 + length C2" using n by (auto simp: k_def)
  note get = ringbuf_get_def [of b dp n, unfolded Let_def cs ts]
  show ?thesis
  proof (cases "k < length C1")
    case True
    then show ?thesis using wrap kn by (auto simp: get rb_wrap_def mem_copy_Some nat_int_add)
  next
    case False
    moreover have "0 < k" using False wrap by (cases C1) (auto simp: rb_wrap_def)
    ultimately show ?thesis using wrap kn
      by (auto simp: get rb_lin_def rb_wrap_def mem_copy_Some nat_int_add)
  qed
qed

lemma ringbuf_get_zero:
  assumes inv: "rb_inv b" and z: "rb_size b = 0"
  shows "ringbuf_get b dp n = Some (0, dp, b)"
  using inv z by (simp add: ringbuf_get_def rb_zero_facts rb_inv_def to_size_def)

lemma ringbuf_get_content:
  assumes inv: "rb_inv b"
  defines "k \<equiv> \<lambda>n. min (length (rb_content b)) n"
  assumes n: "k n \<le> length dp"
  shows "\<exists>b'. ringbuf_get b dp n = Some (k n, take (k n) (rb_content b) @ drop (k n) dp, b') \<and>
    rb_inv b' \<and> rb_size b' = rb_size b \<and> rb_content b' = drop (k n) (rb_content b)"
  using inv
proof (cases b rule: rb_inv_cases)
  case zero
  then show ?thesis using inv ringbuf_get_zero [OF inv] by (simp add: k_def rb_zero_facts)
next
  case (lin A C F)
  note c = rb_lin_facts [OF lin]
  show ?thesis using ringbuf_get_lin [OF lin, of n dp] rb_lin_facts n c by (auto simp: k_def)
next
  case (wrap C2 F C1)
  note c = rb_wrap_facts [OF wrap]
  have k: "k n = min (length C1 + length C2) n" using c by (simp add: k_def)
  obtain b' where b': "ringbuf_get b dp n = Some (k n, take (k n) (C1 @ C2) @ drop (k n) dp, b')"
    "rb_size b' = rb_size b"
    "if k n < length C1 then rb_wrap b' C2 (F @ take (k n) C1) (drop (k n) C1)
     else rb_lin b' (take (k n - length C1) C2) (drop (k n - length C1) C2) (F @ C1)"
    using ringbuf_get_wrap [OF wrap, of n dp] n unfolding k by blast
  show ?thesis
  proof (cases "k n < length C1")
    case True
    with b' have "rb_wrap b' C2 (F @ take (k n) C1) (drop (k n) C1)" by simp
    from rb_wrap_facts [OF this] True b'(1,2) c show ?thesis by simp
  next
    case False
    with b' have "rb_lin b' (take (k n - length C1) C2) (drop (k n - length C1) C2) (F @ C1)"
      by simp
    from rb_lin_facts [OF this] False b'(1,2) c show ?thesis by simp
  qed
qed

lemma ringbuf_peek_lin:
  assumes lin: "rb_lin b A C F" and off: "offset < length C"
  defines "k \<equiv> \<lambda>n. min (length C - offset) n"
  assumes n: "k n \<le> length dp"
  shows "ringbuf_peek b offset dp n = Some (k n, take (k n) (drop offset C) @ drop (k n) dp)"
proof -
  have m: "to_size (rb_start b + int offset) mod rb_size b = length A + offset"
    using lin off by (simp add: rb_lin_def to_size_id nat_int_add)
  have ts: "to_size (int (rb_size b) - int (length A + offset)) = length C - offset + length F"
    using lin off by (simp add: rb_lin_def to_size_id)
  have "\<not> k n \<ge> length C - offset + length F" using lin by (auto simp: k_def rb_lin_def)
  moreover note peek = ringbuf_peek_def [of b offset dp n, unfolded Let_def m ts]
  ultimately show ?thesis using lin off n rb_lin_facts [OF lin]
    by (auto simp: peek rb_lin_def mem_copy_Some k_def)
qed

lemma ringbuf_peek_wrap:
  assumes wrap: "rb_wrap b C2 F C1" and off: "offset < length C1 + length C2"
  defines "k \<equiv> \<lambda>n. min (length C1 + length C2 - offset) n"
  assumes n: "k n \<le> length dp"
  shows "ringbuf_peek b offset dp n =
    Some (k n, take (k n) (drop offset (C1 @ C2)) @ drop (k n) dp)"
proof -
  have K: "k n \<le> length C1 + length C2 - offset" by (simp add: k_def)
  have rem: "ringbuf_remain b = length C1 + length C2" using rb_wrap_facts [OF wrap] by simp
  have cs: "max (min (length C1 + length C2 - offset) n) 0 = k n" by (simp add: k_def)
  show ?thesis
  proof (cases "offset < length C1")
    case True
    have m: "to_size (rb_start b + int offset) mod rb_size b = length C2 + length F + offset"
      using wrap True by (simp add: rb_wrap_def to_size_id nat_int_add)
    have ts: "to_size (int (rb_size b) - int (length C2 + length F + offset)) = length C1 - offset"
      using wrap True by (simp add: rb_wrap_def to_size_id)
    note peek = ringbuf_peek_def [of b offset dp n, unfolded Let_def m ts rem cs]
    show ?thesis
      using wrap True n K
      by (cases "k n \<ge> length C1 - offset") (simp_all add: peek rb_wrap_def mem_copy_Some)
  next
    case False
    have m: "to_size (rb_start b + int offset) mod rb_size b = offset - length C1"
      using wrap False off by (simp add: rb_wrap_def to_size_id nat_int_add le_mod_geq)
    have ts: "to_size (int (rb_size b) - int (offset - length C1)) =
      rb_size b + length C1 - offset"
      using wrap False off by (simp add: rb_wrap_def to_size_id of_nat_diff)
    have "\<not> k n \<ge> rb_size b + length C1 - offset"
      using wrap off by (cases C1) (auto simp: k_def rb_wrap_def)
    moreover note peek = ringbuf_peek_def [of b offset dp n, unfolded Let_def m ts rem cs]
    ultimately show ?thesis using wrap False off n K
      by (simp add: peek rb_wrap_def mem_copy_Some)
  qed
qed

lemma ringbuf_peek_content:
  assumes inv: "rb_inv b" and off: "offset < length (rb_content b)"
  defines "k \<equiv> \<lambda>n. min (length (rb_content b) - offset) n"
  assumes n: "k n \<le> length dp"
  shows "ringbuf_peek b offset dp n =
    Some (k n, take (k n) (drop offset (rb_content b)) @ drop (k n) dp)"
  using inv
proof (cases b rule: rb_inv_cases)
  case zero
  then show ?thesis using inv off by (simp add: rb_zero_facts)
next
  case (lin A C F)
  then show ?thesis using ringbuf_peek_lin [OF lin] rb_lin_facts [OF lin] off n
    by (simp add: k_def)
next
  case (wrap C2 F C1)
  then show ?thesis using ringbuf_peek_wrap [OF wrap] rb_wrap_facts [OF wrap] off n
    by (simp add: k_def)
qed

lemma ringbuf_peek_beyond:
  "rb_inv b \<Longrightarrow> length (rb_content b) \<le> offset \<Longrightarrow> ringbuf_peek b offset dp n = Some (0, dp)"
  by (simp add: ringbuf_peek_def rb_remain_content)

lemma ringbuf_copy_content:
  assumes "rb_inv to" "rb_inv from"
  defines "k \<equiv> \<lambda>n. min (min (rb_size to - length (rb_content to)) n) (length (rb_content from))"
  shows "\<exists>to'. ringbuf_copy to from n = Some (k n, to') \<and> rb_inv to' \<and> rb_size to' = rb_size to \<and>
    rb_content to' = rb_content to @ take (k n) (rb_content from)"
proof -
  let ?c = "rb_content from"
  define m where "m = min (rb_size to - length (rb_content to)) n"
  have k: "k n = min (length ?c) m" by (simp add: k_def m_def)
  have pk: "ringbuf_peek from 0 (replicate m 0) m =
    Some (k n, take (k n) ?c @ replicate (m - k n) 0)"
  proof (cases "?c = []")
    case True
    then show ?thesis using assms(1,2) ringbuf_peek_beyond [of "from" 0] by (simp add: k)
  next
    case False
    then show ?thesis using assms(1,2) ringbuf_peek_content [of "from" 0 m "replicate m 0"]
      by (simp add: k)
  qed
  have "k n \<le> length (take (k n) ?c @ replicate (m - k n) (0::u8))" by (simp add: k)
  from ringbuf_put_content [OF assms(1) this]
  obtain to' where to': "ringbuf_put to (take (k n) ?c @ replicate (m - k n) 0) (k n) =
      Some (min (k n) (rb_size to - length (rb_content to)), to')" "rb_inv to'"
    "rb_size to' = rb_size to"
    "rb_content to' = rb_content to @ take (min (k n) (rb_size to - length (rb_content to)))
       (take (k n) ?c @ replicate (m - k n) 0)"
    by blast
  have "min (k n) (rb_size to - length (rb_content to)) = k n" by (auto simp: k m_def)
  with to' pk assms(1) show ?thesis
    by (simp add: ringbuf_copy_def rb_space_eq Let_def m_def [symmetric] k)
qed

lemma ringbuf_new_content: "sz < 2 ^ 63 \<Longrightarrow> rb_inv (ringbuf_new sz) \<and> rb_content (ringbuf_new sz) = []"
proof
  assume "sz < 2 ^ 63"
  then show inv: "rb_inv (ringbuf_new sz)" by (simp add: rb_inv_def ringbuf_new_def)
  then show "rb_content (ringbuf_new sz) = []"
    using rb_remain_eq [OF inv, of 0 0] rb_remain_content [OF inv] by (simp add: ringbuf_new_def)
qed

lemma ringbuf_new_size [simp]: "rb_size (ringbuf_new sz) = sz"
  by (simp add: ringbuf_new_def)

lemma ringbuf_reset_content: "rb_inv b \<Longrightarrow> rb_inv (ringbuf_reset b) \<and> rb_content (ringbuf_reset b) = []"
proof
  assume "rb_inv b"
  then show inv: "rb_inv (ringbuf_reset b)" by (auto simp: rb_inv_def ringbuf_reset_def)
  then show "rb_content (ringbuf_reset b) = []"
    using rb_remain_eq [OF inv, of 0 0] rb_remain_content [OF inv] by (simp add: ringbuf_reset_def)
qed

lemma ringbuf_wipe_content:
  assumes "rb_inv b"
  shows "\<exists>b'. ringbuf_wipe b = Some b' \<and> rb_inv b' \<and> rb_content b' = [] \<and>
    rb_data b' = replicate (rb_size b) 0"
proof -
  have "rb_inv (b\<lparr>rb_data := replicate (rb_size b) 0\<rparr>)" using assms by (simp add: rb_inv_def)
  from ringbuf_reset_content [OF this] assms show ?thesis
    by (auto simp: ringbuf_wipe_def mem_set_Some rb_inv_def) (simp_all add: ringbuf_reset_def)
qed

section \<open>The ring buffer as a bounded FIFO\<close>

interpretation rb: bounded_fifo ringbuf_put ringbuf_get rb_size rb_content rb_inv
proof unfold_locales
  fix b :: ringbuf
  assume "rb_inv b" then show "length (rb_content b) \<le> rb_size b" by (rule rb_content_le)
next
  fix b :: ringbuf and xs :: "u8 list" and n
  assume "rb_inv b" "n \<le> length xs"
  from ringbuf_put_content [OF this]
  show "\<exists>b'. ringbuf_put b xs n = Some (min n (rb_size b - length (rb_content b)), b') \<and> rb_inv b' \<and>
      rb_size b' = rb_size b \<and>
      rb_content b' = rb_content b @ take (min n (rb_size b - length (rb_content b))) xs" .
next
  fix b :: ringbuf and dp :: "u8 list" and n
  assume "rb_inv b" "n \<le> length dp"
  then show "\<exists>b'. ringbuf_get b dp n =
      Some (min (length (rb_content b)) n,
        take (min (length (rb_content b)) n) (rb_content b) @ drop (min (length (rb_content b)) n) dp, b') \<and>
      rb_inv b' \<and> rb_size b' = rb_size b \<and>
      rb_content b' = drop (min (length (rb_content b)) n) (rb_content b)"
    using ringbuf_get_content [of b n dp] by simp
qed

end
