(* ===== verification/Vector.thy ===== *)
theory Vector
  imports Interfaces "HOL-Library.Multiset"
begin

text \<open>
  The pointer vector of \<^verbatim>\<open>src/container/vector.c\<close>. A slot is an \<open>'a option\<close>: \<open>None\<close> is the
  \<open>NULL\<close> pointer. The three counters are \<open>unsigned int\<close>; the places where the code
  increments, decrements or doubles them wrap around at 32 bits. A step outside the
  allocated slots, and a call that never returns, are \<open>None\<close>.
\<close>

section \<open>Model\<close>

record 'a vector =
  active :: nat
  alloced :: nat
  count :: nat
  index :: "'a option list"

definition u_inc :: "nat \<Rightarrow> nat" where "u_inc x = to_uint (int x + 1)"

definition u_dec :: "nat \<Rightarrow> nat" where "u_dec x = to_uint (int x - 1)"

definition VECTOR_MIN_SIZE :: nat where "VECTOR_MIN_SIZE = 1"

definition vector_init :: "nat \<Rightarrow> 'a vector" where
  "vector_init sz =
     (let sz' = (if sz = 0 then 1 else sz)
      in \<lparr>active = 0, alloced = sz', count = 0, index = replicate sz' None\<rparr>)"

definition vector_copy :: "'a vector \<Rightarrow> 'a vector option" where
  "vector_copy v =
     do { idx \<leftarrow> mem_copy (replicate (alloced v) None) 0 (index v) 0 (alloced v);
          Some \<lparr>active = active v, alloced = alloced v, count = count v, index = idx\<rparr> }"

text \<open>\<open>realloc\<close>: the old slots up to the new size; the rest is written before it is read.\<close>

definition vector_realloc :: "'a option list \<Rightarrow> nat \<Rightarrow> 'a option list" where
  "vector_realloc xs n = take n xs @ replicate (n - length xs) None"

partial_function (option) vector_ensure :: "'a vector \<Rightarrow> nat \<Rightarrow> 'a vector option" where
  "vector_ensure v num =
     (if alloced v > num then Some v
      else do {
        let n2 = to_uint (int (alloced v) * 2);
        idx \<leftarrow> mem_set (vector_realloc (index v) n2) (alloced v) None (alloced v);
        let v' = v\<lparr>index := idx, alloced := n2\<rparr>;
        (if alloced v' \<le> num then vector_ensure v' num else Some v')
      })"

declare vector_ensure.simps [code]

fun first_null :: "'a option list \<Rightarrow> nat \<Rightarrow> nat" where
  "first_null [] i = i"
| "first_null (x # xs) i = (if x = None then i else first_null xs (Suc i))"

definition vector_empty_slot :: "'a vector \<Rightarrow> nat option" where
  "vector_empty_slot v =
     (if active v = count v then Some (active v)
      else if active v = 0 then Some 0
      else if active v \<le> length (index v) then Some (first_null (take (active v) (index v)) 0)
      else None)"

text \<open>The common tail of \<open>vector_set\<close> and \<open>vector_set_index\<close>.\<close>

definition vector_store :: "'a vector \<Rightarrow> nat \<Rightarrow> 'a option \<Rightarrow> 'a vector option" where
  "vector_store v i val =
     do {
       old \<leftarrow> mem_read (index v) i;
       let c1 = (if old \<noteq> None then u_dec (count v) else count v);
       let c2 = (if val \<noteq> None then u_inc c1 else c1);
       idx \<leftarrow> mem_write (index v) i val;
       Some (v\<lparr>count := c2, index := idx,
               active := (if active v \<le> i then u_inc i else active v)\<rparr>)
     }"

definition vector_set :: "'a vector \<Rightarrow> 'a option \<Rightarrow> (nat \<times> 'a vector) option" where
  "vector_set v val =
     do { i \<leftarrow> vector_empty_slot v; v1 \<leftarrow> vector_ensure v i;
          v2 \<leftarrow> vector_store v1 i val; Some (i, v2) }"

definition vector_set_index :: "'a vector \<Rightarrow> nat \<Rightarrow> 'a option \<Rightarrow> (nat \<times> 'a vector) option" where
  "vector_set_index v i val =
     do { v1 \<leftarrow> vector_ensure v i; v2 \<leftarrow> vector_store v1 i val; Some (i, v2) }"

definition vector_insert :: "'a vector \<Rightarrow> nat \<Rightarrow> 'a option \<Rightarrow> (int \<times> 'a vector) option" where
  "vector_insert v i val =
     (if i > active v then Some (- 1, v)
      else do {
        v1 \<leftarrow> vector_ensure v (active v);
        idx1 \<leftarrow> mem_move (index v1) (i + 1) i (active v1 - i);
        let c = (if val \<noteq> None then u_inc (count v1) else count v1);
        idx2 \<leftarrow> mem_write idx1 i val;
        let a = u_inc (active v1);
        Some (int i, v1\<lparr>count := c, index := idx2, active := (if a \<le> i then u_inc i else a)\<rparr>)
      })"

definition vector_get :: "'a vector \<Rightarrow> nat \<Rightarrow> 'a option option" where
  "vector_get v i = (if i \<ge> active v then Some None else mem_read (index v) i)"

definition vector_get_ensure :: "'a vector \<Rightarrow> nat \<Rightarrow> ('a option \<times> 'a vector) option" where
  "vector_get_ensure v i =
     do { v1 \<leftarrow> vector_ensure v i; x \<leftarrow> mem_read (index v1) i; Some (x, v1) }"

text \<open>\<open>while (i && v->index[--i] == NULL && v->active--)\<close>: the new value of \<open>active\<close>.\<close>

fun unset_trim :: "nat \<Rightarrow> 'a option list \<Rightarrow> nat \<Rightarrow> nat option" where
  "unset_trim 0 idx act = Some act"
| "unset_trim (Suc i) idx act =
     do { x \<leftarrow> mem_read idx i;
          (if x = None
           then (if act \<noteq> 0 then unset_trim i idx (u_dec act) else Some (u_dec act))
           else Some act) }"

definition vector_unset :: "'a vector \<Rightarrow> nat \<Rightarrow> 'a vector option" where
  "vector_unset v i =
     (if i \<ge> alloced v then Some v
      else do {
        old \<leftarrow> mem_read (index v) i;
        let c = (if old \<noteq> None then u_dec (count v) else count v);
        idx \<leftarrow> mem_write (index v) i None;
        act \<leftarrow> (if u_inc i = active v then unset_trim i idx (u_dec (active v)) else Some (active v));
        Some (v\<lparr>count := c, index := idx, active := act\<rparr>)
      })"

definition vector_remove :: "'a vector \<Rightarrow> nat \<Rightarrow> 'a vector option" where
  "vector_remove v ix =
     (if ix \<ge> active v then Some v
      else do {
        old \<leftarrow> mem_read (index v) ix;
        let c = (if old \<noteq> None then u_dec (count v) else count v);
        let a = u_dec (active v);
        idx1 \<leftarrow> mem_move (index v) ix (ix + 1) (a - ix);
        idx2 \<leftarrow> mem_write idx1 a None;
        Some (v\<lparr>count := c, active := a, index := idx2\<rparr>)
      })"

text \<open>
  The loop of \<open>vector_compact\<close>: a removal steps \<open>i\<close> back and the loop header steps it
  forward again, so the same index is looked at next.
\<close>

partial_function (option) compact_loop :: "nat \<Rightarrow> 'a vector \<Rightarrow> 'a vector option" where
  "compact_loop i v =
     (if i < active v
      then do { x \<leftarrow> mem_read (index v) i;
                (if x = None
                 then do { v' \<leftarrow> vector_remove v i; compact_loop i v' }
                 else compact_loop (i + 1) v) }
      else Some v)"

declare compact_loop.simps [code]

definition vector_compact :: "'a vector \<Rightarrow> 'a vector option" where
  "vector_compact v = compact_loop 0 v"

text \<open>\<open>vector_unset_value\<close>: the search, then \<open>do active--; while (i && index[--i] == NULL)\<close>.\<close>

fun find_val :: "'a option list \<Rightarrow> 'a option \<Rightarrow> nat \<Rightarrow> nat" where
  "find_val [] val i = i"
| "find_val (x # xs) val i = (if x = val then i else find_val xs val (Suc i))"

fun unset_value_trim :: "nat \<Rightarrow> 'a option list \<Rightarrow> nat \<Rightarrow> nat option" where
  "unset_value_trim 0 idx act = Some (u_dec act)"
| "unset_value_trim (Suc i) idx act =
     do { x \<leftarrow> mem_read idx i;
          (if x = None then unset_value_trim i idx (u_dec act) else Some (u_dec act)) }"

definition vector_unset_value :: "'a vector \<Rightarrow> 'a option \<Rightarrow> 'a vector option" where
  "vector_unset_value v val =
     (if active v > length (index v) then None
      else do {
        let i = find_val (take (active v) (index v)) val 0;
        let v1 = (if i < active v
                  then v\<lparr>index := (index v)[i := None], count := u_dec (count v)\<rparr> else v);
        act \<leftarrow> (if i + 1 = active v1 then unset_value_trim i (index v1) (active v1)
                else Some (active v1));
        Some (v1\<lparr>active := act\<rparr>)
      })"

definition vector_to_array :: "'a vector \<Rightarrow> ('a option list \<times> nat) option" where
  "vector_to_array v =
     do { dest \<leftarrow> mem_copy (replicate (active v) None) 0 (index v) 0 (active v);
          Some (dest, active v) }"

fun array_to_vector_loop :: "'a option list \<Rightarrow> nat \<Rightarrow> 'a vector \<Rightarrow> 'a vector option" where
  "array_to_vector_loop [] i v = Some v"
| "array_to_vector_loop (x # xs) i v =
     do { (_, v') \<leftarrow> vector_set_index v i x; array_to_vector_loop xs (Suc i) v' }"

definition array_to_vector :: "'a option list \<Rightarrow> 'a vector option" where
  "array_to_vector src = array_to_vector_loop src 0 (vector_init VECTOR_MIN_SIZE)"

definition vector_push :: "'a vector \<Rightarrow> 'a option \<Rightarrow> 'a vector option" where
  "vector_push v val =
     do { let idx = active v; v1 \<leftarrow> vector_ensure v idx;
          (_, v2) \<leftarrow> vector_set_index v1 idx val; Some v2 }"

definition vector_pop :: "'a vector \<Rightarrow> ('a option \<times> 'a vector) option" where
  "vector_pop v =
     do { val \<leftarrow> mem_read (index v) (u_dec (active v));
          v' \<leftarrow> vector_remove v (u_dec (active v));
          Some (val, v') }"

definition vector_swap :: "'a vector \<Rightarrow> nat \<Rightarrow> nat \<Rightarrow> 'a vector option" where
  "vector_swap v i j =
     (if active v < 2 then Some v
      else if i = j then Some v
      else do { val \<leftarrow> mem_read (index v) i; w \<leftarrow> mem_read (index v) j;
                idx1 \<leftarrow> mem_write (index v) i w; idx2 \<leftarrow> mem_write idx1 j val;
                Some (v\<lparr>index := idx2\<rparr>) })"

fun reverse_loop :: "nat \<Rightarrow> 'a vector \<Rightarrow> 'a vector option" where
  "reverse_loop 0 v = Some v"
| "reverse_loop (Suc c) v =
     do { v' \<leftarrow> vector_swap v c (active v - (c + 1)); reverse_loop c v' }"

definition vector_reverse :: "'a vector \<Rightarrow> 'a vector option" where
  "vector_reverse v = reverse_loop (active v div 2) v"

text \<open>
  \<open>vector_find\<close> with the comparison \<open>eq\<close> (the callback, or pointer equality). When
  the vector has no active slot the loop macro never assigns \<open>i\<close> and the function reads an
  uninitialised variable: \<open>None\<close>.
\<close>

fun find_loop :: "('a option \<Rightarrow> bool) \<Rightarrow> 'a option list \<Rightarrow> nat \<Rightarrow> nat" where
  "find_loop eq [] i = i"
| "find_loop eq (x # xs) i = (if eq x then i else find_loop eq xs (Suc i))"

definition vector_find :: "'a vector \<Rightarrow> ('a option \<Rightarrow> bool) \<Rightarrow> int option" where
  "vector_find v eq =
     (if active v > 0 \<and> active v \<le> length (index v)
      then (let i = find_loop eq (take (active v) (index v)) 0
            in Some (if i = active v then - 1 else int i))
      else None)"

section \<open>Invariant and abstraction\<close>

text \<open>
  \<open>count\<close> is the number of non-\<open>NULL\<close> active slots and every allocated slot behind the
  active ones is \<open>NULL\<close>. The abstract value is the list of the active slots.
\<close>

definition vec_list :: "'a vector \<Rightarrow> 'a option list" where
  "vec_list v = take (active v) (index v)"

definition nonnull :: "'a option list \<Rightarrow> nat" where
  "nonnull xs = length (filter (\<lambda>x. x \<noteq> None) xs)"

definition vec_inv :: "'a vector \<Rightarrow> bool" where
  "vec_inv v \<longleftrightarrow>
     0 < alloced v \<and> alloced v < 2 ^ 32 \<and> length (index v) = alloced v \<and>
     active v \<le> alloced v \<and> count v = nonnull (vec_list v) \<and>
     drop (active v) (index v) = replicate (alloced v - active v) None"

section \<open>Correctness\<close>

lemma u_inc_id [cint_simps]: "x < 2 ^ 32 - 1 \<Longrightarrow> u_inc x = Suc x"
  by (simp add: u_inc_def to_uint_id nat_add_distrib)

lemma u_dec_id [cint_simps]: "0 < x \<Longrightarrow> x < 2 ^ 32 \<Longrightarrow> u_dec x = x - 1"
  by (simp add: u_dec_def to_uint_id nat_diff_distrib)

lemma nonnull_simps [simp]:
  "nonnull [] = 0" "nonnull (x # xs) = (if x = None then nonnull xs else Suc (nonnull xs))"
  "nonnull (xs @ ys) = nonnull xs + nonnull ys" "nonnull (replicate n None) = 0"
  by (simp_all add: nonnull_def)

lemma nonnull_le: "nonnull xs \<le> length xs"
  by (simp add: nonnull_def)

lemma nonnull_none: "\<forall>x \<in> set xs. x = None \<Longrightarrow> nonnull xs = 0"
  by (simp add: nonnull_def)

text \<open>The shape of a well-formed vector: active slots \<open>xs\<close>, then \<open>n\<close> times \<open>NULL\<close>.\<close>

lemma vec_invE:
  assumes "vec_inv v"
  obtains xs n where "index v = xs @ replicate n None" "active v = length xs"
    "alloced v = length xs + n" "0 < length xs + n" "length xs + n < 2 ^ 32"
    "count v = nonnull xs" "vec_list v = xs"
proof
  show "index v = vec_list v @ replicate (alloced v - active v) None"
    using assms append_take_drop_id [of "active v" "index v"]
    by (simp add: vec_inv_def vec_list_def)
qed (use assms in \<open>auto simp: vec_inv_def vec_list_def\<close>)

lemma vec_invI:
  assumes "index v = xs @ replicate n None" "active v = length xs" "alloced v = length xs + n"
    "0 < length xs + n" "length xs + n < 2 ^ 32" "count v = nonnull xs"
  shows "vec_inv v" "vec_list v = xs"
  using assms by (auto simp: vec_inv_def vec_list_def)

lemma vector_init_inv:
  "sz < 2 ^ 32 \<Longrightarrow> vec_inv (vector_init sz :: 'a vector) \<and> vec_list (vector_init sz :: 'a vector) = []"
  by (auto simp: vector_init_def vec_inv_def vec_list_def Let_def)

lemma vector_ensure_step:
  assumes "vec_inv v" "alloced v \<le> num" "num < 2 ^ 31"
  defines "v' \<equiv> v\<lparr>index := index v @ replicate (alloced v) None, alloced := 2 * alloced v\<rparr>"
  shows "vector_ensure v num = (if alloced v' \<le> num then vector_ensure v' num else Some v')"
    and "vec_inv v'"
proof -
  have n2: "to_uint (int (alloced v) * 2) = 2 * alloced v"
    using assms by (simp add: to_uint_id nat_mult_distrib)
  have len: "length (index v) = alloced v" using assms by (simp add: vec_inv_def)
  show "vector_ensure v num = (if alloced v' \<le> num then vector_ensure v' num else Some v')"
    using assms(2) by (subst vector_ensure.simps)
      (simp add: n2 Let_def vector_realloc_def len mem_set_Some v'_def)
  show "vec_inv v'"
    using assms(1-3) by (auto simp: vec_inv_def v'_def vec_list_def replicate_add [symmetric])
qed

text \<open>Growing never changes the active slots, returns, and leaves room for slot \<open>num\<close>.\<close>

lemma vector_ensure_ok:
  assumes "vec_inv v" "num < 2 ^ 31"
  shows "\<exists>v'. vector_ensure v num = Some v' \<and> vec_inv v' \<and> vec_list v' = vec_list v \<and>
    active v' = active v \<and> count v' = count v \<and> num < alloced v'"
  using assms
proof (induction "num - alloced v" arbitrary: v rule: less_induct)
  case less
  show ?case
  proof (cases "alloced v \<le> num")
    case False
    then show ?thesis using less.prems by (subst vector_ensure.simps) simp
  next
    case True
    define v' where "v' = v\<lparr>index := index v @ replicate (alloced v) None, alloced := 2 * alloced v\<rparr>"
    have step: "vector_ensure v num = (if alloced v' \<le> num then vector_ensure v' num else Some v')"
      and inv: "vec_inv v'"
      using vector_ensure_step [OF less.prems(1) True less.prems(2)] by (simp_all add: v'_def)
    have same: "vec_list v' = vec_list v" "active v' = active v" "count v' = count v"
      using less.prems(1) by (simp_all add: v'_def vec_list_def vec_inv_def)
    show ?thesis
    proof (cases "alloced v' \<le> num")
      case False
      then show ?thesis using step inv same by simp
    next
      case t: True
      have "num - alloced v' < num - alloced v"
        using less.prems(1) True t by (auto simp: v'_def vec_inv_def)
      from less.hyps [OF this inv less.prems(2)] step t same show ?thesis by auto
    qed
  qed
qed

lemma nonnull_update:
  "i < length xs \<Longrightarrow>
   nonnull (xs[i := val]) + (if xs ! i = None then 0 else 1) =
   nonnull xs + (if val = None then 0 else 1)"
proof -
  assume "i < length xs"
  then obtain ys x zs where "xs = ys @ x # zs" "length ys = i"
    by (metis id_take_nth_drop length_take min.absorb4)
  then show ?thesis by auto
qed

text \<open>Storing into slot \<open>i\<close> of the list: an update, or an extension padded with \<open>NULL\<close>.\<close>

definition list_store :: "'a option list \<Rightarrow> nat \<Rightarrow> 'a option \<Rightarrow> 'a option list" where
  "list_store xs i val =
     (if i < length xs then xs[i := val] else xs @ replicate (i - length xs) None @ [val])"

lemma count_store:
  assumes "i < length xs" "length xs < 2 ^ 32"
  shows "(let c1 = (if xs ! i \<noteq> None then u_dec (nonnull xs) else nonnull xs)
          in if val \<noteq> None then u_inc c1 else c1) = nonnull (xs[i := val])"
proof -
  have "nonnull xs \<le> length xs" "xs ! i \<noteq> None \<Longrightarrow> 0 < nonnull xs"
    "xs ! i = None \<Longrightarrow> nonnull xs < length xs"
    using nonnull_update [OF assms(1), of None] nonnull_update [OF assms(1), of "Some undefined"]
      nonnull_le [of xs] nonnull_le [of "xs[i := Some undefined]"] by auto
  with nonnull_update [OF assms(1), of val] assms(2) show ?thesis
    by (auto simp: Let_def u_dec_id u_inc_id)
qed

lemma vector_store_ok:
  assumes inv: "vec_inv v" and i: "i < alloced v"
  shows "\<exists>v'. vector_store v i val = Some v' \<and> vec_inv v' \<and>
    vec_list v' = list_store (vec_list v) i val"
proof -
  from inv obtain xs n where v: "index v = xs @ replicate n None" "active v = length xs"
    "alloced v = length xs + n" "0 < length xs + n" "length xs + n < 2 ^ 32"
    "count v = nonnull xs" "vec_list v = xs" by (rule vec_invE)
  show ?thesis
  proof (cases "i < length xs")
    case True
    define v' where "v' = v\<lparr>count := nonnull (xs[i := val]), index := xs[i := val] @ replicate n None\<rparr>"
    have "vector_store v i val = Some v'"
      using True v count_store [OF True, of val]
      by (cases v) (auto simp: vector_store_def mem_read_Some mem_write_Some nth_append
          list_update_append v'_def Let_def)
    moreover have "vec_inv v'" "vec_list v' = xs[i := val]"
      using vec_invI [of v' "xs[i := val]" n] v by (simp_all add: v'_def)
    ultimately show ?thesis using True v by (simp add: list_store_def)
  next
    case False
    let ?ys = "xs @ replicate (i - length xs) None @ [val]" and ?m = "length xs + n - Suc i"
    have split: "replicate n None = replicate (i - length xs) (None :: 'a option) @ None # replicate ?m None"
      using False i v by (simp add: replicate_add [symmetric] replicate_Suc [symmetric]
          del: replicate_Suc)
    define v' where "v' = v\<lparr>count := nonnull ?ys, index := ?ys @ replicate ?m None, active := Suc i\<rparr>"
    have "nonnull xs < 2 ^ 32 - 1" using nonnull_le [of xs] v False i by simp
    then have "vector_store v i val = Some v'"
      using False i v
      by (simp add: vector_store_def mem_read_Some mem_write_Some nth_append list_update_append
          split v'_def Let_def u_inc_id)
    moreover have "vec_inv v'" "vec_list v' = ?ys"
      using vec_invI [of v' ?ys ?m] v False i by (simp_all add: v'_def)
    ultimately show ?thesis using False v by (simp add: list_store_def)
  qed
qed

lemma vector_set_index_ok:
  assumes "vec_inv v" "i < 2 ^ 31"
  shows "\<exists>v'. vector_set_index v i val = Some (i, v') \<and> vec_inv v' \<and>
    vec_list v' = list_store (vec_list v) i val"
  using vector_ensure_ok [OF assms] vector_store_ok [of _ i val]
  by (fastforce simp: vector_set_index_def)

lemma vector_push_ok:
  assumes "vec_inv v" "active v < 2 ^ 31"
  shows "\<exists>v'. vector_push v val = Some v' \<and> vec_inv v' \<and> vec_list v' = vec_list v @ [val]"
proof -
  obtain v1 where v1: "vector_ensure v (active v) = Some v1" "vec_inv v1" "vec_list v1 = vec_list v"
    "active v1 = active v" using vector_ensure_ok [OF assms] by blast
  moreover have "length (vec_list v) = active v" using assms by (auto simp: vec_inv_def vec_list_def)
  ultimately show ?thesis
    using vector_set_index_ok [OF v1(2) assms(2), of val]
    by (auto simp: vector_push_def list_store_def)
qed

lemma first_null_eq: "first_null xs i = i + length (takeWhile (\<lambda>x. x \<noteq> None) xs)"
  by (induction xs arbitrary: i) auto

lemma nonnull_full: "nonnull xs = length xs \<longleftrightarrow> (\<forall>x \<in> set xs. x \<noteq> None)"
proof (induction xs)
  case (Cons x xs)
  then show ?case using nonnull_le [of xs] by auto
qed simp

lemma vector_empty_slot_ok:
  assumes "vec_inv v"
  shows "vector_empty_slot v = Some (length (takeWhile (\<lambda>x. x \<noteq> None) (vec_list v)))"
proof -
  have l: "length (vec_list v) = active v" "count v = nonnull (vec_list v)"
    "active v \<le> length (index v)" using assms by (auto simp: vec_inv_def vec_list_def)
  show ?thesis
  proof (cases "active v = count v")
    case True
    then have "\<forall>x \<in> set (vec_list v). x \<noteq> None" using l nonnull_full [of "vec_list v"] by simp
    then have "takeWhile (\<lambda>x. x \<noteq> None) (vec_list v) = vec_list v"
      by (rule takeWhile_eq_all_conv [THEN iffD2])
    then have "length (takeWhile (\<lambda>x. x \<noteq> None) (vec_list v)) = active v"
      unfolding l(1) [symmetric] by (rule arg_cong)
    with True show ?thesis by (simp add: vector_empty_slot_def del: not_None_eq)
  next
    case False
    then show ?thesis using l nonnull_le [of "vec_list v"]
      by (auto simp: vector_empty_slot_def first_null_eq vec_list_def [symmetric])
  qed
qed

lemma vector_set_ok:
  assumes "vec_inv v" "active v < 2 ^ 31"
  defines "i \<equiv> length (takeWhile (\<lambda>x. x \<noteq> None) (vec_list v))"
  shows "\<exists>v'. vector_set v val = Some (i, v') \<and> vec_inv v' \<and>
    vec_list v' = list_store (vec_list v) i val"
proof -
  have "i \<le> length (vec_list v)" by (simp add: i_def length_takeWhile_le)
  then have "i < 2 ^ 31" using assms(1,2) by (simp add: vec_inv_def vec_list_def)
  from vector_ensure_ok [OF assms(1) this] vector_store_ok [of _ i val]
    vector_empty_slot_ok [OF assms(1)]
  show ?thesis by (fastforce simp: vector_set_def i_def)
qed

lemma vector_insert_ok:
  assumes inv: "vec_inv v" and i: "i \<le> active v" and b: "active v < 2 ^ 31"
  shows "\<exists>v'. vector_insert v i val = Some (int i, v') \<and> vec_inv v' \<and>
    vec_list v' = take i (vec_list v) @ val # drop i (vec_list v)"
proof -
  obtain v1 where v1: "vector_ensure v (active v) = Some v1" "vec_inv v1" "vec_list v1 = vec_list v"
    "active v1 = active v" "count v1 = count v" "active v < alloced v1"
    using vector_ensure_ok [OF inv b] by blast
  from v1(2) obtain xs n where v: "index v1 = xs @ replicate n None" "active v1 = length xs"
    "alloced v1 = length xs + n" "0 < length xs + n" "length xs + n < 2 ^ 32"
    "count v1 = nonnull xs" "vec_list v1 = xs" by (rule vec_invE)
  then obtain m where m: "n = Suc m" using v1 by (cases n) auto
  let ?ys = "take i xs @ val # drop i xs"
  have i': "i \<le> length xs" using i v v1 by simp
  have move: "mem_move (xs @ replicate n None) (i + 1) i (length xs - i) =
    Some (take (Suc i) (xs @ [None]) @ drop i xs @ replicate m None)"
    using i' by (cases "i = length xs") (simp_all add: mem_move_Some m)
  have wr: "mem_write (take (Suc i) (xs @ [None]) @ drop i xs @ replicate m None) i val =
    Some (?ys @ replicate m None)"
    using i' by (cases "i = length xs")
      (auto simp: mem_write_Some list_update_append take_Suc_conv_app_nth)
  define v' where "v' = v1\<lparr>count := nonnull ?ys, index := ?ys @ replicate m None,
    active := Suc (length xs)\<rparr>"
  have nn: "nonnull ?ys = nonnull xs + (if val = None then 0 else 1)"
    using append_take_drop_id [of i xs] nonnull_simps(3) [of "take i xs" "drop i xs"] by auto
  have "nonnull xs < 2 ^ 32 - 1" using nonnull_le [of xs] v m by simp
  then have "vector_insert v i val = Some (int i, v')"
    using i i' v v1 move wr nn
    by (cases v1) (auto simp: vector_insert_def Let_def u_inc_id v'_def m)
  moreover have "vec_inv v'" "vec_list v' = ?ys"
    using vec_invI [of v' ?ys m] v i' m by (simp_all add: v'_def)
  ultimately show ?thesis using v v1 by simp
qed

lemma vector_remove_ok:
  assumes inv: "vec_inv v" and i: "ix < active v"
  shows "\<exists>v'. vector_remove v ix = Some v' \<and> vec_inv v' \<and>
    vec_list v' = take ix (vec_list v) @ drop (Suc ix) (vec_list v) \<and> active v' = active v - 1"
proof -
  from inv obtain xs n where v: "index v = xs @ replicate n None" "active v = length xs"
    "alloced v = length xs + n" "0 < length xs + n" "length xs + n < 2 ^ 32"
    "count v = nonnull xs" "vec_list v = xs" by (rule vec_invE)
  then obtain ys x zs where xs: "xs = ys @ x # zs" "length ys = ix"
    using i by (metis id_take_nth_drop length_take min.absorb4)
  define v' where "v' = v\<lparr>count := nonnull (ys @ zs), active := length (ys @ zs),
    index := (ys @ zs) @ replicate (Suc n) None\<rparr>"
  have move: "mem_move (index v) ix (ix + 1) (length zs) =
      Some (ys @ zs @ drop (length zs) (x # zs) @ replicate n None)"
    using v xs drop_append [of "length zs" "x # zs" "replicate n None"] by (simp add: mem_move_Some)
  have last: "length (drop (length zs) (x # zs)) = 1" by simp
  then obtain y where y: "drop (length zs) (x # zs) = [y]" by (metis One_nat_def length_0_conv length_Suc_conv)
  have "vector_remove v ix = Some v'"
    using v xs move y i nonnull_le [of ys] nonnull_le [of zs]
    by (cases v) (auto simp: vector_remove_def Let_def mem_read_Some mem_write_Some nth_append
        list_update_append u_dec_id v'_def)
  moreover have "vec_inv v'" "vec_list v' = ys @ zs"
    using vec_invI [of v' "ys @ zs" "Suc n"] v xs by (simp_all add: v'_def)
  ultimately show ?thesis using v xs by (simp add: v'_def)
qed

lemma vec_list_length: "vec_inv v \<Longrightarrow> length (vec_list v) = active v"
  by (simp add: vec_inv_def vec_list_def)

lemma vector_pop_ok:
  assumes inv: "vec_inv v" and ne: "vec_list v \<noteq> []"
  shows "\<exists>v'. vector_pop v = Some (last (vec_list v), v') \<and> vec_inv v' \<and>
    vec_list v' = butlast (vec_list v)"
proof -
  have len: "length (vec_list v) = active v" by (rule vec_list_length [OF inv])
  with ne have "0 < active v" by (metis length_greater_0_conv)
  with inv have a: "0 < active v" "active v < 2 ^ 32" "active v \<le> length (index v)"
    by (auto simp: vec_inv_def)
  have last: "last (vec_list v) = index v ! (active v - 1)"
    using a len ne by (simp add: last_conv_nth vec_list_def)
  obtain v' where v': "vector_remove v (active v - 1) = Some v'" "vec_inv v'"
    "vec_list v' = take (active v - 1) (vec_list v) @ drop (Suc (active v - 1)) (vec_list v)"
    using vector_remove_ok [OF inv, of "active v - 1"] a by auto
  then show ?thesis using a len last
    by (simp add: vector_pop_def u_dec_id mem_read_Some butlast_conv_take)
qed

text \<open>The stack \<open>vector_pop\<close> of an empty vector reads in front of the array.\<close>

lemma vector_pop_empty:
  assumes inv: "vec_inv v" and e: "vec_list v = []"
  shows "vector_pop v = None"
proof -
  have "active v = 0" "length (index v) \<le> 2 ^ 32 - 1"
    using inv vec_list_length [OF inv] e by (auto simp: vec_inv_def)
  then show ?thesis by (simp add: vector_pop_def u_dec_def to_uint_def mem_read_None)
qed

definition trim_null :: "'a option list \<Rightarrow> 'a option list" where
  "trim_null xs = rev (dropWhile (\<lambda>x. x = None) (rev xs))"

lemma trim_null_simps [simp]:
  "trim_null [] = []" "trim_null (xs @ [None]) = trim_null xs"
  "trim_null (xs @ [Some a]) = xs @ [Some a]"
  by (simp_all add: trim_null_def)

lemma trim_null_split: "\<exists>n. xs = trim_null xs @ replicate n None"
proof (induction xs rule: rev_induct)
  case (snoc x xs)
  then obtain n where n: "xs = trim_null xs @ replicate n None" by blast
  show ?case
  proof (cases x)
    case None
    then have "xs @ [x] = trim_null (xs @ [x]) @ replicate (Suc n) None"
      using n by (simp add: replicate_append_same [symmetric])
    then show ?thesis by blast
  qed (simp add: exI [of _ 0])
qed simp

lemma unset_trim_eq:
  assumes "i \<le> length idx" "i < 2 ^ 32"
  shows "unset_trim i idx i = Some (length (trim_null (take i idx)))"
  using assms
proof (induction i)
  case (Suc i)
  then show ?case
    by (cases "idx ! i") (simp_all add: mem_read_Some take_Suc_conv_app_nth u_dec_id)
qed simp

lemma unset_value_trim_eq:
  assumes "i \<le> length idx" "i < 2 ^ 32 - 1"
  shows "unset_value_trim i idx (Suc i) = Some (length (trim_null (take i idx)))"
  using assms
proof (induction i)
  case (Suc i)
  then show ?case
    by (cases "idx ! i") (simp_all add: mem_read_Some take_Suc_conv_app_nth u_dec_id)
qed (simp add: u_dec_id)

text \<open>What clearing slot \<open>i\<close> does to the active slots: trailing \<open>NULL\<close>s become inactive.\<close>

definition list_unset :: "'a option list \<Rightarrow> nat \<Rightarrow> 'a option list" where
  "list_unset xs i =
     (if Suc i = length xs then trim_null (take i xs)
      else if i < length xs then xs[i := None] else xs)"

lemma vec_inv_unset:
  assumes v: "index v = xs @ replicate n None" "alloced v = length xs + n"
    "length xs + n < 2 ^ 32" and i: "i < length xs"
  defines "ys \<equiv> list_unset xs i"
  assumes v': "index v' = xs[i := None] @ replicate n None" "alloced v' = alloced v"
    "active v' = length ys" "count v' = nonnull (xs[i := None])"
  shows "vec_inv v'" "vec_list v' = ys"
proof -
  have "\<exists>m. xs[i := None] @ replicate n None = ys @ replicate m None \<and> nonnull ys = nonnull (xs[i := None])"
  proof (cases "Suc i = length xs")
    case True
    obtain m where m: "take i xs = trim_null (take i xs) @ replicate m None"
      using trim_null_split by blast
    have "xs[i := None] = take i xs @ [None]"
      using True i by (simp add: upd_conv_take_nth_drop)
    also have "\<dots> = trim_null (take i xs) @ replicate (Suc m) None"
      by (subst m) (simp add: replicate_append_same)
    finally have e: "xs[i := None] = ys @ replicate (Suc m) None"
      using True by (simp add: ys_def list_unset_def)
    then have "xs[i := None] @ replicate n None = ys @ replicate (Suc m + n) None"
      by (simp add: replicate_add)
    with e show ?thesis by (metis add.right_neutral nonnull_simps(3,4))
  next
    case False
    then show ?thesis using i by (auto simp: ys_def list_unset_def)
  qed
  then obtain m where m: "xs[i := None] @ replicate n None = ys @ replicate m None"
    "nonnull ys = nonnull (xs[i := None])" by blast
  have len: "length xs + n = length ys + m" using arg_cong [OF m(1), of length] by simp
  have "index v' = ys @ replicate m None" "active v' = length ys" "alloced v' = length ys + m"
    "length ys + m < 2 ^ 32" "count v' = nonnull ys" using v v' m len by simp_all
  moreover have "0 < length ys + m" using len i by linarith
  ultimately show "vec_inv v'" "vec_list v' = ys" by (metis vec_invI)+
qed

lemma vector_unset_ok:
  assumes inv: "vec_inv v"
  shows "\<exists>v'. vector_unset v i = Some v' \<and> vec_inv v' \<and> vec_list v' = list_unset (vec_list v) i"
proof -
  from inv obtain xs n where v: "index v = xs @ replicate n None" "active v = length xs"
    "alloced v = length xs + n" "0 < length xs + n" "length xs + n < 2 ^ 32"
    "count v = nonnull xs" "vec_list v = xs" by (rule vec_invE)
  consider "i \<ge> alloced v" | "i < alloced v" "length xs \<le> i" | "i < length xs" using v by linarith
  then show ?thesis
  proof cases
    case 1
    then show ?thesis using inv v by (simp add: vector_unset_def list_unset_def)
  next
    case 2
    then have "vector_unset v i = Some v"
      using v by (cases v) (auto simp: vector_unset_def mem_read_Some mem_write_Some nth_append
          list_update_append Let_def u_inc_id list_update_same_conv)
    with 2 v inv show ?thesis by (simp add: list_unset_def)
  next
    case 3
    define v' where "v' = v\<lparr>count := nonnull (xs[i := None]),
      index := xs[i := None] @ replicate n None, active := length (list_unset xs i)\<rparr>"
    have "u_dec (Suc i) = i" using v(5) 3 by (simp add: u_dec_id)
    then have dec: "Suc i = length xs \<Longrightarrow> u_dec (length xs) = i" by metis
    have "vector_unset v i = Some v'"
      using 3 v dec count_store [OF 3, of None]
        unset_trim_eq [of i "xs[i := None] @ replicate n None"]
      by (cases v) (auto simp: vector_unset_def mem_read_Some mem_write_Some nth_append Let_def
          list_update_append u_inc_id list_unset_def v'_def split: if_splits)
    with vec_inv_unset [of v xs n i v'] v 3 show ?thesis by (simp add: v'_def)
  qed
qed

lemma find_val_eq: "find_val xs val i = i + length (takeWhile (\<lambda>x. x \<noteq> val) xs)"
  by (induction xs arbitrary: i) auto

lemma find_loop_eq: "find_loop eq xs i = i + length (takeWhile (\<lambda>x. \<not> eq x) xs)"
  by (induction xs arbitrary: i) auto

lemma length_takeWhile_less: "x \<in> set xs \<Longrightarrow> \<not> P x \<Longrightarrow> length (takeWhile P xs) < length xs"
  by (induction xs) auto

text \<open>Removing a (non-\<open>NULL\<close>) value clears its first slot.\<close>

lemma vector_unset_value_ok:
  assumes inv: "vec_inv v" and val: "val \<noteq> None"
  defines "i \<equiv> length (takeWhile (\<lambda>x. x \<noteq> val) (vec_list v))"
  shows "\<exists>v'. vector_unset_value v val = Some v' \<and> vec_inv v' \<and>
    vec_list v' = list_unset (vec_list v) i"
proof -
  from inv obtain xs n where v: "index v = xs @ replicate n None" "active v = length xs"
    "alloced v = length xs + n" "0 < length xs + n" "length xs + n < 2 ^ 32"
    "count v = nonnull xs" "vec_list v = xs" by (rule vec_invE)
  have f: "find_val (take (active v) (index v)) val 0 = i"
    using v by (simp add: find_val_eq i_def)
  show ?thesis
  proof (cases "i < length xs")
    case False
    then have "vector_unset_value v val = Some v"
      using v f by (cases v) (auto simp: vector_unset_value_def Let_def)
    with False v inv show ?thesis
      using length_takeWhile_le [of "\<lambda>x. x \<noteq> val" xs] by (auto simp: list_unset_def i_def)
  next
    case True
    then have "xs ! i = val"
      using v nth_length_takeWhile [of "\<lambda>x. x \<noteq> val" xs] by (simp add: i_def)
    define v' where "v' = v\<lparr>count := nonnull (xs[i := None]),
      index := xs[i := None] @ replicate n None, active := length (list_unset xs i)\<rparr>"
    have tr: "unset_value_trim i (xs[i := None] @ replicate n None) (Suc i) =
        Some (length (trim_null (take i xs)))"
      using unset_value_trim_eq [of i "xs[i := None] @ replicate n None"] True v by simp
    have "vector_unset_value v val = Some v'"
      using True v f tr count_store [OF True, of None] \<open>xs ! i = val\<close> val
      by (cases v) (auto simp: vector_unset_value_def Let_def list_update_append list_unset_def
          v'_def split: if_splits)
    with vec_inv_unset [of v xs n i v'] v True show ?thesis by (simp add: v'_def)
  qed
qed

text \<open>With a \<open>NULL\<close> argument the first empty slot is counted as a removal.\<close>

lemma vector_unset_value_null_bug:
  "vector_unset_value (\<lparr>active = 2, alloced = 2, count = 1, index = [None, Some x]\<rparr> :: 'a vector) None =
     Some \<lparr>active = 2, alloced = 2, count = 0, index = [None, Some x]\<rparr>"
  by (simp add: vector_unset_value_def u_dec_def to_uint_def numeral_2_eq_2)

lemma compact_loop_ok:
  assumes "vec_inv v" "i \<le> active v"
  shows "\<exists>v'. compact_loop i v = Some v' \<and> vec_inv v' \<and>
    vec_list v' = take i (vec_list v) @ filter (\<lambda>x. x \<noteq> None) (drop i (vec_list v))"
  using assms
proof (induction "active v - i" arbitrary: v i)
  case 0
  then have "i = active v" by simp
  moreover have "compact_loop i v = Some v" using \<open>i = active v\<close> by (subst compact_loop.simps) simp
  ultimately show ?case using 0 vec_list_length [of v] by simp
next
  case (Suc k)
  then have i: "i < active v" by simp
  have len: "length (vec_list v) = active v" by (rule vec_list_length [OF Suc.prems(1)])
  have rd: "mem_read (index v) i = Some (vec_list v ! i)"
    using Suc.prems(1) i by (simp add: mem_read_Some vec_inv_def vec_list_def)
  have dr: "drop i (vec_list v) = vec_list v ! i # drop (Suc i) (vec_list v)"
    using i len by (simp add: Cons_nth_drop_Suc)
  show ?case
  proof (cases "vec_list v ! i")
    case None
    obtain v1 where v1: "vector_remove v i = Some v1" "vec_inv v1"
      "vec_list v1 = take i (vec_list v) @ drop (Suc i) (vec_list v)" "active v1 = active v - 1"
      using vector_remove_ok [OF Suc.prems(1) i] by auto
    then have "k = active v1 - i" "i \<le> active v1" using Suc.hyps(2) i by auto
    from Suc.hyps(1) [OF this(1) v1(2) this(2)] v1 i len rd None dr show ?thesis
      by (subst compact_loop.simps) simp
  next
    case (Some a)
    then have "k = active v - (i + 1)" "i + 1 \<le> active v" using Suc.hyps(2) i by auto
    from Suc.hyps(1) [OF this(1) Suc.prems(1) this(2)] i len rd Some dr show ?thesis
      by (subst compact_loop.simps) (simp add: take_Suc_conv_app_nth)
  qed
qed

lemma vector_compact_ok:
  "vec_inv v \<Longrightarrow> \<exists>v'. vector_compact v = Some v' \<and> vec_inv v' \<and>
     vec_list v' = filter (\<lambda>x. x \<noteq> None) (vec_list v)"
  using compact_loop_ok [of v 0] by (simp add: vector_compact_def)

lemma nonnull_mset: "nonnull xs = size {#x \<in># mset xs. x \<noteq> None#}"
  by (simp add: nonnull_def flip: mset_filter)

lemma vector_swap_ok:
  assumes inv: "vec_inv v" and ij: "i < active v" "j < active v"
  shows "\<exists>v'. vector_swap v i j = Some v' \<and> vec_inv v' \<and> active v' = active v \<and>
    vec_list v' = (vec_list v)[i := vec_list v ! j, j := vec_list v ! i]"
proof -
  from inv obtain xs n where v: "index v = xs @ replicate n None" "active v = length xs"
    "alloced v = length xs + n" "0 < length xs + n" "length xs + n < 2 ^ 32"
    "count v = nonnull xs" "vec_list v = xs" by (rule vec_invE)
  show ?thesis
  proof (cases "i = j")
    case True
    then show ?thesis using inv ij by (simp add: vector_swap_def)
  next
    case False
    then have "\<not> active v < 2" using ij by linarith
    define ys where "ys = xs[i := xs ! j, j := xs ! i]"
    have "mset ys = mset xs" using ij v by (simp add: ys_def mset_swap)
    then have nn: "nonnull ys = nonnull xs" by (simp add: nonnull_mset)
    have "vector_swap v i j = Some (v\<lparr>index := ys @ replicate n None\<rparr>)"
      using ij v False \<open>\<not> active v < 2\<close>
      by (simp add: vector_swap_def mem_read_Some mem_write_Some nth_append list_update_append ys_def)
    moreover have "vec_inv (v\<lparr>index := ys @ replicate n None\<rparr>)"
      "vec_list (v\<lparr>index := ys @ replicate n None\<rparr>) = ys"
      using vec_invI [of "v\<lparr>index := ys @ replicate n None\<rparr>" ys n] v nn
      by (simp_all add: ys_def)
    ultimately show ?thesis using v by (simp add: ys_def)
  qed
qed

lemma reverse_loop_ok:
  assumes "vec_inv v" "c \<le> active v div 2"
  shows "\<exists>v'. reverse_loop c v = Some v' \<and> vec_inv v' \<and> length (vec_list v') = active v \<and>
    (\<forall>j < active v. vec_list v' ! j =
       (if j < c \<or> active v - c \<le> j then vec_list v ! (active v - 1 - j) else vec_list v ! j))"
  using assms
proof (induction c arbitrary: v)
  case 0
  then show ?case using vec_list_length [of v] by simp
next
  case (Suc c)
  have c: "c < active v" "active v - (c + 1) < active v" "c < active v - (c + 1)"
    using Suc.prems(2) by auto
  obtain v1 where v1: "vector_swap v c (active v - (c + 1)) = Some v1" "vec_inv v1"
    "active v1 = active v"
    "vec_list v1 = (vec_list v)[c := vec_list v ! (active v - (c + 1)),
       active v - (c + 1) := vec_list v ! c]"
    using vector_swap_ok [OF Suc.prems(1) c(1,2)] by blast
  have "c \<le> active v1 div 2" using Suc.prems(2) v1 by simp
  from Suc.IH [OF v1(2) this] obtain v2 where v2: "reverse_loop c v1 = Some v2" "vec_inv v2"
    "length (vec_list v2) = active v"
    "\<forall>j < active v. vec_list v2 ! j =
       (if j < c \<or> active v - c \<le> j then vec_list v1 ! (active v - 1 - j) else vec_list v1 ! j)"
    unfolding v1(3) by blast
  have len: "length (vec_list v) = active v" by (rule vec_list_length [OF Suc.prems(1)])
  have "vec_list v2 ! j = (if j < Suc c \<or> active v - Suc c \<le> j
      then vec_list v ! (active v - 1 - j) else vec_list v ! j)" if "j < active v" for j
    using v2(4) that c len by (auto simp: v1(4) nth_list_update)
  with v1 v2 show ?case by simp
qed

lemma vector_reverse_ok:
  assumes "vec_inv v"
  shows "\<exists>v'. vector_reverse v = Some v' \<and> vec_inv v' \<and> vec_list v' = rev (vec_list v)"
proof -
  obtain v' where v': "reverse_loop (active v div 2) v = Some v'" "vec_inv v'"
    "length (vec_list v') = active v"
    "\<forall>j < active v. vec_list v' ! j =
       (if j < active v div 2 \<or> active v - active v div 2 \<le> j
        then vec_list v ! (active v - 1 - j) else vec_list v ! j)"
    using reverse_loop_ok [OF assms order_refl] by blast
  have "vec_list v' = rev (vec_list v)"
  proof (rule nth_equalityI)
    show "length (vec_list v') = length (rev (vec_list v))"
      using v' vec_list_length [OF assms] by simp
    fix j assume j: "j < length (vec_list v')"
    then have mid: "\<not> (j < active v div 2 \<or> active v - active v div 2 \<le> j) \<Longrightarrow> active v - 1 - j = j"
      using v' by linarith
    from v'(4) j v'(3) mid show "vec_list v' ! j = rev (vec_list v) ! j"
      using vec_list_length [OF assms] by (auto simp: rev_nth)
  qed
  with v' show ?thesis by (auto simp: vector_reverse_def)
qed

lemma array_to_vector_loop_ok:
  assumes "vec_inv v" "i = active v" "i + length src < 2 ^ 31"
  shows "\<exists>v'. array_to_vector_loop src i v = Some v' \<and> vec_inv v' \<and>
    vec_list v' = vec_list v @ src"
  using assms
proof (induction src arbitrary: i v)
  case (Cons x src)
  obtain v1 where v1: "vector_set_index v i x = Some (i, v1)" "vec_inv v1"
    "vec_list v1 = vec_list v @ [x]"
    using vector_set_index_ok [OF Cons.prems(1), of i x] Cons.prems vec_list_length [of v]
    by (auto simp: list_store_def)
  then have "Suc i = active v1" using vec_list_length [OF v1(2)] vec_list_length [of v] Cons.prems by simp
  from Cons.IH [OF v1(2) this] v1 Cons.prems show ?case by auto
qed simp

lemma array_to_vector_ok:
  assumes "length src < 2 ^ 31"
  shows "\<exists>v. array_to_vector src = Some v \<and> vec_inv v \<and> vec_list v = src"
proof -
  let ?v = "vector_init VECTOR_MIN_SIZE :: 'a vector"
  have "vec_inv ?v" "vec_list ?v = []" "active ?v = 0"
    using vector_init_inv [of VECTOR_MIN_SIZE, where 'a = 'a]
    by (simp_all add: VECTOR_MIN_SIZE_def vector_init_def)
  with array_to_vector_loop_ok [of ?v 0 src] assms show ?thesis by (simp add: array_to_vector_def)
qed

lemma vector_to_array_ok:
  "vec_inv v \<Longrightarrow> vector_to_array v = Some (vec_list v, active v)"
  by (simp add: vector_to_array_def mem_copy_Some vec_inv_def vec_list_def)

lemma vector_copy_ok: "vec_inv v \<Longrightarrow> vector_copy v = Some v"
  by (cases v) (simp add: vector_copy_def mem_copy_Some vec_inv_def)

lemma vector_get_ok:
  "vec_inv v \<Longrightarrow> vector_get v i = Some (if i < active v then vec_list v ! i else None)"
  by (auto simp: vector_get_def mem_read_Some vec_inv_def vec_list_def)

lemma vector_find_ok:
  assumes "vec_inv v" "vec_list v \<noteq> []"
  shows "vector_find v eq = Some
    (let i = length (takeWhile (\<lambda>x. \<not> eq x) (vec_list v))
     in if i = length (vec_list v) then - 1 else int i)"
proof -
  have "active v > 0" "active v \<le> length (index v)"
    using assms vec_list_length [OF assms(1)] by (auto simp: vec_inv_def simp flip: length_greater_0_conv)
  then show ?thesis using vec_list_length [OF assms(1)]
    by (simp add: vector_find_def find_loop_eq vec_list_def [symmetric] Let_def)
qed

section \<open>The vector as a stack\<close>

interpretation vec: bounded_stack "\<lambda>v x. vector_push v x" vector_pop "\<lambda>v. vec_inv v \<and> active v \<le> 2 ^ 31" vec_list "2 ^ 31"
proof unfold_locales
  fix v :: "'a vector" and x
  assume v: "vec_inv v \<and> active v \<le> 2 ^ 31" and b: "length (vec_list v) < 2 ^ 31"
  then have "active v < 2 ^ 31" using vec_list_length [of v] by simp
  from vector_push_ok [OF _ this, of x] v obtain v' where
    v': "vector_push v x = Some v'" "vec_inv v'" "vec_list v' = vec_list v @ [x]" by blast
  then have "active v' \<le> 2 ^ 31" using b vec_list_length [OF v'(2)] by simp
  with v' show "\<exists>v'. vector_push v x = Some v' \<and> (vec_inv v' \<and> active v' \<le> 2 ^ 31) \<and>
      vec_list v' = vec_list v @ [x]" by blast
next
  fix v :: "'a vector"
  assume v: "vec_inv v \<and> active v \<le> 2 ^ 31" and b: "vec_list v \<noteq> []"
  from vector_pop_ok [OF _ b] v obtain v' where v': "vector_pop v = Some (last (vec_list v), v')"
    "vec_inv v'" "vec_list v' = butlast (vec_list v)" by blast
  then have "active v' \<le> 2 ^ 31"
    using v vec_list_length [OF v'(2)] vec_list_length [of v] by auto
  with v' show "\<exists>v'. vector_pop v = Some (last (vec_list v), v') \<and>
      (vec_inv v' \<and> active v' \<le> 2 ^ 31) \<and> vec_list v' = butlast (vec_list v)" by blast
qed

end
