(* ===== verification/Block_Hash.thy ===== *)
theory Block_Hash
  imports YJC_Prelude
begin

text \<open>
  What the three message digests of \<^verbatim>\<open>src/util\<close> (MD5, SHA-1, SHA-256) share: rotations, the
  little- and big-endian 32-bit codecs, the 64-bit message-length counter kept in two words,
  hexadecimal output, and the splitting of a message into 64-byte blocks. The locale
  \<open>stream_hash\<close> is the contract of an init/update interface: a context represents the
  bytes fed to it so far. Feeding a message in any chunks is then feeding it at once.
\<close>

section \<open>Words and bytes\<close>

definition rotl32 :: "u32 \<Rightarrow> nat \<Rightarrow> u32" where
  "rotl32 x n = push_bit n x OR drop_bit (32 - n) x"

definition rotr32 :: "u32 \<Rightarrow> nat \<Rightarrow> u32" where
  "rotr32 x n = drop_bit n x OR push_bit (32 - n) x"

text \<open>A 32-bit load in the two byte orders.\<close>

definition le32 :: "u8 \<Rightarrow> u8 \<Rightarrow> u8 \<Rightarrow> u8 \<Rightarrow> u32" where
  "le32 b0 b1 b2 b3 =
     ucast b0 OR push_bit 8 (ucast b1) OR push_bit 16 (ucast b2) OR push_bit 24 (ucast b3)"

definition be32 :: "u8 \<Rightarrow> u8 \<Rightarrow> u8 \<Rightarrow> u8 \<Rightarrow> u32" where
  "be32 b0 b1 b2 b3 = le32 b3 b2 b1 b0"

text \<open>The words of a block, \<open>n\<close> of them.\<close>

fun words_of :: "(u8 \<Rightarrow> u8 \<Rightarrow> u8 \<Rightarrow> u8 \<Rightarrow> u32) \<Rightarrow> u8 list \<Rightarrow> u32 list" where
  "words_of f (b0 # b1 # b2 # b3 # bs) = f b0 b1 b2 b3 # words_of f bs"
| "words_of f _ = []"

definition byte_of :: "u32 \<Rightarrow> nat \<Rightarrow> u8" where
  "byte_of x s = ucast (drop_bit s x AND 0xFF)"

definition le32_bytes :: "u32 \<Rightarrow> u8 list" where
  "le32_bytes x = [byte_of x 0, byte_of x 8, byte_of x 16, byte_of x 24]"

definition be32_bytes :: "u32 \<Rightarrow> u8 list" where
  "be32_bytes x = [byte_of x 24, byte_of x 16, byte_of x 8, byte_of x 0]"

definition i2hex :: "u8 \<Rightarrow> u8" where
  "i2hex i = (if i < 10 then i + 48 else i - 10 + 97)"

text \<open>The loop of the \<open>_hex\<close> functions over a digest.\<close>

definition hex_digits :: "u8 list \<Rightarrow> u8 list" where
  "hex_digits ds = concat (map (\<lambda>d. [i2hex (drop_bit 4 d), i2hex (d AND 0x0F)]) ds)"

section \<open>Blocks of a message\<close>

text \<open>All complete 64-byte blocks of a message, and the rest.\<close>

function md_process :: "('s \<Rightarrow> u8 list \<Rightarrow> 's) \<Rightarrow> 's \<Rightarrow> u8 list \<Rightarrow> 's \<times> u8 list" where
  "md_process tr st m =
     (if length m < 64 then (st, m) else md_process tr (tr st (take 64 m)) (drop 64 m))"
  by pat_completeness auto
termination by (relation "measure (\<lambda>(tr, st, m). length m)") auto

declare md_process.simps [simp del]

text \<open>The 64-bit bit counter in two words, low word \<open>lo\<close>.\<close>

definition count_ok :: "u32 \<Rightarrow> u32 \<Rightarrow> nat \<Rightarrow> bool" where
  "count_ok hi lo n \<longleftrightarrow> unat lo = (8 * n) mod 2 ^ 32 \<and> unat hi = (8 * n) div 2 ^ 32 mod 2 ^ 32"

text \<open>Padding of a message of \<open>n\<close> bytes up to 56 modulo 64, as 0x80 and zeros.\<close>

definition pad_len :: "nat \<Rightarrow> nat" where
  "pad_len n = (let r = n mod 64 in if r < 56 then 56 - r else 120 - r)"

definition md_padding :: "nat \<Rightarrow> u8 list" where
  "md_padding n = 0x80 # replicate (pad_len n - 1) 0"

text \<open>The 64-bit message length in bits, as FIPS 180-4 appends it.\<close>

definition fips_length_field :: "nat \<Rightarrow> u8 list" where
  "fips_length_field n = be32_bytes (of_nat (8 * n div 2 ^ 32)) @ be32_bytes (of_nat (8 * n))"

section \<open>Lemmas\<close>

lemma md_process_short: "length m < 64 \<Longrightarrow> md_process tr st m = (st, m)"
  by (simp add: md_process.simps)

lemma md_process_block:
  "length b = 64 \<Longrightarrow> md_process tr st (b @ m) = md_process tr (tr st b) m"
  by (subst md_process.simps) simp

lemma md_process_rest: "length (snd (md_process tr st m)) = length m mod 64"
proof (induction tr st m rule: md_process.induct)
  case (1 tr st m)
  then show ?case
    by (cases "length m < 64") (simp_all add: md_process.simps [of tr st m] le_mod_geq)
qed

lemma md_process_append:
  "md_process tr st (m @ xs) = md_process tr (fst (md_process tr st m)) (snd (md_process tr st m) @ xs)"
proof (induction tr st m rule: md_process.induct)
  case (1 tr st m)
  show ?case
  proof (cases "length m < 64")
    case True
    then show ?thesis by (simp add: md_process_short)
  next
    case False
    then have "md_process tr st (m @ xs) = md_process tr (tr st (take 64 m)) (drop 64 m @ xs)"
      by (subst md_process.simps) simp
    with 1 False show ?thesis by (simp add: md_process.simps [of tr st m])
  qed
qed

lemma md_process_split: "\<exists>p. m = p @ snd (md_process tr st m)"
proof (induction tr st m rule: md_process.induct)
  case (1 tr st m)
  show ?case
  proof (cases "length m < 64")
    case False
    with 1 obtain p where "drop 64 m = p @ snd (md_process tr (tr st (take 64 m)) (drop 64 m))"
      by blast
    with False show ?thesis
      by (metis append.assoc append_take_drop_id md_process.simps)
  qed (simp add: md_process_short)
qed

text \<open>The one shape of all three update loops: top up the buffer, then whole blocks.\<close>

lemma md_process_update:
  assumes "length r < 64"
  shows "md_process tr st (r @ xs) =
    (if length r + length xs < 64 then (st, r @ xs)
     else md_process tr (tr st (r @ take (64 - length r) xs)) (drop (64 - length r) xs))"
  using assms by (subst md_process.simps) auto

lemma count_index:
  assumes "count_ok hi lo n"
  shows "unat (drop_bit 3 lo AND 0x3F) = n mod 64"
proof -
  have "drop_bit 3 lo AND 0x3F = take_bit 6 (drop_bit 3 lo)"
    by (simp add: take_bit_eq_mask mask_eq_exp_minus_1)
  then have "unat (drop_bit 3 lo AND 0x3F) = unat lo div 8 mod 64"
    by (simp add: take_bit_eq_mod drop_bit_eq_div unat_div_distrib unat_mod_distrib)
  also have "unat lo = 8 * (n mod 2 ^ 29)"
    using assms mult_mod_right [of 8 n "2 ^ 29"] by (simp add: count_ok_def)
  also have "8 * (n mod 2 ^ 29) div 8 mod 64 = n mod 2 ^ 29 mod 64" by simp
  also have "\<dots> = n mod 64" by (rule mod_mod_cancel) simp
  finally show ?thesis .
qed

lemma add_mod_carry: "A < N \<Longrightarrow> B < N \<Longrightarrow> (A + B) mod N < B \<longleftrightarrow> N \<le> A + (B::nat)"
  by (cases "A + B < N") (auto simp: le_mod_geq)

lemma word_carry_swap: "a + b < a \<longleftrightarrow> a + b < (b :: u32)"
proof -
  have "a + b < b \<longleftrightarrow> 2 ^ 32 \<le> unat a + unat b" for a b :: u32
    unfolding word_less_nat_alt unat_word_ariths
    using add_mod_carry [of "unat a" "2 ^ 32" "unat b"] unsigned_less [of a] unsigned_less [of b] by simp
  from this [of a b] this [of b a] show ?thesis by (simp add: add.commute)
qed

lemma count_add:
  fixes hi lo l :: u32
  assumes c: "count_ok hi lo n"
  defines "lo' \<equiv> lo + push_bit 3 l"
  shows "count_ok (hi + (if lo' < push_bit 3 l then 1 else 0) + drop_bit 29 l) lo' (n + unat l)"
proof -
  have p: "unat (push_bit 3 l) = 8 * unat l mod 2 ^ 32"
    by (simp add: push_bit_eq_mult unat_word_ariths mult.commute)
  have d: "unat (drop_bit 29 l) = unat l div 2 ^ 29"
    by (simp add: drop_bit_eq_div unat_div_distrib)
  have l0: "unat lo' = ((8 * n) mod 2 ^ 32 + 8 * unat l mod 2 ^ 32) mod 2 ^ 32"
    using c by (simp add: lo'_def unat_word_ariths p count_ok_def)
  then have lo': "unat lo' = (8 * (n + unat l)) mod 2 ^ 32"
    by (simp only: mod_add_eq distrib_left)
  have carry: "lo' < push_bit 3 l \<longleftrightarrow> 2 ^ 32 \<le> (8 * n) mod 2 ^ 32 + 8 * unat l mod 2 ^ 32"
    unfolding word_less_nat_alt l0 p by (rule add_mod_carry) simp_all
  have dl: "8 * unat l div 2 ^ 32 = unat l div 2 ^ 29"
    using div_mult_mult1 [of 8 "unat l" "2 ^ 29"] by simp
  have "((8 * n) mod 2 ^ 32 + 8 * unat l mod 2 ^ 32) div 2 ^ 32 =
      (if lo' < push_bit 3 l then 1 else 0)"
    unfolding carry by (auto simp: div_if)
  then have "(8 * (n + unat l)) div 2 ^ 32 = 8 * n div 2 ^ 32 + unat l div 2 ^ 29 +
      (if lo' < push_bit 3 l then 1 else 0)"
    using div_add1_eq [of "8 * n" "8 * unat l" "2 ^ 32"] by (simp only: distrib_left dl)
  moreover have "unat (hi + (if lo' < push_bit 3 l then 1 else 0) + drop_bit 29 l) =
      (8 * n div 2 ^ 32 mod 2 ^ 32 + ((if lo' < push_bit 3 l then 1 else 0) + unat l div 2 ^ 29)) mod 2 ^ 32"
    using c by (simp add: unat_word_ariths d count_ok_def mod_add_left_eq)
  then have "unat (hi + (if lo' < push_bit 3 l then 1 else 0) + drop_bit 29 l) =
      (8 * n div 2 ^ 32 + ((if lo' < push_bit 3 l then 1 else 0) + unat l div 2 ^ 29)) mod 2 ^ 32"
    by (simp only: mod_add_left_eq)
  ultimately have "unat (hi + (if lo' < push_bit 3 l then 1 else 0) + drop_bit 29 l) =
      (8 * (n + unat l)) div 2 ^ 32 mod 2 ^ 32" by (simp only: ac_simps)
  with lo' show ?thesis by (simp add: count_ok_def)
qed

lemma pad_len_bounds: "1 \<le> pad_len n" "pad_len n \<le> 64" "(n + pad_len n) mod 64 = 56"
proof -
  show "1 \<le> pad_len n" "pad_len n \<le> 64" by (auto simp: pad_len_def Let_def)
  have n: "n = 64 * (n div 64) + n mod 64" by simp
  have "n + pad_len n = 64 * (n div 64) + (n mod 64 + pad_len n)" using n by linarith
  also have "n mod 64 + pad_len n = (if n mod 64 < 56 then 56 else 120)"
    by (simp add: pad_len_def Let_def)
  finally show "(n + pad_len n) mod 64 = 56" by simp
qed

lemma length_md_padding: "length (md_padding n) = pad_len n"
  using pad_len_bounds(1) [of n] by (simp add: md_padding_def)

lemma length_hex_digits [simp]: "length (hex_digits ds) = 2 * length ds"
  by (induction ds) (auto simp: hex_digits_def)

lemma length_be32_bytes [simp]: "length (be32_bytes x) = 4"
  by (simp add: be32_bytes_def)

lemma length_le32_bytes [simp]: "length (le32_bytes x) = 4"
  by (simp add: le32_bytes_def)

lemma length_fips_length_field [simp]: "length (fips_length_field n) = 8"
  by (simp add: fips_length_field_def)

lemma count_ok_of_nat:
  assumes "count_ok hi lo n"
  shows "hi = of_nat (8 * n div 2 ^ 32)" "lo = of_nat (8 * n)"
  using assms
  by (auto simp: count_ok_def word_unat_eq_iff unat_of_nat simp del: of_nat_mult)

lemma upt8: "[0..<8] = [0, 1, 2, 3, 4, 5, 6, 7::nat]" by code_simp

lemma not_bit_u8 [simp]: "8 \<le> k \<Longrightarrow> \<not> bit (b :: u8) k"
  using bit_imp_le_length [of b k] by auto

lemma length_words_of: "length (words_of f bs) = length bs div 4"
  by (induction f bs rule: words_of.induct) auto

section \<open>The block buffer of an update\<close>

text \<open>
  The part of a context that all three digests share: after the message \<open>m\<close>, the chaining
  state is \<open>st\<close> and the first \<open>length m mod 64\<close> bytes of the 64-byte buffer are what no
  complete block has consumed yet.
\<close>

definition buf_rep :: "('s \<Rightarrow> u8 list \<Rightarrow> 's) \<Rightarrow> 's \<Rightarrow> 's \<Rightarrow> u8 list \<Rightarrow> u8 list \<Rightarrow> bool" where
  "buf_rep tr st0 st buf m \<longleftrightarrow>
     length buf = 64 \<and> md_process tr st0 m = (st, take (length m mod 64) buf)"

text \<open>An update that does not complete a block, and one that does.\<close>

lemma buf_rep_fill:
  assumes rep: "buf_rep tr st0 st buf m" and short: "length xs < 64 - length m mod 64"
  shows "\<exists>b'. mem_copy buf (length m mod 64) xs 0 (length xs) = Some b' \<and>
    buf_rep tr st0 st b' (m @ xs)"
proof -
  let ?r = "length m mod 64"
  have b: "length buf = 64" "md_process tr st0 m = (st, take ?r buf)"
    using rep by (auto simp: buf_rep_def)
  have mp: "md_process tr st0 (m @ xs) = (st, take ?r buf @ xs)"
    using b short by (simp add: md_process_append [of tr st0 m xs] md_process_short)
  then have "length (m @ xs) mod 64 = ?r + length xs"
    using md_process_rest [of tr st0 "m @ xs"] b(1) by simp
  with mp b short show ?thesis
    by (intro exI [of _ "take ?r buf @ xs @ drop (?r + length xs) buf"])
       (simp add: buf_rep_def mem_copy_Some)
qed

lemma buf_rep_blocks:
  assumes rep: "buf_rep tr st0 st buf m" and long: "64 - length m mod 64 \<le> length xs"
  shows "\<exists>b st' rest b'. mem_copy buf (length m mod 64) xs 0 (64 - length m mod 64) = Some b \<and>
    length b = 64 \<and>
    md_process tr (tr st b) (drop (64 - length m mod 64) xs) = (st', rest) \<and>
    length rest \<le> length xs - (64 - length m mod 64) \<and>
    mem_copy b 0 xs (length xs - length rest) (length rest) = Some b' \<and>
    buf_rep tr st0 st' b' (m @ xs)"
proof -
  let ?r = "length m mod 64"
  have b: "length buf = 64" "md_process tr st0 m = (st, take ?r buf)"
    using rep by (auto simp: buf_rep_def)
  have r64: "?r < 64" by simp
  define b1 where "b1 = take ?r buf @ take (64 - ?r) xs"
  have c1: "mem_copy buf ?r xs 0 (64 - ?r) = Some b1" and lb: "length b1 = 64"
    using b(1) long by (simp_all add: mem_copy_Some b1_def)
  obtain st' rest where md: "md_process tr (tr st b1) (drop (64 - ?r) xs) = (st', rest)"
    by fastforce
  have "\<not> ?r + length xs < 64" using long r64 by linarith
  then have mp: "md_process tr st0 (m @ xs) = (st', rest)"
    using b md by (simp add: md_process_append [of tr st0 m xs] md_process_update b1_def)
  have lr: "length rest = length (m @ xs) mod 64"
    using md_process_rest [of tr st0 "m @ xs"] mp by simp
  have l64: "length rest < 64" using lr by simp
  obtain p where p: "drop (64 - ?r) xs = p @ rest"
    using md_process_split [of "drop (64 - ?r) xs" tr "tr st b1"] md by auto
  then have lex: "length rest \<le> length xs - (64 - ?r)"
    by (metis length_append length_drop le_add2)
  have "xs = (take (64 - ?r) xs @ p) @ rest" using p by (metis append.assoc append_take_drop_id)
  then have dr: "drop (length xs - length rest) xs = rest"
    by (metis append_eq_conv_conj diff_add_inverse2 length_append)
  define b2 where "b2 = rest @ drop (length rest) b1"
  have c2: "mem_copy b1 0 xs (length xs - length rest) (length rest) = Some b2"
    using lb l64 lex dr by (simp add: mem_copy_Some b2_def)
  have "length b2 = 64" using lb l64 unfolding b2_def length_append length_drop by linarith
  moreover have "take (length (m @ xs) mod 64) b2 = rest" unfolding lr [symmetric] b2_def by simp
  ultimately have "buf_rep tr st0 st' b2 (m @ xs)" using mp by (simp add: buf_rep_def)
  with c1 lb md lex c2 show ?thesis by blast
qed

section \<open>The streaming contract\<close>

text \<open>
  \<open>rep c m\<close>: the context \<open>c\<close> stands for the message \<open>m\<close>. An update appends its bytes
  as long as a single call stays below \<open>chunk_max\<close> bytes.
\<close>

fun update_all :: "('c \<Rightarrow> u8 list \<Rightarrow> 'c option) \<Rightarrow> 'c \<Rightarrow> u8 list list \<Rightarrow> 'c option" where
  "update_all upd c [] = Some c"
| "update_all upd c (xs # xss) = do { c' \<leftarrow> upd c xs; update_all upd c' xss }"

locale stream_hash =
  fixes upd :: "'c \<Rightarrow> u8 list \<Rightarrow> 'c option"
    and fin :: "'c \<Rightarrow> u8 list option"
    and ini :: 'c
    and rep :: "'c \<Rightarrow> u8 list \<Rightarrow> bool"
    and digest :: "u8 list \<Rightarrow> u8 list"
    and chunk_max :: nat
  assumes rep_ini: "rep ini []"
    and rep_upd: "rep c m \<Longrightarrow> length xs < chunk_max \<Longrightarrow> \<exists>c'. upd c xs = Some c' \<and> rep c' (m @ xs)"
    and fin_digest: "rep c m \<Longrightarrow> fin c = Some (digest m)"
begin

lemma rep_update_all:
  "rep c m \<Longrightarrow> \<forall>xs \<in> set xss. length xs < chunk_max \<Longrightarrow>
   \<exists>c'. update_all upd c xss = Some c' \<and> rep c' (m @ concat xss)"
proof (induction xss arbitrary: c m)
  case (Cons xs xss)
  then obtain c1 where c1: "upd c xs = Some c1" "rep c1 (m @ xs)"
    using rep_upd [of c m xs] by auto
  from Cons.IH [OF c1(2)] Cons.prems c1 show ?case by auto
qed simp

text \<open>The digest depends only on the concatenation of the chunks.\<close>

lemma chunks_digest:
  "\<forall>xs \<in> set xss. length xs < chunk_max \<Longrightarrow>
   do { c \<leftarrow> update_all upd ini xss; fin c } = Some (digest (concat xss))"
  using rep_update_all [OF rep_ini, of xss] fin_digest by fastforce

lemma one_shot_digest:
  "length m < chunk_max \<Longrightarrow> do { c \<leftarrow> upd ini m; fin c } = Some (digest m)"
  using rep_upd [OF rep_ini, of m] fin_digest by auto

lemma bytewise_digest:
  "1 < chunk_max \<Longrightarrow> do { c \<leftarrow> update_all upd ini (map (\<lambda>x. [x]) m); fin c } = Some (digest m)"
  using chunks_digest [of "map (\<lambda>x. [x]) m"] by simp

end

end
