(* ===== verification/Sha256.thy ===== *)
theory Sha256
  imports Block_Hash
begin

text \<open>
  SHA-256, HMAC-SHA256 and PBKDF2 of \<^verbatim>\<open>src/util/sha256.c\<close>. The context is \<open>SHA256_CTX\<close>;
  the compression function keeps the eight working variables in an array whose roles rotate
  by index arithmetic instead of moving values. It is shown equal to the compression function
  of FIPS 180-4, and \<open>SHA256_Final\<close> to return the FIPS digest of everything that was fed to
  the context, however it was cut into chunks.
\<close>

section \<open>Model\<close>

record sha256_ctx =
  s_state :: "u32 list"
  s_count0 :: u32
  s_count1 :: u32
  s_buf :: "u8 list"

definition be32dec :: "u8 \<Rightarrow> u8 \<Rightarrow> u8 \<Rightarrow> u8 \<Rightarrow> u32" where
  "be32dec p0 p1 p2 p3 =
     ucast p3 + push_bit 8 (ucast p2) + push_bit 16 (ucast p1) + push_bit 24 (ucast p0)"

definition be32enc :: "u32 \<Rightarrow> u8 list" where
  "be32enc x = [ucast (drop_bit 24 x AND 0xff), ucast (drop_bit 16 x AND 0xff),
     ucast (drop_bit 8 x AND 0xff), ucast (x AND 0xff)]"

definition be32enc_vect :: "u32 list \<Rightarrow> u8 list" where
  "be32enc_vect src = concat (map be32enc src)"

definition be32dec_vect :: "u8 list \<Rightarrow> u32 list" where
  "be32dec_vect src = words_of be32dec src"

definition Ch :: "u32 \<Rightarrow> u32 \<Rightarrow> u32 \<Rightarrow> u32" where "Ch x y z = (x AND (y XOR z)) XOR z"
definition Maj :: "u32 \<Rightarrow> u32 \<Rightarrow> u32 \<Rightarrow> u32" where "Maj x y z = (x AND (y OR z)) OR (y AND z)"
definition BS0 :: "u32 \<Rightarrow> u32" where "BS0 x = rotr32 x 2 XOR rotr32 x 13 XOR rotr32 x 22"
definition BS1 :: "u32 \<Rightarrow> u32" where "BS1 x = rotr32 x 6 XOR rotr32 x 11 XOR rotr32 x 25"
definition ss0 :: "u32 \<Rightarrow> u32" where "ss0 x = rotr32 x 7 XOR rotr32 x 18 XOR drop_bit 3 x"
definition ss1 :: "u32 \<Rightarrow> u32" where "ss1 x = rotr32 x 17 XOR rotr32 x 19 XOR drop_bit 10 x"

text \<open>\<open>RNDr\<close>: one round on the rotating array \<open>S\<close>.\<close>

definition RNDr :: "u32 list \<Rightarrow> u32 list \<Rightarrow> nat \<Rightarrow> u32 \<Rightarrow> u32 list" where
  "RNDr S W i k =
     (let a = S ! ((64 - i) mod 8); b = S ! ((65 - i) mod 8); c = S ! ((66 - i) mod 8);
          d = S ! ((67 - i) mod 8); e = S ! ((68 - i) mod 8); f = S ! ((69 - i) mod 8);
          g = S ! ((70 - i) mod 8); h = S ! ((71 - i) mod 8);
          t0 = h + BS1 e + Ch e f g + (W ! i + k);
          t1 = BS0 a + Maj a b c
      in S[(67 - i) mod 8 := d + t0, (71 - i) mod 8 := t0 + t1])"

text \<open>The 64 unrolled calls \<open>RNDr(S, W, i, k)\<close>, as the pairs of \<open>i\<close> and \<open>k\<close>.\<close>

definition sha256_calls :: "(nat \<times> u32) list" where
  "sha256_calls = [
      (0, 0x428a2f98), (1, 0x71374491), (2, 0xb5c0fbcf), (3, 0xe9b5dba5),
      (4, 0x3956c25b), (5, 0x59f111f1), (6, 0x923f82a4), (7, 0xab1c5ed5),
      (8, 0xd807aa98), (9, 0x12835b01), (10, 0x243185be), (11, 0x550c7dc3),
      (12, 0x72be5d74), (13, 0x80deb1fe), (14, 0x9bdc06a7), (15, 0xc19bf174),
      (16, 0xe49b69c1), (17, 0xefbe4786), (18, 0x0fc19dc6), (19, 0x240ca1cc),
      (20, 0x2de92c6f), (21, 0x4a7484aa), (22, 0x5cb0a9dc), (23, 0x76f988da),
      (24, 0x983e5152), (25, 0xa831c66d), (26, 0xb00327c8), (27, 0xbf597fc7),
      (28, 0xc6e00bf3), (29, 0xd5a79147), (30, 0x06ca6351), (31, 0x14292967),
      (32, 0x27b70a85), (33, 0x2e1b2138), (34, 0x4d2c6dfc), (35, 0x53380d13),
      (36, 0x650a7354), (37, 0x766a0abb), (38, 0x81c2c92e), (39, 0x92722c85),
      (40, 0xa2bfe8a1), (41, 0xa81a664b), (42, 0xc24b8b70), (43, 0xc76c51a3),
      (44, 0xd192e819), (45, 0xd6990624), (46, 0xf40e3585), (47, 0x106aa070),
      (48, 0x19a4c116), (49, 0x1e376c08), (50, 0x2748774c), (51, 0x34b0bcb5),
      (52, 0x391c0cb3), (53, 0x4ed8aa4a), (54, 0x5b9cca4f), (55, 0x682e6ff3),
      (56, 0x748f82ee), (57, 0x78a5636f), (58, 0x84c87814), (59, 0x8cc70208),
      (60, 0x90befffa), (61, 0xa4506ceb), (62, 0xbef9a3f7), (63, 0xc67178f2)]"

text \<open>\<open>W[i] = s1(W[i - 2]) + W[i - 7] + s0(W[i - 15]) + W[i - 16]\<close> for the next \<open>n\<close> words.\<close>

fun sha256_schedule :: "nat \<Rightarrow> u32 list \<Rightarrow> u32 list" where
  "sha256_schedule 0 W = W"
| "sha256_schedule (Suc n) W =
     (let i = length W
      in sha256_schedule n (W @ [ss1 (W ! (i - 2)) + W ! (i - 7) + ss0 (W ! (i - 15)) + W ! (i - 16)]))"

definition SHA256_Transform :: "u32 list \<Rightarrow> u8 list \<Rightarrow> u32 list" where
  "SHA256_Transform state block =
     (let W = sha256_schedule 48 (be32dec_vect block);
          S = foldl (\<lambda>S (i, k). RNDr S W i k) state sha256_calls
      in map2 (+) state S)"

definition PAD :: "u8 list" where
  "PAD = 0x80 # replicate 63 0"

definition SHA256_Init :: sha256_ctx where
  "SHA256_Init = \<lparr>s_state = [0x6A09E667, 0xBB67AE85, 0x3C6EF372, 0xA54FF53A,
     0x510E527F, 0x9B05688C, 0x1F83D9AB, 0x5BE0CD19],
     s_count0 = 0, s_count1 = 0, s_buf = replicate 64 0\<rparr>"

text \<open>The loop over complete blocks at offset \<open>off\<close>: the state, the offset and the length left.\<close>

function sha256_blocks :: "u32 list \<Rightarrow> u8 list \<Rightarrow> nat \<Rightarrow> nat \<Rightarrow> (u32 list \<times> nat \<times> nat) option" where
  "sha256_blocks st src off len =
     (if len \<ge> 64
      then (if off + 64 \<le> length src
            then sha256_blocks (SHA256_Transform st (take 64 (drop off src))) src (off + 64) (len - 64)
            else None)
      else Some (st, off, len))"
  by pat_completeness auto
termination by (relation "measure (\<lambda>(st, src, off, len). len)") auto

declare sha256_blocks.simps [simp del]

definition SHA256_Update :: "sha256_ctx \<Rightarrow> u8 list \<Rightarrow> nat \<Rightarrow> sha256_ctx option" where
  "SHA256_Update ctx src len =
     (let r = unat (drop_bit 3 (s_count1 ctx) AND 0x3f);
          bitlen1 = push_bit 3 (of_nat len :: u32);
          bitlen0 = (of_nat (len div 2 ^ 29) :: u32);
          c1 = s_count1 ctx + bitlen1;
          c0 = s_count0 ctx + (if c1 < bitlen1 then 1 else 0) + bitlen0;
          ctx1 = ctx\<lparr>s_count0 := c0, s_count1 := c1\<rparr> in
      if len < 64 - r
      then do { b \<leftarrow> mem_copy (s_buf ctx1) r src 0 len; Some (ctx1\<lparr>s_buf := b\<rparr>) }
      else do {
        b \<leftarrow> mem_copy (s_buf ctx1) r src 0 (64 - r);
        (st, off, left) \<leftarrow> sha256_blocks (SHA256_Transform (s_state ctx1) b) src (64 - r) (len - (64 - r));
        b' \<leftarrow> mem_copy b 0 src off left;
        Some (ctx1\<lparr>s_state := st, s_buf := b'\<rparr>)
      })"

definition SHA256_Pad :: "sha256_ctx \<Rightarrow> sha256_ctx option" where
  "SHA256_Pad ctx =
     (let len = be32enc_vect [s_count0 ctx, s_count1 ctx];
          r = unat (drop_bit 3 (s_count1 ctx) AND 0x3f);
          plen = (if r < 56 then 56 - r else 120 - r) in
      do { c1 \<leftarrow> SHA256_Update ctx PAD plen; SHA256_Update c1 len 8 })"

text \<open>The digest; the context is wiped and not used again.\<close>

definition SHA256_Final :: "sha256_ctx \<Rightarrow> u8 list option" where
  "SHA256_Final ctx = do { c \<leftarrow> SHA256_Pad ctx; Some (be32enc_vect (s_state c)) }"

text \<open>\<open>SHA256\<close> feeds the message byte by byte and appends a terminator, \<open>sha256\<close> at once.\<close>

definition SHA256 :: "u8 list \<Rightarrow> u8 list option" where
  "SHA256 str =
     do { c \<leftarrow> update_all (\<lambda>c xs. SHA256_Update c xs (length xs)) SHA256_Init (map (\<lambda>x. [x]) str);
          d \<leftarrow> SHA256_Final c; Some (d @ [0]) }"

definition sha256 :: "u8 list \<Rightarrow> u8 list option" where
  "sha256 input = do { c \<leftarrow> SHA256_Update SHA256_Init input (length input); SHA256_Final c }"

definition sha256_hex :: "u8 list \<Rightarrow> u8 list \<Rightarrow> nat \<Rightarrow> u8 list option" where
  "sha256_hex input output outputlen =
     (if outputlen < 64 then Some output
      else do {
        d \<leftarrow> sha256 input;
        o1 \<leftarrow> mem_copy output 0 (hex_digits d) 0 64;
        (if outputlen > 64 then mem_write o1 64 0 else Some o1)
      })"

record hmac_ctx =
  h_ictx :: sha256_ctx
  h_octx :: sha256_ctx

text \<open>\<open>memset(pad, v, 64); for (i < Klen) pad[i] ^= K[i]\<close>, with \<open>Klen <= 64\<close>.\<close>

definition hmac_pad :: "u8 \<Rightarrow> u8 list \<Rightarrow> u8 list" where
  "hmac_pad v K = map2 (XOR) (replicate 64 v) K @ drop (length K) (replicate 64 v)"

definition HMAC__SHA256_Init :: "u8 list \<Rightarrow> hmac_ctx option" where
  "HMAC__SHA256_Init K =
     do {
       K' \<leftarrow> (if length K > 64
             then do { c \<leftarrow> SHA256_Update SHA256_Init K (length K); SHA256_Final c }
             else Some K);
       i \<leftarrow> SHA256_Update SHA256_Init (hmac_pad 0x36 K') 64;
       out \<leftarrow> SHA256_Update SHA256_Init (hmac_pad 0x5c K') 64;
       Some \<lparr>h_ictx = i, h_octx = out\<rparr>
     }"

definition HMAC__SHA256_Update :: "hmac_ctx \<Rightarrow> u8 list \<Rightarrow> nat \<Rightarrow> hmac_ctx option" where
  "HMAC__SHA256_Update ctx xs len = do { i \<leftarrow> SHA256_Update (h_ictx ctx) xs len; Some (ctx\<lparr>h_ictx := i\<rparr>) }"

definition HMAC__SHA256_Final :: "hmac_ctx \<Rightarrow> u8 list option" where
  "HMAC__SHA256_Final ctx =
     do { ihash \<leftarrow> SHA256_Final (h_ictx ctx);
          out \<leftarrow> SHA256_Update (h_octx ctx) ihash 32;
          SHA256_Final out }"

text \<open>The iterations \<open>j = 2 .. c\<close> of \<open>PBKDF2_SHA256\<close> on \<open>U\<close> and \<open>T\<close>, \<open>n\<close> of them.\<close>

fun pbkdf2_inner :: "u8 list \<Rightarrow> nat \<Rightarrow> u8 list \<Rightarrow> u8 list \<Rightarrow> u8 list option" where
  "pbkdf2_inner passwd 0 U T = Some T"
| "pbkdf2_inner passwd (Suc n) U T =
     do { h \<leftarrow> HMAC__SHA256_Init passwd; h1 \<leftarrow> HMAC__SHA256_Update h U 32;
          U' \<leftarrow> HMAC__SHA256_Final h1;
          pbkdf2_inner passwd n U' (map2 (XOR) T U') }"

text \<open>The blocks \<open>i, i + 1, ..\<close> until \<open>dkLen\<close> bytes are written to \<open>buf\<close>.\<close>

function pbkdf2_outer :: "hmac_ctx \<Rightarrow> u8 list \<Rightarrow> nat \<Rightarrow> nat \<Rightarrow> nat \<Rightarrow> u8 list \<Rightarrow> u8 list option" where
  "pbkdf2_outer PShctx passwd c dkLen i buf =
     (if i * 32 < dkLen
      then do {
        h \<leftarrow> HMAC__SHA256_Update PShctx (be32enc (of_nat (i + 1))) 4;
        U \<leftarrow> HMAC__SHA256_Final h;
        T \<leftarrow> pbkdf2_inner passwd (c - 1) U U;
        buf' \<leftarrow> mem_copy buf (i * 32) T 0 (min (dkLen - i * 32) 32);
        pbkdf2_outer PShctx passwd c dkLen (i + 1) buf'
      }
      else Some buf)"
  by pat_completeness auto
termination by (relation "measure (\<lambda>(PShctx, passwd, c, dkLen, i, buf). dkLen - i)") auto

declare pbkdf2_outer.simps [simp del]

definition PBKDF2_SHA256 :: "u8 list \<Rightarrow> u8 list \<Rightarrow> nat \<Rightarrow> u8 list \<Rightarrow> nat \<Rightarrow> u8 list option" where
  "PBKDF2_SHA256 passwd salt c buf dkLen =
     do { h \<leftarrow> HMAC__SHA256_Init passwd; PSh \<leftarrow> HMAC__SHA256_Update h salt (length salt);
          pbkdf2_outer PSh passwd c dkLen 0 buf }"

section \<open>FIPS 180-4\<close>

text \<open>The standard's round on the eight working variables \<open>a\<close> to \<open>h\<close>.\<close>

definition fips_ch :: "u32 \<Rightarrow> u32 \<Rightarrow> u32 \<Rightarrow> u32" where
  "fips_ch x y z = (x AND y) XOR (NOT x AND z)"

definition fips_maj :: "u32 \<Rightarrow> u32 \<Rightarrow> u32 \<Rightarrow> u32" where
  "fips_maj x y z = (x AND y) XOR (x AND z) XOR (y AND z)"

fun fips_round :: "u32 \<Rightarrow> u32 \<Rightarrow> u32 list \<Rightarrow> u32 list" where
  "fips_round w k [a, b, c, d, e, f, g, h] =
     (let T1 = h + BS1 e + fips_ch e f g + k + w; T2 = BS0 a + fips_maj a b c
      in [T1 + T2, a, b, c, d + T1, e, f, g])"
| "fips_round w k r = r"

text \<open>The constants \<open>K\<close> of the standard, in order.\<close>

definition sha256_K :: "u32 list" where
  "sha256_K = map snd sha256_calls"

definition fips_compress :: "u32 list \<Rightarrow> u8 list \<Rightarrow> u32 list" where
  "fips_compress H block =
     (let W = sha256_schedule 48 (words_of be32 block)
      in map2 (+) H (foldl (\<lambda>r i. fips_round (W ! i) (sha256_K ! i) r) H [0..<64]))"

definition fips_sha256 :: "u8 list \<Rightarrow> u8 list" where
  "fips_sha256 m =
     concat (map be32_bytes (fst (md_process fips_compress (s_state SHA256_Init)
       (m @ md_padding (length m) @ fips_length_field (length m)))))"

text \<open>RFC 2104 with SHA-256 and its 64-byte block, and RFC 8018's PBKDF2.\<close>

definition hmac_key :: "u8 list \<Rightarrow> u8 list" where
  "hmac_key K = (let K' = (if length K > 64 then fips_sha256 K else K)
                 in K' @ replicate (64 - length K') 0)"

definition hmac_sha256 :: "u8 list \<Rightarrow> u8 list \<Rightarrow> u8 list" where
  "hmac_sha256 K m =
     fips_sha256 (map (\<lambda>k. k XOR 0x5c) (hmac_key K) @
       fips_sha256 (map (\<lambda>k. k XOR 0x36) (hmac_key K) @ m))"

section \<open>The compression function is the one of the standard\<close>

lemma Ch_fips: "Ch x y z = fips_ch x y z"
  by (rule bit_word_eqI) (auto simp: Ch_def fips_ch_def bit_simps)

lemma Maj_fips: "Maj x y z = fips_maj x y z"
  by (rule bit_word_eqI) (auto simp: Maj_def fips_maj_def bit_simps)

lemma be32dec_be32: "be32dec p0 p1 p2 p3 = be32 p0 p1 p2 p3"
proof -
  let ?a = "ucast p3 :: u32" and ?b = "push_bit 8 (ucast p2) :: u32"
    and ?c = "push_bit 16 (ucast p1) :: u32" and ?d = "push_bit 24 (ucast p0) :: u32"
  have "?a + ?b = ?a OR ?b"
    by (rule disjunctive_add_eq_or) (rule bit_word_eqI, auto simp: bit_simps dest: bit_imp_le_length)
  moreover have "(?a OR ?b) + ?c = ?a OR ?b OR ?c"
    by (subst disjunctive_add_eq_or) (rule bit_word_eqI, auto simp: bit_simps ac_simps dest: bit_imp_le_length)
  moreover have "(?a OR ?b OR ?c) + ?d = ?a OR ?b OR ?c OR ?d"
    by (subst disjunctive_add_eq_or) (rule bit_word_eqI, auto simp: bit_simps ac_simps dest: bit_imp_le_length)
  ultimately show ?thesis by (simp add: be32dec_def be32_def le32_def)
qed

lemma be32enc_bytes: "be32enc = be32_bytes"
  by (rule ext) (simp add: be32enc_def be32_bytes_def byte_of_def)

text \<open>The eight working variables \<open>a .. h\<close> in the rotating array before round \<open>i\<close>.\<close>

definition sha_regs :: "nat \<Rightarrow> u32 list \<Rightarrow> u32 list" where
  "sha_regs i S = map (\<lambda>j. S ! ((64 - i + j) mod 8)) [0..<8]"

lemma length_8E:
  assumes "length (S :: 'a list) = 8"
  obtains a b c d e f g h where "S = [a, b, c, d, e, f, g, h]"
  using assms by (auto simp: length_Suc_conv eval_nat_numeral)

lemma RNDr_round:
  assumes "length S = 8" "i < 64"
  shows "sha_regs (Suc i) (RNDr S W i k) = fips_round (W ! i) k (sha_regs i S)"
proof -
  obtain q r where qr: "i = 8 * q + r" "r < 8"
    by (metis mod_less_divisor mult_div_mod_eq zero_less_numeral)
  then have "q < 8" using assms(2) by linarith
  then obtain p where p: "64 - i = 8 * p + (8 - r)" "65 - i = 8 * p + (9 - r)"
      "66 - i = 8 * p + (10 - r)" "67 - i = 8 * p + (11 - r)" "68 - i = 8 * p + (12 - r)"
      "69 - i = 8 * p + (13 - r)" "70 - i = 8 * p + (14 - r)" "71 - i = 8 * p + (15 - r)"
      "63 - i = 8 * p + (7 - r)"
    using qr by (intro that[of "7 - q"]) auto
  have m: "Suc (p * 8) mod 8 = 1" "Suc (Suc (p * 8)) mod 8 = 2" by presburger+
  consider "r = 0" | "r = 1" | "r = 2" | "r = 3" | "r = 4" | "r = 5" | "r = 6" | "r = 7"
    using qr(2) by linarith
  then show ?thesis
    using assms(1)
    by (elim length_8E; cases; simp add: sha_regs_def RNDr_def p m upt8 Let_def Ch_fips Maj_fips ac_simps)
qed

lemma length_RNDr [simp]: "length (RNDr S W i k) = length S"
  by (simp add: RNDr_def Let_def)

lemma rounds_fips:
  assumes "length S = 8" "n \<le> 64"
  shows "sha_regs n (foldl (\<lambda>S i. RNDr S W i (K ! i)) S [0..<n]) =
      foldl (\<lambda>r i. fips_round (W ! i) (K ! i) r) S [0..<n] \<and>
    length (foldl (\<lambda>S i. RNDr S W i (K ! i)) S [0..<n]) = 8"
  using assms(2)
proof (induction n)
  case 0
  have "sha_regs 0 S = S"
    using assms(1) by (elim length_8E) (simp add: sha_regs_def upt8)
  then show ?case using assms(1) by simp
next
  case (Suc n)
  then show ?case by (simp add: RNDr_round)
qed

lemma sha256_calls_regular: "sha256_calls = map (\<lambda>i. (i, sha256_K ! i)) [0..<64]"
  by code_simp

lemma SHA256_Transform_rounds:
  "SHA256_Transform state block =
     map2 (+) state (foldl (\<lambda>S i. RNDr S (sha256_schedule 48 (be32dec_vect block)) i (sha256_K ! i)) state [0..<64])"
  by (simp add: SHA256_Transform_def sha256_calls_regular foldl_map)

lemma SHA256_Transform_fips:
  assumes "length state = 8"
  shows "SHA256_Transform state block = fips_compress state block"
proof -
  have be: "be32dec_vect block = words_of be32 block"
    unfolding be32dec_vect_def
    by (induction be32dec block rule: words_of.induct) (simp_all add: be32dec_be32)
  let ?W = "sha256_schedule 48 (words_of be32 block)"
  let ?S = "foldl (\<lambda>S i. RNDr S ?W i (sha256_K ! i)) state [0..<64]"
  have r: "sha_regs 64 ?S = foldl (\<lambda>r i. fips_round (?W ! i) (sha256_K ! i) r) state [0..<64]"
    "length ?S = 8" using rounds_fips [OF assms, of 64] by simp_all
  have "sha_regs 64 ?S = ?S"
    using r(2) by (elim length_8E) (simp add: sha_regs_def upt8)
  with r be show ?thesis by (simp add: SHA256_Transform_rounds fips_compress_def Let_def)
qed

lemma length_SHA256_Transform: "length st = 8 \<Longrightarrow> length (SHA256_Transform st b) = 8"
  using rounds_fips [of st 64 "sha256_schedule 48 (be32dec_vect b)" sha256_K]
  by (simp add: SHA256_Transform_rounds)

section \<open>A context stands for a message\<close>

definition sha256_rep :: "sha256_ctx \<Rightarrow> u8 list \<Rightarrow> bool" where
  "sha256_rep c m \<longleftrightarrow> count_ok (s_count0 c) (s_count1 c) (length m) \<and>
     buf_rep SHA256_Transform (s_state SHA256_Init) (s_state c) (s_buf c) m"

lemma length_md_process:
  "length st = 8 \<Longrightarrow> length (fst (md_process SHA256_Transform st m)) = 8"
proof (induction SHA256_Transform st m rule: md_process.induct)
  case (1 st m)
  then show ?case
    by (cases "length m < 64")
       (simp_all add: md_process.simps [of SHA256_Transform st m] length_SHA256_Transform)
qed

lemma md_process_fips:
  "length st = 8 \<Longrightarrow> md_process SHA256_Transform st m = md_process fips_compress st m"
proof (induction SHA256_Transform st m rule: md_process.induct)
  case (1 st m)
  then show ?case
    by (cases "length m < 64")
       (simp_all add: md_process.simps [of _ st m] length_SHA256_Transform
          flip: SHA256_Transform_fips)
qed

lemma sha256_blocks_eq:
  assumes "off + len = length src"
  shows "sha256_blocks st src off len =
    (let (st', rest) = md_process SHA256_Transform st (drop off src)
     in Some (st', length src - length rest, length rest))"
  using assms
proof (induction st src off len rule: sha256_blocks.induct)
  case (1 st src off len)
  show ?case
  proof (cases "len \<ge> 64")
    case True
    then have "\<not> length (drop off src) < 64" using 1(2) by (auto simp: le_diff_conv)
    then have "md_process SHA256_Transform st (drop off src) =
        md_process SHA256_Transform (SHA256_Transform st (take 64 (drop off src))) (drop (off + 64) src)"
      by (subst md_process.simps) (simp only: if_False drop_drop add.commute)
    with True 1 show ?thesis by (subst sha256_blocks.simps) auto
  next
    case False
    with 1(2) show ?thesis by (subst sha256_blocks.simps) (auto simp: md_process_short)
  qed
qed

lemma SHA256_Update_rep:
  assumes rep: "sha256_rep c m" and len: "length xs < 2 ^ 32"
  shows "\<exists>c'. SHA256_Update c xs (length xs) = Some c' \<and> sha256_rep c' (m @ xs)"
proof -
  let ?r = "length m mod 64"
  have br: "buf_rep SHA256_Transform (s_state SHA256_Init) (s_state c) (s_buf c) m"
    and co: "count_ok (s_count0 c) (s_count1 c) (length m)"
    using rep by (simp_all add: sha256_rep_def)
  have l: "unat (of_nat (length xs) :: u32) = length xs" using len by (simp add: unat_of_nat)
  have b0: "(of_nat (length xs div 2 ^ 29) :: u32) = drop_bit 29 (of_nat (length xs))"
    using len by (intro word_unat_eq_iff [THEN iffD2]) (simp add: unat_of_nat drop_bit_eq_div unat_div_distrib)
  note cnt = count_add [OF co, of "of_nat (length xs)", unfolded l]
  note upd = SHA256_Update_def [of c xs "length xs", unfolded count_index [OF co] Let_def b0]
  show ?thesis
  proof (cases "length xs < 64 - ?r")
    case True
    from buf_rep_fill [OF br True] True cnt show ?thesis
      by (auto simp: upd sha256_rep_def simp del: push_bit_eq_mult)
  next
    case False
    then have ge: "64 - ?r \<le> length xs" by simp
    obtain b st' rest b' where b:
      "mem_copy (s_buf c) ?r xs 0 (64 - ?r) = Some b"
      "md_process SHA256_Transform (SHA256_Transform (s_state c) b) (drop (64 - ?r) xs) = (st', rest)"
      "mem_copy b 0 xs (length xs - length rest) (length rest) = Some b'"
      "buf_rep SHA256_Transform (s_state SHA256_Init) st' b' (m @ xs)"
      using buf_rep_blocks [OF br ge] by blast
    have "sha256_blocks (SHA256_Transform (s_state c) b) xs (64 - ?r) (length xs - (64 - ?r)) =
        Some (st', length xs - length rest, length rest)"
      using sha256_blocks_eq [of "64 - ?r" "length xs - (64 - ?r)" xs] ge b(2) by simp
    with False b cnt show ?thesis
      by (auto simp: upd sha256_rep_def simp del: push_bit_eq_mult)
  qed
qed

lemma sha256_blocks_take:
  "off + len \<le> k \<Longrightarrow> k \<le> length src \<Longrightarrow>
   sha256_blocks st (take k src) off len = sha256_blocks st src off len"
proof (induction st src off len rule: sha256_blocks.induct)
  case (1 st src off len)
  show ?case
  proof (cases "64 \<le> len")
    case True
    with 1 show ?thesis
      by (subst (1 2) sha256_blocks.simps) (simp add: drop_take min_absorb1)
  qed (simp add: sha256_blocks.simps)
qed

lemma sha256_blocks_off:
  "sha256_blocks st src off len = Some (st', off', left) \<Longrightarrow> off' + left = off + len"
proof (induction st src off len rule: sha256_blocks.induct)
  case (1 st src off len)
  then show ?case by (subst (asm) (2) sha256_blocks.simps) (auto split: if_splits)
qed

lemma SHA256_Update_take:
  assumes "len \<le> length src"
  shows "SHA256_Update c src len = SHA256_Update c (take len src) len"
  using assms
  by (cases "len < 64 - unat (drop_bit 3 (s_count1 c) AND 0x3f)")
     (auto simp: SHA256_Update_def Let_def mem_copy_take sha256_blocks_take
      dest!: sha256_blocks_off split: Option.bind_splits)

lemma SHA256_Update_rep_prefix:
  assumes "sha256_rep c m" "len \<le> length src" "len < 2 ^ 32"
  shows "\<exists>c'. SHA256_Update c src len = Some c' \<and> sha256_rep c' (m @ take len src)"
  using SHA256_Update_rep [of c m "take len src"] assms SHA256_Update_take [of len src c] by simp

lemma SHA256_Init_rep: "sha256_rep SHA256_Init []"
  by (simp add: sha256_rep_def SHA256_Init_def count_ok_def buf_rep_def md_process_short)

lemma PAD_take: "take (pad_len n) PAD = md_padding n"
  using pad_len_bounds [of n]
  by (cases "pad_len n") (simp_all add: PAD_def md_padding_def)

lemma count_length_field:
  "count_ok hi lo n \<Longrightarrow> be32enc_vect [hi, lo] = fips_length_field n"
  using count_ok_of_nat [of hi lo n]
  by (simp add: be32enc_vect_def fips_length_field_def be32enc_bytes)

lemma SHA256_Pad_rep:
  assumes "sha256_rep c m"
  shows "\<exists>c'. SHA256_Pad c = Some c' \<and>
    sha256_rep c' (m @ md_padding (length m) @ fips_length_field (length m))"
proof -
  have co: "count_ok (s_count0 c) (s_count1 c) (length m)" using assms by (simp add: sha256_rep_def)
  have pl: "(if length m mod 64 < 56 then 56 - length m mod 64 else 120 - length m mod 64) = pad_len (length m)"
    by (simp add: pad_len_def Let_def)
  have "length PAD = 64" by (simp add: PAD_def)
  then obtain c1 where c1: "SHA256_Update c PAD (pad_len (length m)) = Some c1"
    "sha256_rep c1 (m @ md_padding (length m))"
    using SHA256_Update_rep_prefix [OF assms, of "pad_len (length m)" PAD] pad_len_bounds(2) [of "length m"]
    by (auto simp: PAD_take)
  obtain c2 where "SHA256_Update c1 (fips_length_field (length m)) 8 = Some c2"
    "sha256_rep c2 ((m @ md_padding (length m)) @ fips_length_field (length m))"
    using SHA256_Update_rep [OF c1(2), of "fips_length_field (length m)"] by auto
  with c1 show ?thesis
    by (simp add: SHA256_Pad_def Let_def count_index [OF co] count_length_field [OF co] pl)
qed

lemma SHA256_Final_digest:
  assumes "sha256_rep c m"
  shows "SHA256_Final c = Some (fips_sha256 m)"
proof -
  obtain c' where "SHA256_Pad c = Some c'"
    "sha256_rep c' (m @ md_padding (length m) @ fips_length_field (length m))"
    using SHA256_Pad_rep [OF assms] by blast
  moreover have "length (s_state SHA256_Init) = 8" by (simp add: SHA256_Init_def)
  ultimately show ?thesis
    by (simp add: SHA256_Final_def sha256_rep_def buf_rep_def fips_sha256_def be32enc_vect_def
       be32enc_bytes flip: md_process_fips)
qed

interpretation sha: stream_hash "\<lambda>c xs. SHA256_Update c xs (length xs)" SHA256_Final SHA256_Init
    sha256_rep fips_sha256 "2 ^ 32"
  by unfold_locales (blast intro: SHA256_Init_rep SHA256_Update_rep SHA256_Final_digest)+

lemma length_fips_sha256 [simp]: "length (fips_sha256 m) = 32"
proof -
  have "length (fst (md_process fips_compress (s_state SHA256_Init) x)) = 8" for x
    using length_md_process [of "s_state SHA256_Init" x]
    by (simp add: SHA256_Init_def flip: md_process_fips)
  then show ?thesis by (simp add: fips_sha256_def length_concat comp_def sum_list_triv)
qed

lemma SHA256_bytewise: "SHA256 str = Some (fips_sha256 str @ [0])"
proof -
  obtain c where "update_all (\<lambda>c xs. SHA256_Update c xs (length xs)) SHA256_Init (map (\<lambda>x. [x]) str) = Some c"
    "SHA256_Final c = Some (fips_sha256 str)"
    using sha.bytewise_digest [of str] by (auto simp: bind_eq_Some_conv)
  then show ?thesis by (simp add: SHA256_def)
qed

lemma sha256_digest: "length input < 2 ^ 32 \<Longrightarrow> sha256 input = Some (fips_sha256 input)"
  using sha.one_shot_digest [of input] by (simp add: sha256_def)

lemma sha256_hex_digest:
  assumes "length input < 2 ^ 32" "64 \<le> outputlen" "outputlen \<le> length output"
  shows "sha256_hex input output outputlen =
    Some (hex_digits (fips_sha256 input) @ (if outputlen > 64 then 0 # drop 65 output else drop 64 output))"
  using assms
  by (auto simp: sha256_hex_def sha256_digest mem_copy_Some mem_write_Some nth_append list_update_append
      Cons_nth_drop_Suc [symmetric])

subsection \<open>HMAC and PBKDF2\<close>

lemma length_hmac_key: "length (hmac_key K) = 64"
  by (auto simp: hmac_key_def Let_def)

lemma hmac_pad_key:
  "length K \<le> 64 \<Longrightarrow> hmac_pad v K = map (\<lambda>k. k XOR v) (K @ replicate (64 - length K) 0)"
  by (rule nth_equalityI) (auto simp: hmac_pad_def nth_append ac_simps)

definition hmac_rep :: "u8 list \<Rightarrow> hmac_ctx \<Rightarrow> u8 list \<Rightarrow> bool" where
  "hmac_rep K h m \<longleftrightarrow>
     sha256_rep (h_ictx h) (map (\<lambda>k. k XOR 0x36) (hmac_key K) @ m) \<and>
     sha256_rep (h_octx h) (map (\<lambda>k. k XOR 0x5c) (hmac_key K))"

lemma HMAC__SHA256_Init_rep:
  assumes "length K < 2 ^ 32"
  shows "\<exists>h. HMAC__SHA256_Init K = Some h \<and> hmac_rep K h []"
proof -
  define K' where "K' = (if length K > 64 then fips_sha256 K else K)"
  have key: "hmac_key K = K' @ replicate (64 - length K') 0" "length K' \<le> 64"
    by (simp_all add: hmac_key_def K'_def Let_def)
  have i: "\<exists>c. SHA256_Update SHA256_Init (hmac_pad v K') 64 = Some c \<and>
      sha256_rep c (map (\<lambda>k. k XOR v) (hmac_key K))" for v
    using SHA256_Update_rep [OF SHA256_Init_rep, of "hmac_pad v K'"] key
    by (simp add: hmac_pad_key)
  have "(if length K > 64 then do { c \<leftarrow> SHA256_Update SHA256_Init K (length K); SHA256_Final c }
      else Some K) = Some K'"
    using sha.one_shot_digest [OF assms] by (simp add: K'_def)
  with i [of "0x36"] i [of "0x5c"] show ?thesis
    by (auto simp: HMAC__SHA256_Init_def hmac_rep_def)
qed

lemma HMAC__SHA256_Update_rep:
  assumes "hmac_rep K h m" "length xs < 2 ^ 32"
  shows "\<exists>h'. HMAC__SHA256_Update h xs (length xs) = Some h' \<and> hmac_rep K h' (m @ xs)"
  using assms SHA256_Update_rep [of "h_ictx h" "map (\<lambda>k. k XOR 0x36) (hmac_key K) @ m" xs]
  by (auto simp: HMAC__SHA256_Update_def hmac_rep_def)

lemma HMAC__SHA256_Final_digest:
  assumes "hmac_rep K h m"
  shows "HMAC__SHA256_Final h = Some (hmac_sha256 K m)"
proof -
  let ?i = "fips_sha256 (map (\<lambda>k. k XOR 0x36) (hmac_key K) @ m)"
  have "SHA256_Final (h_ictx h) = Some ?i"
    using assms by (intro SHA256_Final_digest) (simp add: hmac_rep_def)
  moreover obtain c where "SHA256_Update (h_octx h) ?i 32 = Some c"
    "sha256_rep c (map (\<lambda>k. k XOR 0x5c) (hmac_key K) @ ?i)"
    using SHA256_Update_rep [of "h_octx h" _ ?i] assms by (auto simp: hmac_rep_def)
  ultimately show ?thesis
    by (simp add: HMAC__SHA256_Final_def SHA256_Final_digest hmac_sha256_def)
qed

lemma length_hmac_sha256 [simp]: "length (hmac_sha256 K m) = 32"
  by (simp add: hmac_sha256_def)

text \<open>RFC 8018: the block \<open>T_i\<close> is the exclusive or of the iterates \<open>U_1 .. U_c\<close>.\<close>

fun pbkdf2_U :: "u8 list \<Rightarrow> u8 list \<Rightarrow> nat \<Rightarrow> u8 list" where
  "pbkdf2_U P S1 0 = hmac_sha256 P S1"
| "pbkdf2_U P S1 (Suc j) = hmac_sha256 P (pbkdf2_U P S1 j)"

definition pbkdf2_F :: "u8 list \<Rightarrow> u8 list \<Rightarrow> nat \<Rightarrow> nat \<Rightarrow> u8 list" where
  "pbkdf2_F P S c i =
     (let S1 = S @ be32_bytes (of_nat i)
      in foldl (map2 (XOR)) (pbkdf2_U P S1 0) (map (pbkdf2_U P S1) [1..<c]))"

definition pbkdf2_DK :: "u8 list \<Rightarrow> u8 list \<Rightarrow> nat \<Rightarrow> nat \<Rightarrow> u8 list" where
  "pbkdf2_DK P S c dkLen =
     take dkLen (concat (map (pbkdf2_F P S c) [1..<Suc ((dkLen + 31) div 32)]))"

lemma length_pbkdf2_U [simp]: "length (pbkdf2_U P S1 j) = 32"
  by (cases j) simp_all

lemma pbkdf2_inner_spec:
  assumes "length P < 2 ^ 32"
  shows "pbkdf2_inner P n (pbkdf2_U P S1 j) T =
    Some (foldl (map2 (XOR)) T (map (pbkdf2_U P S1) [Suc j..<Suc j + n]))"
proof (induction n arbitrary: j T)
  case (Suc n)
  obtain h where h: "HMAC__SHA256_Init P = Some h" "hmac_rep P h []"
    using HMAC__SHA256_Init_rep [OF assms] by blast
  obtain h1 where h1: "HMAC__SHA256_Update h (pbkdf2_U P S1 j) 32 = Some h1"
    "hmac_rep P h1 (pbkdf2_U P S1 j)"
    using HMAC__SHA256_Update_rep [OF h(2), of "pbkdf2_U P S1 j"] by auto
  have "HMAC__SHA256_Final h1 = Some (pbkdf2_U P S1 (Suc j))"
    using HMAC__SHA256_Final_digest [OF h1(2)] by simp
  with h h1 Suc [of "Suc j"] show ?case
    by (simp add: upt_conv_Cons del: upt_Suc pbkdf2_U.simps)
qed simp


lemma length_foldl_map2:
  "\<forall>y \<in> set ys. length y = length x \<Longrightarrow> length (foldl (map2 f) x ys) = length x"
  by (induction ys arbitrary: x) auto

lemma length_pbkdf2_F [simp]: "length (pbkdf2_F P S c i) = 32"
  by (simp add: pbkdf2_F_def Let_def length_foldl_map2 del: pbkdf2_U.simps)

definition pbkdf2_blocks :: "u8 list \<Rightarrow> u8 list \<Rightarrow> nat \<Rightarrow> nat \<Rightarrow> u8 list" where
  "pbkdf2_blocks P S c n = concat (map (pbkdf2_F P S c) [1..<Suc n])"

lemma length_pbkdf2_blocks [simp]: "length (pbkdf2_blocks P S c n) = 32 * n"
  by (induction n) (simp_all add: pbkdf2_blocks_def)

lemma pbkdf2_blocks_Suc: "pbkdf2_blocks P S c (Suc n) = pbkdf2_blocks P S c n @ pbkdf2_F P S c (Suc n)"
  by (simp add: pbkdf2_blocks_def)

lemma pbkdf2_outer_spec:
  assumes "hmac_rep P PSh S" "length P < 2 ^ 32" "1 \<le> c" "dkLen \<le> length buf"
    "take (min (32 * i) dkLen) buf = take dkLen (pbkdf2_blocks P S c i)"
  shows "pbkdf2_outer PSh P c dkLen i buf =
    Some (take dkLen (pbkdf2_blocks P S c (max i ((dkLen + 31) div 32))) @ drop dkLen buf)"
  using assms
proof (induction PSh P c dkLen i buf rule: pbkdf2_outer.induct)
  case (1 PSh P c dkLen i buf)
  note [simp del] = pbkdf2_U.simps
  show ?case
  proof (cases "i * 32 < dkLen")
    case True
    let ?S = "S @ be32_bytes (of_nat (i + 1))" and ?n = "min (dkLen - i * 32) 32"
    let ?T = "pbkdf2_F P S c (i + 1)"
    obtain h where h: "HMAC__SHA256_Update PSh (be32enc (of_nat (i + 1))) 4 = Some h" "hmac_rep P h ?S"
      using HMAC__SHA256_Update_rep [OF "1.prems"(1), of "be32_bytes (of_nat (i + 1))"]
      by (auto simp: be32enc_bytes)
    have U: "HMAC__SHA256_Final h = Some (pbkdf2_U P ?S 0)"
      using HMAC__SHA256_Final_digest [OF h(2)] by (simp add: pbkdf2_U.simps)
    have T: "pbkdf2_inner P (c - 1) (pbkdf2_U P ?S 0) (pbkdf2_U P ?S 0) = Some ?T"
      using pbkdf2_inner_spec [OF "1.prems"(2), of "c - 1" ?S 0] "1.prems"(3)
      by (simp add: pbkdf2_F_def Let_def)
    define buf' where "buf' = take (i * 32) buf @ take ?n ?T @ drop (i * 32 + ?n) buf"
    have cp: "mem_copy buf (i * 32) ?T 0 ?n = Some buf'"
      using "1.prems"(4) True by (simp add: mem_copy_Some buf'_def)
    have len: "length buf' = length buf" by (rule mem_copy_length [OF cp])
    have pre: "take (i * 32) buf = pbkdf2_blocks P S c i"
      using "1.prems"(5) True by (simp add: min_absorb1 mult.commute)
    have inv: "take (min (32 * (i + 1)) dkLen) buf' = take dkLen (pbkdf2_blocks P S c (i + 1))"
    proof -
      have "min (32 * (i + 1)) dkLen = i * 32 + ?n" using True by (auto simp: min_def)
      then show ?thesis using True "1.prems"(4) by (simp add: buf'_def pre pbkdf2_blocks_Suc min_def mult.commute [of i] pre [unfolded mult.commute [of i]])
    qed
    have rest: "drop dkLen buf' = drop dkLen buf"
      using True "1.prems"(4) by (simp add: buf'_def pre min_def)
    have "max (i + 1) ((dkLen + 31) div 32) = max i ((dkLen + 31) div 32)" using True by linarith
    then show ?thesis
      using True h U T cp len inv rest
        "1.IH" [OF True h(1) U T cp "1.prems"(1-3)] "1.prems"(4)
      by (subst pbkdf2_outer.simps) simp
  next
    case False
    then have "max i ((dkLen + 31) div 32) = i" "min (32 * i) dkLen = dkLen" by auto
    with False "1.prems"(5) show ?thesis
      by (subst pbkdf2_outer.simps) (metis append_take_drop_id)
  qed
qed

lemma PBKDF2_SHA256_spec:
  assumes "length P < 2 ^ 32" "length S < 2 ^ 32" "1 \<le> c" "dkLen \<le> length buf"
  shows "PBKDF2_SHA256 P S c buf dkLen = Some (pbkdf2_DK P S c dkLen @ drop dkLen buf)"
proof -
  obtain h where h: "HMAC__SHA256_Init P = Some h" "hmac_rep P h []"
    using HMAC__SHA256_Init_rep [OF assms(1)] by blast
  obtain h1 where h1: "HMAC__SHA256_Update h S (length S) = Some h1" "hmac_rep P h1 S"
    using HMAC__SHA256_Update_rep [OF h(2) assms(2)] by auto
  have "pbkdf2_blocks P S c 0 = []" by (simp add: pbkdf2_blocks_def)
  with pbkdf2_outer_spec [OF h1(2) assms(1,3,4), of 0] h h1 show ?thesis
    by (simp add: PBKDF2_SHA256_def pbkdf2_DK_def pbkdf2_blocks_def)
qed

end
