(* ===== verification/Sha1.thy ===== *)
theory Sha1
  imports Block_Hash
begin

text \<open>
  SHA-1 of \<^verbatim>\<open>src/util/sha1.c\<close>. The 80 unrolled macro calls are a table of macro name, register
  numbers and word index; the message block is the 16-word array the macros overwrite in
  place (the little-endian build of \<open>blk0\<close>). The compression function is shown equal to the one
  of FIPS 180-4, which has an 80-word schedule and shifts its five variables, and
  \<open>SHA1Final\<close> to return the FIPS digest of everything fed to the context.
\<close>

section \<open>Model\<close>

record sha1_ctx =
  h_state :: "u32 list"
  h_count0 :: u32
  h_count1 :: u32
  h_buffer :: "u8 list"

datatype sha1_macro = R0 | R1 | R2 | R3 | R4

text \<open>
  The macros on the registers \<open>r\<close> (\<open>a .. e\<close> are numbered 0 to 4) and the block \<open>l\<close>. \<open>blk0\<close>
  and \<open>blk\<close> store the word they return.
\<close>

definition blk0 :: "u32 list \<Rightarrow> nat \<Rightarrow> u32" where
  "blk0 l i = (rotl32 (l ! i) 24 AND 0xFF00FF00) OR (rotl32 (l ! i) 8 AND 0x00FF00FF)"

definition blk :: "u32 list \<Rightarrow> nat \<Rightarrow> u32" where
  "blk l i = rotl32 (l ! ((i + 13) mod 16) XOR l ! ((i + 8) mod 16) XOR l ! ((i + 2) mod 16) XOR
     l ! (i mod 16)) 1"

definition sha1_mix :: "sha1_macro \<Rightarrow> u32 \<Rightarrow> u32 \<Rightarrow> u32 \<Rightarrow> u32" where
  "sha1_mix mac w x y =
     (case mac of R0 \<Rightarrow> ((w AND (x XOR y)) XOR y)
      | R1 \<Rightarrow> ((w AND (x XOR y)) XOR y)
      | R2 \<Rightarrow> w XOR x XOR y
      | R3 \<Rightarrow> ((w OR x) AND y) OR (w AND x)
      | R4 \<Rightarrow> w XOR x XOR y)"

definition sha1_const :: "sha1_macro \<Rightarrow> u32" where
  "sha1_const mac =
     (case mac of R0 \<Rightarrow> 0x5A827999 | R1 \<Rightarrow> 0x5A827999 | R2 \<Rightarrow> 0x6ED9EBA1
      | R3 \<Rightarrow> 0x8F1BBCDC | R4 \<Rightarrow> 0xCA62C1D6)"

fun sha1_step :: "u32 list \<times> u32 list \<Rightarrow>
    sha1_macro \<times> nat \<times> nat \<times> nat \<times> nat \<times> nat \<times> nat \<Rightarrow> u32 list \<times> u32 list" where
  "sha1_step (r, l) (mac, v, w, x, y, z, i) =
     (let b = (if mac = R0 then blk0 l i else blk l i);
          r1 = r[z := r ! z + (sha1_mix mac (r ! w) (r ! x) (r ! y) + b + sha1_const mac + rotl32 (r ! v) 5)]
      in (r1[w := rotl32 (r1 ! w) 30], l[(if mac = R0 then i else i mod 16) := b]))"

definition sha1_calls :: "(sha1_macro \<times> nat \<times> nat \<times> nat \<times> nat \<times> nat \<times> nat) list" where
  "sha1_calls = [
      (R0, 0, 1, 2, 3, 4, 0), (R0, 4, 0, 1, 2, 3, 1), (R0, 3, 4, 0, 1, 2, 2), (R0, 2, 3, 4, 0, 1, 3),
      (R0, 1, 2, 3, 4, 0, 4), (R0, 0, 1, 2, 3, 4, 5), (R0, 4, 0, 1, 2, 3, 6), (R0, 3, 4, 0, 1, 2, 7),
      (R0, 2, 3, 4, 0, 1, 8), (R0, 1, 2, 3, 4, 0, 9), (R0, 0, 1, 2, 3, 4, 10), (R0, 4, 0, 1, 2, 3, 11),
      (R0, 3, 4, 0, 1, 2, 12), (R0, 2, 3, 4, 0, 1, 13), (R0, 1, 2, 3, 4, 0, 14), (R0, 0, 1, 2, 3, 4, 15),
      (R1, 4, 0, 1, 2, 3, 16), (R1, 3, 4, 0, 1, 2, 17), (R1, 2, 3, 4, 0, 1, 18), (R1, 1, 2, 3, 4, 0, 19),
      (R2, 0, 1, 2, 3, 4, 20), (R2, 4, 0, 1, 2, 3, 21), (R2, 3, 4, 0, 1, 2, 22), (R2, 2, 3, 4, 0, 1, 23),
      (R2, 1, 2, 3, 4, 0, 24), (R2, 0, 1, 2, 3, 4, 25), (R2, 4, 0, 1, 2, 3, 26), (R2, 3, 4, 0, 1, 2, 27),
      (R2, 2, 3, 4, 0, 1, 28), (R2, 1, 2, 3, 4, 0, 29), (R2, 0, 1, 2, 3, 4, 30), (R2, 4, 0, 1, 2, 3, 31),
      (R2, 3, 4, 0, 1, 2, 32), (R2, 2, 3, 4, 0, 1, 33), (R2, 1, 2, 3, 4, 0, 34), (R2, 0, 1, 2, 3, 4, 35),
      (R2, 4, 0, 1, 2, 3, 36), (R2, 3, 4, 0, 1, 2, 37), (R2, 2, 3, 4, 0, 1, 38), (R2, 1, 2, 3, 4, 0, 39),
      (R3, 0, 1, 2, 3, 4, 40), (R3, 4, 0, 1, 2, 3, 41), (R3, 3, 4, 0, 1, 2, 42), (R3, 2, 3, 4, 0, 1, 43),
      (R3, 1, 2, 3, 4, 0, 44), (R3, 0, 1, 2, 3, 4, 45), (R3, 4, 0, 1, 2, 3, 46), (R3, 3, 4, 0, 1, 2, 47),
      (R3, 2, 3, 4, 0, 1, 48), (R3, 1, 2, 3, 4, 0, 49), (R3, 0, 1, 2, 3, 4, 50), (R3, 4, 0, 1, 2, 3, 51),
      (R3, 3, 4, 0, 1, 2, 52), (R3, 2, 3, 4, 0, 1, 53), (R3, 1, 2, 3, 4, 0, 54), (R3, 0, 1, 2, 3, 4, 55),
      (R3, 4, 0, 1, 2, 3, 56), (R3, 3, 4, 0, 1, 2, 57), (R3, 2, 3, 4, 0, 1, 58), (R3, 1, 2, 3, 4, 0, 59),
      (R4, 0, 1, 2, 3, 4, 60), (R4, 4, 0, 1, 2, 3, 61), (R4, 3, 4, 0, 1, 2, 62), (R4, 2, 3, 4, 0, 1, 63),
      (R4, 1, 2, 3, 4, 0, 64), (R4, 0, 1, 2, 3, 4, 65), (R4, 4, 0, 1, 2, 3, 66), (R4, 3, 4, 0, 1, 2, 67),
      (R4, 2, 3, 4, 0, 1, 68), (R4, 1, 2, 3, 4, 0, 69), (R4, 0, 1, 2, 3, 4, 70), (R4, 4, 0, 1, 2, 3, 71),
      (R4, 3, 4, 0, 1, 2, 72), (R4, 2, 3, 4, 0, 1, 73), (R4, 1, 2, 3, 4, 0, 74), (R4, 0, 1, 2, 3, 4, 75),
      (R4, 4, 0, 1, 2, 3, 76), (R4, 3, 4, 0, 1, 2, 77), (R4, 2, 3, 4, 0, 1, 78), (R4, 1, 2, 3, 4, 0, 79)]"

definition SHA1Transform :: "u32 list \<Rightarrow> u8 list \<Rightarrow> u32 list" where
  "SHA1Transform state buffer =
     (let (r, l) = foldl sha1_step (state, words_of le32 buffer) sha1_calls
      in map2 (+) state r)"

definition SHA1Init :: sha1_ctx where
  "SHA1Init = \<lparr>h_state = [0x67452301, 0xEFCDAB89, 0x98BADCFE, 0x10325476, 0xC3D2E1F0],
     h_count0 = 0, h_count1 = 0, h_buffer = replicate 64 0\<rparr>"

text \<open>
  The loop over complete blocks, with \<open>i\<close> an \<open>uint32_t\<close>: \<open>i + 63\<close> wraps when \<open>len\<close> is close
  to \<open>2 ^ 32\<close>, and the loop may then run forever.
\<close>

partial_function (option) sha1_blocks ::
    "u32 list \<Rightarrow> u8 list \<Rightarrow> nat \<Rightarrow> nat \<Rightarrow> (u32 list \<times> nat) option" where
  "sha1_blocks st data len i =
     (if (i + 63) mod 2 ^ 32 < len
      then (if i + 64 \<le> length data
            then sha1_blocks (SHA1Transform st (take 64 (drop i data))) data len ((i + 64) mod 2 ^ 32)
            else None)
      else Some (st, i))"

declare sha1_blocks.simps [code]

definition SHA1Update :: "sha1_ctx \<Rightarrow> u8 list \<Rightarrow> nat \<Rightarrow> sha1_ctx option" where
  "SHA1Update context data len =
     (let j0 = h_count0 context;
          c0 = j0 + push_bit 3 (of_nat len);
          c1 = (if c0 < j0 then h_count1 context + 1 else h_count1 context) + drop_bit 29 (of_nat len);
          ctx1 = context\<lparr>h_count0 := c0, h_count1 := c1\<rparr>;
          j = unat (drop_bit 3 j0 AND 63) in
      if (j + len) mod 2 ^ 32 > 63
      then do {
        b \<leftarrow> mem_copy (h_buffer ctx1) j data 0 (64 - j);
        (st, i) \<leftarrow> sha1_blocks (SHA1Transform (h_state ctx1) b) data len (64 - j);
        b' \<leftarrow> mem_copy b 0 data i (to_uint (int len - int i));
        Some (ctx1\<lparr>h_state := st, h_buffer := b'\<rparr>)
      }
      else do { b \<leftarrow> mem_copy (h_buffer ctx1) j data 0 len; Some (ctx1\<lparr>h_buffer := b\<rparr>) })"

text \<open>Zero bytes until the bit count is 448 modulo 512.\<close>

partial_function (option) sha1_pad_loop :: "sha1_ctx \<Rightarrow> sha1_ctx option" where
  "sha1_pad_loop context =
     (if h_count0 context AND 504 \<noteq> 448
      then do { c \<leftarrow> SHA1Update context [0] 1; sha1_pad_loop c }
      else Some context)"

declare sha1_pad_loop.simps [code]

definition SHA1Final :: "sha1_ctx \<Rightarrow> u8 list option" where
  "SHA1Final context =
     (let finalcount = map (\<lambda>i. ucast (drop_bit ((3 - i mod 4) * 8)
            (if i \<ge> 4 then h_count0 context else h_count1 context) AND 255)) [0..<8] in
      do { c1 \<leftarrow> SHA1Update context [0x80] 1;
           c2 \<leftarrow> sha1_pad_loop c1;
           c3 \<leftarrow> SHA1Update c2 finalcount 8;
           Some (map (\<lambda>i. ucast (drop_bit ((3 - i mod 4) * 8) (h_state c3 ! (i div 4)) AND 255)) [0..<20]) })"

text \<open>\<open>SHA1\<close> feeds the message byte by byte and appends a terminator, \<open>sha1\<close> at once.\<close>

definition SHA1 :: "u8 list \<Rightarrow> u8 list option" where
  "SHA1 str =
     do { c \<leftarrow> update_all (\<lambda>c xs. SHA1Update c xs (length xs)) SHA1Init (map (\<lambda>x. [x]) str);
          d \<leftarrow> SHA1Final c; Some (d @ [0]) }"

definition sha1 :: "u8 list \<Rightarrow> u8 list option" where
  "sha1 input = do { c \<leftarrow> SHA1Update SHA1Init input (length input); SHA1Final c }"

definition sha1_hex :: "u8 list \<Rightarrow> u8 list \<Rightarrow> nat \<Rightarrow> u8 list option" where
  "sha1_hex input output outputlen =
     (if outputlen < 40 then Some output
      else do {
        d \<leftarrow> sha1 input;
        o1 \<leftarrow> mem_copy output 0 (hex_digits d) 0 40;
        (if outputlen > 40 then mem_write o1 40 0 else Some o1)
      })"

section \<open>FIPS 180-4\<close>

fun fips_sha1_schedule :: "nat \<Rightarrow> u32 list \<Rightarrow> u32 list" where
  "fips_sha1_schedule 0 W = W"
| "fips_sha1_schedule (Suc n) W =
     (let t = length W
      in fips_sha1_schedule n (W @ [rotl32 (W ! (t - 3) XOR W ! (t - 8) XOR W ! (t - 14) XOR W ! (t - 16)) 1]))"

definition fips_sha1_f :: "nat \<Rightarrow> u32 \<Rightarrow> u32 \<Rightarrow> u32 \<Rightarrow> u32" where
  "fips_sha1_f t x y z =
     (if t < 20 then (x AND y) XOR (NOT x AND z)
      else if t < 40 then x XOR y XOR z
      else if t < 60 then (x AND y) XOR (x AND z) XOR (y AND z)
      else x XOR y XOR z)"

definition fips_sha1_K :: "nat \<Rightarrow> u32" where
  "fips_sha1_K t = (if t < 20 then 0x5a827999 else if t < 40 then 0x6ed9eba1
     else if t < 60 then 0x8f1bbcdc else 0xca62c1d6)"

fun fips_sha1_round :: "u32 list \<Rightarrow> u32 list \<Rightarrow> nat \<Rightarrow> u32 list" where
  "fips_sha1_round W [a, b, c, d, e] t =
     [rotl32 a 5 + fips_sha1_f t b c d + e + fips_sha1_K t + W ! t, a, rotl32 b 30, c, d]"
| "fips_sha1_round W r t = r"

definition fips_sha1_compress :: "u32 list \<Rightarrow> u8 list \<Rightarrow> u32 list" where
  "fips_sha1_compress H block =
     map2 (+) H (foldl (fips_sha1_round (fips_sha1_schedule 64 (words_of be32 block))) H [0..<80])"

definition fips_sha1 :: "u8 list \<Rightarrow> u8 list" where
  "fips_sha1 m =
     concat (map be32_bytes (fst (md_process fips_sha1_compress (h_state SHA1Init)
       (m @ md_padding (length m) @ fips_length_field (length m)))))"

section \<open>The compression function is the one of the standard\<close>

lemma upt32: "[0..<32] = [0, 1, 2, 3, 4, 5, 6, 7, 8, 9, 10, 11, 12, 13, 14, 15, 16, 17, 18, 19, 20, 21, 22, 23, 24, 25, 26, 27, 28, 29, 30, 31 :: nat]"
  by code_simp

lemma less_32_set: "n < 32 \<Longrightarrow> n \<in> set [0, 1, 2, 3, 4, 5, 6, 7, 8, 9, 10, 11, 12, 13, 14, 15, 16, 17, 18, 19, 20, 21, 22, 23, 24, 25, 26, 27, 28, 29, 30, 31 :: nat]"
  using upt32 by (metis atLeastLessThan_iff atLeastLessThan_upt zero_le)

text \<open>The masked rotations of \<open>blk0\<close> reverse the bytes of a little-endian load.\<close>

lemma blk0_swap:
  "(rotl32 (le32 b0 b1 b2 b3) 24 AND 0xFF00FF00) OR (rotl32 (le32 b0 b1 b2 b3) 8 AND 0x00FF00FF) =
   be32 b0 b1 b2 b3" (is "?l = ?r")
proof (rule bit_word_eqI)
  fix n assume "n < LENGTH(32)"
  then have "n \<in> set [0, 1, 2, 3, 4, 5, 6, 7, 8, 9, 10, 11, 12, 13, 14, 15, 16, 17, 18, 19, 20, 21, 22, 23, 24, 25, 26, 27, 28, 29, 30, 31]"
    by (intro less_32_set) simp
  then show "bit ?l n = bit ?r n"
    unfolding list.set
    by (elim insertE emptyE; simp add: bit_simps rotl32_def le32_def be32_def bit_numeral_rec)
qed

text \<open>The variables \<open>a .. e\<close> of the standard before round \<open>t\<close>, and the macro call of round \<open>t\<close>.\<close>

definition sha1_regs :: "nat \<Rightarrow> u32 list \<Rightarrow> u32 list" where
  "sha1_regs t r = map (\<lambda>j. r ! ((80 - t + j) mod 5)) [0..<5]"

definition sha1_kind :: "nat \<Rightarrow> sha1_macro" where
  "sha1_kind t = (if t < 16 then R0 else if t < 20 then R1 else if t < 40 then R2 else if t < 60 then R3 else R4)"

definition sha1_call :: "nat \<Rightarrow> sha1_macro \<times> nat \<times> nat \<times> nat \<times> nat \<times> nat \<times> nat" where
  "sha1_call t = (sha1_kind t, (80 - t) mod 5, (81 - t) mod 5, (82 - t) mod 5, (83 - t) mod 5, (84 - t) mod 5, t)"

lemma sha1_calls_regular: "sha1_calls = map sha1_call [0..<80]"
  by code_simp

lemma sha1_mix_fips: "t < 80 \<Longrightarrow> sha1_mix (sha1_kind t) x y z = fips_sha1_f t x y z"
  by (rule bit_word_eqI) (auto simp: sha1_mix_def sha1_kind_def fips_sha1_f_def bit_simps)

lemma sha1_const_fips: "sha1_const (sha1_kind t) = fips_sha1_K t"
  by (simp add: sha1_const_def sha1_kind_def fips_sha1_K_def)

lemma length_5E:
  assumes "length (S :: 'a list) = 5"
  obtains a b c d e where "S = [a, b, c, d, e]"
  using assms by (auto simp: length_Suc_conv eval_nat_numeral)

lemma upt5: "[0..<5] = [0, 1, 2, 3, 4::nat]" by code_simp

lemma sha1_step_regs:
  assumes "length r = 5" "t < 80"
    "W ! t = (if sha1_kind t = R0 then blk0 l t else blk l t)"
  shows "sha1_regs (Suc t) (fst (sha1_step (r, l) (sha1_call t))) = fips_sha1_round W (sha1_regs t r) t"
proof -
  obtain q s where qs: "t = 5 * q + s" "s < 5"
    by (metis mod_less_divisor mult_div_mod_eq zero_less_numeral)
  then have "q < 16" using assms(2) by linarith
  then obtain p where p: "80 - t = 5 * p + (5 - s)" "81 - t = 5 * p + (6 - s)"
      "82 - t = 5 * p + (7 - s)" "83 - t = 5 * p + (8 - s)" "84 - t = 5 * p + (9 - s)"
      "79 - t = 5 * p + (4 - s)"
    using qs by (intro that[of "15 - q"]) auto
  have m: "Suc (p * 5) mod 5 = 1" "Suc (Suc (p * 5)) mod 5 = 2" "Suc (5 * p) mod 5 = 1" "Suc (Suc (5 * p)) mod 5 = 2" by presburger+
  consider "s = 0" | "s = 1" | "s = 2" | "s = 3" | "s = 4"
    using qs(2) by linarith
  then show ?thesis
    using assms(1)
    by (elim length_5E; cases; simp add: sha1_regs_def sha1_call_def p m upt5 Let_def sha1_mix_fips [OF assms(2)]
        sha1_const_fips assms(3) ac_simps)
qed


lemma blk0_words:
  "i < length (words_of le32 bs) \<Longrightarrow> blk0 (words_of le32 bs) i = words_of be32 bs ! i"
proof (induction le32 bs arbitrary: i rule: words_of.induct)
  case (1 b0 b1 b2 b3 bs)
  then show ?case by (cases i) (simp_all add: blk0_def blk0_swap)
qed simp_all

lemma fips_sha1_schedule_prefix:
  "length (fips_sha1_schedule n W) = length W + n"
  "k < length W \<Longrightarrow> fips_sha1_schedule n W ! k = W ! k"
  by (induction n W arbitrary: k rule: fips_sha1_schedule.induct) (auto simp: Let_def nth_append)

lemma fips_sha1_schedule_rec:
  assumes "length W \<le> t" "t < length W + n" "16 \<le> length W"
  shows "fips_sha1_schedule n W ! t =
    (let S = fips_sha1_schedule n W
     in rotl32 (S ! (t - 3) XOR S ! (t - 8) XOR S ! (t - 14) XOR S ! (t - 16)) 1)"
  using assms
proof (induction n W rule: fips_sha1_schedule.induct)
  case (2 n W)
  show ?case
  proof (cases "t = length W")
    case True
    with 2 show ?thesis by (simp add: Let_def fips_sha1_schedule_prefix nth_append)
  next
    case False
    with 2 show ?thesis by (simp add: Let_def)
  qed
qed simp

text \<open>
  The block before round \<open>t\<close>: words not yet reached are as loaded, and the last 16 words of the
  schedule are at their index modulo 16.
\<close>

definition sha1_block_ok :: "u32 list \<Rightarrow> u32 list \<Rightarrow> nat \<Rightarrow> u32 list \<Rightarrow> bool" where
  "sha1_block_ok raw W t l \<longleftrightarrow> length l = 16 \<and> (\<forall>k. t \<le> k \<and> k < 16 \<longrightarrow> l ! k = raw ! k) \<and>
     (\<forall>k. k < t \<and> t \<le> k + 16 \<longrightarrow> l ! (k mod 16) = W ! k)"

lemma sha1_block_word:
  assumes "sha1_block_ok (words_of le32 bs) W t l" "length bs = 64" "t < 80"
    "W = fips_sha1_schedule 64 (words_of be32 bs)"
  shows "W ! t = (if sha1_kind t = R0 then blk0 l t else blk l t)"
proof (cases "t < 16")
  case True
  have "length (words_of le32 bs) = 16" "length (words_of be32 bs) = 16"
    using assms(2) by (simp_all add: length_words_of)
  moreover have "blk0 l t = blk0 (words_of le32 bs) t"
    using assms(1) True by (simp add: blk0_def sha1_block_ok_def)
  ultimately show ?thesis
    using True assms(4) by (simp add: sha1_kind_def blk0_words fips_sha1_schedule_prefix)
next
  case False
  have l: "l ! (k mod 16) = W ! k" if "k < t" "t \<le> k + 16" for k
    using assms(1) that by (simp add: sha1_block_ok_def)
  have m: "(t + 13) mod 16 = (t - 3) mod 16" "(t + 8) mod 16 = (t - 8) mod 16"
    "(t + 2) mod 16 = (t - 14) mod 16" "t mod 16 = (t - 16) mod 16"
    using False mod_add_self2 [of "t - 3" 16] mod_add_self2 [of "t - 8" 16]
      mod_add_self2 [of "t - 14" 16] mod_add_self2 [of "t - 16" 16] by (simp_all add: add.commute)
  have "blk l t = rotl32 (W ! (t - 3) XOR W ! (t - 8) XOR W ! (t - 14) XOR W ! (t - 16)) 1"
    unfolding blk_def m using False by (simp add: l)
  moreover have "length (words_of be32 bs) = 16" using assms(2) by (simp add: length_words_of)
  ultimately show ?thesis
    using False assms(3,4) fips_sha1_schedule_rec [of "words_of be32 bs" t 64]
    by (simp add: sha1_kind_def Let_def)
qed

lemma sha1_block_step:
  assumes "sha1_block_ok raw W t l" "W ! t = (if sha1_kind t = R0 then blk0 l t else blk l t)"
  shows "sha1_block_ok raw W (Suc t) (snd (sha1_step (r, l) (sha1_call t)))"
proof -
  have *: "snd (sha1_step (r, l) (sha1_call t)) = l[t mod 16 := W ! t]"
    using assms(2) by (auto simp: sha1_call_def sha1_kind_def Let_def)
  have uniq: "k mod 16 \<noteq> t mod 16" if "k < t" "t \<le> k + 15" for k
  proof
    assume "k mod 16 = t mod 16"
    then have "16 dvd t - k" using that by (metis less_imp_le mod_eq_dvd_iff_nat)
    moreover have "0 < t - k" "t - k < 16" using that by simp_all
    ultimately show False by (metis dvd_imp_le leD)
  qed
  with assms(1) show ?thesis
    unfolding * by (auto simp: sha1_block_ok_def nth_list_update less_Suc_eq uniq uniq [symmetric])
qed

lemma sha1_rounds_fips:
  assumes "length st = 5" "length bs = 64" "n \<le> 80"
  defines "W \<equiv> fips_sha1_schedule 64 (words_of be32 bs)"
  shows "let (r, l) = foldl sha1_step (st, words_of le32 bs) (map sha1_call [0..<n]) in
    length r = 5 \<and> sha1_block_ok (words_of le32 bs) W n l \<and>
    sha1_regs n r = foldl (fips_sha1_round W) st [0..<n]"
  using assms(3)
proof (induction n)
  case 0
  have "sha1_regs 0 st = st" using assms(1) by (elim length_5E) (simp add: sha1_regs_def upt5)
  then show ?case using assms(1,2) by (simp add: sha1_block_ok_def length_words_of)
next
  case (Suc n)
  obtain r l where rl: "foldl sha1_step (st, words_of le32 bs) (map sha1_call [0..<n]) = (r, l)"
    by fastforce
  then have ih: "length r = 5" "sha1_block_ok (words_of le32 bs) W n l"
    "sha1_regs n r = foldl (fips_sha1_round W) st [0..<n]" using Suc by simp_all
  have w: "W ! n = (if sha1_kind n = R0 then blk0 l n else blk l n)"
    using sha1_block_word [OF ih(2) assms(2)] Suc.prems W_def by simp
  have "length (fst (sha1_step (r, l) (sha1_call n))) = 5"
    using ih(1) by (simp add: sha1_call_def Let_def)
  with sha1_block_step [OF ih(2) w, of r] sha1_step_regs [OF ih(1) _ w] Suc.prems ih(3)
  show ?case by (simp add: rl case_prod_beta)
qed

lemma SHA1Transform_fips:
  assumes "length st = 5" "length bs = 64"
  shows "SHA1Transform st bs = fips_sha1_compress st bs"
proof -
  obtain r l where rl: "foldl sha1_step (st, words_of le32 bs) (map sha1_call [0..<80]) = (r, l)"
    by fastforce
  note R = sha1_rounds_fips [OF assms, of 80, unfolded rl]
  then have "sha1_regs 80 r = r" by (simp, elim conjE length_5E) (simp add: sha1_regs_def upt5)
  with R rl show ?thesis
    by (simp add: SHA1Transform_def fips_sha1_compress_def sha1_calls_regular)
qed


lemma length_SHA1Transform:
  assumes "length st = 5" "length bs = 64"
  shows "length (SHA1Transform st bs) = 5"
proof -
  obtain r l where rl: "foldl sha1_step (st, words_of le32 bs) (map sha1_call [0..<80]) = (r, l)"
    by fastforce
  with sha1_rounds_fips [OF assms, of 80, unfolded rl] assms(1) show ?thesis
    by (simp add: SHA1Transform_def sha1_calls_regular)
qed

lemma length_md_process_sha1:
  "length st = 5 \<Longrightarrow> length (fst (md_process SHA1Transform st m)) = 5"
proof (induction SHA1Transform st m rule: md_process.induct)
  case (1 st m)
  then show ?case
    by (cases "length m < 64") (simp_all add: md_process.simps [of _ st m] length_SHA1Transform)
qed

lemma md_process_sha1:
  "length st = 5 \<Longrightarrow> md_process SHA1Transform st m = md_process fips_sha1_compress st m"
proof (induction SHA1Transform st m rule: md_process.induct)
  case (1 st m)
  then show ?case
    by (cases "length m < 64")
       (simp_all add: md_process.simps [of _ st m] length_SHA1Transform flip: SHA1Transform_fips)
qed

section \<open>A context stands for a message\<close>

definition sha1_rep :: "sha1_ctx \<Rightarrow> u8 list \<Rightarrow> bool" where
  "sha1_rep c m \<longleftrightarrow> count_ok (h_count1 c) (h_count0 c) (length m) \<and>
     buf_rep SHA1Transform (h_state SHA1Init) (h_state c) (h_buffer c) m"

text \<open>The block loop ends for every length that leaves room for \<open>i + 63\<close> in 32 bits.\<close>

lemma sha1_blocks_eq:
  assumes "i \<le> len" "len \<le> length data" "len \<le> 2 ^ 32 - 64"
  shows "sha1_blocks st data len i =
    (let (st', rest) = md_process SHA1Transform st (drop i (take len data))
     in Some (st', len - length rest))"
  using assms
proof (induction "len - i" arbitrary: st i rule: less_induct)
  case less
  let ?m = "drop i (take len data)"
  have lm: "length ?m = len - i" using less.prems by simp
  have w: "(i + 63) mod 2 ^ 32 = i + 63" using less.prems by (intro mod_less) simp
  show ?case
  proof (cases "i + 63 < len")
    case True
    have w2: "(i + 64) mod 2 ^ 32 = i + 64" using less.prems True by (intro mod_less) simp
    have "md_process SHA1Transform st ?m =
        md_process SHA1Transform (SHA1Transform st (take 64 (drop i data))) (drop (i + 64) (take len data))"
    proof -
      have "\<not> length ?m < 64" "take 64 ?m = take 64 (drop i data)" "drop 64 ?m = drop (i + 64) (take len data)"
        using True lm by (simp_all add: drop_take add.commute)
      then show ?thesis by (metis md_process.simps)
    qed
    moreover have "sha1_blocks st data len i =
        sha1_blocks (SHA1Transform st (take 64 (drop i data))) data len (i + 64)"
      using True less.prems by (subst sha1_blocks.simps) (simp only: w w2 if_True, simp)
    ultimately show ?thesis using less.hyps [of "i + 64"] less.prems True by simp
  next
    case False
    then have "length ?m < 64" using lm by linarith
    then show ?thesis
      using False less.prems lm by (subst sha1_blocks.simps) (simp only: w if_False md_process_short, simp)
  qed
qed

lemma SHA1Update_rep:
  assumes rep: "sha1_rep c m" and len: "len \<le> length data" "len \<le> 2 ^ 32 - 64"
  shows "\<exists>c'. SHA1Update c data len = Some c' \<and> sha1_rep c' (m @ take len data)"
proof -
  let ?r = "length m mod 64" and ?xs = "take len data"
  have br: "buf_rep SHA1Transform (h_state SHA1Init) (h_state c) (h_buffer c) m"
    and co: "count_ok (h_count1 c) (h_count0 c) (length m)"
    using rep by (simp_all add: sha1_rep_def)
  have xs: "length ?xs = len" using len by simp
  have l: "unat (of_nat len :: u32) = len" using len by (simp add: unat_of_nat)
  have r: "unat (drop_bit 3 (h_count0 c) AND 63) = ?r" using count_index [OF co] by simp
  have cnt: "count_ok ((if h_count0 c + push_bit 3 (of_nat len) < h_count0 c then h_count1 c + 1 else h_count1 c) +
      drop_bit 29 (of_nat len)) (h_count0 c + push_bit 3 (of_nat len)) (length (m @ ?xs))"
    using count_add [OF co, of "of_nat len", unfolded l] xs
    unfolding word_carry_swap [of "h_count0 c"] by (simp split: if_splits)
  have w: "(?r + len) mod 2 ^ 32 = ?r + len"
    using len by (intro mod_less) (simp add: add.commute)
  note upd = SHA1Update_def [of c data len, unfolded Let_def, unfolded r w]
  show ?thesis
  proof (cases "len < 64 - ?r")
    case True
    obtain b where "mem_copy (h_buffer c) ?r ?xs 0 len = Some b"
      "buf_rep SHA1Transform (h_state SHA1Init) (h_state c) b (m @ ?xs)"
      using buf_rep_fill [OF br, of ?xs] True xs by auto
    with True cnt len show ?thesis
      by (auto simp: upd sha1_rep_def mem_copy_take simp del: push_bit_eq_mult)
  next
    case False
    then have ge: "64 - ?r \<le> length ?xs" "63 < ?r + len" using xs by auto
    obtain b st' rest b' where b: "mem_copy (h_buffer c) ?r ?xs 0 (64 - ?r) = Some b"
      "md_process SHA1Transform (SHA1Transform (h_state c) b) (drop (64 - ?r) ?xs) = (st', rest)"
      "length rest \<le> len - (64 - ?r)"
      "mem_copy b 0 ?xs (len - length rest) (length rest) = Some b'"
      "buf_rep SHA1Transform (h_state SHA1Init) st' b' (m @ ?xs)"
      using buf_rep_blocks [OF br ge(1), unfolded xs] by blast
    have blk: "sha1_blocks (SHA1Transform (h_state c) b) data len (64 - ?r) = Some (st', len - length rest)"
      using sha1_blocks_eq [of "64 - ?r" len data "SHA1Transform (h_state c) b"] b(2) ge len xs by simp
    have "to_uint (int len - int (len - length rest)) = length rest"
      using b(3) len by (simp add: to_uint_def)
    with b blk cnt ge len xs show ?thesis
      by (auto simp: upd sha1_rep_def mem_copy_take simp del: push_bit_eq_mult)
  qed
qed


lemma SHA1Init_rep: "sha1_rep SHA1Init []"
  by (simp add: sha1_rep_def SHA1Init_def count_ok_def buf_rep_def md_process_short)

lemma and_504: "x AND 504 = push_bit 3 (drop_bit 3 x AND (0x3F :: u32))"
proof -
  have e: "(504 :: u32) = push_bit 3 (mask 6)" "(0x3F :: u32) = mask 6"
    by (simp_all add: mask_eq_exp_minus_1 push_bit_eq_mult)
  show ?thesis unfolding e by (rule bit_word_eqI) (auto simp: bit_simps simp del: mask_numeral)
qed

text \<open>The test of the padding loop is about the number of bytes modulo 64.\<close>

lemma count_448:
  assumes "count_ok hi lo n"
  shows "lo AND 504 = 448 \<longleftrightarrow> n mod 64 = 56"
proof -
  let ?x = "drop_bit 3 lo AND (0x3F :: u32)"
  have x: "unat ?x = n mod 64" by (rule count_index [OF assms])
  then have "unat (push_bit 3 ?x) = 8 * (n mod 64)"
    by (simp add: push_bit_eq_mult unat_word_ariths mult.commute)
  then show ?thesis unfolding and_504 word_unat_eq_iff by simp
qed

definition zero_pad :: "nat \<Rightarrow> nat" where
  "zero_pad n = (if n mod 64 \<le> 56 then 56 - n mod 64 else 120 - n mod 64)"

lemma zero_pad_Suc: "n mod 64 \<noteq> 56 \<Longrightarrow> zero_pad n = Suc (zero_pad (Suc n))"
  using mod_less_divisor [of 64 n] by (auto simp: zero_pad_def mod_Suc le_mod_geq not_less)

lemma md_padding_zero_pad: "md_padding n = 0x80 # replicate (zero_pad (Suc n)) 0"
  using mod_less_divisor [of 64 n]
  by (auto simp: md_padding_def pad_len_def zero_pad_def mod_Suc le_mod_geq not_less Let_def)

text \<open>The padding loop ends, after \<open>zero_pad\<close> zero bytes.\<close>

lemma sha1_pad_loop_rep:
  assumes "sha1_rep c m"
  shows "\<exists>c'. sha1_pad_loop c = Some c' \<and> sha1_rep c' (m @ replicate (zero_pad (length m)) 0)"
  using assms
proof (induction "zero_pad (length m)" arbitrary: c m)
  case 0
  then have "length m mod 64 = 56" using zero_pad_Suc [of "length m"] by fastforce
  then have "h_count0 c AND 504 = 448" using 0 count_448 by (auto simp: sha1_rep_def)
  with 0 show ?case by (subst sha1_pad_loop.simps) simp
next
  case (Suc n)
  have ne: "length m mod 64 \<noteq> 56" using Suc.hyps(2) by (auto simp: zero_pad_def)
  then have test: "h_count0 c AND 504 \<noteq> 448" using Suc.prems count_448 by (auto simp: sha1_rep_def)
  obtain c1 where c1: "SHA1Update c [0] 1 = Some c1" "sha1_rep c1 (m @ [0])"
    using SHA1Update_rep [OF Suc.prems, of 1 "[0]"] by auto
  have n: "n = zero_pad (length (m @ [0]))" using Suc.hyps(2) zero_pad_Suc [OF ne] by simp
  obtain c2 where "sha1_pad_loop c1 = Some c2" "sha1_rep c2 (m @ 0 # replicate n 0)"
    using Suc.hyps(1) [OF n c1(2)] n by auto
  with c1 test Suc.hyps(2) show ?case
    by (subst sha1_pad_loop.simps) (simp add: flip: Suc.hyps(2))
qed

lemma upt20: "[0..<20] = [0, 1, 2, 3, 4, 5, 6, 7, 8, 9, 10, 11, 12, 13, 14, 15, 16, 17, 18, 19::nat]" by code_simp

lemma SHA1Final_digest:
  assumes "sha1_rep c m"
  shows "SHA1Final c = Some (fips_sha1 m)"
proof -
  have co: "count_ok (h_count1 c) (h_count0 c) (length m)" using assms by (simp add: sha1_rep_def)
  obtain c1 where c1: "SHA1Update c [0x80] 1 = Some c1" "sha1_rep c1 (m @ [0x80])"
    using SHA1Update_rep [OF assms, of 1 "[0x80]"] by auto
  obtain c2 where c2: "sha1_pad_loop c1 = Some c2" "sha1_rep c2 (m @ md_padding (length m))"
    using sha1_pad_loop_rep [OF c1(2)] by (auto simp: md_padding_zero_pad)
  have fc: "map (\<lambda>i. ucast (drop_bit ((3 - i mod 4) * 8)
      (if i \<ge> 4 then h_count0 c else h_count1 c) AND 255)) [0..<8] = fips_length_field (length m)"
    using count_ok_of_nat [OF co]
    by (simp add: fips_length_field_def be32_bytes_def byte_of_def upt8)
  obtain c3 where c3: "SHA1Update c2 (fips_length_field (length m)) 8 = Some c3"
    "sha1_rep c3 (m @ md_padding (length m) @ fips_length_field (length m))"
    using SHA1Update_rep [OF c2(2), of 8 "fips_length_field (length m)"] by auto
  have st: "h_state c3 = fst (md_process SHA1Transform (h_state SHA1Init)
      (m @ md_padding (length m) @ fips_length_field (length m)))"
    using c3(2) by (simp add: sha1_rep_def buf_rep_def)
  have i5: "length (h_state SHA1Init) = 5" by (simp add: SHA1Init_def)
  have "length (h_state c3) = 5" unfolding st by (rule length_md_process_sha1 [OF i5])
  then have "map (\<lambda>i. ucast (drop_bit ((3 - i mod 4) * 8) (h_state c3 ! (i div 4)) AND 255)) [0..<20] =
      concat (map be32_bytes (h_state c3))"
    by (elim length_5E) (simp add: upt20 be32_bytes_def byte_of_def)
  then show ?thesis
    using c1 c2 c3 unfolding SHA1Final_def fc Let_def fips_sha1_def
    by (simp add: st md_process_sha1 [OF i5])
qed

interpretation sha1: stream_hash "\<lambda>c xs. SHA1Update c xs (length xs)" SHA1Final SHA1Init
    sha1_rep fips_sha1 "2 ^ 32 - 63"
proof
  show "\<exists>c'. SHA1Update c xs (length xs) = Some c' \<and> sha1_rep c' (m @ xs)"
    if "sha1_rep c m" "length xs < 2 ^ 32 - 63" for c m xs
    using SHA1Update_rep [of c m "length xs" xs] that by simp
qed (fact SHA1Init_rep, fact SHA1Final_digest)

lemma length_fips_sha1 [simp]: "length (fips_sha1 m) = 20"
proof -
  have "length (fst (md_process fips_sha1_compress (h_state SHA1Init) x)) = 5" for x
    using length_md_process_sha1 [of "h_state SHA1Init" x]
    by (simp add: SHA1Init_def flip: md_process_sha1)
  then show ?thesis by (simp add: fips_sha1_def length_concat comp_def sum_list_triv)
qed

lemma SHA1_bytewise: "SHA1 str = Some (fips_sha1 str @ [0])"
proof -
  obtain c where "update_all (\<lambda>c xs. SHA1Update c xs (length xs)) SHA1Init (map (\<lambda>x. [x]) str) = Some c"
    "SHA1Final c = Some (fips_sha1 str)"
    using sha1.bytewise_digest [of str] by (auto simp: bind_eq_Some_conv)
  then show ?thesis by (simp add: SHA1_def)
qed

lemma sha1_digest: "length input \<le> 2 ^ 32 - 64 \<Longrightarrow> sha1 input = Some (fips_sha1 input)"
  using sha1.one_shot_digest [of input] by (simp add: sha1_def)

lemma sha1_hex_digest:
  assumes "length input \<le> 2 ^ 32 - 64" "40 \<le> outputlen" "outputlen \<le> length output"
  shows "sha1_hex input output outputlen =
    Some (hex_digits (fips_sha1 input) @ (if outputlen > 40 then 0 # drop 41 output else drop 40 output))"
  using assms
  by (auto simp: sha1_hex_def sha1_digest mem_copy_Some mem_write_Some nth_append list_update_append
      Cons_nth_drop_Suc [symmetric])

end
