(* ===== verification/Md5.thy ===== *)
theory Md5
  imports Block_Hash
begin

text \<open>
  MD5 of \<^verbatim>\<open>src/util/md5.c\<close>. The 64 unrolled macro calls are a table of macro name, register
  numbers, word index, rotation and additive constant. The compression function is shown equal
  to the loop of RFC 1321 in its usual closed form (word index and function computed
  from the step number, the four variables shifted after each step), and \<open>MD5Final\<close> to return
  the digest of everything fed to the context.
\<close>

section \<open>Model\<close>

record md5_ctx =
  m_count0 :: u32
  m_count1 :: u32
  m_state :: "u32 list"
  m_buffer :: "u8 list"

datatype md5_macro = FF | GG | HH | II

definition md5_fun :: "md5_macro \<Rightarrow> u32 \<Rightarrow> u32 \<Rightarrow> u32 \<Rightarrow> u32" where
  "md5_fun mac x y z =
     (case mac of FF \<Rightarrow> (x AND y) OR (NOT x AND z)
      | GG \<Rightarrow> (x AND z) OR (y AND NOT z)
      | HH \<Rightarrow> x XOR y XOR z
      | II \<Rightarrow> y XOR (x OR NOT z))"

text \<open>\<open>a += f(b, c, d) + x + ac; a = ROTATE_LEFT(a, s); a += b\<close> on the registers \<open>r\<close>.\<close>

fun md5_step :: "u32 list \<Rightarrow> u32 list \<Rightarrow>
    md5_macro \<times> nat \<times> nat \<times> nat \<times> nat \<times> nat \<times> nat \<times> u32 \<Rightarrow> u32 list" where
  "md5_step x r (mac, a, b, c, d, k, s, ac) =
     (let r1 = r[a := r ! a + (md5_fun mac (r ! b) (r ! c) (r ! d) + x ! k + ac)];
          r2 = r1[a := rotl32 (r1 ! a) s]
      in r2[a := r2 ! a + r2 ! b])"

definition md5_calls :: "(md5_macro \<times> nat \<times> nat \<times> nat \<times> nat \<times> nat \<times> nat \<times> u32) list" where
  "md5_calls = [
      (FF, 0, 1, 2, 3, 0, 7, 0xd76aa478), (FF, 3, 0, 1, 2, 1, 12, 0xe8c7b756),
      (FF, 2, 3, 0, 1, 2, 17, 0x242070db), (FF, 1, 2, 3, 0, 3, 22, 0xc1bdceee),
      (FF, 0, 1, 2, 3, 4, 7, 0xf57c0faf), (FF, 3, 0, 1, 2, 5, 12, 0x4787c62a),
      (FF, 2, 3, 0, 1, 6, 17, 0xa8304613), (FF, 1, 2, 3, 0, 7, 22, 0xfd469501),
      (FF, 0, 1, 2, 3, 8, 7, 0x698098d8), (FF, 3, 0, 1, 2, 9, 12, 0x8b44f7af),
      (FF, 2, 3, 0, 1, 10, 17, 0xffff5bb1), (FF, 1, 2, 3, 0, 11, 22, 0x895cd7be),
      (FF, 0, 1, 2, 3, 12, 7, 0x6b901122), (FF, 3, 0, 1, 2, 13, 12, 0xfd987193),
      (FF, 2, 3, 0, 1, 14, 17, 0xa679438e), (FF, 1, 2, 3, 0, 15, 22, 0x49b40821),
      (GG, 0, 1, 2, 3, 1, 5, 0xf61e2562), (GG, 3, 0, 1, 2, 6, 9, 0xc040b340),
      (GG, 2, 3, 0, 1, 11, 14, 0x265e5a51), (GG, 1, 2, 3, 0, 0, 20, 0xe9b6c7aa),
      (GG, 0, 1, 2, 3, 5, 5, 0xd62f105d), (GG, 3, 0, 1, 2, 10, 9, 0x2441453),
      (GG, 2, 3, 0, 1, 15, 14, 0xd8a1e681), (GG, 1, 2, 3, 0, 4, 20, 0xe7d3fbc8),
      (GG, 0, 1, 2, 3, 9, 5, 0x21e1cde6), (GG, 3, 0, 1, 2, 14, 9, 0xc33707d6),
      (GG, 2, 3, 0, 1, 3, 14, 0xf4d50d87), (GG, 1, 2, 3, 0, 8, 20, 0x455a14ed),
      (GG, 0, 1, 2, 3, 13, 5, 0xa9e3e905), (GG, 3, 0, 1, 2, 2, 9, 0xfcefa3f8),
      (GG, 2, 3, 0, 1, 7, 14, 0x676f02d9), (GG, 1, 2, 3, 0, 12, 20, 0x8d2a4c8a),
      (HH, 0, 1, 2, 3, 5, 4, 0xfffa3942), (HH, 3, 0, 1, 2, 8, 11, 0x8771f681),
      (HH, 2, 3, 0, 1, 11, 16, 0x6d9d6122), (HH, 1, 2, 3, 0, 14, 23, 0xfde5380c),
      (HH, 0, 1, 2, 3, 1, 4, 0xa4beea44), (HH, 3, 0, 1, 2, 4, 11, 0x4bdecfa9),
      (HH, 2, 3, 0, 1, 7, 16, 0xf6bb4b60), (HH, 1, 2, 3, 0, 10, 23, 0xbebfbc70),
      (HH, 0, 1, 2, 3, 13, 4, 0x289b7ec6), (HH, 3, 0, 1, 2, 0, 11, 0xeaa127fa),
      (HH, 2, 3, 0, 1, 3, 16, 0xd4ef3085), (HH, 1, 2, 3, 0, 6, 23, 0x4881d05),
      (HH, 0, 1, 2, 3, 9, 4, 0xd9d4d039), (HH, 3, 0, 1, 2, 12, 11, 0xe6db99e5),
      (HH, 2, 3, 0, 1, 15, 16, 0x1fa27cf8), (HH, 1, 2, 3, 0, 2, 23, 0xc4ac5665),
      (II, 0, 1, 2, 3, 0, 6, 0xf4292244), (II, 3, 0, 1, 2, 7, 10, 0x432aff97),
      (II, 2, 3, 0, 1, 14, 15, 0xab9423a7), (II, 1, 2, 3, 0, 5, 21, 0xfc93a039),
      (II, 0, 1, 2, 3, 12, 6, 0x655b59c3), (II, 3, 0, 1, 2, 3, 10, 0x8f0ccc92),
      (II, 2, 3, 0, 1, 10, 15, 0xffeff47d), (II, 1, 2, 3, 0, 1, 21, 0x85845dd1),
      (II, 0, 1, 2, 3, 8, 6, 0x6fa87e4f), (II, 3, 0, 1, 2, 15, 10, 0xfe2ce6e0),
      (II, 2, 3, 0, 1, 6, 15, 0xa3014314), (II, 1, 2, 3, 0, 13, 21, 0x4e0811a1),
      (II, 0, 1, 2, 3, 4, 6, 0xf7537e82), (II, 3, 0, 1, 2, 11, 10, 0xbd3af235),
      (II, 2, 3, 0, 1, 2, 15, 0x2ad7d2bb), (II, 1, 2, 3, 0, 9, 21, 0xeb86d391)]"

definition MD5Encode :: "u32 list \<Rightarrow> u8 list" where
  "MD5Encode input = concat (map (\<lambda>w. [ucast (w AND 0xFF), ucast (drop_bit 8 w AND 0xFF),
     ucast (drop_bit 16 w AND 0xFF), ucast (drop_bit 24 w AND 0xFF)]) input)"

definition MD5Decode :: "u8 list \<Rightarrow> u32 list" where
  "MD5Decode input = words_of (\<lambda>b0 b1 b2 b3. ucast b0 OR push_bit 8 (ucast b1) OR
     push_bit 16 (ucast b2) OR push_bit 24 (ucast b3)) input"

definition MD5Transform :: "u32 list \<Rightarrow> u8 list \<Rightarrow> u32 list" where
  "MD5Transform state block = map2 (+) state (foldl (md5_step (MD5Decode block)) state md5_calls)"

definition PADDING :: "u8 list" where
  "PADDING = 0x80 # replicate 63 0"

definition MD5Init :: md5_ctx where
  "MD5Init = \<lparr>m_count0 = 0, m_count1 = 0,
     m_state = [0x67452301, 0xEFCDAB89, 0x98BADCFE, 0x10325476], m_buffer = replicate 64 0\<rparr>"

text \<open>
  The loop over complete blocks, with \<open>i\<close> an \<open>unsigned int\<close>: \<open>i + 64\<close> wraps when \<open>inputlen\<close>
  is close to \<open>2 ^ 32\<close>, and the loop may then run forever.
\<close>

partial_function (option) md5_blocks ::
    "u32 list \<Rightarrow> u8 list \<Rightarrow> nat \<Rightarrow> nat \<Rightarrow> (u32 list \<times> nat) option" where
  "md5_blocks st input inputlen i =
     (if (i + 64) mod 2 ^ 32 \<le> inputlen
      then (if i + 64 \<le> length input
            then md5_blocks (MD5Transform st (take 64 (drop i input))) input inputlen ((i + 64) mod 2 ^ 32)
            else None)
      else Some (st, i))"

declare md5_blocks.simps [code]

definition MD5Update :: "md5_ctx \<Rightarrow> u8 list \<Rightarrow> nat \<Rightarrow> md5_ctx option" where
  "MD5Update ctx input inputlen =
     (let index = unat (drop_bit 3 (m_count0 ctx) AND 0x3F);
          partlen = 64 - index;
          c0 = m_count0 ctx + push_bit 3 (of_nat inputlen);
          c1 = (if c0 < push_bit 3 (of_nat inputlen) then m_count1 ctx + 1 else m_count1 ctx) +
            drop_bit 29 (of_nat inputlen);
          ctx1 = ctx\<lparr>m_count0 := c0, m_count1 := c1\<rparr> in
      if inputlen \<ge> partlen
      then do {
        b \<leftarrow> mem_copy (m_buffer ctx1) index input 0 partlen;
        (st, i) \<leftarrow> md5_blocks (MD5Transform (m_state ctx1) b) input inputlen partlen;
        b' \<leftarrow> mem_copy b 0 input i (to_uint (int inputlen - int i));
        Some (ctx1\<lparr>m_state := st, m_buffer := b'\<rparr>)
      }
      else do { b \<leftarrow> mem_copy (m_buffer ctx1) index input 0 inputlen; Some (ctx1\<lparr>m_buffer := b\<rparr>) })"

definition MD5Final :: "md5_ctx \<Rightarrow> u8 list option" where
  "MD5Final ctx =
     (let index = unat (drop_bit 3 (m_count0 ctx) AND 0x3F);
          padlen = (if index < 56 then 56 - index else 120 - index);
          bits = MD5Encode [m_count0 ctx, m_count1 ctx] in
      do { c1 \<leftarrow> MD5Update ctx PADDING padlen;
           c2 \<leftarrow> MD5Update c1 bits 8;
           Some (MD5Encode (m_state c2)) })"

definition md5 :: "u8 list \<Rightarrow> u8 list option" where
  "md5 input = do { c \<leftarrow> MD5Update MD5Init input (length input); MD5Final c }"

definition md5_hex :: "u8 list \<Rightarrow> u8 list \<Rightarrow> nat \<Rightarrow> u8 list option" where
  "md5_hex input output outputlen =
     (if outputlen < 32 then Some output
      else do {
        d \<leftarrow> md5 input;
        o1 \<leftarrow> mem_copy output 0 (hex_digits d) 0 32;
        (if outputlen > 32 then mem_write o1 32 0 else Some o1)
      })"

section \<open>RFC 1321\<close>

definition rfc_md5_f :: "nat \<Rightarrow> u32 \<Rightarrow> u32 \<Rightarrow> u32 \<Rightarrow> u32" where
  "rfc_md5_f i b c d =
     (if i < 16 then (b AND c) OR (NOT b AND d)
      else if i < 32 then (d AND b) OR (NOT d AND c)
      else if i < 48 then b XOR c XOR d
      else c XOR (b OR NOT d))"

definition rfc_md5_g :: "nat \<Rightarrow> nat" where
  "rfc_md5_g i = (if i < 16 then i else if i < 32 then (5 * i + 1) mod 16
     else if i < 48 then (3 * i + 5) mod 16 else (7 * i) mod 16)"

definition rfc_md5_s :: "nat \<Rightarrow> nat" where
  "rfc_md5_s i = [[7, 12, 17, 22], [5, 9, 14, 20], [4, 11, 16, 23], [6, 10, 15, 21]] ! (i div 16) ! (i mod 4)"

text \<open>\<open>T[i + 1]\<close>, the integer part of \<open>2 ^ 32 * abs (sin (i + 1))\<close>.\<close>

definition rfc_md5_T :: "u32 list" where
  "rfc_md5_T = [
      0xd76aa478, 0xe8c7b756, 0x242070db, 0xc1bdceee, 0xf57c0faf, 0x4787c62a,
      0xa8304613, 0xfd469501, 0x698098d8, 0x8b44f7af, 0xffff5bb1, 0x895cd7be,
      0x6b901122, 0xfd987193, 0xa679438e, 0x49b40821, 0xf61e2562, 0xc040b340,
      0x265e5a51, 0xe9b6c7aa, 0xd62f105d, 0x02441453, 0xd8a1e681, 0xe7d3fbc8,
      0x21e1cde6, 0xc33707d6, 0xf4d50d87, 0x455a14ed, 0xa9e3e905, 0xfcefa3f8,
      0x676f02d9, 0x8d2a4c8a, 0xfffa3942, 0x8771f681, 0x6d9d6122, 0xfde5380c,
      0xa4beea44, 0x4bdecfa9, 0xf6bb4b60, 0xbebfbc70, 0x289b7ec6, 0xeaa127fa,
      0xd4ef3085, 0x04881d05, 0xd9d4d039, 0xe6db99e5, 0x1fa27cf8, 0xc4ac5665,
      0xf4292244, 0x432aff97, 0xab9423a7, 0xfc93a039, 0x655b59c3, 0x8f0ccc92,
      0xffeff47d, 0x85845dd1, 0x6fa87e4f, 0xfe2ce6e0, 0xa3014314, 0x4e0811a1,
      0xf7537e82, 0xbd3af235, 0x2ad7d2bb, 0xeb86d391]"

fun rfc_md5_round :: "u32 list \<Rightarrow> u32 list \<Rightarrow> nat \<Rightarrow> u32 list" where
  "rfc_md5_round x [a, b, c, d] i =
     [d, b + rotl32 (a + rfc_md5_f i b c d + x ! rfc_md5_g i + rfc_md5_T ! i) (rfc_md5_s i), b, c]"
| "rfc_md5_round x r i = r"

definition rfc_md5_compress :: "u32 list \<Rightarrow> u8 list \<Rightarrow> u32 list" where
  "rfc_md5_compress H block = map2 (+) H (foldl (rfc_md5_round (words_of le32 block)) H [0..<64])"

definition rfc_length_field :: "nat \<Rightarrow> u8 list" where
  "rfc_length_field n = le32_bytes (of_nat (8 * n)) @ le32_bytes (of_nat (8 * n div 2 ^ 32))"

definition rfc_md5 :: "u8 list \<Rightarrow> u8 list" where
  "rfc_md5 m =
     concat (map le32_bytes (fst (md_process rfc_md5_compress (m_state MD5Init)
       (m @ md_padding (length m) @ rfc_length_field (length m)))))"

section \<open>The compression function is the one of the RFC\<close>

text \<open>The variables \<open>a .. d\<close> before step \<open>i\<close>, and the macro call of step \<open>i\<close>.\<close>

definition md5_regs :: "nat \<Rightarrow> u32 list \<Rightarrow> u32 list" where
  "md5_regs i r = map (\<lambda>j. r ! ((64 - i + j) mod 4)) [0..<4]"

definition md5_kind :: "nat \<Rightarrow> md5_macro" where
  "md5_kind i = (if i < 16 then FF else if i < 32 then GG else if i < 48 then HH else II)"

definition md5_call :: "nat \<Rightarrow> md5_macro \<times> nat \<times> nat \<times> nat \<times> nat \<times> nat \<times> nat \<times> u32" where
  "md5_call i = (md5_kind i, (64 - i) mod 4, (65 - i) mod 4, (66 - i) mod 4, (67 - i) mod 4,
     rfc_md5_g i, rfc_md5_s i, rfc_md5_T ! i)"

lemma md5_calls_regular: "md5_calls = map md5_call [0..<64]"
  by code_simp

lemma md5_fun_rfc: "md5_fun (md5_kind i) x y z = rfc_md5_f i x y z"
  by (simp add: md5_fun_def md5_kind_def rfc_md5_f_def ac_simps)

lemma length_4E:
  assumes "length (S :: 'a list) = 4"
  obtains a b c d where "S = [a, b, c, d]"
  using assms by (auto simp: length_Suc_conv eval_nat_numeral)

lemma upt4: "[0..<4] = [0, 1, 2, 3::nat]" by code_simp

lemma md5_step_regs:
  assumes "length r = 4" "i < 64"
  shows "md5_regs (Suc i) (md5_step x r (md5_call i)) = rfc_md5_round x (md5_regs i r) i"
proof -
  obtain q s where qs: "i = 4 * q + s" "s < 4"
    by (metis mod_less_divisor mult_div_mod_eq zero_less_numeral)
  then have "q < 16" using assms(2) by linarith
  then obtain p where p: "64 - i = 4 * p + (4 - s)" "65 - i = 4 * p + (5 - s)"
      "66 - i = 4 * p + (6 - s)" "67 - i = 4 * p + (7 - s)" "63 - i = 4 * p + (3 - s)"
    using qs by (intro that[of "15 - q"]) auto
  have m: "Suc (p * 4) mod 4 = 1" "Suc (Suc (p * 4)) mod 4 = 2"
    "Suc (4 * p) mod 4 = 1" "Suc (Suc (4 * p)) mod 4 = 2" by presburger+
  consider "s = 0" | "s = 1" | "s = 2" | "s = 3" using qs(2) by linarith
  then show ?thesis
    using assms(1)
    by (elim length_4E; cases; simp add: md5_regs_def md5_call_def p m upt4 Let_def md5_fun_rfc ac_simps)
qed

lemma length_md5_step [simp]: "length (md5_step x r c) = length r"
  by (induction x r c rule: md5_step.induct) (simp add: Let_def)

lemma md5_rounds_rfc:
  assumes "length st = 4" "n \<le> 64"
  shows "md5_regs n (foldl (md5_step x) st (map md5_call [0..<n])) = foldl (rfc_md5_round x) st [0..<n] \<and>
    length (foldl (md5_step x) st (map md5_call [0..<n])) = 4"
  using assms(2)
proof (induction n)
  case 0
  have "md5_regs 0 st = st" using assms(1) by (elim length_4E) (simp add: md5_regs_def upt4)
  then show ?case using assms(1) by simp
next
  case (Suc n)
  then show ?case by (simp add: md5_step_regs)
qed

lemma MD5Decode_words: "MD5Decode bs = words_of le32 bs"
proof -
  have "(\<lambda>b0 b1 b2 b3. ucast b0 OR push_bit 8 (ucast b1) OR push_bit 16 (ucast b2) OR push_bit 24 (ucast b3)) = le32"
    by (intro ext) (simp add: le32_def)
  then show ?thesis unfolding MD5Decode_def by simp
qed

lemma MD5Encode_bytes: "MD5Encode ws = concat (map le32_bytes ws)"
  by (induction ws) (simp_all add: MD5Encode_def le32_bytes_def byte_of_def)

lemma MD5Transform_rfc:
  assumes "length st = 4"
  shows "MD5Transform st bs = rfc_md5_compress st bs" "length (MD5Transform st bs) = 4"
proof -
  let ?r = "foldl (md5_step (words_of le32 bs)) st (map md5_call [0..<64])"
  have R: "md5_regs 64 ?r = foldl (rfc_md5_round (words_of le32 bs)) st [0..<64]" "length ?r = 4"
    using md5_rounds_rfc [OF assms, of 64] by simp_all
  have "md5_regs 64 ?r = ?r" using R(2) by (elim length_4E) (simp add: md5_regs_def upt4)
  with R assms show "MD5Transform st bs = rfc_md5_compress st bs" "length (MD5Transform st bs) = 4"
    by (simp_all add: MD5Transform_def rfc_md5_compress_def md5_calls_regular MD5Decode_words)
qed

lemma length_md_process_md5:
  "length st = 4 \<Longrightarrow> length (fst (md_process MD5Transform st m)) = 4"
proof (induction MD5Transform st m rule: md_process.induct)
  case (1 st m)
  then show ?case
    by (cases "length m < 64") (simp_all add: md_process.simps [of _ st m] MD5Transform_rfc(2))
qed

lemma md_process_md5:
  "length st = 4 \<Longrightarrow> md_process MD5Transform st m = md_process rfc_md5_compress st m"
proof (induction MD5Transform st m rule: md_process.induct)
  case (1 st m)
  then show ?case
    by (cases "length m < 64")
       (simp_all add: md_process.simps [of _ st m] MD5Transform_rfc(2) flip: MD5Transform_rfc(1))
qed

section \<open>A context stands for a message\<close>

definition md5_rep :: "md5_ctx \<Rightarrow> u8 list \<Rightarrow> bool" where
  "md5_rep c m \<longleftrightarrow> count_ok (m_count1 c) (m_count0 c) (length m) \<and>
     buf_rep MD5Transform (m_state MD5Init) (m_state c) (m_buffer c) m"

text \<open>The block loop ends for every length that leaves room for \<open>i + 64\<close> in 32 bits.\<close>

lemma md5_blocks_eq:
  assumes "i \<le> len" "len \<le> length data" "len < 2 ^ 32 - 64"
  shows "md5_blocks st data len i =
    (let (st', rest) = md_process MD5Transform st (drop i (take len data))
     in Some (st', len - length rest))"
  using assms
proof (induction "len - i" arbitrary: st i rule: less_induct)
  case less
  let ?m = "drop i (take len data)"
  have lm: "length ?m = len - i" using less.prems by simp
  have w: "(i + 64) mod 2 ^ 32 = i + 64" using less.prems by (intro mod_less) simp
  show ?case
  proof (cases "i + 64 \<le> len")
    case True
    have "\<not> length ?m < 64" "take 64 ?m = take 64 (drop i data)" "drop 64 ?m = drop (i + 64) (take len data)"
      using True lm by (simp_all add: drop_take add.commute)
    then have "md_process MD5Transform st ?m =
        md_process MD5Transform (MD5Transform st (take 64 (drop i data))) (drop (i + 64) (take len data))"
      by (metis md_process.simps)
    moreover have "md5_blocks st data len i =
        md5_blocks (MD5Transform st (take 64 (drop i data))) data len (i + 64)"
      using True less.prems by (subst md5_blocks.simps) (simp only: w if_True, simp)
    ultimately show ?thesis using less.hyps [of "i + 64"] less.prems True by simp
  next
    case False
    then have "length ?m < 64" using lm by linarith
    then show ?thesis
      using False less.prems lm by (subst md5_blocks.simps) (simp only: w if_False md_process_short, simp)
  qed
qed

lemma MD5Update_rep:
  assumes rep: "md5_rep c m" and len: "len \<le> length data" "len < 2 ^ 32 - 64"
  shows "\<exists>c'. MD5Update c data len = Some c' \<and> md5_rep c' (m @ take len data)"
proof -
  let ?r = "length m mod 64" and ?xs = "take len data"
  have br: "buf_rep MD5Transform (m_state MD5Init) (m_state c) (m_buffer c) m"
    and co: "count_ok (m_count1 c) (m_count0 c) (length m)"
    using rep by (simp_all add: md5_rep_def)
  have xs: "length ?xs = len" using len by simp
  have l: "unat (of_nat len :: u32) = len" using len by (simp add: unat_of_nat)
  have cnt: "count_ok ((if m_count0 c + push_bit 3 (of_nat len) < push_bit 3 (of_nat len)
      then m_count1 c + 1 else m_count1 c) + drop_bit 29 (of_nat len))
      (m_count0 c + push_bit 3 (of_nat len)) (length (m @ ?xs))"
    using count_add [OF co, of "of_nat len", unfolded l] xs by (simp split: if_splits)
  note upd = MD5Update_def [of c data len, unfolded Let_def, unfolded count_index [OF co]]
  show ?thesis
  proof (cases "len < 64 - ?r")
    case True
    obtain b where "mem_copy (m_buffer c) ?r ?xs 0 len = Some b"
      "buf_rep MD5Transform (m_state MD5Init) (m_state c) b (m @ ?xs)"
      using buf_rep_fill [OF br, of ?xs] True xs by auto
    with True cnt len show ?thesis
      by (auto simp: upd md5_rep_def mem_copy_take simp del: push_bit_eq_mult)
  next
    case False
    then have ge: "64 - ?r \<le> length ?xs" using xs by simp
    obtain b st' rest b' where b: "mem_copy (m_buffer c) ?r ?xs 0 (64 - ?r) = Some b"
      "md_process MD5Transform (MD5Transform (m_state c) b) (drop (64 - ?r) ?xs) = (st', rest)"
      "length rest \<le> len - (64 - ?r)"
      "mem_copy b 0 ?xs (len - length rest) (length rest) = Some b'"
      "buf_rep MD5Transform (m_state MD5Init) st' b' (m @ ?xs)"
      using buf_rep_blocks [OF br ge, unfolded xs] by blast
    have blk: "md5_blocks (MD5Transform (m_state c) b) data len (64 - ?r) = Some (st', len - length rest)"
      using md5_blocks_eq [of "64 - ?r" len data "MD5Transform (m_state c) b"] b(2) ge len xs by simp
    have "to_uint (int len - int (len - length rest)) = length rest"
      using b(3) len by (simp add: to_uint_def)
    with b blk cnt ge len xs show ?thesis
      by (auto simp: upd md5_rep_def mem_copy_take simp del: push_bit_eq_mult)
  qed
qed

lemma MD5Init_rep: "md5_rep MD5Init []"
  by (simp add: md5_rep_def MD5Init_def count_ok_def buf_rep_def md_process_short)

lemma PADDING_take: "take (pad_len n) PADDING = md_padding n"
  using pad_len_bounds [of n]
  by (cases "pad_len n") (simp_all add: PADDING_def md_padding_def)

lemma length_rfc_length_field [simp]: "length (rfc_length_field n) = 8"
  by (simp add: rfc_length_field_def)

lemma MD5Final_digest:
  assumes "md5_rep c m"
  shows "MD5Final c = Some (rfc_md5 m)"
proof -
  have co: "count_ok (m_count1 c) (m_count0 c) (length m)" using assms by (simp add: md5_rep_def)
  have pl: "(if length m mod 64 < 56 then 56 - length m mod 64 else 120 - length m mod 64) = pad_len (length m)"
    by (simp add: pad_len_def Let_def)
  have "length PADDING = 64" by (simp add: PADDING_def)
  then obtain c1 where c1: "MD5Update c PADDING (pad_len (length m)) = Some c1"
    "md5_rep c1 (m @ md_padding (length m))"
    using MD5Update_rep [OF assms, of "pad_len (length m)" PADDING] pad_len_bounds(2) [of "length m"]
    by (auto simp: PADDING_take)
  have bits: "MD5Encode [m_count0 c, m_count1 c] = rfc_length_field (length m)"
    using count_ok_of_nat [OF co] by (simp add: MD5Encode_bytes rfc_length_field_def)
  obtain c2 where c2: "MD5Update c1 (rfc_length_field (length m)) 8 = Some c2"
    "md5_rep c2 (m @ md_padding (length m) @ rfc_length_field (length m))"
    using MD5Update_rep [OF c1(2), of 8 "rfc_length_field (length m)"] by auto
  have "length (m_state MD5Init) = 4" by (simp add: MD5Init_def)
  then have "m_state c2 = fst (md_process rfc_md5_compress (m_state MD5Init)
      (m @ md_padding (length m) @ rfc_length_field (length m)))"
    using c2(2) by (simp add: md5_rep_def buf_rep_def flip: md_process_md5)
  with c1 c2 show ?thesis
    unfolding MD5Final_def Let_def count_index [OF co] pl bits
    by (simp add: rfc_md5_def MD5Encode_bytes)
qed

interpretation md5: stream_hash "\<lambda>c xs. MD5Update c xs (length xs)" MD5Final MD5Init
    md5_rep rfc_md5 "2 ^ 32 - 64"
proof
  show "\<exists>c'. MD5Update c xs (length xs) = Some c' \<and> md5_rep c' (m @ xs)"
    if "md5_rep c m" "length xs < 2 ^ 32 - 64" for c m xs
    using MD5Update_rep [of c m "length xs" xs] that by simp
qed (fact MD5Init_rep, fact MD5Final_digest)

lemma length_rfc_md5 [simp]: "length (rfc_md5 m) = 16"
proof -
  have "length (fst (md_process rfc_md5_compress (m_state MD5Init) x)) = 4" for x
    using length_md_process_md5 [of "m_state MD5Init" x]
    by (simp add: MD5Init_def flip: md_process_md5)
  then show ?thesis by (simp add: rfc_md5_def length_concat comp_def sum_list_triv)
qed

lemma md5_digest: "length input < 2 ^ 32 - 64 \<Longrightarrow> md5 input = Some (rfc_md5 input)"
  using md5.one_shot_digest [of input] by (simp add: md5_def)

lemma md5_hex_digest:
  assumes "length input < 2 ^ 32 - 64" "32 \<le> outputlen" "outputlen \<le> length output"
  shows "md5_hex input output outputlen =
    Some (hex_digits (rfc_md5 input) @ (if outputlen > 32 then 0 # drop 33 output else drop 32 output))"
  using assms
  by (auto simp: md5_hex_def md5_digest mem_copy_Some mem_write_Some nth_append list_update_append
      Cons_nth_drop_Suc [symmetric])

end
