(* ===== verification/Base64.thy ===== *)
theory Base64
  imports YJC_Prelude
begin

text \<open>
  The Base64 codec of \<^verbatim>\<open>src/util/base64.c\<close>. Characters are bytes; \<open>char\<close> is signed, so the
  decoder compares \<open>sint\<close>. The caller's output array is threaded through and every access is
  bounds-checked. The encoder is shown to produce the RFC 4648 text of its input, and the
  decoder to recover every encoded input while writing no byte beyond the decoded length.
\<close>

section \<open>Model\<close>

definition base64en :: "u8 list" where
  "base64en = [
     65, 66, 67, 68, 69, 70, 71, 72, 73, 74, 75, 76, 77, 78, 79, 80,
     81, 82, 83, 84, 85, 86, 87, 88, 89, 90, 97, 98, 99, 100, 101, 102,
     103, 104, 105, 106, 107, 108, 109, 110, 111, 112, 113, 114, 115, 116, 117, 118,
     119, 120, 121, 122, 48, 49, 50, 51, 52, 53, 54, 55, 56, 57, 43, 47]"

definition base64de :: "int list" where
  "base64de = [
     62, -1, -1, -1, 63, 52, 53, 54, 55, 56, 57, 58, 59, 60, 61, -1,
     -1, -1, -1, -1, -1, -1, 0, 1, 2, 3, 4, 5, 6, 7, 8, 9,
     10, 11, 12, 13, 14, 15, 16, 17, 18, 19, 20, 21, 22, 23, 24, 25,
     -1, -1, -1, -1, -1, -1, 26, 27, 28, 29, 30, 31, 32, 33, 34, 35,
     36, 37, 38, 39, 40, 41, 42, 43, 44, 45, 46, 47, 48, 49, 50, 51]"

definition BASE64_PAD :: u8 where "BASE64_PAD = 61"
definition BASE64DE_FIRST :: int where "BASE64DE_FIRST = 43"
definition BASE64DE_LAST :: int where "BASE64DE_LAST = 122"

definition BASE64_ENCODE_OUT_SIZE :: "nat \<Rightarrow> nat" where
  "BASE64_ENCODE_OUT_SIZE s = (s + 2) div 3 * 4"

definition BASE64_DECODE_OUT_SIZE :: "nat \<Rightarrow> nat" where
  "BASE64_DECODE_OUT_SIZE s = s div 4 * 3"

text \<open>\<open>out[j++] = v\<close> with an \<open>unsigned int j\<close>.\<close>

definition put_out :: "nat \<times> u8 list \<Rightarrow> u8 \<Rightarrow> (nat \<times> u8 list) option" where
  "put_out s v = do { out' \<leftarrow> mem_write (snd s) (fst s) v; Some ((fst s + 1) mod 2 ^ 32, out') }"

definition en :: "u32 \<Rightarrow> u8 option" where
  "en x = mem_read base64en (unat x)"

text \<open>The body of the encoding loop at index \<open>i\<close>.\<close>

definition base64_encode_step :: "u8 list \<Rightarrow> nat \<Rightarrow> nat \<times> u8 list \<Rightarrow> (nat \<times> u8 list) option" where
  "base64_encode_step inp i s =
     do {
       x \<leftarrow> mem_read inp i;
       (if i mod 3 = 0 then do { e \<leftarrow> en (drop_bit 2 (ucast x) AND 0x3F); put_out s e }
        else if i mod 3 = 1 then do {
          w \<leftarrow> mem_read inp (i - 1);
          e \<leftarrow> en (push_bit 4 (ucast w AND 0x3) + (drop_bit 4 (ucast x) AND 0xF));
          put_out s e }
        else do {
          w \<leftarrow> mem_read inp (i - 1);
          e \<leftarrow> en (push_bit 2 (ucast w AND 0xF) + (drop_bit 6 (ucast x) AND 0x3));
          s1 \<leftarrow> put_out s e;
          e2 \<leftarrow> en (ucast x AND 0x3F);
          put_out s1 e2 })
     }"

fun base64_encode_loop :: "u8 list \<Rightarrow> nat \<Rightarrow> nat \<Rightarrow> nat \<times> u8 list \<Rightarrow> (nat \<times> u8 list) option" where
  "base64_encode_loop inp 0 i s = Some s"
| "base64_encode_loop inp (Suc n) i s =
     do { s' \<leftarrow> base64_encode_step inp i s; base64_encode_loop inp n (Suc i) s' }"

text \<open>\<open>i -= 1\<close>, and the last character with its padding.\<close>

definition base64_encode_tail :: "u8 list \<Rightarrow> nat \<Rightarrow> nat \<times> u8 list \<Rightarrow> (nat \<times> u8 list) option" where
  "base64_encode_tail inp inlen s =
     (let i = to_uint (int inlen - 1) in
      if i mod 3 = 0 then do {
        x \<leftarrow> mem_read inp i;
        e \<leftarrow> en (push_bit 4 (ucast x AND 0x3));
        s1 \<leftarrow> put_out s e; s2 \<leftarrow> put_out s1 BASE64_PAD; put_out s2 BASE64_PAD }
      else if i mod 3 = 1 then do {
        x \<leftarrow> mem_read inp i;
        e \<leftarrow> en (push_bit 2 (ucast x AND 0xF));
        s1 \<leftarrow> put_out s e; put_out s1 BASE64_PAD }
      else Some s)"

text \<open>The result is the return value, as an \<open>int\<close>, and the output array.\<close>

definition base64_encode :: "u8 list \<Rightarrow> nat \<Rightarrow> u8 list \<Rightarrow> (int \<times> u8 list) option" where
  "base64_encode inp inlen out =
     do { s \<leftarrow> base64_encode_loop inp inlen 0 (0, out);
          s' \<leftarrow> base64_encode_tail inp inlen s;
          Some (to_int (int (fst s')), snd s') }"

text \<open>\<open>out[j] = v\<close> and \<open>out[j++] += v\<close>.\<close>

definition set_out :: "nat \<times> u8 list \<Rightarrow> u32 \<Rightarrow> (nat \<times> u8 list) option" where
  "set_out s v = do { out' \<leftarrow> mem_write (snd s) (fst s) (ucast v); Some (fst s, out') }"

definition add_out :: "nat \<times> u8 list \<Rightarrow> u32 \<Rightarrow> (nat \<times> u8 list) option" where
  "add_out s v = do { x \<leftarrow> mem_read (snd s) (fst s);
     out' \<leftarrow> mem_write (snd s) (fst s) (ucast (ucast x + v)); Some ((fst s + 1) mod 2 ^ 32, out') }"

text \<open>The index test of \<open>base64de\<close>: \<open>None\<close> for a character outside the alphabet.\<close>

definition base64_digit :: "u8 \<Rightarrow> u32 option" where
  "base64_digit ch =
     (if sint ch < BASE64DE_FIRST \<or> sint ch > BASE64DE_LAST then None
      else let c = base64de ! nat (sint ch - BASE64DE_FIRST)
           in if c = - 1 then None else Some (word_of_int c))"

text \<open>The decoding loop from index \<open>i\<close>, \<open>n\<close> characters left.\<close>

fun base64_decode_loop :: "u8 list \<Rightarrow> nat \<Rightarrow> nat \<Rightarrow> nat \<Rightarrow> nat \<times> u8 list \<Rightarrow> (int \<times> u8 list) option" where
  "base64_decode_loop inp inlen 0 i s = Some (to_int (int (fst s)), snd s)"
| "base64_decode_loop inp inlen (Suc n) i s =
     do {
       ch \<leftarrow> mem_read inp i;
       (if ch = 61 then Some (to_int (int (fst s)), snd s)
        else case base64_digit ch of None \<Rightarrow> Some (- 1, snd s)
        | Some c \<Rightarrow> do {
            s' \<leftarrow> (if i mod 4 = 0 then set_out s (push_bit 2 c AND 0xFF)
                  else if i mod 4 = 1 then do {
                    s1 \<leftarrow> add_out s (drop_bit 4 c AND 0x3);
                    w \<leftarrow> (if i < to_uint (int inlen - 3) then Some True
                         else do { p \<leftarrow> mem_read inp (to_uint (int inlen - 2)); Some (p \<noteq> 61) });
                    (if w then set_out s1 (push_bit 4 (c AND 0xF)) else Some s1) }
                  else if i mod 4 = 2 then do {
                    s1 \<leftarrow> add_out s (drop_bit 2 c AND 0xF);
                    w \<leftarrow> (if i < to_uint (int inlen - 2) then Some True
                         else do { p \<leftarrow> mem_read inp (to_uint (int inlen - 1)); Some (p \<noteq> 61) });
                    (if w then set_out s1 (push_bit 6 (c AND 0x3)) else Some s1) }
                  else add_out s (c AND 0xFF));
            base64_decode_loop inp inlen n (Suc i) s' })
     }"

definition base64_decode :: "u8 list \<Rightarrow> nat \<Rightarrow> u8 list \<Rightarrow> (int \<times> u8 list) option" where
  "base64_decode inp inlen out = base64_decode_loop inp inlen inlen 0 (0, out)"

section \<open>RFC 4648\<close>

definition b64_char :: "nat \<Rightarrow> u8" where
  "b64_char x = base64en ! x"

fun b64 :: "u8 list \<Rightarrow> u8 list" where
  "b64 [] = []"
| "b64 [a] = [b64_char (unat a div 4), b64_char (unat a mod 4 * 16), 61, 61]"
| "b64 [a, b] = [b64_char (unat a div 4), b64_char (unat a mod 4 * 16 + unat b div 16),
     b64_char (unat b mod 16 * 4), 61]"
| "b64 (a # b # c # r) = [b64_char (unat a div 4), b64_char (unat a mod 4 * 16 + unat b div 16),
     b64_char (unat b mod 16 * 4 + unat c div 64), b64_char (unat c mod 64)] @ b64 r"

section \<open>The encoder produces the text of the RFC\<close>

lemma en_unat: "unat x < 64 \<Longrightarrow> en x = Some (b64_char (unat x))"
  by (simp add: en_def b64_char_def mem_read_def base64en_def)

lemma en_first: "en (drop_bit 2 (ucast x) AND 0x3F) = Some (b64_char (unat (x :: u8) div 4))"
  using unat_u8_less [of x] by (subst en_unat) (simp_all add: unat_masks unat_drop_bit)

lemma en_second:
  "en (push_bit 4 (ucast w AND 0x3) + (drop_bit 4 (ucast x) AND 0xF)) =
   Some (b64_char (unat (w :: u8) mod 4 * 16 + unat (x :: u8) div 16))"
proof -
  have "unat (push_bit 4 (ucast w AND (0x3 :: u32)) + (drop_bit 4 (ucast x) AND 0xF)) =
      unat w mod 4 * 16 + unat x div 16"
    using unat_u8_less [of x] unfolding unat_word_ariths unat_push_bit unat_masks unat_drop_bit by simp
  then show ?thesis using unat_u8_less [of x] by (simp only: en_unat)
qed


lemma en_third:
  "en (push_bit 2 (ucast w AND 0xF) + (drop_bit 6 (ucast x) AND 0x3)) =
   Some (b64_char (unat (w :: u8) mod 16 * 4 + unat (x :: u8) div 64))"
proof -
  have "unat (push_bit 2 (ucast w AND (0xF :: u32)) + (drop_bit 6 (ucast x) AND 0x3)) =
      unat w mod 16 * 4 + unat x div 64"
    using unat_u8_less [of x] unfolding unat_word_ariths unat_push_bit unat_masks unat_drop_bit by simp
  then show ?thesis using unat_u8_less [of x] by (simp only: en_unat)
qed

lemma en_fourth: "en (ucast x AND 0x3F) = Some (b64_char (unat (x :: u8) mod 64))"
  by (subst en_unat) (simp_all add: unat_masks)

lemma en_last1: "en (push_bit 4 (ucast x AND 0x3)) = Some (b64_char (unat (x :: u8) mod 4 * 16))"
proof -
  have "unat (push_bit 4 (ucast x AND (0x3 :: u32))) = unat x mod 4 * 16"
    unfolding unat_push_bit unat_masks by simp
  then show ?thesis by (simp only: en_unat)
qed

lemma en_last2: "en (push_bit 2 (ucast x AND 0xF)) = Some (b64_char (unat (x :: u8) mod 16 * 4))"
proof -
  have "unat (push_bit 2 (ucast x AND (0xF :: u32))) = unat x mod 16 * 4"
    unfolding unat_push_bit unat_masks by simp
  then show ?thesis by (simp only: en_unat)
qed

lemmas en_simps = en_first en_second en_third en_fourth en_last1 en_last2

lemma put_out_simp [simp]:
  "j < length out \<Longrightarrow> j + 1 < 2 ^ 32 \<Longrightarrow> put_out (j, out) v = Some (Suc j, out[j := v])"
  by (simp add: put_out_def mem_write_def)

lemma length_b64: "length (b64 r) = (length r + 2) div 3 * 4"
proof (induction r rule: b64.induct)
  case (4 a b c r)
  have "(length (a # b # c # r) + 2) div 3 = Suc ((length r + 2) div 3)" by simp
  then show ?case using 4 by simp
qed auto

lemma to_uint_pred [simp]: "0 < n \<Longrightarrow> n < 2 ^ 32 \<Longrightarrow> to_uint (int n - 1) = n - 1"
  by (simp add: to_uint_def)

text \<open>The loop, with the padding behind it, on what is left of the input.\<close>

lemma base64_encode_spec:
  assumes "pre @ r \<noteq> []" "length pre mod 3 = 0" "length (b64 r) \<le> length rest"
    "length P + length (b64 r) < 2 ^ 32" "length (pre @ r) < 2 ^ 32"
  shows "do { s \<leftarrow> base64_encode_loop (pre @ r) (length r) (length pre) (length P, P @ rest);
      base64_encode_tail (pre @ r) (length (pre @ r)) s } =
    Some (length (P @ b64 r), P @ b64 r @ drop (length (b64 r)) rest)"
  using assms
proof (induction r arbitrary: pre P rest rule: b64.induct)
  case 1
  then have "to_uint (int (length pre) - 1) mod 3 = 2"
    by (cases "length pre") (auto simp: to_uint_def mod_Suc split: if_splits)
  then show ?case by (simp add: base64_encode_tail_def Let_def)
next
  case (2 a)
  then obtain w x y z rest' where "rest = w # x # y # z # rest'" by (auto simp: Suc_le_length_iff)
  with 2 show ?case
    by (simp add: base64_encode_step_def base64_encode_tail_def to_uint_def en_simps list_update_append
       BASE64_PAD_def del: push_bit_and)
next
  case (3 a b)
  then obtain w x y z rest' where "rest = w # x # y # z # rest'" by (auto simp: Suc_le_length_iff)
  moreover have "nat (1 + int (length pre)) = Suc (length pre)" by simp
  ultimately show ?case using 3
    by (simp add: base64_encode_step_def base64_encode_tail_def to_uint_def en_simps list_update_append
       BASE64_PAD_def mod_Suc Let_def del: push_bit_and)
next
  case (4 a b c r)
  then obtain w x y z rest' where rest: "rest = w # x # y # z # rest'" by (auto simp: Suc_le_length_iff)
  let ?e = "take 4 (b64 (a # b # c # r))"
  have "base64_encode_loop (pre @ a # b # c # r) (length (a # b # c # r)) (length pre) (length P, P @ rest) =
      base64_encode_loop ((pre @ [a, b, c]) @ r) (length r) (length (pre @ [a, b, c]))
        (length (P @ ?e), (P @ ?e) @ rest')"
    using 4(2-6) rest
    by (simp add: base64_encode_step_def en_simps list_update_append mod_Suc del: push_bit_and)
  with 4(1) [of "pre @ [a, b, c]" rest' "P @ ?e"] 4(2-6) rest show ?case by (simp add: mod_Suc)
qed

lemma base64_encode_b64:
  assumes "inp \<noteq> []" "length (b64 inp) \<le> length out" "length (b64 inp) < 2 ^ 31"
  shows "base64_encode inp (length inp) out =
    Some (int (length (b64 inp)), b64 inp @ drop (length (b64 inp)) out)"
proof -
  have "length inp < 2 ^ 32" using assms(3) by (simp add: length_b64)
  then obtain s where "base64_encode_loop inp (length inp) 0 (0, out) = Some s"
    "base64_encode_tail inp (length inp) s = Some (length (b64 inp), b64 inp @ drop (length (b64 inp)) out)"
    using base64_encode_spec [of "[]" inp out "[]"] assms by (auto simp: bind_eq_Some_conv)
  then show ?thesis using assms(3) by (simp add: base64_encode_def to_int_id)
qed


section \<open>The decoder inverts the encoder\<close>

lemma base64_digits_all:
  "list_all (\<lambda>x. base64_digit (base64en ! x) = Some (of_nat x) \<and> base64en ! x \<noteq> 61) [0..<64]"
  by code_simp

lemma b64_char_digit:
  assumes "x < 64"
  shows "base64_digit (b64_char x) = Some (of_nat x)" "b64_char x \<noteq> 61"
  using base64_digits_all assms by (simp_all add: list_all_iff b64_char_def)

lemma set_out_simp [simp]:
  "j < length out \<Longrightarrow> set_out (j, out) v = Some (j, out[j := ucast v])"
  by (simp add: set_out_def mem_write_def)

lemma add_out_simp [simp]:
  "j < length out \<Longrightarrow> j + 1 < 2 ^ 32 \<Longrightarrow>
   add_out (j, out) v = Some (Suc j, out[j := ucast (ucast (out ! j) + v)])"
  by (simp add: add_out_def mem_write_def mem_read_def)

lemma unat_of_nat_small: "n < 64 \<Longrightarrow> unat (of_nat n :: u32) = n"
  by (simp add: unat_of_nat)

lemma decode_byte0:
  fixes a :: u8
  assumes "y < 16"
  shows "ucast (ucast (ucast (push_bit 2 (of_nat (unat a div 4) :: u32) AND 0xFF) :: u8) +
     (drop_bit 4 (of_nat (unat a mod 4 * 16 + y) :: u32) AND 0x3)) = a"
proof -
  have h: "unat a div 4 < 64" "unat a mod 4 * 16 + y < 64" using unat_u8_less [of a] assms by auto
  note e = h(1) [THEN unat_of_nat_small] h(2) [THEN unat_of_nat_small]
  show ?thesis
    using unat_u8_less [of a] assms
    unfolding word_unat_eq_iff unat_ucast_u8 unat_word_ariths unat_u8_u32 unat_push_bit unat_masks
      unat_drop_bit e
    by simp
qed

lemma decode_byte1:
  fixes b :: u8
  assumes "x < 4" "y < 4"
  shows "ucast (ucast (ucast (push_bit 4 ((of_nat (x * 16 + unat b div 16) :: u32) AND 0xF)) :: u8) +
     (drop_bit 2 (of_nat (unat b mod 16 * 4 + y) :: u32) AND 0xF)) = b"
proof -
  have h: "x * 16 + unat b div 16 < 64" "unat b mod 16 * 4 + y < 64" using unat_u8_less [of b] assms by auto
  note e = h(1) [THEN unat_of_nat_small] h(2) [THEN unat_of_nat_small]
  show ?thesis
    using unat_u8_less [of b] assms
    unfolding word_unat_eq_iff unat_ucast_u8 unat_word_ariths unat_u8_u32 unat_push_bit unat_masks
      unat_drop_bit e
    by simp
qed

lemma decode_byte2:
  fixes c :: u8
  assumes "x < 16"
  shows "ucast (ucast (ucast (push_bit 6 ((of_nat (x * 4 + unat c div 64) :: u32) AND 0x3)) :: u8) +
     ((of_nat (unat c mod 64) :: u32) AND 0xFF)) = c"
proof -
  have h: "x * 4 + unat c div 64 < 64" "unat c mod 64 < 64" using unat_u8_less [of c] assms by auto
  note e = h(1) [THEN unat_of_nat_small] h(2) [THEN unat_of_nat_small]
  show ?thesis
    using unat_u8_less [of c] assms
    unfolding word_unat_eq_iff unat_ucast_u8 unat_word_ariths unat_u8_u32 unat_push_bit unat_masks
      unat_drop_bit e
    by simp
qed


text \<open>The loop body on a character of the alphabet, by position in the group of four.\<close>

lemma decode_step0:
  assumes "mem_read inp i = Some (b64_char x)" "x < 64" "i mod 4 = 0"
  shows "base64_decode_loop inp n (Suc k) i s =
    do { s' \<leftarrow> set_out s (push_bit 2 (of_nat x) AND 0xFF); base64_decode_loop inp n k (Suc i) s' }"
  using assms by (simp add: b64_char_digit del: push_bit_and drop_bit_and)

lemma decode_step1:
  assumes "mem_read inp i = Some (b64_char x)" "x < 64" "i mod 4 = 1" "length inp = n" "4 \<le> n" "n < 2 ^ 32"
  shows "base64_decode_loop inp n (Suc k) i s =
    do { s1 \<leftarrow> add_out s (drop_bit 4 (of_nat x) AND 0x3);
         s' \<leftarrow> (if i < n - 3 \<or> inp ! (n - 2) \<noteq> 61 then set_out s1 (push_bit 4 (of_nat x AND 0xF)) else Some s1);
         base64_decode_loop inp n k (Suc i) s' }"
proof -
  have u: "to_uint (int n - 3) = n - 3" "to_uint (int n - 2) = n - 2"
    using to_uint_sub [of 3 n] to_uint_sub [of 2 n] assms(5,6) by simp_all
  show ?thesis
    using assms by (cases "i < n - 3") (simp_all add: u b64_char_digit mem_read_Some del: push_bit_and drop_bit_and)
qed

lemma decode_step2:
  assumes "mem_read inp i = Some (b64_char x)" "x < 64" "i mod 4 = 2" "length inp = n" "4 \<le> n" "n < 2 ^ 32"
  shows "base64_decode_loop inp n (Suc k) i s =
    do { s1 \<leftarrow> add_out s (drop_bit 2 (of_nat x) AND 0xF);
         s' \<leftarrow> (if i < n - 2 \<or> inp ! (n - 1) \<noteq> 61 then set_out s1 (push_bit 6 (of_nat x AND 0x3)) else Some s1);
         base64_decode_loop inp n k (Suc i) s' }"
proof -
  have u: "to_uint (int n - 2) = n - 2" "to_uint (int n - 1) = n - 1"
    using to_uint_sub [of 2 n] to_uint_sub [of 1 n] assms(5,6) by simp_all
  show ?thesis
    using assms by (cases "i < n - 2") (simp_all add: u b64_char_digit mem_read_Some del: push_bit_and drop_bit_and)
qed

lemma decode_step3:
  assumes "mem_read inp i = Some (b64_char x)" "x < 64" "i mod 4 = 3"
  shows "base64_decode_loop inp n (Suc k) i s =
    do { s' \<leftarrow> add_out s (of_nat x AND 0xFF); base64_decode_loop inp n k (Suc i) s' }"
  using assms by (simp add: b64_char_digit del: push_bit_and drop_bit_and)

lemma digit_bounds:
  "unat (a :: u8) div 4 < 64" "unat (a :: u8) mod 4 * 16 + unat (b :: u8) div 16 < 64"
  "unat b mod 16 * 4 + unat (c :: u8) div 64 < 64" "unat c mod 64 < 64"
  "unat a mod 4 * 16 < 64" "unat b mod 16 * 4 < 64" "unat b div 16 < 16" "unat c div 64 < 4"
  using unat_u8_less [of a] unat_u8_less [of b] unat_u8_less [of c] by auto

lemma decode_group:
  assumes i: "i mod 4 = 0" and n: "length inp = n" "4 \<le> n" "n < 2 ^ 32" and P: "length P + 3 < 2 ^ 32"
    and rd: "mem_read inp i = Some (b64_char (unat a div 4))"
      "mem_read inp (Suc i) = Some (b64_char (unat a mod 4 * 16 + unat b div 16))"
      "mem_read inp (Suc (Suc i)) = Some (b64_char (unat b mod 16 * 4 + unat c div 64))"
      "mem_read inp (Suc (Suc (Suc i))) = Some (b64_char (unat c mod 64))"
    and w: "Suc i < n - 3 \<or> inp ! (n - 2) \<noteq> 61" "Suc (Suc i) < n - 2 \<or> inp ! (n - 1) \<noteq> 61"
  shows "base64_decode_loop inp n (Suc (Suc (Suc (Suc k)))) i (length P, P @ x # y # z # rest) =
    base64_decode_loop inp n k (Suc (Suc (Suc (Suc i)))) (Suc (Suc (Suc (length P))), P @ a # b # c # rest)"
proof -
  have m: "Suc i mod 4 = 1" "Suc (Suc i) mod 4 = 2" "Suc (Suc (Suc i)) mod 4 = 3"
    using i by (simp_all add: mod_Suc)
  let ?A = "ucast (push_bit 2 (of_nat (unat a div 4) :: u32) AND 0xFF) :: u8"
  let ?B = "ucast (push_bit 4 ((of_nat (unat a mod 4 * 16 + unat b div 16) :: u32) AND 0xF)) :: u8"
  let ?C = "ucast (push_bit 6 ((of_nat (unat b mod 16 * 4 + unat c div 64) :: u32) AND 0x3)) :: u8"
  have "base64_decode_loop inp n (Suc (Suc (Suc (Suc k)))) i (length P, P @ x # y # z # rest) =
      base64_decode_loop inp n (Suc (Suc (Suc k))) (Suc i) (length P, P @ ?A # y # z # rest)"
    unfolding decode_step0 [OF rd(1) digit_bounds(1) i] by (simp del: push_bit_and)
  also have "\<dots> = base64_decode_loop inp n (Suc (Suc k)) (Suc (Suc i)) (Suc (length P), P @ a # ?B # z # rest)"
    unfolding decode_step1 [OF rd(2) digit_bounds(2) m(1) n] if_P [OF w(1)]
    using P by (simp add: decode_byte0 digit_bounds nth_append list_update_append del: push_bit_and of_nat_add of_nat_mult base64_decode_loop.simps)
  also have "\<dots> = base64_decode_loop inp n (Suc k) (Suc (Suc (Suc i))) (Suc (Suc (length P)), P @ a # b # ?C # rest)"
    unfolding decode_step2 [OF rd(3) digit_bounds(3) m(2) n] if_P [OF w(2)]
    using P by (simp add: decode_byte1 digit_bounds nth_append list_update_append del: push_bit_and of_nat_add of_nat_mult base64_decode_loop.simps)
  also have "\<dots> = base64_decode_loop inp n k (Suc (Suc (Suc (Suc i)))) (Suc (Suc (Suc (length P))), P @ a # b # c # rest)"
    unfolding decode_step3 [OF rd(4) digit_bounds(4) m(3)]
    using P by (simp add: decode_byte2 digit_bounds nth_append list_update_append del: push_bit_and of_nat_add of_nat_mult base64_decode_loop.simps)
  finally show ?thesis .
qed


lemma decode_pad:
  "mem_read inp i = Some 61 \<Longrightarrow> base64_decode_loop inp n (Suc k) i (j, out) = Some (to_int (int j), out)"
  by simp

lemma decode_last1:
  assumes i: "i mod 4 = 0" and n: "length inp = n" "4 \<le> n" "n < 2 ^ 32" and P: "length P + 1 < 2 ^ 32"
    and rd: "mem_read inp i = Some (b64_char (unat a div 4))"
      "mem_read inp (Suc i) = Some (b64_char (unat a mod 4 * 16))" "mem_read inp (Suc (Suc i)) = Some 61"
    and w: "\<not> (Suc i < n - 3 \<or> inp ! (n - 2) \<noteq> 61)"
  shows "base64_decode_loop inp n (Suc (Suc (Suc k))) i (length P, P @ x # rest) =
    Some (to_int (int (Suc (length P))), P @ a # rest)"
proof -
  have m: "Suc i mod 4 = 1" using i by (simp add: mod_Suc)
  let ?A = "ucast (push_bit 2 (of_nat (unat a div 4) :: u32) AND 0xFF) :: u8"
  have "base64_decode_loop inp n (Suc (Suc (Suc k))) i (length P, P @ x # rest) =
      base64_decode_loop inp n (Suc (Suc k)) (Suc i) (length P, P @ ?A # rest)"
    unfolding decode_step0 [OF rd(1) digit_bounds(1) i] by (simp del: push_bit_and)
  also have "\<dots> = base64_decode_loop inp n (Suc k) (Suc (Suc i)) (Suc (length P), P @ a # rest)"
    unfolding decode_step1 [OF rd(2) digit_bounds(5) m n] if_not_P [OF w]
    using P decode_byte0 [of 0 a]
    by (simp add: nth_append list_update_append del: push_bit_and of_nat_add of_nat_mult base64_decode_loop.simps)
  finally show ?thesis by (simp only: decode_pad [OF rd(3)])
qed

lemma decode_last2:
  assumes i: "i mod 4 = 0" and n: "length inp = n" "4 \<le> n" "n < 2 ^ 32" and P: "length P + 2 < 2 ^ 32"
    and rd: "mem_read inp i = Some (b64_char (unat a div 4))"
      "mem_read inp (Suc i) = Some (b64_char (unat a mod 4 * 16 + unat b div 16))"
      "mem_read inp (Suc (Suc i)) = Some (b64_char (unat b mod 16 * 4))"
      "mem_read inp (Suc (Suc (Suc i))) = Some 61"
    and w: "Suc i < n - 3 \<or> inp ! (n - 2) \<noteq> 61" "\<not> (Suc (Suc i) < n - 2 \<or> inp ! (n - 1) \<noteq> 61)"
  shows "base64_decode_loop inp n (Suc (Suc (Suc (Suc k)))) i (length P, P @ x # y # rest) =
    Some (to_int (int (Suc (Suc (length P)))), P @ a # b # rest)"
proof -
  have m: "Suc i mod 4 = 1" "Suc (Suc i) mod 4 = 2" using i by (simp_all add: mod_Suc)
  let ?A = "ucast (push_bit 2 (of_nat (unat a div 4) :: u32) AND 0xFF) :: u8"
  let ?B = "ucast (push_bit 4 ((of_nat (unat a mod 4 * 16 + unat b div 16) :: u32) AND 0xF)) :: u8"
  have "base64_decode_loop inp n (Suc (Suc (Suc (Suc k)))) i (length P, P @ x # y # rest) =
      base64_decode_loop inp n (Suc (Suc (Suc k))) (Suc i) (length P, P @ ?A # y # rest)"
    unfolding decode_step0 [OF rd(1) digit_bounds(1) i] by (simp del: push_bit_and)
  also have "\<dots> = base64_decode_loop inp n (Suc (Suc k)) (Suc (Suc i)) (Suc (length P), P @ a # ?B # rest)"
    unfolding decode_step1 [OF rd(2) digit_bounds(2) m(1) n] if_P [OF w(1)]
    using P by (simp add: decode_byte0 digit_bounds nth_append list_update_append
        del: push_bit_and of_nat_add of_nat_mult base64_decode_loop.simps)
  also have "\<dots> = base64_decode_loop inp n (Suc k) (Suc (Suc (Suc i))) (Suc (Suc (length P)), P @ a # b # rest)"
    unfolding decode_step2 [OF rd(3) digit_bounds(6) m(2) n] if_not_P [OF w(2)]
    using P decode_byte1 [of "unat a mod 4" 0 b]
    by (simp add: nth_append list_update_append del: push_bit_and of_nat_add of_nat_mult base64_decode_loop.simps)
  finally show ?thesis by (simp only: decode_pad [OF rd(4)])
qed

lemma base64_decode_spec:
  assumes "length pre mod 4 = 0" "length r \<le> length rest"
    "length P + length r < 2 ^ 32" "length (pre @ b64 r) < 2 ^ 32"
  shows "base64_decode_loop (pre @ b64 r) (length (pre @ b64 r)) (length (b64 r)) (length pre)
      (length P, P @ rest) =
    Some (to_int (int (length P + length r)), P @ r @ drop (length r) rest)"
  using assms
proof (induction r arbitrary: pre P rest rule: b64.induct)
  case 1
  then show ?case by simp
next
  case (2 a)
  then obtain x rest' where "rest = x # rest'" by (auto simp: Suc_le_length_iff)
  moreover have "base64_decode_loop (pre @ b64 [a]) (length (pre @ b64 [a])) (Suc (Suc (Suc 1))) (length pre)
      (length P, P @ x # rest') = Some (to_int (int (Suc (length P))), P @ a # rest')"
    using 2 by (intro decode_last1) (simp_all add: nth_append)
  ultimately show ?case by (simp del: base64_decode_loop.simps)
next
  case (3 a b)
  then obtain x y rest' where "rest = x # y # rest'" by (auto simp: Suc_le_length_iff)
  moreover have "base64_decode_loop (pre @ b64 [a, b]) (length (pre @ b64 [a, b])) (Suc (Suc (Suc (Suc 0)))) (length pre)
      (length P, P @ x # y # rest') = Some (to_int (int (Suc (Suc (length P)))), P @ a # b # rest')"
    using 3 by (intro decode_last2) (simp_all add: nth_append b64_char_digit digit_bounds)
  ultimately show ?case by (simp del: base64_decode_loop.simps)
next
  case (4 a b c r)
  then obtain x y z rest' where rest: "rest = x # y # z # rest'" by (auto simp: Suc_le_length_iff)
  let ?g = "take 4 (b64 (a # b # c # r))" and ?i = "pre @ b64 (a # b # c # r)"
  have r: "r = [] \<or> 4 \<le> length (b64 r)" by (cases r rule: b64.cases) auto
  have "base64_decode_loop ?i (length ?i) (Suc (Suc (Suc (Suc (length (b64 r)))))) (length pre) (length P, P @ x # y # z # rest') =
      base64_decode_loop ?i (length ?i) (length (b64 r)) (Suc (Suc (Suc (Suc (length pre)))))
        (Suc (Suc (Suc (length P))), P @ a # b # c # rest')"
    using 4(2-5) rest r
    by (intro decode_group) (auto simp: nth_append b64_char_digit digit_bounds)
  moreover have "base64_decode_loop ((pre @ ?g) @ b64 r) (length ((pre @ ?g) @ b64 r)) (length (b64 r)) (length (pre @ ?g))
      (length (P @ [a, b, c]), (P @ [a, b, c]) @ rest') =
      Some (to_int (int (length (P @ [a, b, c]) + length r)), (P @ [a, b, c]) @ r @ drop (length r) rest')"
    using 4(2-5) rest by (intro 4(1)) (simp_all add: mod_Suc)
  ultimately show ?case using rest by (simp del: base64_decode_loop.simps)
qed

lemma base64_decode_b64:
  assumes "length r \<le> length out" "length (b64 r) < 2 ^ 31"
  shows "base64_decode (b64 r) (length (b64 r)) out = Some (int (length r), r @ drop (length r) out)"
proof -
  have "length r \<le> length (b64 r)" by (simp add: length_b64)
  then show ?thesis
    using base64_decode_spec [of "[]" r out "[]"] assms by (simp add: base64_decode_def to_int_id)
qed

text \<open>On an empty input the encoder reads the byte at index \<open>2 ^ 32 - 1\<close>.\<close>

lemma base64_encode_empty: "base64_encode [] 0 out = None"
  by (simp add: base64_encode_def base64_encode_tail_def to_uint_def mem_read_def)

lemma base64_decode_bad_char:
  assumes "base64_digit ch = None" "ch \<noteq> 61"
  shows "base64_decode (ch # inp) (Suc n) out = Some (- 1, out)"
  using assms by (simp add: base64_decode_def mem_read_def)

end
