(* ===== verification/Crc.thy ===== *)
theory Crc
  imports YJC_Prelude
begin

text \<open>
  The 22 CRC routines of \<^verbatim>\<open>src/util/crc.c\<close>. Each is the same byte loop around one of two
  register steps, least significant bit first (reflected) or most significant bit first, with
  its own polynomial, initial value and final transformation. The locale \<open>crc_engine\<close> states what
  makes a register step a CRC step, linear and without kernel, and derives that any
  error burst as long as the register is detected and that a message followed by its own CRC
  has a constant residue.
\<close>

section \<open>Model\<close>

definition crc_lsb_bit :: "'w::len word \<Rightarrow> 'w word \<Rightarrow> 'w word" where
  "crc_lsb_bit poly crc = (if crc AND 1 \<noteq> 0 then drop_bit 1 crc XOR poly else drop_bit 1 crc)"

definition crc_msb_bit :: "'w::len word \<Rightarrow> 'w word \<Rightarrow> 'w word \<Rightarrow> 'w word" where
  "crc_msb_bit tb poly crc = (if crc AND tb \<noteq> 0 then push_bit 1 crc XOR poly else push_bit 1 crc)"

text \<open>\<open>crc ^= *data++\<close> and the eight steps of the inner loop.\<close>

definition crc_byte :: "('w::len word \<Rightarrow> 'w word) \<Rightarrow> (u8 \<Rightarrow> 'w word) \<Rightarrow> 'w word \<Rightarrow> u8 \<Rightarrow> 'w word" where
  "crc_byte bitf inject crc d = (bitf ^^ 8) (crc XOR inject d)"

text \<open>\<open>while (length--)\<close>, the bytes at \<open>p\<close> and behind it.\<close>

fun crc_loop :: "('w::len word \<Rightarrow> 'w word) \<Rightarrow> (u8 \<Rightarrow> 'w word) \<Rightarrow> u8 list \<Rightarrow> nat \<Rightarrow> nat \<Rightarrow> 'w word \<Rightarrow>
    'w word option" where
  "crc_loop bitf inject data 0 p crc = Some crc"
| "crc_loop bitf inject data (Suc n) p crc =
     do { d \<leftarrow> mem_read data p; crc_loop bitf inject data n (Suc p) (crc_byte bitf inject crc d) }"

definition crc4_itu :: "u8 list \<Rightarrow> nat \<Rightarrow> u8 option" where
  "crc4_itu data len = crc_loop (crc_lsb_bit 0x0C) ucast data len 0 0"

definition crc5_epc :: "u8 list \<Rightarrow> nat \<Rightarrow> u8 option" where
  "crc5_epc data len = map_option (drop_bit 3) (crc_loop (crc_msb_bit 0x80 0x48) ucast data len 0 0x48)"

definition crc5_itu :: "u8 list \<Rightarrow> nat \<Rightarrow> u8 option" where
  "crc5_itu data len = crc_loop (crc_lsb_bit 0x15) ucast data len 0 0"

definition crc5_usb :: "u8 list \<Rightarrow> nat \<Rightarrow> u8 option" where
  "crc5_usb data len = map_option (\<lambda>crc. crc XOR 0x1F) (crc_loop (crc_lsb_bit 0x14) ucast data len 0 0x1F)"

definition crc6_itu :: "u8 list \<Rightarrow> nat \<Rightarrow> u8 option" where
  "crc6_itu data len = crc_loop (crc_lsb_bit 0x30) ucast data len 0 0"

definition crc7_mmc :: "u8 list \<Rightarrow> nat \<Rightarrow> u8 option" where
  "crc7_mmc data len = map_option (drop_bit 1) (crc_loop (crc_msb_bit 0x80 0x12) ucast data len 0 0)"

definition crc8 :: "u8 list \<Rightarrow> nat \<Rightarrow> u8 option" where
  "crc8 data len = crc_loop (crc_msb_bit 0x80 0x07) ucast data len 0 0"

definition crc8_itu :: "u8 list \<Rightarrow> nat \<Rightarrow> u8 option" where
  "crc8_itu data len = map_option (\<lambda>crc. crc XOR 0x55) (crc_loop (crc_msb_bit 0x80 0x07) ucast data len 0 0)"

definition crc8_rohc :: "u8 list \<Rightarrow> nat \<Rightarrow> u8 option" where
  "crc8_rohc data len = crc_loop (crc_lsb_bit 0xE0) ucast data len 0 0xFF"

definition crc8_maxim :: "u8 list \<Rightarrow> nat \<Rightarrow> u8 option" where
  "crc8_maxim data len = crc_loop (crc_lsb_bit 0x8C) ucast data len 0 0"

definition crc16_ibm :: "u8 list \<Rightarrow> nat \<Rightarrow> u16 option" where
  "crc16_ibm data len = crc_loop (crc_lsb_bit 0xA001) ucast data len 0 0"

definition crc16_maxim :: "u8 list \<Rightarrow> nat \<Rightarrow> u16 option" where
  "crc16_maxim data len = map_option (\<lambda>crc. NOT crc) (crc_loop (crc_lsb_bit 0xA001) ucast data len 0 0)"

definition crc16_usb :: "u8 list \<Rightarrow> nat \<Rightarrow> u16 option" where
  "crc16_usb data len = map_option (\<lambda>crc. NOT crc) (crc_loop (crc_lsb_bit 0xA001) ucast data len 0 0xffff)"

definition crc16_modbus :: "u8 list \<Rightarrow> nat \<Rightarrow> u16 option" where
  "crc16_modbus data len = crc_loop (crc_lsb_bit 0xA001) ucast data len 0 0xffff"

definition crc16_ccitt :: "u8 list \<Rightarrow> nat \<Rightarrow> u16 option" where
  "crc16_ccitt data len = crc_loop (crc_lsb_bit 0x8408) ucast data len 0 0"

definition crc16_ccitt_false :: "u8 list \<Rightarrow> nat \<Rightarrow> u16 option" where
  "crc16_ccitt_false data len = crc_loop (crc_msb_bit 0x8000 0x1021) (\<lambda>d. push_bit 8 (ucast d)) data len 0 0xffff"

definition crc16_x25 :: "u8 list \<Rightarrow> nat \<Rightarrow> u16 option" where
  "crc16_x25 data len = map_option (\<lambda>crc. NOT crc) (crc_loop (crc_lsb_bit 0x8408) ucast data len 0 0xffff)"

definition crc16_xmodem :: "u8 list \<Rightarrow> nat \<Rightarrow> u16 option" where
  "crc16_xmodem data len = crc_loop (crc_msb_bit 0x8000 0x1021) (\<lambda>d. push_bit 8 (ucast d)) data len 0 0"

definition crc16_dnp :: "u8 list \<Rightarrow> nat \<Rightarrow> u16 option" where
  "crc16_dnp data len = map_option (\<lambda>crc. NOT crc) (crc_loop (crc_lsb_bit 0xA6BC) ucast data len 0 0)"

definition crc16_cus :: "u8 list \<Rightarrow> nat \<Rightarrow> u16 option" where
  "crc16_cus data len = map_option (\<lambda>crc. NOT crc) (crc_loop (crc_msb_bit 0x8000 0x8005) (\<lambda>d. push_bit 8 (ucast d)) data len 0 0xFFFF)"

definition crc32 :: "u8 list \<Rightarrow> nat \<Rightarrow> u32 option" where
  "crc32 data len = map_option (\<lambda>crc. NOT crc) (crc_loop (crc_lsb_bit 0xEDB88320) ucast data len 0 0xffffffff)"

definition crc32_mpeg_2 :: "u8 list \<Rightarrow> nat \<Rightarrow> u32 option" where
  "crc32_mpeg_2 data len = crc_loop (crc_msb_bit 0x80000000 0x04C11DB7) (\<lambda>d. push_bit 24 (ucast d)) data len 0 0xffffffff"

section \<open>Engines\<close>

text \<open>The register after the bytes of a message.\<close>

definition crc_feed :: "('w::len word \<Rightarrow> 'w word) \<Rightarrow> (u8 \<Rightarrow> 'w word) \<Rightarrow> 'w word \<Rightarrow> u8 list \<Rightarrow> 'w word" where
  "crc_feed step inject c xs = foldl (crc_byte step inject) c xs"

text \<open>Up to a register full of bytes as one word, in the order the engine shifts them out.\<close>

fun crc_pack :: "(u8 \<Rightarrow> 'w::len word) \<Rightarrow> ('w word \<Rightarrow> 'w word) \<Rightarrow> u8 list \<Rightarrow> 'w word" where
  "crc_pack inject lft [] = 0"
| "crc_pack inject lft (x # xs) = inject x XOR lft (crc_pack inject lft xs)"

lemma xor_eq_0: "a XOR b = 0 \<longleftrightarrow> a = (b :: 'a::len word)"
  by (metis xor.assoc xor.left_neutral xor.right_neutral xor_self_eq)

locale crc_engine =
  fixes step :: "'w::len word \<Rightarrow> 'w word"
    and inject :: "u8 \<Rightarrow> 'w word"
    and lft :: "'w word \<Rightarrow> 'w word"
    and wd :: nat
  assumes step_xor: "step (a XOR b) = step a XOR step b"
    and step_ker: "step a = 0 \<Longrightarrow> a = 0"
    and pack_step: "length xs < wd \<Longrightarrow> (step ^^ 8) (lft (crc_pack inject lft xs)) = crc_pack inject lft xs"
    and pack_inj: "length xs = length ys \<Longrightarrow> length xs \<le> wd \<Longrightarrow>
      crc_pack inject lft xs = crc_pack inject lft ys \<Longrightarrow> xs = ys"
begin

lemma funpow_xor: "(step ^^ n) (a XOR b) = (step ^^ n) a XOR (step ^^ n) b"
  by (induction n) (simp_all add: step_xor)

lemma funpow_inj: "(step ^^ n) a = (step ^^ n) b \<longleftrightarrow> a = b"
proof (induction n)
  case (Suc n)
  have "step x = step y \<longleftrightarrow> x = y" for x y
    using step_xor [of x y] step_ker [of "x XOR y"] by (auto simp: xor_eq_0)
  with Suc show ?case by simp
qed simp

lemma funpow_zero: "(step ^^ n) 0 = 0"
  using step_xor [of 0 0] by (induction n) simp_all

lemma feed_append: "crc_feed step inject c (xs @ ys) = crc_feed step inject (crc_feed step inject c xs) ys"
  by (simp add: crc_feed_def)

lemma feed_pack:
  "length xs \<le> wd \<Longrightarrow> crc_feed step inject c xs = (step ^^ (8 * length xs)) (c XOR crc_pack inject lft xs)"
proof (induction xs arbitrary: c)
  case (Cons x xs)
  let ?p = "crc_pack inject lft xs"
  have "(step ^^ 8) ((c XOR inject x) XOR lft ?p) = (step ^^ 8) (c XOR inject x) XOR ?p"
    using Cons.prems by (simp add: funpow_xor pack_step)
  moreover have "crc_feed step inject c (x # xs) = crc_feed step inject ((step ^^ 8) (c XOR inject x)) xs"
    by (simp add: crc_feed_def crc_byte_def)
  moreover have "(step ^^ (8 * length (x # xs))) y = (step ^^ (8 * length xs)) ((step ^^ 8) y)" for y
    using funpow_add [of "8 * length xs" 8 step] by (simp add: add.commute)
  ultimately show ?case using Cons by (simp add: xor.assoc)
qed (simp add: crc_feed_def)

lemma feed_inj: "crc_feed step inject c xs = crc_feed step inject c' xs \<longleftrightarrow> c = c'"
proof (induction xs arbitrary: c c')
  case (Cons x xs)
  have "(step ^^ 8) (c XOR inject x) = (step ^^ 8) (c' XOR inject x) \<longleftrightarrow> c = c'"
    unfolding funpow_inj by (metis xor.assoc xor.right_neutral xor_self_eq)
  with Cons show ?case by (simp add: crc_feed_def crc_byte_def)
qed (simp add: crc_feed_def)

text \<open>An error burst that fits in the register changes the CRC.\<close>

lemma burst_detected:
  assumes "length x = length y" "length x \<le> wd" "x \<noteq> y"
  shows "crc_feed step inject c (p @ x @ s) \<noteq> crc_feed step inject c (p @ y @ s)"
proof -
  let ?c = "crc_feed step inject c p"
  have "crc_feed step inject ?c x \<noteq> crc_feed step inject ?c y"
    using assms pack_inj [of x y]
    by (auto simp: feed_pack funpow_inj) (metis xor.assoc xor.left_neutral xor_self_eq)
  then show ?thesis by (simp add: feed_append feed_inj)
qed

text \<open>A message followed by bytes that differ from its register by \<open>k\<close>.\<close>

lemma residue:
  assumes "length bs = wd" "crc_pack inject lft bs = crc_feed step inject c d XOR k"
  shows "crc_feed step inject c (d @ bs) = (step ^^ (8 * wd)) k"
  using assms by (simp add: feed_append feed_pack flip: xor.assoc)

end

section \<open>The two bit orders\<close>

lemma and_one_bit: "a AND 1 = 0 \<longleftrightarrow> \<not> bit (a :: 'a::len word) 0"
  by (simp add: and_one_eq bit_0 even_iff_mod_2_eq_zero)

lemma bit_lsb_step:
  "bit (crc_lsb_bit poly a) n \<longleftrightarrow> bit a (Suc n) \<noteq> (bit a 0 \<and> bit poly n)"
  by (auto simp: crc_lsb_bit_def and_one_bit bit_simps)

lemma lsb_step_xor: "crc_lsb_bit poly (a XOR b) = crc_lsb_bit poly a XOR crc_lsb_bit poly b"
  by (rule bit_word_eqI) (auto simp: bit_lsb_step bit_simps)

lemma lsb_step_ker:
  assumes "bit (poly :: 'w::len word) (LENGTH('w) - 1)" "crc_lsb_bit poly a = 0"
  shows "a = 0"
proof -
  have b: "\<not> bit (crc_lsb_bit poly a) n" for n using assms(2) by simp
  have "\<not> bit a 0"
    using b [of "LENGTH('w) - 1"] assms(1) by (auto simp: bit_lsb_step dest: bit_imp_le_length)
  moreover have "\<not> bit a (Suc n)" for n using b [of n] calculation by (simp add: bit_lsb_step)
  ultimately show ?thesis by (intro bit_word_eqI) (metis bit_0_eq bot_apply bot_bool_def not0_implies_Suc)
qed

lemma lsb_pack_bit:
  "bit (crc_pack ucast (push_bit 8) xs :: 'w::len word) n \<longleftrightarrow>
     n < LENGTH('w) \<and> n < 8 * length xs \<and> bit (xs ! (n div 8)) (n mod 8)"
proof (induction xs arbitrary: n)
  case (Cons x xs)
  show ?case
  proof (cases "n < 8")
    case True
    then show ?thesis by (auto simp: bit_simps)
  next
    case False
    then have "\<not> bit x n" by (auto dest: bit_imp_le_length)
    moreover have "n div 8 = Suc ((n - 8) div 8)" "n mod 8 = (n - 8) mod 8"
      using False by (simp_all add: le_div_geq le_mod_geq)
    ultimately show ?thesis using False Cons [of "n - 8"] by (auto simp: bit_simps)
  qed
qed simp

lemma bits_eq_lists:
  assumes "length xs = length ys"
    and "\<And>m. m < 8 * length xs \<Longrightarrow> bit (xs ! (m div 8) :: u8) (m mod 8) = bit (ys ! (m div 8)) (m mod 8)"
  shows "xs = ys"
proof (rule nth_equalityI [OF assms(1)])
  fix i assume i: "i < length xs"
  show "xs ! i = ys ! i"
  proof (rule bit_word_eqI)
    fix k assume "k < LENGTH(8)"
    then have "8 * i + k < 8 * length xs" "(8 * i + k) div 8 = i" "(8 * i + k) mod 8 = k" using i by auto
    with assms(2) [of "8 * i + k"] show "bit (xs ! i) k \<longleftrightarrow> bit (ys ! i) k" by simp
  qed
qed

lemma lsb_pack_inj:
  assumes "length xs = length ys" "8 * length xs \<le> LENGTH('w)"
    "crc_pack ucast (push_bit 8) xs = (crc_pack ucast (push_bit 8) ys :: 'w::len word)"
  shows "xs = ys"
proof (rule bits_eq_lists [OF assms(1)])
  fix m assume "m < 8 * length xs"
  with lsb_pack_bit [of xs m, where 'w = 'w] lsb_pack_bit [of ys m, where 'w = 'w] assms
  show "bit (xs ! (m div 8)) (m mod 8) = bit (ys ! (m div 8)) (m mod 8)" by auto
qed

lemma lsb_shift_out:
  assumes "\<And>n. LENGTH('w) \<le> n + 8 \<Longrightarrow> \<not> bit (w :: 'w::len word) n" "k \<le> 8"
  shows "(crc_lsb_bit poly ^^ k) (push_bit 8 w) = push_bit (8 - k) w"
  using assms(2)
proof (induction k)
  case (Suc k)
  then have e: "8 - k = Suc (7 - k)" by simp
  have "crc_lsb_bit poly (push_bit (Suc (7 - k)) w) = push_bit (7 - k) w"
  proof (rule bit_word_eqI)
    fix n assume n: "n < LENGTH('w)"
    have "\<not> bit w (n - (7 - k))" if "\<not> Suc n < LENGTH('w)" "7 - k \<le> n"
      by (rule assms(1)) (use that n in linarith)
    then show "bit (crc_lsb_bit poly (push_bit (Suc (7 - k)) w)) n \<longleftrightarrow> bit (push_bit (7 - k) w) n"
      using n unfolding bit_lsb_step bit_push_bit_iff by auto
  qed
  then show ?case using Suc by (simp add: e del: push_bit_Suc)
qed simp

lemma lsb_engine:
  assumes "bit (poly :: 'w::len word) (LENGTH('w) - 1)" "8 * wd = LENGTH('w)"
  shows "crc_engine (crc_lsb_bit poly) ucast (push_bit 8) wd"
proof
  fix a b :: "'w word" and xs ys :: "u8 list"
  show "crc_lsb_bit poly (a XOR b) = crc_lsb_bit poly a XOR crc_lsb_bit poly b" by (rule lsb_step_xor)
  show "crc_lsb_bit poly a = 0 \<Longrightarrow> a = 0" by (rule lsb_step_ker [OF assms(1)])
  show "(crc_lsb_bit poly ^^ 8) (push_bit 8 (crc_pack ucast (push_bit 8) xs)) =
      (crc_pack ucast (push_bit 8) xs :: 'w word)" if "length xs < wd"
    using that assms(2) by (subst lsb_shift_out) (auto simp: lsb_pack_bit)
  show "xs = ys" if "length xs = length ys" "length xs \<le> wd"
    "crc_pack ucast (push_bit 8) xs = (crc_pack ucast (push_bit 8) ys :: 'w word)"
    using lsb_pack_inj [OF that(1) _ that(3)] that(2) assms(2) by simp
qed

definition crc_top :: "u8 \<Rightarrow> 'w::len word" where
  "crc_top d = push_bit (LENGTH('w) - 8) (ucast d)"

lemma and_top_bit: "a AND push_bit k 1 = 0 \<longleftrightarrow> \<not> bit (a :: 'a::len word) k"
  by (simp add: bit_iff_and_push_bit_not_eq_0)

lemma bit_msb_step:
  "bit (crc_msb_bit (push_bit k 1) poly a) n \<longleftrightarrow>
     (0 < n \<and> n < LENGTH('w) \<and> bit a (n - 1)) \<noteq> (bit a k \<and> bit poly n)" for a :: "'w::len word"
proof -
  have "bit (push_bit 1 a) n \<longleftrightarrow> 0 < n \<and> n < LENGTH('w) \<and> bit a (n - 1)"
    unfolding bit_push_bit_iff by auto
  then show ?thesis
    unfolding crc_msb_bit_def and_top_bit by (auto simp: bit_xor_iff)
qed

lemma msb_step_xor:
  "crc_msb_bit (push_bit k 1) poly (a XOR b) = crc_msb_bit (push_bit k 1) poly a XOR crc_msb_bit (push_bit k 1) poly b"
  by (rule bit_word_eqI, unfold bit_xor_iff bit_msb_step) auto

lemma msb_step_ker:
  assumes "bit (poly :: 'w::len word) 0" "crc_msb_bit (push_bit (LENGTH('w) - 1) 1) poly a = 0"
  shows "a = 0"
proof -
  let ?s = "crc_msb_bit (push_bit (LENGTH('w) - 1) 1) poly a"
  have b: "\<not> bit ?s n" for n using assms(2) by (simp only: bit_0_eq bot_apply bot_bool_def not_False_eq_True)
  have top: "\<not> bit a (LENGTH('w) - 1)" using b [of 0] assms(1) unfolding bit_msb_step by simp
  show ?thesis
  proof (rule bit_word_eqI)
    fix n assume "n < LENGTH('w)"
    then show "bit a n \<longleftrightarrow> bit 0 n"
      using top b [of "Suc n"] unfolding bit_msb_step by (cases "n = LENGTH('w) - 1") auto
  qed
qed

lemma bit_crc_top:
  "bit (crc_top d :: 'w::len word) n \<longleftrightarrow> LENGTH('w) - 8 \<le> n \<and> n < LENGTH('w) \<and> bit d (n - (LENGTH('w) - 8))"
  by (auto simp: crc_top_def bit_simps)

lemma msb_pack_bit:
  assumes "8 \<le> LENGTH('w)" "m < LENGTH('w)"
  shows "bit (crc_pack crc_top (drop_bit 8) xs :: 'w::len word) (LENGTH('w) - 1 - m) \<longleftrightarrow>
     m < 8 * length xs \<and> bit (xs ! (m div 8)) (7 - m mod 8)"
  using assms(2)
proof (induction xs arbitrary: m)
  case (Cons x xs)
  let ?p = "crc_pack crc_top (drop_bit 8) xs :: 'w word" and ?n = "LENGTH('w) - 1 - m"
  have c: "bit (crc_pack crc_top (drop_bit 8) (x # xs) :: 'w word) ?n \<longleftrightarrow>
      bit (crc_top x :: 'w word) ?n \<noteq> bit ?p (8 + ?n)"
    by (simp add: bit_xor_iff bit_drop_bit_eq)
  show ?case
  proof (cases "m < 8")
    case True
    have "\<not> bit ?p (8 + ?n)" using bit_imp_le_length [of ?p "8 + ?n"] True by linarith
    moreover have "?n - (LENGTH('w) - 8) = 7 - m" "LENGTH('w) - 8 \<le> ?n" "?n < LENGTH('w)"
      using True assms(1) Cons.prems by linarith+
    ultimately show ?thesis using True unfolding c bit_crc_top by simp
  next
    case False
    then obtain k where k: "m = 8 + k" by (metis le_Suc_ex not_less)
    then have "8 + ?n = LENGTH('w) - 1 - k" "\<not> LENGTH('w) - 8 \<le> ?n" "k < LENGTH('w)"
      using Cons.prems by linarith+
    moreover have "m div 8 = Suc (k div 8)" "m mod 8 = k mod 8" by (simp_all add: k)
    ultimately show ?thesis using Cons.IH [of k] k unfolding c bit_crc_top by simp
  qed
qed simp

lemma msb_pack_inj:
  assumes "length xs = length ys" "8 * length xs \<le> LENGTH('w)" "8 \<le> LENGTH('w)"
    "crc_pack crc_top (drop_bit 8) xs = (crc_pack crc_top (drop_bit 8) ys :: 'w::len word)"
  shows "xs = ys"
proof (rule bits_eq_lists [OF assms(1)])
  fix m assume m: "m < 8 * length xs"
  define k where "k = 8 * (m div 8) + (7 - m mod 8)"
  have q: "(8 * q + t) div 8 = q \<and> (8 * q + t) mod 8 = t" if "t < 8" for q t :: nat using that by auto
  have k: "k div 8 = m div 8" "7 - k mod 8 = m mod 8"
    using q [of "7 - m mod 8" "m div 8"] unfolding k_def by auto
  have "m div 8 < length xs" using m by auto
  then have "k < 8 * length xs" unfolding k_def by linarith
  then show "bit (xs ! (m div 8)) (m mod 8) = bit (ys ! (m div 8)) (m mod 8)"
    using msb_pack_bit [OF assms(3), of k xs] msb_pack_bit [OF assms(3), of k ys] assms(1,2,4) k by simp
qed

lemma msb_shift_out:
  assumes "\<And>n. n < 8 \<Longrightarrow> \<not> bit (w :: 'w::len word) n" "k \<le> 8"
  shows "(crc_msb_bit (push_bit (LENGTH('w) - 1) 1) poly ^^ k) (drop_bit 8 w) = drop_bit (8 - k) w"
  using assms(2)
proof (induction k)
  case (Suc k)
  let ?s = "crc_msb_bit (push_bit (LENGTH('w) - 1) 1) poly"
  from Suc have e: "8 - k = Suc (7 - k)" by simp
  have "\<not> bit w (7 - k)" using assms(1) [of "7 - k"] by simp
  then have "bit (?s (drop_bit (Suc (7 - k)) w)) n \<longleftrightarrow> bit (drop_bit (7 - k) w) n"
    if "n < LENGTH('w)" for n
    using that unfolding bit_msb_step bit_drop_bit_eq comp_def
    by (cases n) (auto dest: bit_imp_le_length)
  then have "?s (drop_bit (Suc (7 - k)) w) = drop_bit (7 - k) w" by (rule bit_word_eqI)
  then show ?case using Suc by (simp add: e del: drop_bit_Suc push_bit_of_1)
qed simp

lemma msb_engine:
  assumes "bit (poly :: 'w::len word) 0" "8 * wd = LENGTH('w)"
  shows "crc_engine (crc_msb_bit (push_bit (LENGTH('w) - 1) 1) poly) crc_top (drop_bit 8) wd"
proof
  let ?s = "crc_msb_bit (push_bit (LENGTH('w) - 1) 1) poly"
  fix a b :: "'w word" and xs ys :: "u8 list"
  have w8: "8 \<le> LENGTH('w)" using assms(2) by (cases wd) auto
  show "?s (a XOR b) = ?s a XOR ?s b" by (rule msb_step_xor)
  show "?s a = 0 \<Longrightarrow> a = 0" by (rule msb_step_ker [OF assms(1)])
  show "(?s ^^ 8) (drop_bit 8 (crc_pack crc_top (drop_bit 8) xs)) =
      (crc_pack crc_top (drop_bit 8) xs :: 'w word)" if "length xs < wd"
  proof -
    have "\<not> bit (crc_pack crc_top (drop_bit 8) xs :: 'w word) n" if "n < 8" for n
    proof -
      have "\<not> LENGTH('w) - 1 - n < 8 * length xs" using that assms(2) \<open>length xs < wd\<close> by linarith
      then show ?thesis using msb_pack_bit [OF w8, of "LENGTH('w) - 1 - n" xs] that w8 by simp
    qed
    then show ?thesis by (subst msb_shift_out) simp_all
  qed
  show "xs = ys" if "length xs = length ys" "length xs \<le> wd"
    "crc_pack crc_top (drop_bit 8) xs = (crc_pack crc_top (drop_bit 8) ys :: 'w word)"
    using msb_pack_inj [OF that(1) _ w8 that(3)] that(2) assms(2) by simp
qed

section \<open>The routines as engines\<close>

lemma crc_loop_feed:
  "p + n \<le> length data \<Longrightarrow>
   crc_loop bitf inject data n p crc = Some (crc_feed bitf inject crc (take n (drop p data)))"
proof (induction n arbitrary: p crc)
  case (Suc n)
  then have "take (Suc n) (drop p data) = data ! p # take n (drop (Suc p) data)"
    by (simp add: Cons_nth_drop_Suc [symmetric])
  with Suc show ?case by (simp add: mem_read_Some crc_feed_def)
qed (simp add: crc_feed_def)

lemma crc_loop_all: "crc_loop bitf inject data (length data) 0 crc = Some (crc_feed bitf inject crc data)"
  by (simp add: crc_loop_feed)


interpretation e32: crc_engine "crc_lsb_bit (0xEDB88320 :: u32)" ucast "push_bit 8" 4
  by (rule lsb_engine) (simp_all add: bit_numeral_rec)

interpretation e16: crc_engine "crc_lsb_bit (0xA001 :: u16)" ucast "push_bit 8" 2
  by (rule lsb_engine) (simp_all add: bit_numeral_rec)

interpretation eccitt: crc_engine "crc_lsb_bit (0x8408 :: u16)" ucast "push_bit 8" 2
  by (rule lsb_engine) (simp_all add: bit_numeral_rec)

interpretation ednp: crc_engine "crc_lsb_bit (0xA6BC :: u16)" ucast "push_bit 8" 2
  by (rule lsb_engine) (simp_all add: bit_numeral_rec)

interpretation erohc: crc_engine "crc_lsb_bit (0xE0 :: u8)" ucast "push_bit 8" 1
  by (rule lsb_engine) (simp_all add: bit_numeral_rec)

interpretation emaxim: crc_engine "crc_lsb_bit (0x8C :: u8)" ucast "push_bit 8" 1
  by (rule lsb_engine) (simp_all add: bit_numeral_rec)

lemma msb_engine_top:
  assumes "bit (poly :: 'w::len word) 0" "8 * wd = LENGTH('w)" "tb = push_bit (LENGTH('w) - 1) 1" "inj8 = crc_top"
  shows "crc_engine (crc_msb_bit tb poly) inj8 (drop_bit 8) wd"
  unfolding assms(3,4) by (rule msb_engine [OF assms(1,2)])

interpretation empeg: crc_engine "crc_msb_bit 0x80000000 (0x04C11DB7 :: u32)" "\<lambda>d. push_bit 24 (ucast d)" "drop_bit 8" 4
  by (rule msb_engine_top) (simp_all add: bit_numeral_rec crc_top_def fun_eq_iff)

interpretation exm: crc_engine "crc_msb_bit 0x8000 (0x1021 :: u16)" "\<lambda>d. push_bit 8 (ucast d)" "drop_bit 8" 2
  by (rule msb_engine_top) (simp_all add: bit_numeral_rec crc_top_def fun_eq_iff)

interpretation ecus: crc_engine "crc_msb_bit 0x8000 (0x8005 :: u16)" "\<lambda>d. push_bit 8 (ucast d)" "drop_bit 8" 2
  by (rule msb_engine_top) (simp_all add: bit_numeral_rec crc_top_def fun_eq_iff)

interpretation e8: crc_engine "crc_msb_bit 0x80 (0x07 :: u8)" ucast "drop_bit 8" 1
  by (rule msb_engine_top) (simp_all add: bit_numeral_rec crc_top_def fun_eq_iff)

text \<open>The message of the CRC catalogue, the digits 1 to 9.\<close>

definition crc_check_msg :: "u8 list" where
  "crc_check_msg = [0x31, 0x32, 0x33, 0x34, 0x35, 0x36, 0x37, 0x38, 0x39]"

section \<open>Check values\<close>

lemma funpow8: "(f ^^ 8) x = f (f (f (f (f (f (f (f x)))))))" by (simp add: eval_nat_numeral)

lemma length_check_msg: "length crc_check_msg = 9"
  by (simp add: crc_check_msg_def)

lemma crc_loop_check: "crc_loop b i crc_check_msg 9 0 c = Some (foldl (crc_byte b i) c crc_check_msg)"
  using crc_loop_all [of b i crc_check_msg c, unfolded length_check_msg] by (simp add: crc_feed_def)

lemmas crc_eval = crc_loop_check [unfolded crc_check_msg_def] crc_check_msg_def crc_lsb_bit_def
  crc_msb_bit_def crc_byte_def funpow8

lemma check_crc4_itu: "crc4_itu crc_check_msg 9 = Some 0x7"
  by (simp add: crc4_itu_def crc_eval)
lemma check_crc5_epc: "crc5_epc crc_check_msg 9 = Some 0x0"
  by (simp add: crc5_epc_def crc_eval)
lemma check_crc5_itu: "crc5_itu crc_check_msg 9 = Some 0x7"
  by (simp add: crc5_itu_def crc_eval)
lemma check_crc5_usb: "crc5_usb crc_check_msg 9 = Some 0x19"
  by (simp add: crc5_usb_def crc_eval)
lemma check_crc6_itu: "crc6_itu crc_check_msg 9 = Some 0x6"
  by (simp add: crc6_itu_def crc_eval)
lemma check_crc7_mmc: "crc7_mmc crc_check_msg 9 = Some 0x75"
  by (simp add: crc7_mmc_def crc_eval)
lemma check_crc8: "crc8 crc_check_msg 9 = Some 0xf4"
  by (simp add: crc8_def crc_eval)
lemma check_crc8_itu: "crc8_itu crc_check_msg 9 = Some 0xa1"
  by (simp add: crc8_itu_def crc_eval)
lemma check_crc8_rohc: "crc8_rohc crc_check_msg 9 = Some 0xd0"
  by (simp add: crc8_rohc_def crc_eval)
lemma check_crc8_maxim: "crc8_maxim crc_check_msg 9 = Some 0xa1"
  by (simp add: crc8_maxim_def crc_eval)
lemma check_crc16_ibm: "crc16_ibm crc_check_msg 9 = Some 0xbb3d"
  by (simp add: crc16_ibm_def crc_eval)
lemma check_crc16_maxim: "crc16_maxim crc_check_msg 9 = Some 0x44c2"
  by (simp add: crc16_maxim_def crc_eval)
lemma check_crc16_usb: "crc16_usb crc_check_msg 9 = Some 0xb4c8"
  by (simp add: crc16_usb_def crc_eval)
lemma check_crc16_modbus: "crc16_modbus crc_check_msg 9 = Some 0x4b37"
  by (simp add: crc16_modbus_def crc_eval)
lemma check_crc16_ccitt: "crc16_ccitt crc_check_msg 9 = Some 0x2189"
  by (simp add: crc16_ccitt_def crc_eval)
lemma check_crc16_ccitt_false: "crc16_ccitt_false crc_check_msg 9 = Some 0x29b1"
  by (simp add: crc16_ccitt_false_def crc_eval)
lemma check_crc16_x25: "crc16_x25 crc_check_msg 9 = Some 0x906e"
  by (simp add: crc16_x25_def crc_eval)
lemma check_crc16_xmodem: "crc16_xmodem crc_check_msg 9 = Some 0x31c3"
  by (simp add: crc16_xmodem_def crc_eval)
lemma check_crc16_dnp: "crc16_dnp crc_check_msg 9 = Some 0xea82"
  by (simp add: crc16_dnp_def crc_eval)
lemma check_crc16_cus: "crc16_cus crc_check_msg 9 = Some 0x5118"
  by (simp add: crc16_cus_def crc_eval)
lemma check_crc32: "crc32 crc_check_msg 9 = Some 0xcbf43926"
  by (simp add: crc32_def crc_eval)
lemma check_crc32_mpeg_2: "crc32_mpeg_2 crc_check_msg 9 = Some 0x376e6e7"
  by (simp add: crc32_mpeg_2_def crc_eval)

section \<open>Bursts and residues\<close>

text \<open>The bytes of a CRC in the order of transmission: low byte first, high byte first.\<close>

definition crc_bytes_le :: "'w::len word \<Rightarrow> u8 list" where
  "crc_bytes_le c = map (\<lambda>i. ucast (drop_bit (8 * i) c)) [0..<LENGTH('w) div 8]"

definition crc_bytes_be :: "'w::len word \<Rightarrow> u8 list" where
  "crc_bytes_be c = map (\<lambda>i. ucast (drop_bit (LENGTH('w) - 8 - 8 * i) c)) [0..<LENGTH('w) div 8]"

lemma length_crc_bytes [simp]:
  "length (crc_bytes_le (c :: 'w::len word)) = LENGTH('w) div 8"
  "length (crc_bytes_be (c :: 'w::len word)) = LENGTH('w) div 8"
  by (simp_all add: crc_bytes_le_def crc_bytes_be_def)

lemma pack_bytes_le:
  assumes "8 * (LENGTH('w) div 8) = LENGTH('w)"
  shows "crc_pack ucast (push_bit 8) (crc_bytes_le c) = (c :: 'w::len word)"
proof (rule bit_word_eqI)
  fix n assume n: "n < LENGTH('w)"
  then have "n div 8 < LENGTH('w) div 8" using assms by linarith
  then have "bit (crc_bytes_le c ! (n div 8)) (n mod 8) \<longleftrightarrow> bit c n"
    by (simp add: crc_bytes_le_def bit_ucast_iff bit_drop_bit_eq)
  then show "bit (crc_pack ucast (push_bit 8) (crc_bytes_le c) :: 'w word) n \<longleftrightarrow> bit c n"
    using n assms by (simp add: lsb_pack_bit)
qed

lemma pack_bytes_be:
  assumes "8 * (LENGTH('w) div 8) = LENGTH('w)"
  shows "crc_pack crc_top (drop_bit 8) (crc_bytes_be c) = (c :: 'w::len word)"
proof (rule bit_word_eqI)
  fix n assume n: "n < LENGTH('w)"
  define m where "m = LENGTH('w) - 1 - n"
  have m: "m < LENGTH('w)" "n = LENGTH('w) - 1 - m" using n by (auto simp: m_def)
  then have d: "m div 8 < LENGTH('w) div 8" using assms by linarith
  have "LENGTH('w) - 8 - 8 * q + (7 - r) = LENGTH('w) - 1 - (8 * q + r)"
    if "8 * q + 8 \<le> LENGTH('w)" "r < 8" for q r
    using that by linarith
  from this [of "m div 8" "m mod 8"] have "LENGTH('w) - 8 - 8 * (m div 8) + (7 - m mod 8) = n"
    using d assms m(2) by simp
  moreover have "crc_bytes_be c ! (m div 8) = ucast (drop_bit (LENGTH('w) - 8 - 8 * (m div 8)) c)"
    using d by (simp add: crc_bytes_be_def)
  moreover have "bit (ucast (drop_bit k c) :: u8) t \<longleftrightarrow> t < 8 \<and> bit c (k + t)" for k t
    by (simp add: bit_ucast_iff bit_drop_bit_eq)
  moreover have "7 - m mod 8 < 8" by simp
  ultimately have "bit (crc_bytes_be c ! (m div 8)) (7 - m mod 8) \<longleftrightarrow> bit c n" by metis
  moreover have "8 \<le> LENGTH('w)" using d assms by linarith
  ultimately show "bit (crc_pack crc_top (drop_bit 8) (crc_bytes_be c) :: 'w word) n \<longleftrightarrow> bit c n"
    using msb_pack_bit [of m "crc_bytes_be c", where 'w = 'w] m assms by simp
qed

lemma crc32_feed: "crc32 data (length data) = Some (NOT (crc_feed (crc_lsb_bit 0xEDB88320) ucast 0xffffffff data))"
  by (simp add: crc32_def crc_loop_all)

lemma crc32_residue_value: "(crc_lsb_bit (0xEDB88320 :: u32) ^^ 32) 0xffffffff = 0xDEBB20E3"
proof -
  have "(f ^^ 32) x = (f ^^ 8) ((f ^^ 8) ((f ^^ 8) ((f ^^ 8) x)))" for f :: "u32 \<Rightarrow> u32" and x
    by (simp flip: funpow_add [THEN fun_cong, unfolded comp_def])
  then show ?thesis by (simp add: crc_lsb_bit_def funpow8)
qed

text \<open>Every error burst of at most the width of the register changes the CRC.\<close>

lemma crc32_burst_detected:
  assumes "length x = length y" "length x \<le> 4" "x \<noteq> y"
  shows "crc32 (p @ x @ s) (length (p @ x @ s)) \<noteq> crc32 (p @ y @ s) (length (p @ y @ s))"
  using e32.burst_detected [OF assms, of "0xffffffff" p s] unfolding crc32_feed by (metis bit.double_compl option.inject)

lemma crc16_modbus_burst_detected:
  assumes "length x = length y" "length x \<le> 2" "x \<noteq> y"
  shows "crc16_modbus (p @ x @ s) (length (p @ x @ s)) \<noteq> crc16_modbus (p @ y @ s) (length (p @ y @ s))"
  using e16.burst_detected [OF assms, of "0xffff" p s] unfolding crc16_modbus_def crc_loop_all by simp

lemma crc16_xmodem_burst_detected:
  assumes "length x = length y" "length x \<le> 2" "x \<noteq> y"
  shows "crc16_xmodem (p @ x @ s) (length (p @ x @ s)) \<noteq> crc16_xmodem (p @ y @ s) (length (p @ y @ s))"
  using exm.burst_detected [OF assms, of 0 p s] unfolding crc16_xmodem_def crc_loop_all by simp

lemma crc8_burst_detected:
  assumes "length x = length y" "length x \<le> 1" "x \<noteq> y"
  shows "crc8 (p @ x @ s) (length (p @ x @ s)) \<noteq> crc8 (p @ y @ s) (length (p @ y @ s))"
  using e8.burst_detected [OF assms, of 0 p s] unfolding crc8_def crc_loop_all by simp

text \<open>A frame with its CRC appended has the residue of the routine.\<close>

lemma crc32_frame:
  assumes "crc32 d (length d) = Some c"
  shows "crc32 (d @ crc_bytes_le c) (length (d @ crc_bytes_le c)) = Some 0x2144DF1C"
proof -
  let ?f = "crc_feed (crc_lsb_bit 0xEDB88320) ucast (0xffffffff :: u32)"
  have m1: "(0xffffffff :: u32) = - 1" by simp
  have "c = ?f d XOR 0xffffffff" using assms unfolding crc32_feed m1 by (simp add: bit.xor_one_right)
  then have "?f (d @ crc_bytes_le c) = 0xDEBB20E3"
    using e32.residue [of "crc_bytes_le c" "0xffffffff" d "0xffffffff"] crc32_residue_value
    by (simp add: pack_bytes_le)
  then show ?thesis unfolding crc32_feed by simp
qed

lemma crc16_modbus_frame:
  assumes "crc16_modbus d (length d) = Some c"
  shows "crc16_modbus (d @ crc_bytes_le c) (length (d @ crc_bytes_le c)) = Some 0"
  using e16.residue [of "crc_bytes_le c" "0xffff" d 0] assms
  unfolding crc16_modbus_def crc_loop_all by (simp add: pack_bytes_le e16.funpow_zero)

lemma crc16_xmodem_frame:
  assumes "crc16_xmodem d (length d) = Some c"
  shows "crc16_xmodem (d @ crc_bytes_be c) (length (d @ crc_bytes_be c)) = Some 0"
proof -
  have "(\<lambda>d. push_bit 8 (ucast d) :: u16) = crc_top" by (simp add: crc_top_def fun_eq_iff)
  then show ?thesis
    using exm.residue [of "crc_bytes_be c" 0 d 0] assms
    unfolding crc16_xmodem_def crc_loop_all by (simp add: pack_bytes_be exm.funpow_zero)
qed

end
