(* ===== verification/Checksum.thy ===== *)
theory Checksum
  imports YJC_Prelude
begin

text \<open>
  The checksums of \<^verbatim>\<open>src/util/checksum.c\<close>: the Internet checksum over a vector of buffers
  (\<open>in_cksumv\<close>, with 32-bit loads and end-around carry, and an odd byte carried from one buffer
  to the next), the plain 16-bit version \<open>checksum\<close>, and the ISO 8473 Fletcher checksum. Loads
  are those of a little-endian machine. The first is shown to be the one's-complement sum of the 16-bit words
  of the concatenation, however the data is split; the last to make every buffer it is stored
  in validate.
\<close>

section \<open>Internet checksum\<close>

definition ld16 :: "u8 \<Rightarrow> u8 \<Rightarrow> u32" where
  "ld16 b0 b1 = ucast b0 + push_bit 8 (ucast b1)"

definition ld32 :: "u8 \<Rightarrow> u8 \<Rightarrow> u8 \<Rightarrow> u8 \<Rightarrow> u32" where
  "ld32 b0 b1 b2 b3 = ucast b0 + push_bit 8 (ucast b1) + push_bit 16 (ucast b2) + push_bit 24 (ucast b3)"

definition add_carry :: "u32 \<Rightarrow> u32 \<Rightarrow> u32" where
  "add_carry dst a = (let d = dst + a in if d < a then d + 1 else d)"

text \<open>The three loops over one buffer; the result is the sum and the odd byte, if one is left.\<close>

fun cksum_words :: "u32 \<Rightarrow> u8 list \<Rightarrow> u32 \<times> u8 option" where
  "cksum_words s (b0 # b1 # bs) = cksum_words (add_carry s (ld16 b0 b1)) bs"
| "cksum_words s [b] = (s, Some b)"
| "cksum_words s [] = (s, None)"

fun cksum_octets :: "u32 \<Rightarrow> u8 list \<Rightarrow> u32 \<times> u8 option" where
  "cksum_octets s (b0 # b1 # b2 # b3 # b4 # b5 # b6 # b7 # bs) =
     cksum_octets (add_carry (add_carry s (ld32 b0 b1 b2 b3)) (ld32 b4 b5 b6 b7)) bs"
| "cksum_octets s bs = cksum_words s bs"

definition cksum_buffer :: "u32 \<times> u8 option \<Rightarrow> u8 list \<Rightarrow> u32 \<times> u8 option" where
  "cksum_buffer st bs =
     (case bs of [] \<Rightarrow> st
      | b # r \<Rightarrow> (case st of (s, Some ob) \<Rightarrow> cksum_octets (add_carry s (ld16 ob b)) r
                 | (s, None) \<Rightarrow> cksum_octets s bs))"

text \<open>\<open>sum = (sum >> 16) + (sum & 0xffff); sum += (sum >> 16); return ~sum\<close>.\<close>

definition cksum_fold :: "u32 \<Rightarrow> u16" where
  "cksum_fold s0 = (let s1 = drop_bit 16 s0 + (s0 AND 0xffff); s2 = s1 + drop_bit 16 s1 in ucast (NOT s2))"

definition in_cksumv :: "u8 list list \<Rightarrow> u16" where
  "in_cksumv iov =
     (case foldl cksum_buffer (0, None) iov of
        (s, Some ob) \<Rightarrow> cksum_fold (add_carry s (ld16 ob 0))
      | (s, None) \<Rightarrow> cksum_fold s)"

definition in_cksum :: "u8 list \<Rightarrow> u16" where
  "in_cksum data = in_cksumv [data]"

text \<open>With a pseudo-header, given by its bytes.\<close>

definition in_cksum_with_ph4 :: "u8 list \<Rightarrow> u8 list \<Rightarrow> u16" where
  "in_cksum_with_ph4 ph data = in_cksumv [ph, data]"

definition in_cksum_with_ph6 :: "u8 list \<Rightarrow> u8 list \<Rightarrow> u16" where
  "in_cksum_with_ph6 ph data = in_cksumv [ph, data]"

text \<open>
  The plain version: \<open>while (len > 1)\<close> adds words at \<open>p\<close> without a carry; \<open>if (len)\<close> adds the
  last byte. The loop has at most \<open>len\<close> rounds.
\<close>

fun checksum_loop :: "nat \<Rightarrow> u8 list \<Rightarrow> nat \<Rightarrow> int \<Rightarrow> u32 \<Rightarrow> (u32 \<times> nat \<times> int) option" where
  "checksum_loop 0 buf p len s = None"
| "checksum_loop (Suc f) buf p len s =
     (if len > 1
      then do { b0 \<leftarrow> mem_read buf p; b1 \<leftarrow> mem_read buf (p + 1);
                checksum_loop f buf (p + 2) (len - 2) (s + ld16 b0 b1) }
      else Some (s, p, len))"

definition checksum :: "u8 list \<Rightarrow> int \<Rightarrow> u16 option" where
  "checksum buf len =
     do { (s, p, l) \<leftarrow> checksum_loop (Suc (nat len)) buf 0 len 0;
          s1 \<leftarrow> (if l \<noteq> 0 then do { b \<leftarrow> mem_read buf p; Some (s + ucast b) } else Some s);
          Some (cksum_fold s1) }"

section \<open>One's-complement arithmetic\<close>

text \<open>The specification: the sum of the little-endian words, folded to 1 .. 65535 unless it is 0.\<close>

fun le16_sum :: "u8 list \<Rightarrow> nat" where
  "le16_sum (a # b # r) = unat a + 256 * unat b + le16_sum r"
| "le16_sum [a] = unat a"
| "le16_sum [] = 0"

definition ones_fold :: "nat \<Rightarrow> nat" where
  "ones_fold n = (if n = 0 then 0 else if n mod 65535 = 0 then 65535 else n mod 65535)"

definition inet_sum :: "u8 list \<Rightarrow> u16" where
  "inet_sum bs = of_nat (ones_fold (le16_sum bs))"

text \<open>A 32-bit accumulator stands for a sum when they agree modulo 65535 and on being zero.\<close>

definition oc_rep :: "nat \<Rightarrow> nat \<Rightarrow> bool" where
  "oc_rep s n \<longleftrightarrow> s mod 65535 = n mod 65535 \<and> (s = 0 \<longleftrightarrow> n = 0)"

lemma oc_rep_ones_fold: "oc_rep s n \<Longrightarrow> ones_fold s = ones_fold n"
  by (auto simp: ones_fold_def oc_rep_def)

lemma oc_rep_refl [simp]: "oc_rep n n"
  by (simp add: oc_rep_def)

lemma oc_rep_add: "oc_rep s n \<Longrightarrow> oc_rep x k \<Longrightarrow> oc_rep (s + x) (n + k)"
  unfolding oc_rep_def by (metis add_is_0 mod_add_cong)

lemma oc_rep_wrap:
  assumes "65535 dvd M" "M < s"
  shows "oc_rep (s - M) s"
proof -
  obtain k where "M = 65535 * k" using assms(1) by (rule dvdE)
  then have "(s - M) mod 65535 = s mod 65535"
    using assms(2) mod_mult_self2 [of "s - M" 65535 k] by simp
  then show ?thesis using assms(2) by (simp add: oc_rep_def)
qed

lemma add_carry_unat:
  "unat (add_carry s x) = (if unat s + unat x < 2 ^ 32 then unat s + unat x else unat s + unat x - (2 ^ 32 - 1))"
proof -
  have b: "unat s < 2 ^ 32" "unat x < 2 ^ 32" using unsigned_less [of s] unsigned_less [of x] by simp_all
  show ?thesis
  proof (cases "unat s + unat x < 2 ^ 32")
    case True
    then have "unat (s + x) = unat s + unat x" by (simp add: unat_word_ariths)
    then show ?thesis using True by (simp add: add_carry_def word_less_nat_alt Let_def)
  next
    case False
    then have u: "unat (s + x) = unat s + unat x - 2 ^ 32"
      using b by (simp add: unat_word_ariths le_mod_geq)
    then have "s + x < x" using False b by (simp add: word_less_nat_alt)
    moreover have "unat (s + x + 1) = unat s + unat x - 2 ^ 32 + 1"
      using u b False by (simp add: unat_word_ariths)
    ultimately show ?thesis using False by (simp add: add_carry_def Let_def)
  qed
qed

lemma add_carry_rep:
  assumes "oc_rep (unat s) n" "oc_rep (unat x) k"
  shows "oc_rep (unat (add_carry s x)) (n + k)"
proof -
  have r: "oc_rep (unat s + unat x) (n + k)" by (rule oc_rep_add [OF assms])
  show ?thesis
  proof (cases "unat s + unat x < 2 ^ 32")
    case False
    have "oc_rep (unat s + unat x - (2 ^ 32 - 1)) (unat s + unat x)"
      using False by (intro oc_rep_wrap) simp_all
    with r False show ?thesis by (simp add: add_carry_unat oc_rep_def)
  qed (use r in \<open>simp add: add_carry_unat\<close>)
qed

lemma ld16_unat: "unat (ld16 b0 b1) = unat b0 + 256 * unat b1"
  using unat_u8_less [of b0] unat_u8_less [of b1]
  by (simp add: ld16_def unat_word_ariths unat_push_bit)

lemma ld32_unat:
  "unat (ld32 b0 b1 b2 b3) = unat b0 + 256 * unat b1 + 65536 * unat b2 + 16777216 * unat b3"
  using unat_u8_less [of b0] unat_u8_less [of b1] unat_u8_less [of b2] unat_u8_less [of b3]
  by (simp add: ld32_def unat_word_ariths unat_push_bit)

lemma ld32_rep: "oc_rep (unat (ld32 b0 b1 b2 b3)) ((unat b0 + 256 * unat b1) + (unat b2 + 256 * unat b3))"
proof -
  have "oc_rep (65536 * w) w" for w :: nat
  proof -
    have "65536 * w = w + 65535 * w" by simp
    then show ?thesis unfolding oc_rep_def by (metis mod_mult_self2 mult_eq_0_iff numeral_neq_zero)
  qed
  from oc_rep_add [OF oc_rep_refl [of "unat b0 + 256 * unat b1"] this [of "unat b2 + 256 * unat b3"]]
  show ?thesis by (simp add: ld32_unat distrib_left add.assoc)
qed


section \<open>The accumulated sum\<close>

lemma le16_sum_append: "even (length p) \<Longrightarrow> le16_sum (p @ q) = le16_sum p + le16_sum q"
  by (induction p rule: le16_sum.induct) auto

text \<open>What the accumulator and the odd byte say about the bytes seen so far.\<close>

fun cksum_rep :: "u32 \<times> u8 option \<Rightarrow> u8 list \<Rightarrow> bool" where
  "cksum_rep (s, None) p \<longleftrightarrow> even (length p) \<and> oc_rep (unat s) (le16_sum p)"
| "cksum_rep (s, Some b) p \<longleftrightarrow> (\<exists>q. p = q @ [b] \<and> even (length q) \<and> oc_rep (unat s) (le16_sum q))"

lemma cksum_words_rep:
  "cksum_rep (s, None) p \<Longrightarrow> cksum_rep (cksum_words s bs) (p @ bs)"
proof (induction s bs arbitrary: p rule: cksum_words.induct)
  case (1 s b0 b1 bs)
  have "oc_rep (unat (add_carry s (ld16 b0 b1))) (le16_sum p + (unat b0 + 256 * unat b1))"
    using 1(2) by (intro add_carry_rep) (simp_all add: ld16_unat)
  with 1(2) have "cksum_rep (add_carry s (ld16 b0 b1), None) (p @ [b0, b1])"
    by (simp add: le16_sum_append)
  from 1(1) [OF this] show ?case by simp
qed auto

lemma cksum_octets_rep:
  "cksum_rep (s, None) p \<Longrightarrow> cksum_rep (cksum_octets s bs) (p @ bs)"
proof (induction s bs arbitrary: p rule: cksum_octets.induct)
  case (1 s b0 b1 b2 b3 b4 b5 b6 b7 bs)
  let ?w = "[b0, b1, b2, b3, b4, b5, b6, b7]"
  have "oc_rep (unat (add_carry (add_carry s (ld32 b0 b1 b2 b3)) (ld32 b4 b5 b6 b7)))
      (le16_sum p + ((unat b0 + 256 * unat b1) + (unat b2 + 256 * unat b3)) +
        ((unat b4 + 256 * unat b5) + (unat b6 + 256 * unat b7)))"
    using 1(2) by (intro add_carry_rep ld32_rep) simp
  with 1(2) have "cksum_rep (add_carry (add_carry s (ld32 b0 b1 b2 b3)) (ld32 b4 b5 b6 b7), None) (p @ ?w)"
    by (simp add: le16_sum_append add.assoc)
  from 1(1) [OF this] show ?case by simp
qed (simp_all only: cksum_octets.simps cksum_words_rep)

lemma cksum_buffer_rep: "cksum_rep st p \<Longrightarrow> cksum_rep (cksum_buffer st bs) (p @ bs)"
proof (cases bs)
  case (Cons b r)
  assume rep: "cksum_rep st p"
  obtain s ob where st: "st = (s, ob)" by fastforce
  show ?thesis
  proof (cases ob)
    case None
    then show ?thesis using rep st Cons cksum_octets_rep [of s p bs] by (simp add: cksum_buffer_def)
  next
    case (Some x)
    then obtain q where q: "p = q @ [x]" "even (length q)" "oc_rep (unat s) (le16_sum q)"
      using rep st by auto
    have "oc_rep (unat (add_carry s (ld16 x b))) (le16_sum q + (unat x + 256 * unat b))"
      using q(3) by (intro add_carry_rep) (simp_all add: ld16_unat)
    then have "cksum_rep (add_carry s (ld16 x b), None) (p @ [b])"
      using q by (simp add: le16_sum_append)
    from cksum_octets_rep [OF this, of r] show ?thesis
      using Some st Cons by (simp add: cksum_buffer_def)
  qed
qed (simp add: cksum_buffer_def)

lemma cksum_buffers_rep: "cksum_rep st p \<Longrightarrow> cksum_rep (foldl cksum_buffer st iov) (p @ concat iov)"
proof (induction iov arbitrary: st p)
  case (Cons bs iov)
  from Cons.IH [OF cksum_buffer_rep [OF Cons.prems, of bs]] show ?case by simp
qed simp

lemma unat_and_FFFF: "unat (x AND (0xffff :: u32)) = unat x mod 65536"
  using unat_and_mask [of x 16] by (simp add: mask_eq_exp_minus_1)

lemma cksum_fold_rep:
  assumes "oc_rep (unat s) n"
  shows "cksum_fold s = NOT (of_nat (ones_fold n))"
proof -
  define t where "t = unat s div 65536 + unat s mod 65536"
  have s: "unat s = 65535 * (unat s div 65536) + t" "t \<le> 131070"
  proof -
    have "unat s < 65536 * 65536" using unsigned_less [of s, where 'a = nat] by simp
    then have "unat s div 65536 < 65536" "unat s mod 65536 < 65536" by (auto simp: less_mult_imp_div_less)
    then show "t \<le> 131070" by (simp add: t_def)
  qed (simp add: t_def)
  have u1: "unat (drop_bit 16 s + (s AND 0xffff)) = t"
    using s(2) by (simp add: unat_word_ariths unat_drop_bit unat_and_FFFF t_def)
  let ?s1 = "drop_bit 16 s + (s AND 0xffff)"
  have u2: "unat (?s1 + drop_bit 16 ?s1) = t + t div 65536"
  proof -
    have "t + t div 65536 < 2 ^ 32" using s(2) by simp
    then show ?thesis
      unfolding unat_word_ariths(1) [of ?s1 "drop_bit 16 ?s1"] unat_drop_bit u1 by simp
  qed
  have "ones_fold n = ones_fold (unat s)" using oc_rep_ones_fold [OF assms] by simp
  also have "\<dots> = (if t < 65536 then t else t - 65535)"
  proof -
    have e: "unat s mod 65535 = t mod 65535" by (subst s(1)) (rule mod_mult_self4)
    have z: "unat s = 0 \<longleftrightarrow> t = 0" unfolding t_def by (metis add_is_0 div_0 mod_0 mult_div_mod_eq mult_0_right)
    consider "t = 0" | "0 < t" "t < 65535" | "t = 65535" | "65535 < t" "t < 131070" | "t = 131070"
      using s(2) by linarith
    then show ?thesis by cases (simp_all add: ones_fold_def e z le_mod_geq)
  qed
  also have "\<dots> = (t + t div 65536) mod 65536"
    using s(2) by (auto simp: le_mod_geq div_if)
  finally have "(of_nat (ones_fold n) :: u16) = ucast (?s1 + drop_bit 16 ?s1)"
    unfolding word_unat_eq_iff unsigned_ucast_eq u2 by (simp add: unat_of_nat take_bit_eq_mod)
  moreover have "(ucast (NOT x) :: u16) = NOT (ucast x)" for x :: u32
    by (rule bit_word_eqI) (auto simp: bit_simps)
  ultimately show ?thesis by (simp add: cksum_fold_def Let_def)
qed

lemma in_cksumv_sum: "in_cksumv iov = NOT (inet_sum (concat iov))"
proof -
  obtain s ob where st: "foldl cksum_buffer (0, None) iov = (s, ob)" by fastforce
  have rep: "cksum_rep (s, ob) (concat iov)"
    using cksum_buffers_rep [of "(0, None)" "[]" iov] st by simp
  show ?thesis
  proof (cases ob)
    case None
    then show ?thesis using rep st by (simp add: in_cksumv_def inet_sum_def cksum_fold_rep)
  next
    case (Some b)
    then obtain q where q: "concat iov = q @ [b]" "even (length q)" "oc_rep (unat s) (le16_sum q)"
      using rep by auto
    have "oc_rep (unat (add_carry s (ld16 b 0))) (le16_sum q + unat b)"
      using q(3) by (intro add_carry_rep) (simp_all add: ld16_unat)
    then show ?thesis using Some st q
      by (simp add: in_cksumv_def inet_sum_def cksum_fold_rep le16_sum_append)
  qed
qed


text \<open>The plain version agrees as long as the 32-bit sum cannot overflow.\<close>

lemma le16_sum_bound: "le16_sum bs \<le> (length bs + 1) div 2 * 65535"
proof (induction bs rule: le16_sum.induct)
  case (1 a b r)
  have "(length (a # b # r) + 1) div 2 = Suc ((length r + 1) div 2)" by simp
  with 1 unat_u8_less [of a] unat_u8_less [of b] show ?case by simp
next
  case (2 a)
  then show ?case using unat_u8_less [of a] by simp
qed simp

lemma checksum_loop_spec:
  assumes "unat s + le16_sum r < 2 ^ 32" "length r < f"
  shows "\<exists>s' p' l. checksum_loop f (pre @ r) (length pre) (int (length r)) s = Some (s', p', l) \<and>
    (l = 0 \<and> unat s' = unat s + le16_sum r \<or>
     l \<noteq> 0 \<and> (\<exists>b. mem_read (pre @ r) p' = Some b \<and> unat s' + unat b = unat s + le16_sum r))"
  using assms
proof (induction r arbitrary: pre s f rule: le16_sum.induct)
  case (1 a b r)
  then obtain f' where f: "f = Suc f'" by (cases f) auto
  have u: "unat (s + ld16 a b) = unat s + (unat a + 256 * unat b)"
    using 1(2) by (simp add: unat_word_ariths ld16_unat)
  have "\<exists>s' p' l. checksum_loop f' ((pre @ [a, b]) @ r) (length (pre @ [a, b])) (int (length r)) (s + ld16 a b) =
      Some (s', p', l) \<and> (l = 0 \<and> unat s' = unat (s + ld16 a b) + le16_sum r \<or>
     l \<noteq> 0 \<and> (\<exists>b'. mem_read ((pre @ [a, b]) @ r) p' = Some b' \<and> unat s' + unat b' = unat (s + ld16 a b) + le16_sum r))"
    using 1(2,3) f u by (intro 1(1)) simp_all
  then show ?case by (simp add: f u add.assoc)
next
  case (2 a)
  then show ?case by (cases f) auto
next
  case 3
  then show ?case by (cases f) auto
qed

lemma checksum_sum:
  assumes "length buf \<le> 131072"
  shows "checksum buf (int (length buf)) = Some (NOT (inet_sum buf))"
proof -
  have "(length buf + 1) div 2 \<le> 65536" using assms by linarith
  then have b: "le16_sum buf < 2 ^ 32" using le16_sum_bound [of buf] by simp
  then obtain s p l where l: "checksum_loop (Suc (length buf)) buf 0 (int (length buf)) 0 = Some (s, p, l)"
    "l = 0 \<and> unat s = le16_sum buf \<or>
     l \<noteq> 0 \<and> (\<exists>x. mem_read buf p = Some x \<and> unat s + unat x = le16_sum buf)"
    using checksum_loop_spec [of 0 buf "Suc (length buf)" "[]"] by auto
  have "cksum_fold s' = NOT (inet_sum buf)" if "unat s' = le16_sum buf" for s'
    unfolding inet_sum_def by (rule cksum_fold_rep) (simp add: that)
  moreover have "unat (s + ucast x) = le16_sum buf" if "unat s + unat x = le16_sum buf" for x :: u8
    using that b by (simp add: unat_word_ariths)
  ultimately show ?thesis using l by (auto simp: checksum_def)
qed

text \<open>A message with its checksum stored in a zero field at an even offset sums to zero.\<close>

definition le16_bytes :: "u16 \<Rightarrow> u8 list" where
  "le16_bytes x = [ucast x, ucast (drop_bit 8 x)]"

lemma unat_le16_bytes: "unat (ucast x :: u8) + 256 * unat (ucast (drop_bit 8 x) :: u8) = unat (x :: u16)"
proof -
  have "unat x < 65536" using unsigned_less [of x, where 'a = nat] by simp
  then have "unat x div 256 < 256" by (simp add: less_mult_imp_div_less)
  then show ?thesis by (simp add: unsigned_ucast_eq take_bit_eq_mod unat_drop_bit)
qed

lemma ones_fold_bound: "ones_fold n \<le> 65535"
proof -
  have "n mod 65535 < 65535" by simp
  then show ?thesis by (auto simp: ones_fold_def less_imp_le simp del: mod_less_divisor)
qed

lemma unat_not_u16: "unat (NOT (x :: u16)) = 65535 - unat x"
proof -
  have "unat (- 1 - x) = unat (- 1 :: u16) - unat x" by (rule unat_sub) simp
  moreover have "NOT x = - 1 - x" by (simp add: not_eq_complement)
  moreover have "unat (- 1 :: u16) = 65535" by (simp add: unsigned_minus_1_eq_mask mask_eq_exp_minus_1)
  ultimately show ?thesis by (simp only:)
qed

lemma in_cksum_embedded:
  assumes "even (length p)" "in_cksum (p @ [0, 0] @ s) = c"
  shows "in_cksum (p @ le16_bytes c @ s) = 0"
proof -
  define T where "T = le16_sum p + le16_sum s"
  have "le16_sum (p @ [0, 0] @ s) = T" using assms(1) by (simp add: le16_sum_append T_def)
  then have "c = NOT (of_nat (ones_fold T))"
    using assms(2) by (simp add: in_cksum_def in_cksumv_sum inet_sum_def del: append.simps)
  then have c: "unat c = 65535 - ones_fold T"
    using ones_fold_bound [of T] by (simp add: unat_not_u16 unat_of_nat)
  have "le16_sum (p @ le16_bytes c @ s) = T + unat c"
    using assms(1) unat_le16_bytes [of c] by (simp add: le16_sum_append le16_bytes_def T_def)
  moreover have "ones_fold (T + unat c) = 65535"
  proof (cases "T = 0")
    case False
    have "(T + (65535 - r)) mod 65535 = 0" if "r = T mod 65535" for r
    proof -
      have "T + (65535 - r) = 65535 * (T div 65535) + 65535"
        using that mod_less_divisor [of 65535 T] mult_div_mod_eq [of 65535 T] by linarith
      then show ?thesis by simp
    qed
    with False c show ?thesis by (auto simp: ones_fold_def)
  qed (simp add: c ones_fold_def)
  ultimately show ?thesis by (simp add: in_cksum_def in_cksumv_sum inet_sum_def)
qed

section \<open>Fletcher checksum\<close>

definition MODX :: nat where "MODX = 4102"

definition FLETCHER_CHECKSUM_VALIDATE :: nat where "FLETCHER_CHECKSUM_VALIDATE = 0xffff"

text \<open>
  The sums \<open>c0\<close> and \<open>c1\<close> over a run of bytes; they are \<open>int\<close>, so an addition that leaves the range of
  \<open>int\<close> is undefined and the model returns \<open>None\<close>.
\<close>

definition add_int :: "int \<Rightarrow> int \<Rightarrow> int option" where
  "add_int a b = (if - (2 ^ 31) \<le> a + b \<and> a + b < 2 ^ 31 then Some (a + b) else None)"

fun fletcher_run :: "u8 list \<Rightarrow> int \<times> int \<Rightarrow> (int \<times> int) option" where
  "fletcher_run [] (c0, c1) = Some (c0, c1)"
| "fletcher_run (b # bs) (c0, c1) =
     do { d0 \<leftarrow> add_int c0 (uint b); d1 \<leftarrow> add_int c1 d0; fletcher_run bs (d0, d1) }"

text \<open>\<open>while (left != 0)\<close>: at most \<open>MODX\<close> bytes, then both sums modulo 255.\<close>

function fletcher_loop :: "u8 list \<Rightarrow> int \<times> int \<Rightarrow> (int \<times> int) option" where
  "fletcher_loop p c =
     (if p = [] then Some c
      else do { (c0, c1) \<leftarrow> fletcher_run (take MODX p) c;
                fletcher_loop (drop MODX p) (c0 mod 255, c1 mod 255) })"
  by pat_completeness auto
termination by (relation "measure (\<lambda>(p, c). length p)") (auto simp: MODX_def)

declare fletcher_loop.simps [simp del]

text \<open>
  The check bytes. \<open>x\<close> is computed in \<open>size_t\<close>, cut down to \<open>int\<close> and reduced with the sign of
  C's \<open>%\<close>.
\<close>

definition fletcher_xy :: "nat \<Rightarrow> nat \<Rightarrow> int \<Rightarrow> int \<Rightarrow> int \<times> int" where
  "fletcher_xy len offset c0 c1 =
     (let x0 = to_int (int (to_size (int (to_size (int len - int offset - 1)) * c0 - c1)));
          x1 = sgn x0 * (\<bar>x0\<bar> mod 255);
          x = (if x1 \<le> 0 then x1 + 255 else x1);
          y0 = 510 - c0 - x;
          y = (if y0 > 255 then y0 - 255 else y0)
      in (x, y))"

text \<open>Two bytes stored at an offset.\<close>

definition put2 :: "u8 list \<Rightarrow> nat \<Rightarrow> u8 \<Rightarrow> u8 \<Rightarrow> u8 list option" where
  "put2 buffer offset x y = do { b \<leftarrow> mem_write buffer offset x; mem_write b (offset + 1) y }"

text \<open>The whole routine: the checksum and the buffer. A failing assertion on the offset is \<open>None\<close>.\<close>

definition fletcher_checksum :: "u8 list \<Rightarrow> nat \<Rightarrow> nat \<Rightarrow> (nat \<times> u8 list) option" where
  "fletcher_checksum buffer len offset =
     do {
       buf1 \<leftarrow> (if offset \<noteq> FLETCHER_CHECKSUM_VALIDATE
                then if offset < to_size (int len - 1) then put2 buffer offset 0 0 else None
                else Some buffer);
       p \<leftarrow> (if len \<le> length buf1 then Some (take len buf1) else None);
       (c0, c1) \<leftarrow> fletcher_loop p (0, 0);
       (if offset = FLETCHER_CHECKSUM_VALIDATE then Some (nat ((c1 * 256 + c0) mod 65536), buf1)
        else do { let (x, y) = fletcher_xy len offset c0 c1;
                  buf2 \<leftarrow> put2 buf1 offset (word_of_int x) (word_of_int y);
                  Some (nat (x mod 256) + 256 * nat (y mod 256), buf2) })
     }"

text \<open>The two sums over the integers.\<close>

fun fs0 :: "u8 list \<Rightarrow> int" where
  "fs0 [] = 0"
| "fs0 (b # bs) = uint b + fs0 bs"

fun fs1 :: "u8 list \<Rightarrow> int" where
  "fs1 [] = 0"
| "fs1 (b # bs) = (1 + int (length bs)) * uint b + fs1 bs"

lemma fs0_append: "fs0 (p @ q) = fs0 p + fs0 q"
  by (induction p) auto

lemma fs1_append: "fs1 (p @ q) = fs1 p + int (length q) * fs0 p + fs1 q"
  by (induction p) (auto simp: algebra_simps)

text \<open>
  With \<open>MODX\<close> bytes between reductions no addition overflows: after \<open>i\<close> bytes \<open>c0\<close> is at most
  \<open>254 + 255 * i\<close> and twice \<open>c1\<close> at most \<open>508 + 763 * i + 255 * i * i\<close>.
\<close>

definition fl_bound :: "nat \<Rightarrow> int \<times> int \<Rightarrow> bool" where
  "fl_bound i c \<longleftrightarrow> 0 \<le> fst c \<and> fst c \<le> 254 + 255 * int i \<and>
     0 \<le> snd c \<and> 2 * snd c \<le> 508 + 763 * int i + 255 * (int i * int i)"

lemma uint_u8_less: "0 \<le> uint (b :: u8)" "uint (b :: u8) \<le> 255"
  using unsigned_less [of b, where 'a = int] by auto

lemma fletcher_run_sums:
  assumes "fl_bound i (c0, c1)" "i + length bs \<le> MODX"
  shows "fletcher_run bs (c0, c1) = Some (c0 + fs0 bs, c1 + int (length bs) * c0 + fs1 bs)"
  using assms
proof (induction bs arbitrary: i c0 c1)
  case (Cons b bs)
  let ?d0 = "c0 + uint b" and ?d1 = "c1 + (c0 + uint b)"
  have sq: "(int i + 1) * (int i + 1) = int i * int i + 2 * int i + 1" by (simp add: algebra_simps)
  have inv: "fl_bound (Suc i) (?d0, ?d1)"
    using Cons.prems(1) uint_u8_less [of b] sq by (simp add: fl_bound_def add.commute)
  have "int i + 1 \<le> 4102" using Cons.prems(2) by (simp add: MODX_def)
  then have "(int i + 1) * (int i + 1) \<le> 4102 * 4102" by (intro mult_mono) simp_all
  then have "0 \<le> ?d0" "?d0 < 2 ^ 31" "0 \<le> ?d1" "?d1 < 2 ^ 31"
    using inv \<open>int i + 1 \<le> 4102\<close> by (simp_all add: fl_bound_def add.commute)
  then have "fletcher_run (b # bs) (c0, c1) = fletcher_run bs (?d0, ?d1)"
    by (simp add: add_int_def)
  with Cons.IH [OF inv] Cons.prems(2) show ?case by (simp add: algebra_simps)
qed simp

lemma mod_lincomb: "(a mod m + k * (b mod m) + z) mod m = (a + k * b + z) mod (m :: int)"
  by (intro mod_add_cong [of _ _ _ z z] mod_add_cong [of _ _ _ "k * (b mod m)"] mod_mult_right_eq refl mod_mod_trivial)

lemma fletcher_loop_sums:
  assumes "0 \<le> c0" "c0 < 255" "0 \<le> c1" "c1 < 255"
  shows "fletcher_loop p (c0, c1) = Some ((c0 + fs0 p) mod 255, (c1 + int (length p) * c0 + fs1 p) mod 255)"
  using assms
proof (induction "length p" arbitrary: p c0 c1 rule: less_induct)
  case less
  show ?case
  proof (cases "p = []")
    case False
    let ?a = "take MODX p" and ?b = "drop MODX p"
    have "fl_bound 0 (c0, c1)" using less.prems by (simp add: fl_bound_def)
    then have r: "fletcher_run ?a (c0, c1) = Some (c0 + fs0 ?a, c1 + int (length ?a) * c0 + fs1 ?a)"
      by (intro fletcher_run_sums [of 0]) simp_all
    have lt: "length ?b < length p" using False by (simp add: MODX_def)
    let ?d0 = "c0 + fs0 ?a" and ?d1 = "c1 + int (length ?a) * c0 + fs1 ?a"
    have "fletcher_loop p (c0, c1) = fletcher_loop ?b (?d0 mod 255, ?d1 mod 255)"
      using False r by (subst fletcher_loop.simps) simp
    also have "\<dots> = Some ((?d0 mod 255 + fs0 ?b) mod 255, (?d1 mod 255 + int (length ?b) * (?d0 mod 255) + fs1 ?b) mod 255)"
      by (rule less.hyps [OF lt]) simp_all
    also have "(?d0 mod 255 + fs0 ?b) mod 255 = (c0 + fs0 p) mod 255"
      using fs0_append [of ?a ?b] by (simp add: mod_add_left_eq add.assoc)
    also have "(?d1 mod 255 + int (length ?b) * (?d0 mod 255) + fs1 ?b) mod 255 =
        (?d1 + int (length ?b) * ?d0 + fs1 ?b) mod 255"
      by (rule mod_lincomb)
    also have "?d1 + int (length ?b) * ?d0 + fs1 ?b = c1 + int (length p) * c0 + fs1 p"
    proof -
      have "int (length p) = int (length ?a) + int (length ?b)"
        by (metis append_take_drop_id length_append of_nat_add)
      then show ?thesis using fs1_append [of ?a ?b] by (simp add: algebra_simps)
    qed
    finally show ?thesis .
  qed (use less.prems in \<open>simp add: fletcher_loop.simps\<close>)
qed


lemma to_int_to_size: "to_int (int (to_size v)) = to_int v"
proof -
  have "(v mod 2 ^ 64 + 2 ^ 31) mod 2 ^ 32 = (v + 2 ^ 31) mod (2 ^ 32 :: int)"
    by (intro mod_add_cong mod_mod_cancel le_imp_power_dvd refl) simp
  then show ?thesis by (simp add: to_int_def to_size_def)
qed

text \<open>C's remainder, made positive, is congruent to its argument and between 1 and 255.\<close>

lemma c_rem_255:
  fixes v :: int
  defines "x1 \<equiv> sgn v * (\<bar>v\<bar> mod 255)"
  defines "x \<equiv> (if x1 \<le> 0 then x1 + 255 else x1)"
  shows "1 \<le> x" "x \<le> 255" "x mod 255 = v mod 255"
proof -
  have b: "0 \<le> \<bar>v\<bar> mod 255" "\<bar>v\<bar> mod 255 < 255" by simp_all
  have "x1 mod 255 = v mod 255"
    by (cases v "0 :: int" rule: linorder_cases) (simp_all add: x1_def mod_minus_eq)
  then show "x mod 255 = v mod 255" by (simp add: x_def)
  have "- 255 < x1 \<and> x1 < 255" using b by (cases v "0 :: int" rule: linorder_cases) (simp_all add: x1_def)
  then show "1 \<le> x" "x \<le> 255" by (auto simp: x_def)
qed


lemma fletcher_loop_0: "fletcher_loop p (0, 0) = Some (fs0 p mod 255, fs1 p mod 255)"
  using fletcher_loop_sums [of 0 0 p] by simp

lemma fletcher_validate:
  assumes "length buf = len"
  shows "fletcher_checksum buf len FLETCHER_CHECKSUM_VALIDATE =
    Some (nat (fs1 buf mod 255 * 256 + fs0 buf mod 255), buf)"
proof -
  have "0 \<le> fs1 buf mod 255" "fs1 buf mod 255 < 255" "0 \<le> fs0 buf mod 255" "fs0 buf mod 255 < 255" by simp_all
  then have "(fs1 buf mod 255 * 256 + fs0 buf mod 255) mod 65536 = fs1 buf mod 255 * 256 + fs0 buf mod 255"
    by (intro mod_pos_pos_trivial) linarith+
  then show ?thesis
    using assms by (simp only: fletcher_checksum_def) (simp add: fletcher_loop_0 Let_def)
qed

lemma fletcher_store:
  assumes "length (p @ [a, b] @ q) < 2 ^ 23" "length p \<noteq> FLETCHER_CHECKSUM_VALIDATE"
  shows "\<exists>x y c. fletcher_checksum (p @ [a, b] @ q) (length (p @ [a, b] @ q)) (length p) = Some (c, p @ [x, y] @ q) \<and>
    fs0 (p @ [x, y] @ q) mod 255 = 0 \<and> fs1 (p @ [x, y] @ q) mod 255 = 0"
proof -
  let ?n = "length (p @ [a, b] @ q)" and ?z = "p @ [0, 0] @ q" and ?k = "1 + int (length q)"
  define c0 c1 where "c0 = fs0 ?z mod 255" and "c1 = fs1 ?z mod 255"
  have cb: "0 \<le> c0" "c0 < 255" "0 \<le> c1" "c1 < 255" by (simp_all add: c0_def c1_def)
  define v where "v = ?k * c0 - c1"
  have kc: "0 \<le> ?k * c0" using cb by simp
  moreover have "?k * c0 \<le> ?k * 254" using cb by (intro mult_left_mono) simp_all
  moreover have "int (length q) < 8388606" using assms(1) by simp
  moreover have "- (2 ^ 31) \<le> m - c1 \<and> m - c1 < 2 ^ 31"
    if "0 \<le> m" "m \<le> ?k * 254" "int (length q) < 8388606" for m
    using that cb by simp
  ultimately have vb: "- (2 ^ 31) \<le> v" "v < 2 ^ 31" unfolding v_def by blast+
  define x where "x = (if sgn v * (\<bar>v\<bar> mod 255) \<le> 0 then sgn v * (\<bar>v\<bar> mod 255) + 255 else sgn v * (\<bar>v\<bar> mod 255))"
  define y where "y = (if 510 - c0 - x > 255 then 510 - c0 - x - 255 else 510 - c0 - x)"
  have xb: "1 \<le> x" "x \<le> 255" and xm: "x mod 255 = v mod 255"
    unfolding x_def by (rule c_rem_255)+
  have yb: "0 \<le> y" "y \<le> 255" using xb cb by (auto simp: y_def)
  obtain j where j: "x = v + 255 * j" using xm by (metis add.commute diff_add_cancel mod_eqE)
  obtain i where i: "y = 255 * i - c0 - x"
    by (cases "510 - c0 - x > 255") (auto simp: y_def intro: that [of 1] that [of 2])
  have ux: "uint (word_of_int x :: u8) = x" "uint (word_of_int y :: u8) = y"
    using xb yb by (simp_all add: uint_word_of_int)
  have s0: "fs0 (p @ [word_of_int x, word_of_int y] @ q) = fs0 ?z + x + y"
    by (simp add: fs0_append ux)
  have s1: "fs1 (p @ [word_of_int x, word_of_int y] @ q) = fs1 ?z + (?k + 1) * x + ?k * y"
    by (simp add: fs1_append fs0_append ux algebra_simps)
  obtain t0 t1 where t: "fs0 ?z = c0 + 255 * t0" "fs1 ?z = c1 + 255 * t1"
    unfolding c0_def c1_def by (metis mod_mult_div_eq)
  have "fs0 (p @ [word_of_int x, word_of_int y] @ q) = 255 * (t0 + i)"
    using s0 t(1) i by simp
  moreover have "fs1 (p @ [word_of_int x, word_of_int y] @ q) = 255 * (t1 + j + ?k * i)"
  proof -
    have "(?k + 1) * x + ?k * y = x + ?k * (255 * i - c0)" unfolding i by (simp add: algebra_simps)
    also have "\<dots> = 255 * (j + ?k * i) - c1" unfolding j v_def by (simp add: algebra_simps)
    finally show ?thesis using s1 t(2) by simp
  qed
  moreover have "fletcher_checksum (p @ [a, b] @ q) ?n (length p) =
      Some (nat (x mod 256) + 256 * nat (y mod 256), p @ [word_of_int x, word_of_int y] @ q)"
  proof -
    define n B Z where "n = ?n" and "B = p @ [a, b] @ q" and "Z = ?z"
    have o1: "length p < to_size (int n - 1)" using assms(1) by (simp add: to_size_def nat_less_iff n_def)
    have "int (to_size (int n - int (length p) - 1)) = ?k" using assms(1) by (simp add: to_size_def n_def)
    moreover have "to_int (int (to_size (?k * c0 - c1))) = v"
      using vb unfolding to_int_to_size by (simp add: v_def to_int_id)
    ultimately have xy: "fletcher_xy n (length p) c0 c1 = (x, y)"
      unfolding fletcher_xy_def Let_def x_def y_def by simp
    have pt: "put2 B (length p) 0 0 = Some Z"
      "put2 Z (length p) (word_of_int x) (word_of_int y) = Some (p @ [word_of_int x, word_of_int y] @ q)"
      by (simp_all add: put2_def mem_write_def list_update_append B_def Z_def)
    have fl: "fletcher_loop Z (0, 0) = Some (c0, c1)" by (simp add: fletcher_loop_0 c0_def c1_def Z_def)
    have nz: "n = length Z" "length B = length Z" by (simp_all add: n_def Z_def B_def)
    show ?thesis
      using o1 assms(2) pt fl xy unfolding fletcher_checksum_def n_def [symmetric] B_def [symmetric]
      by (simp add: nz)
  qed
  ultimately show ?thesis by (metis mod_mult_self1_is_0)
qed

end
