(* ===== verification/Jhash.thy ===== *)
theory Jhash
  imports Block_Hash
begin

text \<open>
  Jenkins' hash of \<^verbatim>\<open>src/util/jhash.c\<close>: the byte version, the word version and the versions for one,
  two and three words. The word version on an array is the byte version on its little-endian
  bytes.
\<close>

section \<open>Model\<close>

definition JHASH_GOLDEN_RATIO :: u32 where "JHASH_GOLDEN_RATIO = 0x9e3779b9"

text \<open>The macro \<open>__jhash_mix\<close>, statement by statement.\<close>

definition jhash_mix :: "u32 \<times> u32 \<times> u32 \<Rightarrow> u32 \<times> u32 \<times> u32" where
  "jhash_mix s =
     (let (a, b, c) = s;
          a = a - b; a = a - c; a = a XOR drop_bit 13 c;
          b = b - c; b = b - a; b = b XOR push_bit 8 a;
          c = c - a; c = c - b; c = c XOR drop_bit 13 b;
          a = a - b; a = a - c; a = a XOR drop_bit 12 c;
          b = b - c; b = b - a; b = b XOR push_bit 16 a;
          c = c - a; c = c - b; c = c XOR drop_bit 5 b;
          a = a - b; a = a - c; a = a XOR drop_bit 3 c;
          b = b - c; b = b - a; b = b XOR push_bit 10 a;
          c = c - a; c = c - b; c = c XOR drop_bit 15 b
      in (a, b, c))"

definition jhash_ld :: "u8 list \<Rightarrow> nat \<Rightarrow> u32" where
  "jhash_ld k i = ucast (k ! i) + push_bit 8 (ucast (k ! (i + 1))) + push_bit 16 (ucast (k ! (i + 2))) +
     push_bit 24 (ucast (k ! (i + 3)))"

text \<open>\<open>while (len >= 12)\<close>: the rest of the key and the registers.\<close>

function jhash_loop :: "u8 list \<Rightarrow> u32 \<times> u32 \<times> u32 \<Rightarrow> u8 list \<times> u32 \<times> u32 \<times> u32" where
  "jhash_loop k (a, b, c) =
     (if length k \<ge> 12
      then jhash_loop (drop 12 k) (jhash_mix (a + jhash_ld k 0, b + jhash_ld k 4, c + jhash_ld k 8))
      else (k, a, b, c))"
  by pat_completeness auto
termination by (relation "measure (\<lambda>(k, s). length k)") auto

declare jhash_loop.simps [simp del]

text \<open>One case of the \<open>switch\<close>: added when the rest is long enough, which is the fall-through.\<close>

definition jhash_add :: "u8 list \<Rightarrow> nat \<Rightarrow> nat \<Rightarrow> u32 \<Rightarrow> u32" where
  "jhash_add k i s x = (if i < length k then x + push_bit s (ucast (k ! i)) else x)"

definition jhash :: "u8 list \<Rightarrow> u32 \<Rightarrow> u32" where
  "jhash key initval =
     (let (k, a, b, c) = jhash_loop key (JHASH_GOLDEN_RATIO, JHASH_GOLDEN_RATIO, initval);
          c = c + of_nat (length key);
          c = jhash_add k 10 24 c; c = jhash_add k 9 16 c; c = jhash_add k 8 8 c;
          b = jhash_add k 7 24 b; b = jhash_add k 6 16 b; b = jhash_add k 5 8 b; b = jhash_add k 4 0 b;
          a = jhash_add k 3 24 a; a = jhash_add k 2 16 a; a = jhash_add k 1 8 a; a = jhash_add k 0 0 a;
          (a, b, c) = jhash_mix (a, b, c)
      in c)"

text \<open>The word version.\<close>

fun jhash2_loop :: "u32 list \<Rightarrow> u32 \<times> u32 \<times> u32 \<Rightarrow> u32 list \<times> u32 \<times> u32 \<times> u32" where
  "jhash2_loop (k0 # k1 # k2 # k) (a, b, c) = jhash2_loop k (jhash_mix (a + k0, b + k1, c + k2))"
| "jhash2_loop k (a, b, c) = (k, a, b, c)"

definition jhash2 :: "u32 list \<Rightarrow> u32 \<Rightarrow> u32" where
  "jhash2 k0 initval =
     (let (k, a, b, c) = jhash2_loop k0 (JHASH_GOLDEN_RATIO, JHASH_GOLDEN_RATIO, initval);
          c = c + of_nat (length k0) * 4;
          b = (if length k = 2 then b + k ! 1 else b);
          a = (if length k = 2 \<or> length k = 1 then a + k ! 0 else a);
          (a, b, c) = jhash_mix (a, b, c)
      in c)"

definition jhash_3words :: "u32 \<Rightarrow> u32 \<Rightarrow> u32 \<Rightarrow> u32 \<Rightarrow> u32" where
  "jhash_3words a b c initval =
     (let (a, b, c) = jhash_mix (a + JHASH_GOLDEN_RATIO, b + JHASH_GOLDEN_RATIO, c + initval) in c)"

definition jhash_2words :: "u32 \<Rightarrow> u32 \<Rightarrow> u32 \<Rightarrow> u32" where
  "jhash_2words a b initval = jhash_3words a b 0 initval"

definition jhash_1word :: "u32 \<Rightarrow> u32 \<Rightarrow> u32" where
  "jhash_1word a initval = jhash_3words a 0 0 initval"

section \<open>The word version is the byte version\<close>

lemma le32_bytes_load:
  "ucast (byte_of x 0) + push_bit 8 (ucast (byte_of x 8)) + push_bit 16 (ucast (byte_of x 16)) +
     push_bit 24 (ucast (byte_of x 24)) = (x :: u32)"
proof -
  have b: "unat (ucast (byte_of x s) :: u32) = unat x div 2 ^ s mod 256" for s
    by (simp add: byte_of_def unat_ucast_u8 unat_masks unat_drop_bit)
  let ?n = "unat x"
  have "?n < 2 ^ 32" using unsigned_less [of x, where 'a = nat] by simp
  then have t: "?n div 2 ^ 24 < 256" by (simp add: less_mult_imp_div_less)
  have d: "?n div 65536 = ?n div 256 div 256" "?n div 16777216 = ?n div 256 div 256 div 256"
    by (simp_all add: div_mult2_eq [symmetric])
  have e: "?n mod 256 + ?n div 256 mod 256 * 256 + ?n div 65536 mod 256 * 65536 + ?n div 16777216 * 16777216 = ?n"
    unfolding d using div_mult_mod_eq [of ?n 256] div_mult_mod_eq [of "?n div 256" 256]
      div_mult_mod_eq [of "?n div 256 div 256" 256] by linarith
  show ?thesis
    unfolding word_unat_eq_iff unat_word_ariths unat_push_bit b
    using e t \<open>?n < 2 ^ 32\<close> by (simp add: mod_add_eq)
qed

lemma jhash_ld_le32:
  "jhash_ld (le32_bytes x @ k) 0 = x"
  "jhash_ld (le32_bytes w @ le32_bytes x @ k) 4 = x"
  "jhash_ld (le32_bytes v @ le32_bytes w @ le32_bytes x @ k) 8 = x"
  unfolding jhash_ld_def le32_bytes_def
  by (simp_all add: nth_append le32_bytes_load)

lemma jhash_loop_le32:
  "jhash2_loop k s = (k', s') \<Longrightarrow>
   jhash_loop (concat (map le32_bytes k)) s = (concat (map le32_bytes k'), s') \<and> length k' < 3"
proof (induction k s rule: jhash2_loop.induct)
  case (1 k0 k1 k2 k a b c)
  then show ?case by (subst jhash_loop.simps) (simp add: jhash_ld_le32)
qed (auto simp: jhash_loop.simps)

lemma jhash_add_le32:
  "jhash_add (le32_bytes x) 0 0 (jhash_add (le32_bytes x) 1 8 (jhash_add (le32_bytes x) 2 16
     (jhash_add (le32_bytes x) 3 24 a))) = a + x"
  unfolding jhash_add_def le32_bytes_def using le32_bytes_load [of x]
  by (simp add: algebra_simps)

lemma le32_bytes_ne: "le32_bytes x \<noteq> []"
  by (simp add: le32_bytes_def)

lemma jhash2_jhash_lem: "jhash2 k v = jhash (concat (map le32_bytes k)) v"
proof -
  obtain k' a b c where l: "jhash2_loop k (JHASH_GOLDEN_RATIO, JHASH_GOLDEN_RATIO, v) = (k', a, b, c)"
    by (metis prod_cases4)
  note l' = jhash_loop_le32 [OF l]
  have len: "(of_nat (length (concat (map le32_bytes k))) :: u32) = of_nat (length k) * 4"
    by (induction k) (simp_all add: algebra_simps)
  consider "k' = []" | x where "k' = [x]" | x y where "k' = [x, y]"
    using l' by (cases k'; cases "tl k'"; cases "tl (tl k')") auto
  then show ?thesis
  proof cases
    case 1
    then show ?thesis unfolding jhash_def jhash2_def using l l' len by (simp add: jhash_add_def)
  next
    case (2 x)
    then show ?thesis unfolding jhash_def jhash2_def using l l' len jhash_add_le32 [of x a]
      by (simp add: jhash_add_def le32_bytes_ne Let_def algebra_simps)
  next
    case (3 x y)
    then show ?thesis unfolding jhash_def jhash2_def using l l' len jhash_add_le32 [of x a] jhash_add_le32 [of y b]
      by (simp add: jhash_add_def le32_bytes_ne Let_def nth_append algebra_simps)
  qed
qed

section \<open>The mixing step loses nothing\<close>

text \<open>One register update \<open>x -= y; x -= z; x ^= w\<close> is undone by \<open>x = (x ^ w) + z + y\<close>, so the whole
  step is injective.\<close>

lemma xor_sub_cancel: "(x - y - z) XOR w = (x' - y - z) XOR w \<longleftrightarrow> x = (x' :: u32)"
proof
  assume "(x - y - z) XOR w = (x' - y - z) XOR w"
  then have "((x - y - z) XOR w) XOR w = ((x' - y - z) XOR w) XOR w" by simp
  then have "x - y - z = x' - y - z" by (simp only: xor.assoc xor_self_eq xor.right_neutral)
  then show "x = x'" by simp
qed simp

definition mix_a :: "(u32 \<Rightarrow> u32) \<Rightarrow> u32 \<times> u32 \<times> u32 \<Rightarrow> u32 \<times> u32 \<times> u32" where
  "mix_a f s = (case s of (a, b, c) \<Rightarrow> (b, c, (a - b - c) XOR f c))"

lemma mix_a_inj: "inj (mix_a f)"
  by (rule injI) (auto simp: mix_a_def xor_sub_cancel)

lemma mix_a_let: "mix_a f (a, b, c) = (let a = a - b; a = a - c; a = a XOR f c in (b, c, a))"
  by (simp add: mix_a_def)

lemma mix_a_Let: "mix_a f (Let x g) = (let y = x in mix_a f (g y))"
  by simp

lemma Let_pair: "Let (a, b, c) f = f (a, b, c)"
  by simp

lemma jhash_mix_rounds:
  "jhash_mix = mix_a (drop_bit 15) \<circ> mix_a (push_bit 10) \<circ> mix_a (drop_bit 3) \<circ> mix_a (drop_bit 5) \<circ>
     mix_a (push_bit 16) \<circ> mix_a (drop_bit 12) \<circ> mix_a (drop_bit 13) \<circ> mix_a (push_bit 8) \<circ>
     mix_a (drop_bit 13)"
proof
  fix s :: "u32 \<times> u32 \<times> u32"
  obtain a b c where "s = (a, b, c)" by (cases s)
  then show "jhash_mix s = (mix_a (drop_bit 15) \<circ> mix_a (push_bit 10) \<circ> mix_a (drop_bit 3) \<circ>
     mix_a (drop_bit 5) \<circ> mix_a (push_bit 16) \<circ> mix_a (drop_bit 12) \<circ> mix_a (drop_bit 13) \<circ>
     mix_a (push_bit 8) \<circ> mix_a (drop_bit 13)) s"
    by (simp only: jhash_mix_def comp_apply mix_a_let mix_a_Let prod.case Let_pair)
qed

lemma jhash_mix_inj: "inj jhash_mix"
  unfolding jhash_mix_rounds by (intro inj_compose mix_a_inj)

end
