(* ===== verification/Linklist.thy ===== *)
theory Linklist
  imports Interfaces
begin

text \<open>
  The doubly linked list of \<^verbatim>\<open>src/container/linklist.c\<close>, on an explicit heap: a partial map from
  addresses to list nodes, where address 0 is \<open>NULL\<close> and every access to an address that is not
  allocated is \<open>None\<close>. \<open>calloc\<close> is a parameter, a function from the heap to the address it
  returns (0 when it fails); a callback \<open>del\<close> shows as the list of the data it was called on.
  The abstraction of a list is the list of its nodes; every operation is shown to be the
  corresponding operation on that list, with all other nodes of the heap unchanged.
\<close>

section \<open>Model\<close>

record listnode =
  ln_next :: ptr
  ln_prev :: ptr
  ln_data :: ptr

type_synonym heap = "ptr \<rightharpoonup> listnode"

record llist =
  l_head :: ptr
  l_tail :: ptr
  l_count :: u32
  l_flags :: u8
  l_cmp :: "(ptr \<Rightarrow> ptr \<Rightarrow> int) option"
  l_del :: bool

definition LINKLIST_FLAG_NODE_MEM_BY_APP :: u8 where
  "LINKLIST_FLAG_NODE_MEM_BY_APP = 1"

text \<open>Assignments \<open>p->next = v\<close> and \<open>p->prev = v\<close>, and \<open>free (p)\<close>.\<close>

definition set_next :: "heap \<Rightarrow> ptr \<Rightarrow> ptr \<Rightarrow> heap option" where
  "set_next h p v = do { nd \<leftarrow> h p; Some (h(p \<mapsto> nd\<lparr>ln_next := v\<rparr>)) }"

definition set_prev :: "heap \<Rightarrow> ptr \<Rightarrow> ptr \<Rightarrow> heap option" where
  "set_prev h p v = do { nd \<leftarrow> h p; Some (h(p \<mapsto> nd\<lparr>ln_prev := v\<rparr>)) }"

definition mem_free :: "heap \<Rightarrow> ptr \<Rightarrow> heap option" where
  "mem_free h p = (if p \<in> dom h then Some (h(p := None)) else None)"

definition by_app :: "llist \<Rightarrow> bool" where
  "by_app l \<longleftrightarrow> l_flags l AND LINKLIST_FLAG_NODE_MEM_BY_APP \<noteq> 0"

text \<open>The macros \<open>LISTNODE_ATTACH\<close> and \<open>LISTNODE_DETACH\<close>.\<close>

definition LISTNODE_ATTACH :: "heap \<Rightarrow> llist \<Rightarrow> ptr \<Rightarrow> (heap \<times> llist) option" where
  "LISTNODE_ATTACH h l n = do {
     h \<leftarrow> set_prev h n (l_tail l);
     h \<leftarrow> set_next h n NULL;
     (h, l) \<leftarrow> (if l_head l = NULL then Some (h, l\<lparr>l_head := n\<rparr>)
               else do { h \<leftarrow> set_next h (l_tail l) n; Some (h, l) });
     Some (h, l\<lparr>l_tail := n, l_count := l_count l + 1\<rparr>) }"

definition LISTNODE_DETACH :: "heap \<Rightarrow> llist \<Rightarrow> ptr \<Rightarrow> (heap \<times> llist) option" where
  "LISTNODE_DETACH h l n = do {
     nd \<leftarrow> h n;
     (h, l) \<leftarrow> (if ln_prev nd \<noteq> NULL then do { h \<leftarrow> set_next h (ln_prev nd) (ln_next nd); Some (h, l) }
               else Some (h, l\<lparr>l_head := ln_next nd\<rparr>));
     nd \<leftarrow> h n;
     (h, l) \<leftarrow> (if ln_next nd \<noteq> NULL then do { h \<leftarrow> set_prev h (ln_next nd) (ln_prev nd); Some (h, l) }
               else Some (h, l\<lparr>l_tail := ln_prev nd\<rparr>));
     Some (h, l\<lparr>l_count := l_count l - 1\<rparr>) }"

definition list_new :: llist where
  "list_new = \<lparr>l_head = NULL, l_tail = NULL, l_count = 0, l_flags = 0, l_cmp = None, l_del = False\<rparr>"

definition list_create :: "(ptr \<Rightarrow> ptr \<Rightarrow> int) option \<Rightarrow> bool \<Rightarrow> llist" where
  "list_create cmp del = list_new\<lparr>l_cmp := cmp, l_del := del\<rparr>"

definition listnode_new :: "(heap \<Rightarrow> ptr) \<Rightarrow> heap \<Rightarrow> llist \<Rightarrow> ptr \<Rightarrow> (heap \<times> ptr) option" where
  "listnode_new calloc h l val =
     (if by_app l then do { h \<leftarrow> set_next h val NULL; h \<leftarrow> set_prev h val NULL; Some (h, val) }
      else (let n = calloc h in
            if n = NULL then None
            else Some (h(n \<mapsto> \<lparr>ln_next = NULL, ln_prev = NULL, ln_data = val\<rparr>), n)))"

definition listnode_free :: "heap \<Rightarrow> llist \<Rightarrow> ptr \<Rightarrow> heap option" where
  "listnode_free h l n = (if by_app l then Some h else mem_free h n)"

definition listnode_add :: "(heap \<Rightarrow> ptr) \<Rightarrow> heap \<Rightarrow> llist \<Rightarrow> ptr \<Rightarrow> (heap \<times> llist \<times> ptr) option" where
  "listnode_add calloc h l val =
     (if val = NULL then None
      else do {
        (h, n) \<leftarrow> listnode_new calloc h l val;
        h \<leftarrow> set_prev h n (l_tail l);
        (h, l) \<leftarrow> (if l_head l = NULL then Some (h, l\<lparr>l_head := n\<rparr>)
                  else do { h \<leftarrow> set_next h (l_tail l) n; Some (h, l) });
        Some (h, l\<lparr>l_tail := n, l_count := l_count l + 1\<rparr>, n) })"

definition listnode_add_head :: "(heap \<Rightarrow> ptr) \<Rightarrow> heap \<Rightarrow> llist \<Rightarrow> ptr \<Rightarrow> (heap \<times> llist) option" where
  "listnode_add_head calloc h l val =
     (if val = NULL then None
      else do {
        (h, n) \<leftarrow> listnode_new calloc h l val;
        h \<leftarrow> set_next h n (l_head l);
        (h, l) \<leftarrow> (if l_head l = NULL then Some (h, l\<lparr>l_head := n, l_tail := n\<rparr>)
                  else do { h \<leftarrow> set_prev h (l_head l) n; Some (h, l) });
        Some (h, l\<lparr>l_head := n, l_count := l_count l + 1\<rparr>) })"

text \<open>Linking \<open>new\<close> in front of \<open>n\<close>, which both sorted insertions do.\<close>

definition link_before :: "heap \<Rightarrow> llist \<Rightarrow> ptr \<Rightarrow> ptr \<Rightarrow> (heap \<times> llist) option" where
  "link_before h l new n = do {
     h \<leftarrow> set_next h new n;
     nd \<leftarrow> h n;
     h \<leftarrow> set_prev h new (ln_prev nd);
     nd \<leftarrow> h n;
     (h, l) \<leftarrow> (if ln_prev nd \<noteq> NULL then do { h \<leftarrow> set_next h (ln_prev nd) new; Some (h, l) }
               else Some (h, l\<lparr>l_head := new\<rparr>));
     h \<leftarrow> set_prev h n new;
     Some (h, l\<lparr>l_count := l_count l + 1\<rparr>) }"

text \<open>The scan of \<open>listnode_add_sort_nodup\<close>: the node to insert before (\<open>NULL\<close> at the end), or a
  duplicate.\<close>

partial_function (option) nodup_scan :: "heap \<Rightarrow> (ptr \<Rightarrow> ptr \<Rightarrow> int) \<Rightarrow> ptr \<Rightarrow> ptr \<Rightarrow> (ptr \<times> bool) option" where
  "nodup_scan h cmp data n =
     (if n = NULL then Some (NULL, False)
      else do {
        nd \<leftarrow> h n;
        (if cmp data (ln_data nd) < 0 then Some (n, False)
         else if cmp data (ln_data nd) = 0 then Some (n, True)
         else nodup_scan h cmp data (ln_next nd)) })"

definition listnode_add_sort_nodup :: "(heap \<Rightarrow> ptr) \<Rightarrow> heap \<Rightarrow> llist \<Rightarrow> ptr \<Rightarrow> (heap \<times> llist \<times> bool) option" where
  "listnode_add_sort_nodup calloc h l val =
     (if val = NULL then None
      else do {
        data \<leftarrow> (if by_app l then do { nd \<leftarrow> h val; Some (ln_data nd) } else Some val);
        (n, dup) \<leftarrow> (case l_cmp l of None \<Rightarrow> Some (NULL, False) | Some cmp \<Rightarrow> nodup_scan h cmp data (l_head l));
        (if dup then Some (h, l, False)
         else do {
           (h, new) \<leftarrow> listnode_new calloc h l val;
           (h, l) \<leftarrow> (if n \<noteq> NULL then link_before h l new n else LISTNODE_ATTACH h l new);
           Some (h, l, True) }) })"

text \<open>The loops \<open>ALL_LIST_ELEMENTS_RO\<close>: the data of the nodes from \<open>n\<close> on.\<close>

definition listgetdata :: "heap \<Rightarrow> ptr \<Rightarrow> ptr option" where
  "listgetdata h n = do { nd \<leftarrow> h n; (if ln_data nd = NULL then None else Some (ln_data nd)) }"

partial_function (option) list_dup_loop ::
    "(heap \<Rightarrow> ptr) \<Rightarrow> heap \<Rightarrow> llist \<Rightarrow> ptr \<Rightarrow> (heap \<times> llist) option" where
  "list_dup_loop calloc h dup n =
     (if n = NULL then Some (h, dup)
      else do {
        data \<leftarrow> listgetdata h n;
        (h, dup, x) \<leftarrow> listnode_add calloc h dup data;
        nd \<leftarrow> h n;
        list_dup_loop calloc h dup (ln_next nd) })"

definition list_dup :: "(heap \<Rightarrow> ptr) \<Rightarrow> heap \<Rightarrow> llist \<Rightarrow> (heap \<times> llist) option" where
  "list_dup calloc h l =
     list_dup_loop calloc h (list_new\<lparr>l_cmp := l_cmp l, l_del := l_del l\<rparr>) (l_head l)"

partial_function (option) sort_scan :: "heap \<Rightarrow> (ptr \<Rightarrow> ptr \<Rightarrow> int) \<Rightarrow> ptr \<Rightarrow> ptr \<Rightarrow> ptr option" where
  "sort_scan h cmp val n =
     (if n = NULL then Some NULL
      else do {
        nd \<leftarrow> h n;
        (if cmp val (ln_data nd) < 0 then Some n else sort_scan h cmp val (ln_next nd)) })"

definition listnode_add_sort :: "(heap \<Rightarrow> ptr) \<Rightarrow> heap \<Rightarrow> llist \<Rightarrow> ptr \<Rightarrow> (heap \<times> llist) option" where
  "listnode_add_sort calloc h l val =
     (if val = NULL then None
      else do {
        (h, new) \<leftarrow> listnode_new calloc h l val;
        nd \<leftarrow> h new;
        n \<leftarrow> (case l_cmp l of None \<Rightarrow> Some NULL | Some cmp \<Rightarrow> sort_scan h cmp (ln_data nd) (l_head l));
        (if n \<noteq> NULL then link_before h l new n
         else do {
           h \<leftarrow> set_prev h new (l_tail l);
           (h, l) \<leftarrow> (if l_tail l \<noteq> NULL then do { h \<leftarrow> set_next h (l_tail l) new; Some (h, l) }
                     else Some (h, l\<lparr>l_head := new\<rparr>));
           Some (h, l\<lparr>l_tail := new, l_count := l_count l + 1\<rparr>) }) })"

definition listnode_add_after :: "(heap \<Rightarrow> ptr) \<Rightarrow> heap \<Rightarrow> llist \<Rightarrow> ptr \<Rightarrow> ptr \<Rightarrow> (heap \<times> llist \<times> ptr) option" where
  "listnode_add_after calloc h l pp val =
     (if val = NULL then None
      else do {
        (h, nn) \<leftarrow> listnode_new calloc h l val;
        (h, l) \<leftarrow>
          (if pp = NULL then do {
             (h, l) \<leftarrow> (if l_head l \<noteq> NULL then do { h \<leftarrow> set_prev h (l_head l) nn; Some (h, l) }
                       else Some (h, l\<lparr>l_tail := nn\<rparr>));
             h \<leftarrow> set_next h nn (l_head l);
             h \<leftarrow> set_prev h nn pp;
             Some (h, l\<lparr>l_head := nn\<rparr>) }
           else do {
             nd \<leftarrow> h pp;
             (h, l) \<leftarrow> (if ln_next nd \<noteq> NULL then do { h \<leftarrow> set_prev h (ln_next nd) nn; Some (h, l) }
                       else Some (h, l\<lparr>l_tail := nn\<rparr>));
             nd \<leftarrow> h pp;
             h \<leftarrow> set_next h nn (ln_next nd);
             h \<leftarrow> set_prev h nn pp;
             h \<leftarrow> set_next h pp nn;
             Some (h, l) });
        Some (h, l\<lparr>l_count := l_count l + 1\<rparr>, nn) })"

definition listnode_add_before :: "(heap \<Rightarrow> ptr) \<Rightarrow> heap \<Rightarrow> llist \<Rightarrow> ptr \<Rightarrow> ptr \<Rightarrow> (heap \<times> llist \<times> ptr) option" where
  "listnode_add_before calloc h l pp val =
     (if val = NULL then None
      else do {
        (h, nn) \<leftarrow> listnode_new calloc h l val;
        (h, l) \<leftarrow>
          (if pp = NULL then do {
             (h, l) \<leftarrow> (if l_tail l \<noteq> NULL then do { h \<leftarrow> set_next h (l_tail l) nn; Some (h, l) }
                       else Some (h, l\<lparr>l_head := nn\<rparr>));
             h \<leftarrow> set_prev h nn (l_tail l);
             h \<leftarrow> set_next h nn pp;
             Some (h, l\<lparr>l_tail := nn\<rparr>) }
           else do {
             nd \<leftarrow> h pp;
             (h, l) \<leftarrow> (if ln_prev nd \<noteq> NULL then do { h \<leftarrow> set_next h (ln_prev nd) nn; Some (h, l) }
                       else Some (h, l\<lparr>l_head := nn\<rparr>));
             nd \<leftarrow> h pp;
             h \<leftarrow> set_prev h nn (ln_prev nd);
             h \<leftarrow> set_next h nn pp;
             h \<leftarrow> set_prev h pp nn;
             Some (h, l) });
        Some (h, l\<lparr>l_count := l_count l + 1\<rparr>, nn) })"

definition listnode_move_to_tail :: "heap \<Rightarrow> llist \<Rightarrow> ptr \<Rightarrow> (heap \<times> llist) option" where
  "listnode_move_to_tail h l n = do { (h, l) \<leftarrow> LISTNODE_DETACH h l n; LISTNODE_ATTACH h l n }"

text \<open>The \<open>else\<close> of \<open>listnode_lookup\<close> belongs to the inner \<open>if\<close>: nothing is compared when the list
  has no \<open>cmp\<close>.\<close>

partial_function (option) lookup_loop ::
    "heap \<Rightarrow> (ptr \<Rightarrow> ptr \<Rightarrow> int) option \<Rightarrow> ptr \<Rightarrow> ptr \<Rightarrow> ptr option" where
  "lookup_loop h cmp data n =
     (if n = NULL then Some NULL
      else do {
        found \<leftarrow> (case cmp of
           None \<Rightarrow> Some False
         | Some c \<Rightarrow> do { x \<leftarrow> listgetdata h n;
                         (if c data x = 0 then Some True else if data = x then Some True else Some False) });
        (if found then Some n else do { nd \<leftarrow> h n; lookup_loop h cmp data (ln_next nd) }) })"

definition listnode_lookup :: "heap \<Rightarrow> llist \<Rightarrow> ptr \<Rightarrow> ptr option" where
  "listnode_lookup h l data = lookup_loop h (l_cmp l) data (l_head l)"

definition listnode_lookup_nocheck :: "heap \<Rightarrow> llist option \<Rightarrow> ptr \<Rightarrow> ptr option" where
  "listnode_lookup_nocheck h l data = (case l of None \<Rightarrow> Some NULL | Some l \<Rightarrow> listnode_lookup h l data)"

definition list_delete_node :: "heap \<Rightarrow> llist \<Rightarrow> ptr \<Rightarrow> (heap \<times> llist) option" where
  "list_delete_node h l n = do {
     nd \<leftarrow> h n;
     (h, l) \<leftarrow> (if ln_prev nd \<noteq> NULL then do { h \<leftarrow> set_next h (ln_prev nd) (ln_next nd); Some (h, l) }
               else Some (h, l\<lparr>l_head := ln_next nd\<rparr>));
     nd \<leftarrow> h n;
     (h, l) \<leftarrow> (if ln_next nd \<noteq> NULL then do { h \<leftarrow> set_prev h (ln_next nd) (ln_prev nd); Some (h, l) }
               else Some (h, l\<lparr>l_tail := ln_prev nd\<rparr>));
     let l = l\<lparr>l_count := l_count l - 1\<rparr>;
     h \<leftarrow> listnode_free h l n;
     Some (h, l) }"

definition listnode_delete :: "heap \<Rightarrow> llist \<Rightarrow> ptr \<Rightarrow> (heap \<times> llist) option" where
  "listnode_delete h l val = do {
     n \<leftarrow> listnode_lookup h l val;
     (if n \<noteq> NULL then list_delete_node h l n else Some (h, l)) }"

definition listnode_head :: "heap \<Rightarrow> llist \<Rightarrow> ptr option" where
  "listnode_head h l =
     (if l_head l \<noteq> NULL then do { nd \<leftarrow> h (l_head l); Some (ln_data nd) } else Some NULL)"

definition listnode_getdata :: "heap \<Rightarrow> llist \<Rightarrow> ptr \<Rightarrow> ptr option" where
  "listnode_getdata h l data = do {
     n \<leftarrow> listnode_lookup h l data;
     (if n \<noteq> NULL then do { nd \<leftarrow> h n; Some (ln_data nd) } else Some NULL) }"

text \<open>The second component is the list of data the callback \<open>del\<close> was called on.\<close>

partial_function (option) delete_all_loop :: "heap \<Rightarrow> llist \<Rightarrow> ptr \<Rightarrow> (heap \<times> ptr list) option" where
  "delete_all_loop h l n =
     (if n = NULL then Some (h, [])
      else do {
        nd \<leftarrow> h n;
        h \<leftarrow> listnode_free h l n;
        (h, ds) \<leftarrow> delete_all_loop h l (ln_next nd);
        Some (h, if l_del l then ln_data nd # ds else ds) })"

definition list_delete_all_node :: "heap \<Rightarrow> llist \<Rightarrow> (heap \<times> llist \<times> ptr list) option" where
  "list_delete_all_node h l = do {
     (h, ds) \<leftarrow> delete_all_loop h l (l_head l);
     Some (h, l\<lparr>l_head := NULL, l_tail := NULL, l_count := 0\<rparr>, ds) }"

text \<open>\<open>list_delete\<close> frees the struct itself and clears the caller's pointer.\<close>

definition list_delete :: "heap \<Rightarrow> llist option \<Rightarrow> (heap \<times> llist option \<times> ptr list) option" where
  "list_delete h l = do {
     l \<leftarrow> l;
     (h, l, ds) \<leftarrow> list_delete_all_node h l;
     Some (h, None, ds) }"

text \<open>\<open>list_sort\<close>: the items are taken out, sorted by \<open>qsort\<close> (a parameter) and added again. Writing
  past the \<open>n\<close> items is an error.\<close>

partial_function (option) sort_take :: "heap \<Rightarrow> llist \<Rightarrow> nat \<Rightarrow> ptr \<Rightarrow> ptr list \<Rightarrow> (heap \<times> llist \<times> ptr list) option" where
  "sort_take h l n ln items =
     (if ln = NULL then Some (h, l, items)
      else do {
        data \<leftarrow> listgetdata h ln;
        nd \<leftarrow> h ln;
        (if length items < n then Some () else None);
        (h, l) \<leftarrow> list_delete_node h l ln;
        sort_take h l n (ln_next nd) (items @ [data]) })"

fun sort_add :: "(heap \<Rightarrow> ptr) \<Rightarrow> heap \<Rightarrow> llist \<Rightarrow> ptr list \<Rightarrow> (heap \<times> llist) option" where
  "sort_add calloc h l [] = Some (h, l)"
| "sort_add calloc h l (x # items) = do { (h, l, n) \<leftarrow> listnode_add calloc h l x; sort_add calloc h l items }"

definition list_sort :: "(ptr list \<Rightarrow> ptr list) \<Rightarrow> (heap \<Rightarrow> ptr) \<Rightarrow> heap \<Rightarrow> llist \<Rightarrow> (heap \<times> llist) option" where
  "list_sort qsort calloc h l =
     (let n = unat (l_count l) in
      if n = 0 then Some (h, l)
      else do {
        (h, l, items) \<leftarrow> sort_take h l n (l_head l) [];
        sort_add calloc h l (qsort (items @ replicate (n - length items) NULL)) })"

definition listnode_add_force ::
    "(heap \<Rightarrow> ptr) \<Rightarrow> heap \<Rightarrow> llist option \<Rightarrow> ptr \<Rightarrow> (heap \<times> llist \<times> ptr) option" where
  "listnode_add_force calloc h l val =
     listnode_add calloc h (case l of None \<Rightarrow> list_new | Some l \<Rightarrow> l) val"

partial_function (option) to_array_loop :: "heap \<Rightarrow> ptr list \<Rightarrow> nat \<Rightarrow> nat \<Rightarrow> ptr \<Rightarrow> ptr list option" where
  "to_array_loop h arr idx arrlen ln =
     (if ln = NULL then Some arr
      else do {
        vp \<leftarrow> listgetdata h ln;
        arr \<leftarrow> mem_write arr idx vp;
        (if idx + 1 = arrlen then Some arr
         else do { nd \<leftarrow> h ln; to_array_loop h arr (idx + 1) arrlen (ln_next nd) }) })"

definition list_to_array :: "heap \<Rightarrow> llist \<Rightarrow> ptr list \<Rightarrow> nat \<Rightarrow> ptr list option" where
  "list_to_array h l arr arrlen = to_array_loop h arr 0 arrlen (l_head l)"

text \<open>The callback of \<open>list_scan\<close> works on the user's data.\<close>

partial_function (option) scan_loop ::
    "heap \<Rightarrow> (ptr \<Rightarrow> 'u \<Rightarrow> bool \<times> 'u) \<Rightarrow> ptr \<Rightarrow> 'u \<Rightarrow> (bool \<times> 'u) option" where
  "scan_loop h iter n udata =
     (if n = NULL then Some (True, udata)
      else do {
        data \<leftarrow> listgetdata h n;
        nd \<leftarrow> h n;
        (case iter data udata of (go, udata) \<Rightarrow>
           (if go then scan_loop h iter (ln_next nd) udata else Some (False, udata))) })"

definition list_scan :: "heap \<Rightarrow> llist \<Rightarrow> (ptr \<Rightarrow> 'u \<Rightarrow> bool \<times> 'u) \<Rightarrow> 'u \<Rightarrow> (bool \<times> 'u) option" where
  "list_scan h l iter udata = scan_loop h iter (l_head l) udata"

text \<open>The comparison functions of the file, on what the pointers point to: the strings, the \<open>int\<close>s
  (\<open>None\<close> on signed overflow), the addresses (the difference of two \<open>size_t\<close> cut to an \<open>int\<close>).\<close>

definition compare_strs :: "(ptr \<Rightarrow> u8 list) \<Rightarrow> ptr \<Rightarrow> ptr \<Rightarrow> int" where
  "compare_strs str a b = strcmp (str a) (str b)"

definition compare_ints :: "(ptr \<Rightarrow> int) \<Rightarrow> ptr \<Rightarrow> ptr \<Rightarrow> int option" where
  "compare_ints ints a b =
     (if - (2 ^ 31) \<le> ints a - ints b \<and> ints a - ints b < 2 ^ 31 then Some (ints a - ints b) else None)"

definition compare_ptrs :: "(ptr \<Rightarrow> nat) \<Rightarrow> ptr \<Rightarrow> ptr \<Rightarrow> int" where
  "compare_ptrs ptrs a b = to_int (int (to_size (int (ptrs a) - int (ptrs b))))"

declare nodup_scan.simps [code] list_dup_loop.simps [code] sort_scan.simps [code] lookup_loop.simps [code]
  delete_all_loop.simps [code] sort_take.simps [code] to_array_loop.simps [code] scan_loop.simps [code]

section \<open>Abstraction\<close>

definition hd0 :: "ptr list \<Rightarrow> ptr \<Rightarrow> ptr" where
  "hd0 ns q = (case ns of [] \<Rightarrow> q | n # _ \<Rightarrow> n)"

definition last0 :: "ptr list \<Rightarrow> ptr \<Rightarrow> ptr" where
  "last0 ns p = (if ns = [] then p else last ns)"

text \<open>The nodes \<open>ns\<close> are linked both ways, from a predecessor \<open>p\<close> to a successor \<open>q\<close>.\<close>

fun dseg :: "heap \<Rightarrow> ptr \<Rightarrow> ptr list \<Rightarrow> ptr \<Rightarrow> bool" where
  "dseg h p [] q \<longleftrightarrow> True"
| "dseg h p (n # ns) q \<longleftrightarrow> (\<exists>d. h n = Some \<lparr>ln_next = hd0 ns q, ln_prev = p, ln_data = d\<rparr>) \<and> dseg h n ns q"

text \<open>A list struct represents its nodes; the invariant of the header is the last conjunct.\<close>

definition list_rep :: "heap \<Rightarrow> llist \<Rightarrow> ptr list \<Rightarrow> bool" where
  "list_rep h l ns \<longleftrightarrow> distinct ns \<and> NULL \<notin> set ns \<and> dseg h NULL ns NULL \<and> l_head l = hd0 ns NULL \<and>
     l_tail l = last0 ns NULL \<and> l_count l = of_nat (length ns)"

definition node_data :: "heap \<Rightarrow> ptr \<Rightarrow> ptr" where
  "node_data h n = ln_data (the (h n))"

definition list_vals :: "heap \<Rightarrow> ptr list \<Rightarrow> ptr list" where
  "list_vals h ns = map (node_data h) ns"

lemma hd0_simps [simp]: "hd0 [] q = q" "hd0 (n # ns) q = n"
  by (simp_all add: hd0_def)

lemma last0_simps [simp]: "last0 [] p = p" "last0 (ns @ [n]) p = n" "last0 (n # ns) p = last0 ns n"
  by (simp_all add: last0_def)

lemma hd0_append [simp]: "hd0 (xs @ ys) q = hd0 xs (hd0 ys q)"
  by (cases xs) auto

lemma last0_append [simp]: "last0 (xs @ ys) p = last0 ys (last0 xs p)"
  by (simp add: last0_def)

lemma hd0_null [simp]: "NULL \<notin> set ns \<Longrightarrow> hd0 ns q = NULL \<longleftrightarrow> ns = [] \<and> q = NULL"
  by (cases ns) auto

lemma last0_null [simp]: "NULL \<notin> set ns \<Longrightarrow> last0 ns p = NULL \<longleftrightarrow> ns = [] \<and> p = NULL"
  by (metis last0_def last_in_set)

lemma hd0_in: "hd0 ns q = q \<or> hd0 ns q \<in> set ns"
  by (cases ns) auto

lemma last0_in: "last0 ns p = p \<or> last0 ns p \<in> set ns"
  by (auto simp: last0_def)

lemma hd0_pos [simp]: "NULL \<notin> set ns \<Longrightarrow> 0 < q \<Longrightarrow> 0 < hd0 ns q"
  by (cases ns) auto

lemma last0_pos [simp]: "NULL \<notin> set ns \<Longrightarrow> 0 < p \<Longrightarrow> 0 < last0 ns p"
  by (metis last0_def last_in_set gr0I)

lemma hd0_ne: "m \<notin> set ns \<Longrightarrow> m \<noteq> NULL \<Longrightarrow> m \<noteq> hd0 ns NULL"
  by (cases ns) auto

lemma last0_ne: "m \<notin> set ns \<Longrightarrow> m \<noteq> NULL \<Longrightarrow> m \<noteq> last0 ns NULL"
  by (auto simp: last0_def)

lemma dseg_append [simp]: "dseg h p (xs @ ys) q \<longleftrightarrow> dseg h p xs (hd0 ys q) \<and> dseg h (last0 xs p) ys q"
  by (induction xs arbitrary: p) auto

lemma dseg_frame: "(\<And>n. n \<in> set ns \<Longrightarrow> h' n = h n) \<Longrightarrow> dseg h' p ns q = dseg h p ns q"
  by (induction ns arbitrary: p) auto

lemma dseg_dom: "dseg h p ns q \<Longrightarrow> n \<in> set ns \<Longrightarrow> \<exists>nd. h n = Some nd"
  by (induction ns arbitrary: p) auto

text \<open>Updates of a node, of nothing when the pointer is \<open>NULL\<close>.\<close>

definition upd :: "ptr \<Rightarrow> (listnode \<Rightarrow> listnode) \<Rightarrow> heap \<Rightarrow> heap" where
  "upd p f h = (if p = NULL then h else h(p := map_option f (h p)))"

lemma upd_other [simp]: "n \<noteq> p \<Longrightarrow> upd p f h n = h n"
  by (simp add: upd_def)

lemma upd_same: "p \<noteq> NULL \<Longrightarrow> upd p f h p = map_option f (h p)"
  by (simp add: upd_def)

lemma upd_null [simp]: "upd NULL f h = h"
  by (simp add: upd_def)

lemma dseg_upd_last:
  assumes "dseg h p xs q" "distinct xs" "NULL \<notin> set xs"
  shows "dseg (upd (last0 xs NULL) (ln_next_update (\<lambda>_. q')) h) p xs q'"
proof (cases xs rule: rev_cases)
  case (snoc ys n)
  then have "dseg (upd n (ln_next_update (\<lambda>_. q')) h) p ys n = dseg h p ys n"
    using assms by (intro dseg_frame) (metis append_Nil2 distinct_append disjoint_insert(1) in_set_conv_decomp list.simps(15) not_distinct_conv_prefix upd_other)
  then show ?thesis using snoc assms by (auto simp: upd_same)
qed simp

lemma dseg_upd_first:
  assumes "dseg h p ys q" "distinct ys" "NULL \<notin> set ys"
  shows "dseg (upd (hd0 ys NULL) (ln_prev_update (\<lambda>_. p')) h) p' ys q"
proof (cases ys)
  case (Cons n ns)
  then have "dseg (upd n (ln_prev_update (\<lambda>_. p')) h) n ns q = dseg h n ns q"
    using assms by (intro dseg_frame) (auto intro: upd_other)
  then show ?thesis using Cons assms by (auto simp: upd_same)
qed simp

text \<open>The heap after linking a node between \<open>xs\<close> and \<open>ys\<close>, and after unlinking the node there.\<close>

definition relink :: "ptr list \<Rightarrow> ptr \<Rightarrow> ptr list \<Rightarrow> ptr \<Rightarrow> heap \<Rightarrow> heap" where
  "relink xs n ys d h =
     (upd (last0 xs NULL) (ln_next_update (\<lambda>_. n)) (upd (hd0 ys NULL) (ln_prev_update (\<lambda>_. n)) h))
       (n \<mapsto> \<lparr>ln_next = hd0 ys NULL, ln_prev = last0 xs NULL, ln_data = d\<rparr>)"

definition unlink :: "ptr list \<Rightarrow> ptr list \<Rightarrow> heap \<Rightarrow> heap" where
  "unlink xs ys h =
     upd (last0 xs NULL) (ln_next_update (\<lambda>_. hd0 ys NULL)) (upd (hd0 ys NULL) (ln_prev_update (\<lambda>_. last0 xs NULL)) h)"

lemma dseg_both:
  assumes "dseg h NULL xs a" "dseg h b ys NULL" "distinct (xs @ ys)" "NULL \<notin> set (xs @ ys)"
  shows "dseg (upd (last0 xs NULL) (ln_next_update (\<lambda>_. a')) (upd (hd0 ys NULL) (ln_prev_update (\<lambda>_. b')) h)) NULL xs a'"
    "dseg (upd (last0 xs NULL) (ln_next_update (\<lambda>_. a')) (upd (hd0 ys NULL) (ln_prev_update (\<lambda>_. b')) h)) b' ys NULL"
proof -
  have "dseg (upd (hd0 ys NULL) (ln_prev_update (\<lambda>_. b')) h) NULL xs a = dseg h NULL xs a"
    using assms hd0_in [of ys NULL] by (intro dseg_frame upd_other) auto
  then show "dseg (upd (last0 xs NULL) (ln_next_update (\<lambda>_. a')) (upd (hd0 ys NULL) (ln_prev_update (\<lambda>_. b')) h)) NULL xs a'"
    using assms by (intro dseg_upd_last) auto
  have "dseg (upd (last0 xs NULL) (ln_next_update (\<lambda>_. a')) (upd (hd0 ys NULL) (ln_prev_update (\<lambda>_. b')) h)) b' ys NULL =
    dseg (upd (hd0 ys NULL) (ln_prev_update (\<lambda>_. b')) h) b' ys NULL"
    using assms last0_in [of xs NULL] by (intro dseg_frame upd_other) auto
  then show "dseg (upd (last0 xs NULL) (ln_next_update (\<lambda>_. a')) (upd (hd0 ys NULL) (ln_prev_update (\<lambda>_. b')) h)) b' ys NULL"
    using dseg_upd_first [OF assms(2)] assms(3,4) by auto
qed

lemma dseg_relink:
  assumes "dseg h NULL (xs @ ys) NULL" "distinct (xs @ n # ys)" "NULL \<notin> set (xs @ n # ys)"
  shows "dseg (relink xs n ys d h) NULL (xs @ n # ys) NULL"
proof -
  let ?h = "upd (last0 xs NULL) (ln_next_update (\<lambda>_. n)) (upd (hd0 ys NULL) (ln_prev_update (\<lambda>_. n)) h)"
  have "dseg ?h NULL xs n" "dseg ?h n ys NULL" using assms by (auto intro!: dseg_both)
  moreover have "dseg (relink xs n ys d h) NULL xs n = dseg ?h NULL xs n" "dseg (relink xs n ys d h) n ys NULL = dseg ?h n ys NULL"
    using assms by (auto simp: relink_def intro!: dseg_frame)
  moreover have "relink xs n ys d h n = Some \<lparr>ln_next = hd0 ys NULL, ln_prev = last0 xs NULL, ln_data = d\<rparr>"
    by (simp add: relink_def)
  ultimately show ?thesis by simp
qed

lemma dseg_unlink:
  assumes "dseg h NULL (xs @ n # ys) NULL" "distinct (xs @ n # ys)" "NULL \<notin> set (xs @ n # ys)"
  shows "dseg (unlink xs ys h) NULL (xs @ ys) NULL"
  using assms unfolding unlink_def by (auto intro!: dseg_both)

lemma upd_data: "upd p f h m = Some nd \<Longrightarrow> (\<And>x. ln_data (f x) = ln_data x) \<Longrightarrow> \<exists>nd0. h m = Some nd0 \<and> ln_data nd = ln_data nd0"
  by (auto simp: upd_def split: if_splits)

lemma node_data_upd:
  assumes "h m \<noteq> None" "\<And>x. ln_data (f x) = ln_data x"
  shows "node_data (upd p f h) m = node_data h m"
  using assms by (auto simp: node_data_def upd_def)

lemma upd_dom [simp]: "upd p f h m = None \<longleftrightarrow> h m = None"
  by (simp add: upd_def)

definition ins_list :: "ptr list \<Rightarrow> ptr \<Rightarrow> ptr list \<Rightarrow> llist \<Rightarrow> llist" where
  "ins_list xs n ys l = l\<lparr>l_head := hd0 xs n, l_tail := last0 ys n, l_count := l_count l + 1\<rparr>"

definition del_list :: "ptr list \<Rightarrow> ptr list \<Rightarrow> llist \<Rightarrow> llist" where
  "del_list xs ys l = l\<lparr>l_head := hd0 (xs @ ys) NULL, l_tail := last0 (xs @ ys) NULL, l_count := l_count l - 1\<rparr>"

lemma list_rep_relink:
  assumes "list_rep h l (xs @ ys)" "n \<notin> set (xs @ ys)" "n \<noteq> NULL"
  shows "list_rep (relink xs n ys d h) (ins_list xs n ys l) (xs @ n # ys)"
  using assms dseg_relink [of h xs ys n d] by (simp add: list_rep_def ins_list_def)

lemma list_vals_relink:
  assumes "list_rep h l (xs @ ys)" "n \<notin> set (xs @ ys)"
  shows "list_vals (relink xs n ys d h) (xs @ n # ys) = list_vals h xs @ d # list_vals h ys"
proof -
  have "node_data (relink xs n ys d h) m = node_data h m" if "m \<in> set (xs @ ys)" for m
  proof -
    have "h m \<noteq> None" "m \<noteq> n" using assms that dseg_dom [of h NULL "xs @ ys" NULL m] by (auto simp: list_rep_def)
    then show ?thesis by (simp add: relink_def node_data_def [of "_(n \<mapsto> _)"] node_data_upd flip: node_data_def)
  qed
  then show ?thesis by (simp add: list_vals_def) (simp add: relink_def node_data_def)
qed

lemma relink_frame: "m \<notin> set (xs @ n # ys) \<Longrightarrow> m \<noteq> NULL \<Longrightarrow> relink xs n ys d h m = h m"
  using hd0_ne [of m ys] last0_ne [of m xs] by (simp add: relink_def)

lemma list_rep_unlink:
  assumes "list_rep h l (xs @ n # ys)"
  shows "list_rep ((unlink xs ys h)(n := None)) (del_list xs ys l) (xs @ ys)"
    "list_rep (unlink xs ys h) (del_list xs ys l) (xs @ ys)"
proof -
  have d: "dseg (unlink xs ys h) NULL (xs @ ys) NULL"
    using dseg_unlink [of h xs n ys] assms unfolding list_rep_def by blast
  moreover have "dseg ((unlink xs ys h)(n := None)) NULL (xs @ ys) NULL = dseg (unlink xs ys h) NULL (xs @ ys) NULL"
    using assms by (intro dseg_frame) (auto simp: list_rep_def)
  ultimately show "list_rep ((unlink xs ys h)(n := None)) (del_list xs ys l) (xs @ ys)"
    "list_rep (unlink xs ys h) (del_list xs ys l) (xs @ ys)"
    using assms by (auto simp: list_rep_def del_list_def)
qed

lemma node_data_unlink:
  assumes "list_rep h l (xs @ n # ys)" "m \<in> set (xs @ n # ys)"
  shows "node_data (unlink xs ys h) m = node_data h m"
proof -
  have "h m \<noteq> None" using assms dseg_dom [of h NULL "xs @ n # ys" NULL m] unfolding list_rep_def by auto
  then show ?thesis by (simp add: unlink_def node_data_upd)
qed

lemma list_vals_unlink:
  assumes "list_rep h l (xs @ n # ys)"
  shows "list_vals ((unlink xs ys h)(n := None)) (xs @ ys) = list_vals h (xs @ ys)"
proof -
  have "node_data ((unlink xs ys h)(n := None)) m = node_data h m" if "m \<in> set (xs @ ys)" for m
  proof -
    have "m \<noteq> n" using assms that by (auto simp: list_rep_def)
    then have "node_data ((unlink xs ys h)(n := None)) m = node_data (unlink xs ys h) m" by (simp add: node_data_def)
    then show ?thesis using node_data_unlink [OF assms, of m] that by auto
  qed
  then show ?thesis by (simp add: list_vals_def)
qed

lemma unlink_frame: "m \<notin> set (xs @ ys) \<Longrightarrow> m \<noteq> NULL \<Longrightarrow> unlink xs ys h m = h m"
  using hd0_ne [of m ys] last0_ne [of m xs] by (simp add: unlink_def)

section \<open>Insertions\<close>

text \<open>The node an insertion of \<open>val\<close> works on, what it carries, and when it can be linked: its memory
  is new, or the application's own node outside the list.\<close>

definition new_node :: "(heap \<Rightarrow> ptr) \<Rightarrow> heap \<Rightarrow> llist \<Rightarrow> ptr \<Rightarrow> ptr" where
  "new_node calloc h l val = (if by_app l then val else calloc h)"

definition new_data :: "heap \<Rightarrow> llist \<Rightarrow> ptr \<Rightarrow> ptr" where
  "new_data h l val = (if by_app l then node_data h val else val)"

definition fresh_node :: "(heap \<Rightarrow> ptr) \<Rightarrow> heap \<Rightarrow> llist \<Rightarrow> ptr list \<Rightarrow> ptr \<Rightarrow> bool" where
  "fresh_node calloc h l ns val \<longleftrightarrow> val \<noteq> NULL \<and>
     (if by_app l then val \<in> dom h \<and> val \<notin> set ns else calloc h \<noteq> NULL \<and> calloc h \<notin> dom h)"

lemma fresh_node_props:
  assumes "list_rep h l ns" "fresh_node calloc h l ns val"
  shows "new_node calloc h l val \<notin> set ns" "new_node calloc h l val \<noteq> NULL" "val \<noteq> NULL"
    "listnode_new calloc h l val =
       Some (h(new_node calloc h l val \<mapsto> \<lparr>ln_next = NULL, ln_prev = NULL, ln_data = new_data h l val\<rparr>),
             new_node calloc h l val)"
proof -
  have d: "new_node calloc h l val \<in> set ns \<Longrightarrow> new_node calloc h l val \<in> dom h"
    using assms dseg_dom [of h NULL ns NULL "new_node calloc h l val"] by (auto simp: list_rep_def)
  show "new_node calloc h l val \<notin> set ns" "new_node calloc h l val \<noteq> NULL" "val \<noteq> NULL"
    using assms(2) d by (auto simp: fresh_node_def new_node_def split: if_splits)
  have e: "(y :: listnode)\<lparr>ln_next := NULL, ln_prev := NULL\<rparr> = \<lparr>ln_next = NULL, ln_prev = NULL, ln_data = ln_data y\<rparr>" for y
    by (cases y) simp
  show "listnode_new calloc h l val =
       Some (h(new_node calloc h l val \<mapsto> \<lparr>ln_next = NULL, ln_prev = NULL, ln_data = new_data h l val\<rparr>),
             new_node calloc h l val)"
    using assms(2) by (auto simp: fresh_node_def new_node_def new_data_def listnode_new_def set_next_def set_prev_def
        node_data_def Let_def e)
qed

lemma dseg_last: "dseg h p (xs @ [x]) q \<Longrightarrow> \<exists>d. h x = Some \<lparr>ln_next = q, ln_prev = last0 xs p, ln_data = d\<rparr>"
  by simp

lemma listnode_add_relink:
  assumes "list_rep h l ns" "fresh_node calloc h l ns val"
  shows "listnode_add calloc h l val =
    Some (relink ns (new_node calloc h l val) [] (new_data h l val) h, ins_list ns (new_node calloc h l val) [] l,
          new_node calloc h l val)"
proof (cases ns rule: rev_cases)
  case Nil
  then show ?thesis using fresh_node_props [OF assms] assms
    by (simp add: listnode_add_def set_prev_def relink_def ins_list_def list_rep_def)
next
  case (snoc xs x)
  then show ?thesis using fresh_node_props [OF assms] assms
    by (auto simp: listnode_add_def set_prev_def set_next_def relink_def ins_list_def list_rep_def upd_def intro!: ext)
qed


lemma LISTNODE_ATTACH_relink:
  assumes "list_rep h l ns" "n \<notin> set ns" "n \<noteq> NULL" "h' n = Some nd" "\<And>m. m \<noteq> n \<Longrightarrow> h' m = h m"
  shows "LISTNODE_ATTACH h' l n = Some (relink ns n [] (ln_data nd) h, ins_list ns n [] l)"
proof -
  have e: "nd\<lparr>ln_prev := p, ln_next := q\<rparr> = \<lparr>ln_next = q, ln_prev = p, ln_data = ln_data nd\<rparr>" for p q
    by (cases nd) simp
  show ?thesis
  proof (cases ns rule: rev_cases)
    case Nil
    then show ?thesis using assms
      by (auto simp: LISTNODE_ATTACH_def set_prev_def set_next_def relink_def ins_list_def list_rep_def e intro!: ext)
  next
    case (snoc xs x)
    then show ?thesis using assms
      by (auto simp: LISTNODE_ATTACH_def set_prev_def set_next_def relink_def ins_list_def list_rep_def upd_def e intro!: ext)
  qed
qed

lemma listnode_add_head_relink:
  assumes "list_rep h l ns" "fresh_node calloc h l ns val"
  shows "listnode_add_head calloc h l val =
    Some (relink [] (new_node calloc h l val) ns (new_data h l val) h, ins_list [] (new_node calloc h l val) ns l)"
proof (cases ns)
  case Nil
  then show ?thesis using fresh_node_props [OF assms] assms
    by (simp add: listnode_add_head_def set_next_def relink_def ins_list_def list_rep_def)
next
  case (Cons x xs)
  then show ?thesis using fresh_node_props [OF assms] assms
    by (auto simp: listnode_add_head_def set_prev_def set_next_def relink_def ins_list_def list_rep_def upd_def intro!: ext)
qed

lemma link_before_relink:
  assumes "list_rep h l (xs @ x # ys)" "n \<notin> set (xs @ x # ys)" "n \<noteq> NULL"
    "h' = h(n \<mapsto> \<lparr>ln_next = NULL, ln_prev = NULL, ln_data = d\<rparr>)"
  shows "link_before h' l n x = Some (relink xs n (x # ys) d h, ins_list xs n (x # ys) l)"
proof (cases xs rule: rev_cases)
  case Nil
  then show ?thesis using assms
    by (auto simp: link_before_def set_prev_def set_next_def relink_def ins_list_def list_rep_def upd_def intro!: ext)
next
  case (snoc zs z)
  then show ?thesis using assms
    by (auto simp: link_before_def set_prev_def set_next_def relink_def ins_list_def list_rep_def upd_def intro!: ext)
qed

lemma listnode_add_after_null:
  assumes "list_rep h l ns" "fresh_node calloc h l ns val"
  shows "listnode_add_after calloc h l NULL val =
    Some (relink [] (new_node calloc h l val) ns (new_data h l val) h, ins_list [] (new_node calloc h l val) ns l,
          new_node calloc h l val)"
proof (cases ns)
  case Nil
  then show ?thesis using fresh_node_props [OF assms] assms
    by (simp add: listnode_add_after_def set_next_def set_prev_def relink_def ins_list_def list_rep_def)
next
  case (Cons x xs)
  then show ?thesis using fresh_node_props [OF assms] assms
    by (auto simp: listnode_add_after_def set_prev_def set_next_def relink_def ins_list_def list_rep_def upd_def intro!: ext)
qed

lemma listnode_add_after_relink:
  assumes "list_rep h l (xs @ x # ys)" "fresh_node calloc h l (xs @ x # ys) val"
  shows "listnode_add_after calloc h l x val =
    Some (relink (xs @ [x]) (new_node calloc h l val) ys (new_data h l val) h,
          ins_list (xs @ [x]) (new_node calloc h l val) ys l, new_node calloc h l val)"
proof (cases ys)
  case Nil
  then show ?thesis using fresh_node_props [OF assms] assms
    by (auto simp: listnode_add_after_def set_next_def set_prev_def relink_def ins_list_def list_rep_def upd_def intro!: ext)
next
  case (Cons y zs)
  then show ?thesis using fresh_node_props [OF assms] assms
    by (auto simp: listnode_add_after_def set_prev_def set_next_def relink_def ins_list_def list_rep_def upd_def intro!: ext)
qed

lemma listnode_add_before_null:
  assumes "list_rep h l ns" "fresh_node calloc h l ns val"
  shows "listnode_add_before calloc h l NULL val =
    Some (relink ns (new_node calloc h l val) [] (new_data h l val) h, ins_list ns (new_node calloc h l val) [] l,
          new_node calloc h l val)"
proof (cases ns rule: rev_cases)
  case Nil
  then show ?thesis using fresh_node_props [OF assms] assms
    by (simp add: listnode_add_before_def set_next_def set_prev_def relink_def ins_list_def list_rep_def)
next
  case (snoc xs x)
  then show ?thesis using fresh_node_props [OF assms] assms
    by (auto simp: listnode_add_before_def set_prev_def set_next_def relink_def ins_list_def list_rep_def upd_def intro!: ext)
qed

lemma listnode_add_before_relink:
  assumes "list_rep h l (xs @ x # ys)" "fresh_node calloc h l (xs @ x # ys) val"
  shows "listnode_add_before calloc h l x val =
    Some (relink xs (new_node calloc h l val) (x # ys) (new_data h l val) h,
          ins_list xs (new_node calloc h l val) (x # ys) l, new_node calloc h l val)"
proof (cases xs rule: rev_cases)
  case Nil
  then show ?thesis using fresh_node_props [OF assms] assms
    by (auto simp: listnode_add_before_def set_next_def set_prev_def relink_def ins_list_def list_rep_def upd_def intro!: ext)
next
  case (snoc zs z)
  then show ?thesis using fresh_node_props [OF assms] assms
    by (auto simp: listnode_add_before_def set_prev_def set_next_def relink_def ins_list_def list_rep_def upd_def intro!: ext)
qed

section \<open>Removals\<close>

lemma LISTNODE_DETACH_unlink:
  assumes "list_rep h l (xs @ n # ys)"
  shows "LISTNODE_DETACH h l n = Some (unlink xs ys h, del_list xs ys l)"
  using assms
  by (cases xs rule: rev_cases; cases ys)
    (auto simp: LISTNODE_DETACH_def set_prev_def set_next_def unlink_def del_list_def list_rep_def upd_def intro!: ext)

lemma list_delete_node_detach:
  "list_delete_node h l n =
     do { (h, l) \<leftarrow> LISTNODE_DETACH h l n; h \<leftarrow> listnode_free h l n; Some (h, l) }"
  by (cases "h n") (auto simp: list_delete_node_def LISTNODE_DETACH_def Let_def split: bind_splits)

lemma by_app_simps [simp]:
  "by_app (ins_list xs n ys l) = by_app l" "by_app (del_list xs ys l) = by_app l" "\<not> by_app list_new"
  "by_app (l\<lparr>l_cmp := c\<rparr>) = by_app l" "by_app (l\<lparr>l_del := d\<rparr>) = by_app l"
  by (simp_all add: by_app_def ins_list_def del_list_def list_new_def)

lemma list_delete_node_unlink:
  assumes "list_rep h l (xs @ n # ys)"
  shows "list_delete_node h l n =
    Some (if by_app l then unlink xs ys h else (unlink xs ys h)(n := None), del_list xs ys l)"
proof -
  have "unlink xs ys h n = h n" "h n \<noteq> None"
    using assms unlink_frame [of n xs ys h] unfolding list_rep_def by auto
  then show ?thesis
    by (auto simp: list_delete_node_detach LISTNODE_DETACH_unlink [OF assms] listnode_free_def mem_free_def)
qed

lemma listnode_move_to_tail_rep:
  assumes "list_rep h l (xs @ n # ys)"
  shows "\<exists>h' l'. listnode_move_to_tail h l n = Some (h', l') \<and> list_rep h' l' (xs @ ys @ [n]) \<and>
    list_vals h' (xs @ ys @ [n]) = list_vals h (xs @ ys @ [n]) \<and>
    (\<forall>m. m \<noteq> NULL \<longrightarrow> m \<notin> set (xs @ n # ys) \<longrightarrow> h' m = h m)"
proof -
  let ?h = "unlink xs ys h"
  let ?l = "del_list xs ys l"
  have r: "list_rep ?h ?l (xs @ ys)" by (rule list_rep_unlink(2) [OF assms])
  have n: "n \<notin> set (xs @ ys)" "n \<noteq> NULL" using assms by (auto simp: list_rep_def)
  have e: "?h n = h n" using n by (intro unlink_frame) auto
  then obtain nd where nd: "?h n = Some nd" using assms by (auto simp: list_rep_def)
  have d: "ln_data nd = node_data h n" using nd e by (simp add: node_data_def)
  have a: "listnode_move_to_tail h l n = Some (relink (xs @ ys) n [] (ln_data nd) ?h, ins_list (xs @ ys) n [] ?l)"
    using LISTNODE_ATTACH_relink [OF r n, of ?h nd] nd by (simp add: listnode_move_to_tail_def LISTNODE_DETACH_unlink [OF assms])
  have "list_vals ?h (xs @ ys) = list_vals h (xs @ ys)"
    using node_data_unlink [OF assms] by (simp add: list_vals_def)
  then have v: "list_vals (relink (xs @ ys) n [] (ln_data nd) ?h) ((xs @ ys) @ [n]) = list_vals h (xs @ ys @ [n])"
    using list_vals_relink [of ?h ?l "xs @ ys" "[]" n "ln_data nd"] r n d by (simp add: list_vals_def)
  have f: "relink (xs @ ys) n [] (ln_data nd) ?h m = h m" if "m \<noteq> NULL" "m \<notin> set (xs @ n # ys)" for m
    using that relink_frame [of m "xs @ ys" n "[]" "ln_data nd" ?h] unlink_frame [of m xs ys h] by auto
  show ?thesis using a v f list_rep_relink [of ?h ?l "xs @ ys" "[]" n "ln_data nd"] r n by auto
qed

section \<open>Loops over a list\<close>

lemma dseg_Cons_next: "dseg h p (n # ns) NULL \<Longrightarrow> \<exists>nd. h n = Some nd \<and> ln_next nd = hd0 ns NULL \<and> ln_data nd = node_data h n"
  by (auto simp: node_data_def)

lemma sort_scan_dropWhile:
  assumes "dseg h p ns NULL" "NULL \<notin> set ns"
  shows "sort_scan h cmp v (hd0 ns NULL) = Some (hd0 (dropWhile (\<lambda>n. \<not> cmp v (node_data h n) < 0) ns) NULL)"
  using assms
proof (induction ns arbitrary: p)
  case (Cons n ns)
  then show ?case using dseg_Cons_next [OF Cons.prems(1)] by (subst sort_scan.simps) auto
qed (simp add: sort_scan.simps)

lemma nodup_scan_dropWhile:
  assumes "dseg h p ns NULL" "NULL \<notin> set ns"
  shows "nodup_scan h cmp v (hd0 ns NULL) =
    (case dropWhile (\<lambda>n. cmp v (node_data h n) > 0) ns of [] \<Rightarrow> Some (NULL, False)
     | n # _ \<Rightarrow> Some (n, cmp v (node_data h n) = 0))"
  using assms
proof (induction ns arbitrary: p)
  case (Cons n ns)
  then show ?case using dseg_Cons_next [OF Cons.prems(1)] by (subst nodup_scan.simps) auto
qed (simp add: nodup_scan.simps)

lemma lookup_loop_dropWhile:
  assumes "dseg h p ns NULL" "NULL \<notin> set ns" "NULL \<notin> set (list_vals h ns)"
  shows "lookup_loop h (Some cmp) v (hd0 ns NULL) =
    Some (hd0 (dropWhile (\<lambda>n. \<not> (cmp v (node_data h n) = 0 \<or> v = node_data h n)) ns) NULL)"
  using assms
proof (induction ns arbitrary: p)
  case (Cons n ns)
  then show ?case using dseg_Cons_next [OF Cons.prems(1)]
    by (subst lookup_loop.simps) (auto simp: listgetdata_def list_vals_def)
qed (simp add: lookup_loop.simps)

lemma lookup_loop_no_cmp:
  assumes "dseg h p ns NULL" "NULL \<notin> set ns"
  shows "lookup_loop h None v (hd0 ns NULL) = Some NULL"
  using assms
proof (induction ns arbitrary: p)
  case (Cons n ns)
  then show ?case using dseg_Cons_next [OF Cons.prems(1)] by (subst lookup_loop.simps) auto
qed (simp add: lookup_loop.simps)

lemma delete_all_loop_restrict:
  assumes "dseg h p ns NULL" "NULL \<notin> set ns" "distinct ns"
  shows "delete_all_loop h l (hd0 ns NULL) =
    Some (if by_app l then h else h |` (- set ns), if l_del l then list_vals h ns else [])"
  using assms
proof (induction ns arbitrary: h p)
  case Nil
  then show ?case by (auto simp: delete_all_loop.simps list_vals_def restrict_map_def)
next
  case (Cons n ns)
  obtain nd where nd: "h n = Some nd" "ln_next nd = hd0 ns NULL" "ln_data nd = node_data h n"
    using dseg_Cons_next [OF Cons.prems(1)] by blast
  let ?h = "if by_app l then h else h(n := None)"
  have "dseg ?h n ns NULL = dseg h n ns NULL" using Cons.prems by (intro dseg_frame) auto
  then have "delete_all_loop ?h l (hd0 ns NULL) =
      Some (if by_app l then ?h else ?h |` (- set ns), if l_del l then list_vals ?h ns else [])"
    using Cons by auto
  moreover have "list_vals ?h ns = list_vals h ns" using Cons.prems by (auto simp: list_vals_def node_data_def)
  moreover have "(h(n := None)) |` (- set ns) = h |` (- set (n # ns))" by (auto simp: restrict_map_def)
  ultimately show ?case using nd Cons.prems
    by (subst delete_all_loop.simps) (auto simp: listnode_free_def mem_free_def list_vals_def)
qed

lemma to_array_loop_copy:
  assumes "dseg h p ns NULL" "NULL \<notin> set ns" "NULL \<notin> set (list_vals h ns)"
    and "idx < arrlen" "idx + length ns \<le> length arr \<or> arrlen \<le> length arr"
  shows "to_array_loop h arr idx arrlen (hd0 ns NULL) =
    Some (take idx arr @ take (arrlen - idx) (list_vals h ns) @ drop (idx + min (arrlen - idx) (length ns)) arr)"
  using assms
proof (induction ns arbitrary: p arr idx)
  case (Cons n ns)
  obtain nd where nd: "h n = Some nd" "ln_next nd = hd0 ns NULL" "ln_data nd = node_data h n"
    using dseg_Cons_next [OF Cons.prems(1)] by blast
  have i: "idx < length arr" using Cons.prems by auto
  show ?case
  proof (cases "Suc idx = arrlen")
    case True
    then show ?thesis using Cons.prems nd i
      by (subst to_array_loop.simps) (auto simp: listgetdata_def list_vals_def mem_write_def upd_conv_take_nth_drop)
  next
    case False
    then have "to_array_loop h (arr[idx := node_data h n]) (Suc idx) arrlen (hd0 ns NULL) =
      Some (take (Suc idx) (arr[idx := node_data h n]) @ take (arrlen - Suc idx) (list_vals h ns) @
            drop (Suc idx + min (arrlen - Suc idx) (length ns)) (arr[idx := node_data h n]))"
      using Cons.prems by (intro Cons.IH [of n]) (auto simp: list_vals_def)
    moreover have "arrlen - idx = Suc (arrlen - Suc idx)" using Cons.prems by simp
    ultimately show ?thesis using Cons.prems nd i False
      by (subst to_array_loop.simps) (simp add: listgetdata_def list_vals_def mem_write_def take_Suc_conv_app_nth)
  qed
qed (simp add: to_array_loop.simps list_vals_def)

text \<open>What the callback of \<open>list_scan\<close> sees: the data in order, up to its first refusal.\<close>

fun scan_list :: "('a \<Rightarrow> 'u \<Rightarrow> bool \<times> 'u) \<Rightarrow> 'a list \<Rightarrow> 'u \<Rightarrow> bool \<times> 'u" where
  "scan_list iter [] u = (True, u)"
| "scan_list iter (v # vs) u = (case iter v u of (go, u) \<Rightarrow> if go then scan_list iter vs u else (False, u))"

lemma scan_loop_list:
  assumes "dseg h p ns NULL" "NULL \<notin> set ns" "NULL \<notin> set (list_vals h ns)"
  shows "scan_loop h iter (hd0 ns NULL) u = Some (scan_list iter (list_vals h ns) u)"
  using assms
proof (induction ns arbitrary: p u)
  case (Cons n ns)
  then show ?case using dseg_Cons_next [OF Cons.prems(1)]
    by (subst scan_loop.simps) (auto simp: listgetdata_def list_vals_def split: prod.splits)
qed (simp add: scan_loop.simps list_vals_def)

section \<open>Sorted insertion\<close>

text \<open>What every insertion promises: the nodes and the data afterwards, and the rest of the heap.\<close>

definition inserted :: "heap \<Rightarrow> heap \<Rightarrow> llist \<Rightarrow> ptr list \<Rightarrow> ptr \<Rightarrow> ptr list \<Rightarrow> ptr \<Rightarrow> bool" where
  "inserted h h' l' xs n ys d \<longleftrightarrow> list_rep h' l' (xs @ n # ys) \<and>
     list_vals h' (xs @ n # ys) = list_vals h xs @ d # list_vals h ys \<and>
     (\<forall>m. m \<noteq> NULL \<longrightarrow> m \<notin> set (xs @ n # ys) \<longrightarrow> h' m = h m)"

lemma relink_inserted:
  assumes "list_rep h l (xs @ ys)" "fresh_node calloc h l (xs @ ys) val"
  shows "inserted h (relink xs (new_node calloc h l val) ys (new_data h l val) h)
    (ins_list xs (new_node calloc h l val) ys l) xs (new_node calloc h l val) ys (new_data h l val)"
  unfolding inserted_def
  using list_rep_relink [OF assms(1) fresh_node_props(1,2) [OF assms]]
    list_vals_relink [OF assms(1) fresh_node_props(1) [OF assms]] relink_frame by blast

lemma list_vals_cong: "(\<And>n. n \<in> set ns \<Longrightarrow> h' n = h n) \<Longrightarrow> list_vals h' ns = list_vals h ns"
  by (simp add: list_vals_def node_data_def)

lemma list_rep_nonnull: "list_rep h l ns \<Longrightarrow> n \<in> set ns \<Longrightarrow> n \<noteq> NULL"
  by (cases n) (auto simp: list_rep_def)

lemma list_rep_new:
  assumes "list_rep h l ns" "n \<notin> set ns"
  shows "list_rep (h(n \<mapsto> nd)) l ns"
proof -
  have "dseg (h(n \<mapsto> nd)) NULL ns NULL = dseg h NULL ns NULL" using assms(2) by (intro dseg_frame) auto
  then show ?thesis using assms by (simp add: list_rep_def)
qed

lemma sort_scan_rep:
  assumes "list_rep h l ns" "n \<notin> set ns"
  shows "sort_scan (h(n \<mapsto> nd)) cmp v (l_head l) =
    Some (hd0 (dropWhile (\<lambda>m. \<not> cmp v (node_data h m) < 0) ns) NULL)"
proof -
  have "list_rep (h(n \<mapsto> nd)) l ns" using assms by (rule list_rep_new)
  then have "sort_scan (h(n \<mapsto> nd)) cmp v (l_head l) =
      Some (hd0 (dropWhile (\<lambda>m. \<not> cmp v (node_data (h(n \<mapsto> nd)) m) < 0) ns) NULL)"
    using sort_scan_dropWhile [of "h(n \<mapsto> nd)" NULL ns] unfolding list_rep_def by simp
  moreover have "dropWhile (\<lambda>m. \<not> cmp v (node_data (h(n \<mapsto> nd)) m) < 0) ns = dropWhile (\<lambda>m. \<not> cmp v (node_data h m) < 0) ns"
    using assms(2) by (intro dropWhile_cong) (auto simp: node_data_def)
  ultimately show ?thesis by simp
qed

lemma takeWhile_vals: "list_vals h (takeWhile (\<lambda>n. P (node_data h n)) ns) = takeWhile P (list_vals h ns)"
  by (simp add: list_vals_def takeWhile_map comp_def)

lemma dropWhile_vals: "list_vals h (dropWhile (\<lambda>n. P (node_data h n)) ns) = dropWhile P (list_vals h ns)"
  by (simp add: list_vals_def dropWhile_map comp_def)

lemma listnode_add_sort_inserted:
  assumes r: "list_rep h l ns" and f: "fresh_node calloc h l ns val" and c: "l_cmp l = Some cmp"
  defines "P \<equiv> \<lambda>m. \<not> cmp (new_data h l val) (node_data h m) < 0"
  shows "\<exists>h' l'. listnode_add_sort calloc h l val = Some (h', l') \<and>
    inserted h h' l' (takeWhile P ns) (new_node calloc h l val) (dropWhile P ns) (new_data h l val)"
proof -
  let ?n = "new_node calloc h l val" and ?d = "new_data h l val"
  let ?h = "h(?n \<mapsto> \<lparr>ln_next = NULL, ln_prev = NULL, ln_data = ?d\<rparr>)"
  note p = fresh_node_props [OF r f]
  have ns: "list_rep h l (takeWhile P ns @ dropWhile P ns)" "fresh_node calloc h l (takeWhile P ns @ dropWhile P ns) val"
    using r f by simp_all
  have s: "sort_scan ?h cmp ?d (l_head l) = Some (hd0 (dropWhile P ns) NULL)"
    unfolding P_def using sort_scan_rep [OF r p(1)] by simp
  have "listnode_add_sort calloc h l val =
    Some (relink (takeWhile P ns) ?n (dropWhile P ns) ?d h, ins_list (takeWhile P ns) ?n (dropWhile P ns) l)"
  proof (cases "dropWhile P ns")
    case Nil
    then have t: "takeWhile P ns = ns" by (metis append_Nil2 takeWhile_dropWhile_id)
    have "ns = [] \<longleftrightarrow> l_tail l = NULL" "ns = [] \<longleftrightarrow> l_head l = NULL" using r by (auto simp: list_rep_def)
    then have "listnode_add_sort calloc h l val = map_option (\<lambda>(h, l, n). (h, l)) (listnode_add calloc h l val)"
      using p s Nil c by (auto simp: listnode_add_sort_def listnode_add_def split: bind_splits)
    then show ?thesis unfolding Nil t by (simp add: listnode_add_relink [OF r f])
  next
    case (Cons x ys)
    then have "x \<in> set ns" by (metis list.set_intros(1) set_dropWhileD)
    then have x: "x \<noteq> NULL" by (rule list_rep_nonnull [OF r])
    have e: "takeWhile P ns @ x # ys = ns" using Cons by (metis takeWhile_dropWhile_id)
    have "list_rep h l (takeWhile P ns @ x # ys)" "?n \<notin> set (takeWhile P ns @ x # ys)"
      unfolding e using r p(1) by simp_all
    then have "link_before ?h l ?n x = Some (relink (takeWhile P ns) ?n (x # ys) ?d h, ins_list (takeWhile P ns) ?n (x # ys) l)"
      using link_before_relink p(2) by blast
    then show ?thesis using p s c x unfolding Cons by (simp add: listnode_add_sort_def)
  qed
  then show ?thesis using relink_inserted [OF ns] by blast
qed

lemma nodup_scan_rep:
  assumes "list_rep h l ns"
  shows "nodup_scan h cmp v (l_head l) =
    (case dropWhile (\<lambda>n. cmp v (node_data h n) > 0) ns of [] \<Rightarrow> Some (NULL, False)
     | n # _ \<Rightarrow> Some (n, cmp v (node_data h n) = 0))"
  using assms nodup_scan_dropWhile [of h NULL ns] unfolding list_rep_def by simp

lemma nodup_data:
  "fresh_node calloc h l ns val \<Longrightarrow>
   (if by_app l then do { nd \<leftarrow> h val; Some (ln_data nd) } else Some val) = Some (new_data h l val)"
  by (auto simp: fresh_node_def new_data_def node_data_def)

lemma listnode_add_sort_nodup_found:
  assumes "list_rep h l ns" "fresh_node calloc h l ns val" "l_cmp l = Some cmp"
    and "dropWhile (\<lambda>n. cmp (new_data h l val) (node_data h n) > 0) ns = m # ms"
    and "cmp (new_data h l val) (node_data h m) = 0"
  shows "listnode_add_sort_nodup calloc h l val = Some (h, l, False)"
  using assms fresh_node_props(3) [OF assms(1,2)] nodup_data [OF assms(2)]
  by (simp add: listnode_add_sort_nodup_def nodup_scan_rep)

lemma listnode_add_sort_nodup_inserted:
  assumes r: "list_rep h l ns" and f: "fresh_node calloc h l ns val" and c: "l_cmp l = Some cmp"
  defines "P \<equiv> \<lambda>m. cmp (new_data h l val) (node_data h m) > 0"
  assumes nf: "\<And>m ms. dropWhile P ns = m # ms \<Longrightarrow> cmp (new_data h l val) (node_data h m) \<noteq> 0"
  shows "\<exists>h' l'. listnode_add_sort_nodup calloc h l val = Some (h', l', True) \<and>
    inserted h h' l' (takeWhile P ns) (new_node calloc h l val) (dropWhile P ns) (new_data h l val)"
proof -
  let ?n = "new_node calloc h l val" and ?d = "new_data h l val"
  let ?h = "h(?n \<mapsto> \<lparr>ln_next = NULL, ln_prev = NULL, ln_data = ?d\<rparr>)"
  note p = fresh_node_props [OF r f]
  have ns: "list_rep h l (takeWhile P ns @ dropWhile P ns)" "fresh_node calloc h l (takeWhile P ns @ dropWhile P ns) val"
    using r f by simp_all
  have s: "nodup_scan h cmp ?d (l_head l) = Some (hd0 (dropWhile P ns) NULL, False)"
    unfolding nodup_scan_rep [OF r] P_def [symmetric] using nf by (cases "dropWhile P ns") (simp_all only: list.case hd0_simps simp_thms)
  have "listnode_add_sort_nodup calloc h l val =
    Some (relink (takeWhile P ns) ?n (dropWhile P ns) ?d h, ins_list (takeWhile P ns) ?n (dropWhile P ns) l, True)"
  proof (cases "dropWhile P ns")
    case Nil
    then have t: "takeWhile P ns = ns" by (metis append_Nil2 takeWhile_dropWhile_id)
    have "LISTNODE_ATTACH ?h l ?n = Some (relink ns ?n [] ?d h, ins_list ns ?n [] l)"
      using LISTNODE_ATTACH_relink [OF r p(1,2), of ?h] by simp
    then show ?thesis using p s c nodup_data [OF f] unfolding Nil t by (simp add: listnode_add_sort_nodup_def)
  next
    case (Cons x ys)
    then have "x \<in> set ns" by (metis list.set_intros(1) set_dropWhileD)
    then have x: "x \<noteq> NULL" by (rule list_rep_nonnull [OF r])
    have e: "takeWhile P ns @ x # ys = ns" using Cons by (metis takeWhile_dropWhile_id)
    have "list_rep h l (takeWhile P ns @ x # ys)" "?n \<notin> set (takeWhile P ns @ x # ys)"
      unfolding e using r p(1) by simp_all
    then have "link_before ?h l ?n x = Some (relink (takeWhile P ns) ?n (x # ys) ?d h, ins_list (takeWhile P ns) ?n (x # ys) l)"
      using link_before_relink p(2) by blast
    then show ?thesis using p s c x nodup_data [OF f] unfolding Cons by (simp add: listnode_add_sort_nodup_def)
  qed
  then show ?thesis using relink_inserted [OF ns] by blast
qed

section \<open>Copying and sorting\<close>

text \<open>An allocator that does not run out of memory and never returns memory in use.\<close>

definition calloc_ok :: "(heap \<Rightarrow> ptr) \<Rightarrow> bool" where
  "calloc_ok calloc \<longleftrightarrow> (\<forall>h. finite (dom h) \<longrightarrow> calloc h \<noteq> NULL \<and> calloc h \<notin> dom h)"

lemma calloc_ok_fresh:
  "calloc_ok calloc \<Longrightarrow> finite (dom h) \<Longrightarrow> val \<noteq> NULL \<Longrightarrow> \<not> by_app l \<Longrightarrow> fresh_node calloc h l ns val"
  by (simp add: calloc_ok_def fresh_node_def)

lemma dom_relink: "dom (relink xs n ys d h) = insert n (dom h)"
  by (auto simp: relink_def dom_def upd_def)

lemma finite_relink: "finite (dom h) \<Longrightarrow> finite (dom (relink xs n ys d h))"
proof -
  have "dom (upd p f h) = dom h" for p f h by (auto simp: dom_def upd_def)
  then show "finite (dom h) \<Longrightarrow> finite (dom (relink xs n ys d h))" by (simp add: relink_def)
qed

text \<open>One \<open>listnode_add\<close> on memory of its own.\<close>

lemma listnode_add_step:
  assumes "list_rep h l ns" "calloc_ok calloc" "finite (dom h)" "val \<noteq> NULL" "\<not> by_app l"
  obtains h' l' n where "listnode_add calloc h l val = Some (h', l', n)" "list_rep h' l' (ns @ [n])"
    "list_vals h' (ns @ [n]) = list_vals h ns @ [val]" "finite (dom h')" "\<not> by_app l'" "n \<notin> dom h"
    "\<forall>m \<in> dom h. m \<notin> set ns \<longrightarrow> m \<noteq> NULL \<longrightarrow> h' m = h m" "dom h \<subseteq> dom h'"
proof -
  let ?n = "calloc h"
  have f: "fresh_node calloc h l ns val" using assms by (intro calloc_ok_fresh)
  have n: "new_node calloc h l val = ?n" "new_data h l val = val" "?n \<notin> dom h"
    using assms by (auto simp: new_node_def new_data_def calloc_ok_def)
  have i: "inserted h (relink ns ?n [] val h) (ins_list ns ?n [] l) ns ?n [] val"
    using relink_inserted [of h l ns "[]" calloc val] assms f n by simp
  show thesis
    by (rule that [of "relink ns ?n [] val h" "ins_list ns ?n [] l" ?n])
      (use listnode_add_relink [OF assms(1) f] i n assms in \<open>auto simp: inserted_def finite_relink list_vals_def dom_relink\<close>)
qed

lemma sort_add_rep:
  assumes "list_rep h l ns" "calloc_ok calloc" "finite (dom h)" "NULL \<notin> set vs" "\<not> by_app l"
  shows "\<exists>h' l' ns'. sort_add calloc h l vs = Some (h', l') \<and> list_rep h' l' (ns @ ns') \<and>
    list_vals h' (ns @ ns') = list_vals h ns @ vs \<and> set ns' \<inter> dom h = {} \<and>
    (\<forall>m \<in> dom h. m \<notin> set ns \<longrightarrow> m \<noteq> NULL \<longrightarrow> h' m = h m)"
  using assms
proof (induction vs arbitrary: h l ns)
  case Nil
  then show ?case by (intro exI [of _ h] exI [of _ l] exI [of _ "[]"]) simp
next
  case (Cons v vs)
  have v: "v \<noteq> NULL" using Cons.prems(4) by auto
  obtain h1 l1 n where s: "listnode_add calloc h l v = Some (h1, l1, n)" "list_rep h1 l1 (ns @ [n])"
    "list_vals h1 (ns @ [n]) = list_vals h ns @ [v]" "finite (dom h1)" "\<not> by_app l1" "n \<notin> dom h"
    "\<forall>m \<in> dom h. m \<notin> set ns \<longrightarrow> m \<noteq> NULL \<longrightarrow> h1 m = h m" "dom h \<subseteq> dom h1"
    by (rule listnode_add_step [OF Cons.prems(1-3) v Cons.prems(5)]) blast
  have "NULL \<notin> set vs" using Cons.prems by simp
  from Cons.IH [OF s(2) Cons.prems(2) s(4) this s(5)]
  obtain h' l' ns' where r: "sort_add calloc h1 l1 vs = Some (h', l')" "list_rep h' l' ((ns @ [n]) @ ns')"
    "list_vals h' ((ns @ [n]) @ ns') = list_vals h1 (ns @ [n]) @ vs" "set ns' \<inter> dom h1 = {}"
    "\<forall>m \<in> dom h1. m \<notin> set (ns @ [n]) \<longrightarrow> m \<noteq> NULL \<longrightarrow> h' m = h1 m" by blast
  have "h' m = h m" if "m \<in> dom h" "m \<notin> set ns" "m \<noteq> NULL" for m
  proof -
    have "m \<noteq> n" "m \<in> dom h1" using that(1) s(6,8) by blast+
    then have "h' m = h1 m" using r(5) that(2,3) by simp
    then show ?thesis using s(7) that by simp
  qed
  moreover have "set (n # ns') \<inter> dom h = {}" 
  proof -
    have "set ns' \<inter> dom h = {}" using r(4) s(8) by blast
    then show ?thesis using s(6) by simp
  qed
  ultimately show ?case using s(1,3) r(1-3)
    by (intro exI [of _ h'] exI [of _ l'] exI [of _ "n # ns'"]) auto
qed

lemma list_dup_loop_rep:
  assumes "dseg h p ns NULL" "NULL \<notin> set ns" "NULL \<notin> set (list_vals h ns)"
    and "list_rep h dup ds" "set ns \<inter> set ds = {}" "calloc_ok calloc" "finite (dom h)" "\<not> by_app dup"
  shows "\<exists>h' dup'. list_dup_loop calloc h dup (hd0 ns NULL) = Some (h', dup') \<and>
    sort_add calloc h dup (list_vals h ns) = Some (h', dup')"
  using assms
proof (induction ns arbitrary: p h dup ds)
  case Nil
  then show ?case by (simp add: list_dup_loop.simps list_vals_def)
next
  case (Cons n ns)
  obtain nd where nd: "h n = Some nd" "ln_next nd = hd0 ns NULL" "ln_data nd = node_data h n"
    using dseg_Cons_next [OF Cons.prems(1)] by blast
  have v: "node_data h n \<noteq> NULL" using Cons.prems(3) by (metis list.set_intros(1) list.simps(9) list_vals_def)
  obtain h1 d1 x where s: "listnode_add calloc h dup (node_data h n) = Some (h1, d1, x)" "list_rep h1 d1 (ds @ [x])"
    "finite (dom h1)" "\<not> by_app d1" "x \<notin> dom h"
    "\<forall>m \<in> dom h. m \<notin> set ds \<longrightarrow> m \<noteq> NULL \<longrightarrow> h1 m = h m"
    by (rule listnode_add_step [OF Cons.prems(4,6,7) v Cons.prems(8)]) blast
  have dom: "m \<in> dom h" if "m \<in> set (n # ns)" for m using dseg_dom [OF Cons.prems(1) that] by auto
  have nz: "m \<noteq> NULL" if "m \<in> set (n # ns)" for m using Cons.prems(2) that by metis
  have eq: "h1 m = h m" if "m \<in> set (n # ns)" for m
    using s(6) dom [OF that] nz [OF that] that Cons.prems(5) by blast
  have vals: "list_vals h1 ns = list_vals h ns" using eq by (intro list_vals_cong) auto
  have "dseg h1 n ns NULL" using dseg_frame [of ns h1 h n NULL] eq Cons.prems(1) by simp
  moreover have "set ns \<inter> set (ds @ [x]) = {}" using Cons.prems(5) dom s(5) by auto
  moreover have "NULL \<notin> set ns" "NULL \<notin> set (list_vals h1 ns)"
    using Cons.prems(2,3) unfolding vals by (simp_all add: list_vals_def)
  ultimately have "\<exists>h' dup'. list_dup_loop calloc h1 d1 (hd0 ns NULL) = Some (h', dup') \<and>
      sort_add calloc h1 d1 (list_vals h1 ns) = Some (h', dup')"
    using s(2-4) Cons.prems(6) by (intro Cons.IH)
  moreover have "h1 n = Some nd" using eq nd by simp
  moreover have "list_vals h (n # ns) = node_data h n # list_vals h1 ns" by (simp add: vals) (simp add: list_vals_def)
  ultimately show ?case using s(1) nd v Cons.prems(2)
    by (subst list_dup_loop.simps) (simp add: listgetdata_def)
qed

lemma list_rep_empty: "l_head l = NULL \<Longrightarrow> l_tail l = NULL \<Longrightarrow> l_count l = 0 \<Longrightarrow> list_rep h l []"
  by (simp add: list_rep_def)

lemma list_dup_rep:
  assumes "list_rep h l ns" "NULL \<notin> set (list_vals h ns)" "calloc_ok calloc" "finite (dom h)"
  shows "\<exists>h' l' ns'. list_dup calloc h l = Some (h', l') \<and> list_rep h' l' ns' \<and> list_vals h' ns' = list_vals h ns \<and>
    set ns' \<inter> dom h = {} \<and> list_rep h' l ns \<and> list_vals h' ns = list_vals h ns \<and>
    (\<forall>m \<in> dom h. m \<noteq> NULL \<longrightarrow> h' m = h m)"
proof -
  let ?d = "list_new\<lparr>l_cmp := l_cmp l, l_del := l_del l\<rparr>"
  have e: "list_rep h ?d []" by (intro list_rep_empty) (simp_all add: list_new_def)
  have r: "dseg h NULL ns NULL" "NULL \<notin> set ns" "l_head l = hd0 ns NULL" using assms(1) by (simp_all add: list_rep_def)
  obtain h' l' where d: "list_dup calloc h l = Some (h', l')" "sort_add calloc h ?d (list_vals h ns) = Some (h', l')"
    using list_dup_loop_rep [OF r(1,2) assms(2) e _ assms(3,4)] r(3) by (auto simp: list_dup_def)
  obtain ns' where n: "list_rep h' l' ns'" "list_vals h' ns' = list_vals h ns" "set ns' \<inter> dom h = {}"
    "\<forall>m \<in> dom h. m \<noteq> NULL \<longrightarrow> h' m = h m"
    using sort_add_rep [OF e assms(3,4,2)] d(2) by (auto simp: list_vals_def)
  have eq: "h' m = h m" if "m \<in> set ns" for m
    using n(4) dseg_dom [OF r(1) that] list_rep_nonnull [OF assms(1) that] by blast
  have "list_rep h' l ns" using assms(1) dseg_frame [of ns h' h NULL NULL] eq by (simp add: list_rep_def)
  moreover have "list_vals h' ns = list_vals h ns" using eq by (intro list_vals_cong)
  ultimately show ?thesis using d n by blast
qed

lemma sort_take_rep:
  assumes "list_rep h l ns" "NULL \<notin> set (list_vals h ns)" "length items + length ns \<le> n" "\<not> by_app l"
  shows "\<exists>l'. sort_take h l n (hd0 ns NULL) items = Some (h |` (- set ns), l', items @ list_vals h ns) \<and>
    list_rep (h |` (- set ns)) l' [] \<and> \<not> by_app l'"
  using assms
proof (induction ns arbitrary: h l items)
  case Nil
  have "h |` UNIV = h" by (auto simp: restrict_map_def)
  then show ?case using Nil by (simp add: sort_take.simps list_vals_def)
next
  case (Cons x ns)
  obtain nd where nd: "h x = Some nd" "ln_next nd = hd0 ns NULL" "ln_data nd = node_data h x"
    using dseg_Cons_next Cons.prems(1) unfolding list_rep_def by blast
  have r: "list_rep h l ([] @ x # ns)" using Cons.prems(1) by simp
  let ?h = "(unlink [] ns h)(x := None)"
  let ?l = "del_list [] ns l"
  have s: "list_delete_node h l x = Some (?h, ?l)" using list_delete_node_unlink [OF r] Cons.prems(4) by simp
  have r1: "list_rep ?h ?l ns" using list_rep_unlink(1) [OF r] by simp
  have v: "list_vals ?h ns = list_vals h ns" using list_vals_unlink [OF r] by simp
  have d: "node_data h x \<noteq> NULL" "NULL \<notin> set (list_vals h ns)"
    using Cons.prems(2) by (metis list.set_intros list.simps(9) list_vals_def)+
  have h: "?h |` (- set ns) = h |` (- set (x # ns))"
  proof
    fix m
    show "(?h |` (- set ns)) m = (h |` (- set (x # ns))) m"
    proof (cases "m \<in> set (x # ns)")
      case False
      then have "unlink [] ns h m = h m" by (cases ns) (auto simp: unlink_def)
      then show ?thesis using False by (simp add: restrict_map_def)
    qed (auto simp: restrict_map_def)
  qed
  have "\<exists>l'. sort_take ?h ?l n (hd0 ns NULL) (items @ [node_data h x]) =
      Some (?h |` (- set ns), l', (items @ [node_data h x]) @ list_vals ?h ns) \<and>
    list_rep (?h |` (- set ns)) l' [] \<and> \<not> by_app l'"
  proof (rule Cons.IH [OF r1])
    show "NULL \<notin> set (list_vals ?h ns)" unfolding v by (rule d(2))
  qed (use Cons.prems in simp_all)
  moreover have "list_vals h (x # ns) = node_data h x # list_vals h ns" by (simp add: list_vals_def)
  moreover have "x \<noteq> NULL" using list_rep_nonnull [OF Cons.prems(1)] by simp
  ultimately show ?case unfolding h v using s nd d Cons.prems(3)
    by (subst sort_take.simps) (simp add: listgetdata_def)
qed

lemma list_sort_rep:
  assumes "list_rep h l ns" "NULL \<notin> set (list_vals h ns)" "calloc_ok calloc" "finite (dom h)" "\<not> by_app l"
    and "length ns < 2 ^ 32" "\<And>xs. mset (qsort xs) = mset xs"
  shows "\<exists>h' l' ns'. list_sort qsort calloc h l = Some (h', l') \<and> list_rep h' l' ns' \<and>
    list_vals h' ns' = (if ns = [] then [] else qsort (list_vals h ns)) \<and> (\<forall>m \<in> dom h - set ns. m \<noteq> NULL \<longrightarrow> h' m = h m)"
proof (cases "ns = []")
  case True
  then show ?thesis using assms(1)
    by (intro exI [of _ h] exI [of _ l] exI [of _ "[]"]) (simp add: list_sort_def list_rep_def list_vals_def)
next
  case False
  have c: "unat (l_count l) = length ns" using assms(1,6) by (simp add: list_rep_def unat_of_nat)
  have hd: "l_head l = hd0 ns NULL" using assms(1) by (simp add: list_rep_def)
  obtain l1 where t: "sort_take h l (length ns) (hd0 ns NULL) [] = Some (h |` (- set ns), l1, list_vals h ns)"
    "list_rep (h |` (- set ns)) l1 []" "\<not> by_app l1"
    using sort_take_rep [OF assms(1,2), of "[]" "length ns"] assms(5) by auto
  have q: "NULL \<notin> set (qsort (list_vals h ns))" using assms(2,7) by (metis set_mset_mset)
  have f: "finite (dom (h |` (- set ns)))" using assms(4) by simp
  obtain h' l' ns' where s: "sort_add calloc (h |` (- set ns)) l1 (qsort (list_vals h ns)) = Some (h', l')"
    "list_rep h' l' ns'" "list_vals h' ns' = qsort (list_vals h ns)"
    "\<forall>m \<in> dom (h |` (- set ns)). m \<noteq> NULL \<longrightarrow> h' m = (h |` (- set ns)) m"
    using sort_add_rep [OF t(2) assms(3) f q t(3)] by (auto simp: list_vals_def)
  have "list_sort qsort calloc h l = Some (h', l')"
    using t(1) s(1) c hd False by (simp add: list_sort_def list_vals_def)
  moreover have "\<forall>m \<in> dom h - set ns. m \<noteq> NULL \<longrightarrow> h' m = h m" using s(4) by auto
  ultimately show ?thesis using s False by auto
qed

section \<open>Comparison functions\<close>

interpretation strcmp: comparison strcmp
  by unfold_locales (rule strcmp_anti, rule strcmp_trans)

interpretation compare_strs: comparison "compare_strs str" for str
  by unfold_locales (unfold compare_strs_def, rule strcmp_anti, rule strcmp_trans)

text \<open>Two different addresses 4 GiB apart compare as equal, and the order of two addresses 2 GiB
  apart is reversed.\<close>

lemma compare_ptrs_truncates:
  "compare_ptrs (\<lambda>p. p) (p + 2 ^ 32) p = 0" "compare_ptrs (\<lambda>p. p) (p + 2 ^ 31) p < 0"
  by (simp_all add: compare_ptrs_def to_int_def to_size_def)

end
