(* ===== verification/Buffer.thy ===== *)
theory Buffer
  imports YJC_Prelude
begin

text \<open>
  The output buffer of \<^verbatim>\<open>src/container/buffer.c\<close>: a list of chunks of a fixed size, each with the
  data between \<open>sp\<close> and \<open>cp\<close> still to be written. The chunk list is a HOL list (head first); a
  chunk fresh from \<open>malloc\<close> is shown as zeros, bytes outside of \<open>sp..cp\<close> are never read. The kernel
  is a parameter: a script with the outcome of each \<open>writev\<close> or \<open>write\<close> in turn.
\<close>

section \<open>Model\<close>

record buffer_data =
  d_cp :: nat
  d_sp :: nat
  d_data :: "u8 list"

record buffer =
  b_data :: "buffer_data list"
  b_size :: nat

definition BUFFER_SIZE_DEFAULT :: nat where "BUFFER_SIZE_DEFAULT = 4096"

datatype errno = EAGAIN | EWOULDBLOCK | EINTR | EOTHER

definition ERRNO_IO_RETRY :: "errno \<Rightarrow> bool" where
  "ERRNO_IO_RETRY en \<longleftrightarrow> en = EAGAIN \<or> en = EWOULDBLOCK \<or> en = EINTR"

datatype buffer_status_t = BUFFER_ERROR | BUFFER_EMPTY | BUFFER_PENDING

text \<open>The page size is what \<open>sysconf\<close> returns.\<close>

definition buffer_new :: "nat \<Rightarrow> nat \<Rightarrow> buffer" where
  "buffer_new pgsz n =
     \<lparr>b_data = [], b_size = (if n \<noteq> 0 then n else ((BUFFER_SIZE_DEFAULT - 1) div pgsz + 1) * pgsz)\<rparr>"

text \<open>\<open>memcpy (p, data->data + data->sp, data->cp - data->sp)\<close> for each chunk in turn.\<close>

definition chunk_bytes :: "buffer_data \<Rightarrow> u8 list option" where
  "chunk_bytes d = (if d_cp d \<le> length (d_data d) \<and> d_sp d \<le> d_cp d
     then Some (take (d_cp d - d_sp d) (drop (d_sp d) (d_data d))) else None)"

fun getstr_loop :: "buffer_data list \<Rightarrow> u8 list \<Rightarrow> u8 list option" where
  "getstr_loop [] s = Some s"
| "getstr_loop (d # ds) s = do { x \<leftarrow> chunk_bytes d; getstr_loop ds (s @ x) }"

definition buffer_getstr :: "buffer \<Rightarrow> u8 list option" where
  "buffer_getstr b = do {
     s \<leftarrow> getstr_loop (b_data b) [];
     (if length s = sum_list (map (\<lambda>d. d_cp d - d_sp d) (b_data b)) then Some (s @ [0]) else None) }"

definition buffer_reset :: "buffer \<Rightarrow> buffer" where
  "buffer_reset b = b\<lparr>b_data := []\<rparr>"

definition buffer_add :: "buffer \<Rightarrow> buffer" where
  "buffer_add b = b\<lparr>b_data := b_data b @ [\<lparr>d_cp = 0, d_sp = 0, d_data = replicate (b_size b) 0\<rparr>]\<rparr>"

text \<open>\<open>memcpy (data->data + data->cp, p, chunk); data->cp += chunk\<close> on the last chunk, and the test
  before it: the chunk to write to, a new one when the last is full.\<close>

definition tail_put :: "buffer \<Rightarrow> u8 list \<Rightarrow> nat \<Rightarrow> buffer option" where
  "tail_put b p n =
     (if b_data b = [] then None
      else do {
        let d = last (b_data b);
        x \<leftarrow> mem_copy (d_data d) (d_cp d) p 0 n;
        Some (b\<lparr>b_data := butlast (b_data b) @ [d\<lparr>d_data := x, d_cp := d_cp d + n\<rparr>]\<rparr>) })"

definition tail_room :: "buffer \<Rightarrow> buffer" where
  "tail_room b = (if b_data b = [] \<or> d_cp (last (b_data b)) = b_size b then buffer_add b else b)"

definition tail_avail :: "buffer \<Rightarrow> nat" where
  "tail_avail b = b_size b - d_cp (last (b_data b))"

partial_function (option) buffer_put :: "buffer \<Rightarrow> u8 list \<Rightarrow> nat \<Rightarrow> buffer option" where
  "buffer_put b p n =
     (if n = 0 then Some b
      else do {
        let b = tail_room b;
        let chunk = (if n \<le> tail_avail b then n else tail_avail b);
        b \<leftarrow> tail_put b p chunk;
        buffer_put b (drop chunk p) (n - chunk) })"

definition buffer_putc :: "buffer \<Rightarrow> u8 \<Rightarrow> buffer option" where
  "buffer_putc b c = buffer_put b [c] 1"

definition buffer_putstr :: "buffer \<Rightarrow> u8 list \<Rightarrow> buffer option" where
  "buffer_putstr b c = buffer_put b c (length c)"

abbreviation CR :: u8 where "CR \<equiv> 13"
abbreviation LF :: u8 where "LF \<equiv> 10"

text \<open>\<open>memchr (p, c, end - p)\<close>, as an offset from \<open>p\<close>.\<close>

fun memchr :: "u8 list \<Rightarrow> u8 \<Rightarrow> nat option" where
  "memchr [] c = None"
| "memchr (x # xs) c = (if x = c then Some 0 else map_option Suc (memchr xs c))"

text \<open>One byte after the other: \<open>if (data->cp == b->size) data = buffer_add (b); data->data[data->cp++] = c\<close>.\<close>

definition put_one :: "buffer \<Rightarrow> u8 \<Rightarrow> buffer option" where
  "put_one b c = tail_put (if d_cp (last (b_data b)) = b_size b then buffer_add b else b) [c] 1"

partial_function (option) put_crlf_loop :: "buffer \<Rightarrow> u8 list \<Rightarrow> nat option \<Rightarrow> buffer option" where
  "put_crlf_loop b p lf =
     (if p = [] then Some b
      else do {
        let b = tail_room b;
        let n = (case lf of Some k \<Rightarrow> k | None \<Rightarrow> length p);
        let avail = tail_avail b;
        let chunk = (if n \<le> avail then n else avail);
        b \<leftarrow> tail_put b p chunk;
        let p = drop chunk p;
        (if lf \<noteq> None \<and> n \<le> avail
         then do {
           b \<leftarrow> put_one b CR;
           b \<leftarrow> put_one b LF;
           put_crlf_loop b (drop 1 p) (memchr (drop 1 p) LF) }
         else put_crlf_loop b p (map_option (\<lambda>k. k - chunk) lf)) })"

definition buffer_put_crlf :: "buffer \<Rightarrow> u8 list \<Rightarrow> buffer option" where
  "buffer_put_crlf b p = put_crlf_loop b p (memchr p LF)"

text \<open>The outcome of a system call: the bytes accepted, or the error.\<close>

datatype outcome = Wrote nat | Failed errno

definition MAX_CHUNKS :: nat where "MAX_CHUNKS = 16"
definition MAX_FLUSH :: nat where "MAX_FLUSH = 131072"

fun gather_iov :: "buffer_data list \<Rightarrow> u8 list list \<Rightarrow> nat \<Rightarrow> (u8 list list \<times> nat) option" where
  "gather_iov [] iov nbyte = Some (iov, nbyte)"
| "gather_iov (d # ds) iov nbyte =
     (if length iov < MAX_CHUNKS \<and> nbyte < MAX_FLUSH
      then do { x \<leftarrow> chunk_bytes d; gather_iov ds (iov @ [x]) (nbyte + (d_cp d - d_sp d)) }
      else Some (iov, nbyte))"

text \<open>The loop that drops \<open>written\<close> bytes: whether it returned, and the chunks left.\<close>

fun drop_written :: "buffer_data list \<Rightarrow> nat \<Rightarrow> bool \<times> buffer_data list" where
  "drop_written ds 0 = (False, ds)"
| "drop_written [] w = (False, [])"
| "drop_written (d # ds) w =
     (if w < d_cp d - d_sp d then (True, d\<lparr>d_sp := d_sp d + w\<rparr> # ds)
      else drop_written ds (w - (d_cp d - d_sp d)))"

text \<open>The result is the status, the buffer, \<open>errno\<close>, the bytes sent and the rest of the script; the
  kernel accepts at most what it is offered. \<open>None\<close> also stands for a script that has run out.\<close>

type_synonym flush_result = "buffer_status_t \<times> buffer \<times> errno \<times> u8 list \<times> outcome list"

definition buffer_flush_available :: "buffer \<Rightarrow> int \<Rightarrow> errno \<Rightarrow> outcome list \<Rightarrow> flush_result option" where
  "buffer_flush_available b fd en script =
     (if fd < 0 then Some (BUFFER_ERROR, b, en, [], script)
      else do {
        (iov, nbyte) \<leftarrow> gather_iov (b_data b) [] 0;
        (if nbyte = 0 then Some (BUFFER_EMPTY, b, en, [], script)
         else case script of
             [] \<Rightarrow> None
           | Failed e # script \<Rightarrow>
               (if ERRNO_IO_RETRY e then Some (BUFFER_PENDING, b, e, [], script)
                else Some (BUFFER_ERROR, b, e, [], script))
           | Wrote k # script \<Rightarrow>
               (let written = min k nbyte;
                    (ret, ds) = drop_written (b_data b) written;
                    b = b\<lparr>b_data := ds\<rparr>
                in Some (if ret then BUFFER_PENDING else if ds \<noteq> [] then BUFFER_PENDING else BUFFER_EMPTY,
                         b, en, take written (concat iov), script))) })"

text \<open>The \<open>while\<close> of \<open>buffer_flush_all\<close>: nothing is allocated meanwhile, so the head is the same chunk
  when the number of chunks is.\<close>

partial_function (option) flush_all_loop :: "buffer \<Rightarrow> int \<Rightarrow> errno \<Rightarrow> outcome list \<Rightarrow> flush_result option" where
  "flush_all_loop b fd en script = do {
     (ret, b1, en, out, script) \<leftarrow> buffer_flush_available b fd en script;
     (if ret = BUFFER_PENDING
      then (if length (b_data b1) = length (b_data b) \<and> d_sp (hd (b_data b)) = d_sp (hd (b_data b1)) \<and> en \<noteq> EINTR
            then Some (ret, b1, en, out, script)
            else do {
              (ret, b2, en, out2, script) \<leftarrow> flush_all_loop b1 fd en script;
              Some (ret, b2, en, out @ out2, script) })
      else Some (ret, b1, en, out, script)) }"

definition buffer_flush_all :: "buffer \<Rightarrow> int \<Rightarrow> errno \<Rightarrow> outcome list \<Rightarrow> flush_result option" where
  "buffer_flush_all b fd en script =
     (if b_data b = [] then Some (BUFFER_EMPTY, b, en, [], script) else flush_all_loop b fd en script)"

definition buffer_write :: "buffer \<Rightarrow> u8 list \<Rightarrow> nat \<Rightarrow> errno \<Rightarrow> outcome list \<Rightarrow> flush_result option" where
  "buffer_write b p n en script =
     (if n \<le> length p then do {
        (nbytes, en, script) \<leftarrow>
          (if b_data b \<noteq> [] then Some (Some 0, en, script)
           else case script of
               [] \<Rightarrow> None
             | Failed e # script \<Rightarrow> Some (if ERRNO_IO_RETRY e then Some 0 else None, e, script)
             | Wrote k # script \<Rightarrow> Some (Some (min k n), en, script));
        (case nbytes of
           None \<Rightarrow> Some (BUFFER_ERROR, b, en, [], script)
         | Some written \<Rightarrow> do {
             b \<leftarrow> (if written < n then buffer_put b (drop written p) (n - written) else Some b);
             Some (if b_data b \<noteq> [] then BUFFER_PENDING else BUFFER_EMPTY, b, en, take written p, script) }) }
      else None)"

text \<open>\<open>buffer_flush_window\<close>: the bytes of a chunk that fit on the rest of the screen, and the column
  and the lines left after them.\<close>

fun window_scan :: "int \<Rightarrow> u8 list \<Rightarrow> int \<Rightarrow> int \<Rightarrow> nat \<times> int \<times> int" where
  "window_scan width [] column height = (0, column, height)"
| "window_scan width (x # xs) column height =
     (if height > 0
      then (let (column, height) = (if x = CR then (1, height)
                                    else if x = LF \<or> column = width then (1, height - 1)
                                    else (column + 1, height));
                (k, column, height) = window_scan width xs column height
            in (Suc k, column, height))
      else (0, column, height))"

text \<open>The loop over the chunks, with the io vectors and the number allocated for them.\<close>

fun window_loop :: "int \<Rightarrow> buffer_data list \<Rightarrow> int \<Rightarrow> int \<Rightarrow> u8 list list \<Rightarrow> nat \<Rightarrow>
    (buffer_data list \<times> u8 list list \<times> nat) option" where
  "window_loop width [] column height iov iov_alloc = Some ([], iov, iov_alloc)"
| "window_loop width (d # ds) column height iov iov_alloc =
     (if height > 0
      then do {
        x \<leftarrow> chunk_bytes d;
        let (k, column, height) = window_scan width x column height;
        iov \<leftarrow> (if length iov < iov_alloc then Some (iov @ [take k x]) else None);
        let iov_alloc = (if length iov = iov_alloc then iov_alloc * 2 else iov_alloc);
        (ds, iov, iov_alloc) \<leftarrow> window_loop width ds column height iov iov_alloc;
        Some (d\<lparr>d_sp := d_sp d + k\<rparr> # ds, iov, iov_alloc) }
      else Some (d # ds, iov, iov_alloc))"

definition window_more :: "u8 list" where
  "window_more = [32, 45, 45, 77, 111, 114, 101, 45, 45, 32, 0]"

definition window_erase :: "u8 list" where
  "window_erase = replicate 10 8 @ replicate 10 32 @ replicate 10 8"

text \<open>The calls of \<open>writev\<close>, on at most \<open>IOV_MAX\<close> vectors each: whether the last one succeeded, and
  what was offered.\<close>

fun window_writev :: "nat \<Rightarrow> nat \<Rightarrow> u8 list list \<Rightarrow> outcome list \<Rightarrow> (bool \<times> u8 list \<times> outcome list) option" where
  "window_writev iov_max 0 iov script = None"
| "window_writev iov_max (Suc fuel) iov script =
     (if iov = [] then Some (True, [], script)
      else case script of
          [] \<Rightarrow> None
        | Failed e # script \<Rightarrow> Some (False, concat (take iov_max iov), script)
        | Wrote k # script \<Rightarrow> do {
            (ok, out, script) \<leftarrow> window_writev iov_max fuel (drop iov_max iov) script;
            Some (ok, concat (take iov_max iov) @ out, script) })"

definition buffer_flush_window ::
    "nat \<Rightarrow> buffer \<Rightarrow> int \<Rightarrow> int \<Rightarrow> bool \<Rightarrow> bool \<Rightarrow> outcome list \<Rightarrow>
     (buffer_status_t \<times> buffer \<times> u8 list \<times> outcome list) option" where
  "buffer_flush_window iov_max b width height erase_flag no_more_flag script =
     (if b_data b = [] then Some (BUFFER_EMPTY, b, [], script)
      else do {
        let height = (if height < 1 then 1 else if height \<ge> 2 then height - 1 else height);
        let width = (if width < 1 then 1 else width);
        iov_alloc \<leftarrow> (if length (b_data b) = 1 then Some 3
           else if height * (width + 2) < 2 ^ 31 - 10
           then Some (nat (height * (width + 2)) div b_size b + 10) else None);
        let iov = (if erase_flag then [window_erase] else []);
        (ds, iov, iov_alloc) \<leftarrow> window_loop width (b_data b) 1 height iov iov_alloc;
        iov \<leftarrow> (if d_sp (last ds) < d_cp (last ds) \<and> \<not> no_more_flag
                then (if length iov < iov_alloc then Some (iov @ [window_more]) else None)
                else Some iov);
        (ok, out, script) \<leftarrow> window_writev iov_max (Suc (length iov)) iov script;
        let b = b\<lparr>b_data := dropWhile (\<lambda>d. d_sp d = d_cp d) ds\<rparr>;
        Some (if \<not> ok then BUFFER_ERROR else if b_data b \<noteq> [] then BUFFER_PENDING else BUFFER_EMPTY,
              b, out, script) })"

declare buffer_put.simps [code] put_crlf_loop.simps [code] flush_all_loop.simps [code]

section \<open>Invariant and content\<close>

text \<open>The comment of the source, \<open>0 <= sp <= cp <= size\<close>, and that no chunk is without data.\<close>

definition chunk_ok :: "nat \<Rightarrow> buffer_data \<Rightarrow> bool" where
  "chunk_ok n d \<longleftrightarrow> d_sp d < d_cp d \<and> d_cp d \<le> n \<and> length (d_data d) = n"

definition buffer_ok :: "buffer \<Rightarrow> bool" where
  "buffer_ok b \<longleftrightarrow> b_size b > 0 \<and> (\<forall>d \<in> set (b_data b). chunk_ok (b_size b) d)"

definition chunk_content :: "buffer_data \<Rightarrow> u8 list" where
  "chunk_content d = take (d_cp d - d_sp d) (drop (d_sp d) (d_data d))"

definition buffer_content :: "buffer \<Rightarrow> u8 list" where
  "buffer_content b = concat (map chunk_content (b_data b))"

lemma chunk_bytes_content: "chunk_ok n d \<Longrightarrow> chunk_bytes d = Some (chunk_content d)"
  by (simp add: chunk_ok_def chunk_bytes_def chunk_content_def)

lemma length_chunk_content [simp]: "chunk_ok n d \<Longrightarrow> length (chunk_content d) = d_cp d - d_sp d"
  by (auto simp: chunk_ok_def chunk_content_def)

lemma getstr_loop_content:
  "(\<forall>d \<in> set ds. chunk_ok n d) \<Longrightarrow> getstr_loop ds s = Some (s @ concat (map chunk_content ds))"
  by (induction ds arbitrary: s) (auto simp: chunk_bytes_content)

lemma length_content:
  "(\<forall>d \<in> set ds. chunk_ok n d) \<Longrightarrow>
   length (concat (map chunk_content ds)) = sum_list (map (\<lambda>d. d_cp d - d_sp d) ds)"
  by (induction ds) auto

lemma buffer_getstr_content: "buffer_ok b \<Longrightarrow> buffer_getstr b = Some (buffer_content b @ [0])"
  unfolding buffer_ok_def buffer_getstr_def buffer_content_def
  by (simp add: getstr_loop_content [of _ "b_size b"] length_content [of _ "b_size b"])

section \<open>Filling\<close>

text \<open>During an operation the last chunk may still be empty.\<close>

definition room_ok :: "buffer \<Rightarrow> bool" where
  "room_ok b \<longleftrightarrow> b_size b > 0 \<and> b_data b \<noteq> [] \<and> (\<forall>d \<in> set (butlast (b_data b)). chunk_ok (b_size b) d) \<and>
     (let d = last (b_data b) in (d_sp d < d_cp d \<or> d_sp d = 0 \<and> d_cp d = 0) \<and> d_cp d \<le> b_size b \<and> length (d_data d) = b_size b)"

lemma chunk_content_new: "chunk_content \<lparr>d_cp = 0, d_sp = 0, d_data = x\<rparr> = []"
  by (simp add: chunk_content_def)

lemma buffer_add_room:
  assumes "buffer_ok b"
  shows "room_ok (buffer_add b)" "buffer_content (buffer_add b) = buffer_content b" "tail_avail (buffer_add b) = b_size b"
  using assms by (simp_all add: room_ok_def buffer_add_def buffer_ok_def buffer_content_def tail_avail_def chunk_content_new)

lemma buffer_ok_room: "buffer_ok b \<Longrightarrow> b_data b \<noteq> [] \<Longrightarrow> room_ok b"
  using last_in_set [of "b_data b"] unfolding buffer_ok_def room_ok_def Let_def
  by (auto simp: chunk_ok_def dest: in_set_butlastD)

lemma tail_room_room:
  assumes "buffer_ok b"
  shows "room_ok (tail_room b)" "buffer_content (tail_room b) = buffer_content b" "tail_avail (tail_room b) > 0"
    "b_size (tail_room b) = b_size b"
proof -
  have "room_ok (tail_room b) \<and> buffer_content (tail_room b) = buffer_content b \<and> tail_avail (tail_room b) > 0 \<and>
    b_size (tail_room b) = b_size b"
  proof (cases "b_data b = [] \<or> d_cp (last (b_data b)) = b_size b")
    case True
    then show ?thesis using buffer_add_room [OF assms] assms by (auto simp: tail_room_def buffer_ok_def buffer_add_def)
  next
    case False
    then have "room_ok b" using assms buffer_ok_room by blast
    then show ?thesis using False by (auto simp: tail_room_def tail_avail_def room_ok_def Let_def)
  qed
  then show "room_ok (tail_room b)" "buffer_content (tail_room b) = buffer_content b" "tail_avail (tail_room b) > 0"
    "b_size (tail_room b) = b_size b" by simp_all
qed

lemma tail_put_room:
  assumes "room_ok b" "n \<le> tail_avail b" "n \<le> length p"
  shows "\<exists>b'. tail_put b p n = Some b' \<and> room_ok b' \<and> (0 < n \<longrightarrow> buffer_ok b') \<and> b_size b' = b_size b \<and>
    buffer_content b' = buffer_content b @ take n p \<and> d_cp (last (b_data b')) = d_cp (last (b_data b)) + n"
proof -
  let ?d = "last (b_data b)"
  have e: "b_data b = butlast (b_data b) @ [?d]" using assms(1) by (simp add: room_ok_def)
  have d: "d_sp ?d \<le> d_cp ?d" "d_cp ?d \<le> b_size b" "length (d_data ?d) = b_size b"
    using assms(1) by (auto simp: room_ok_def Let_def)
  have n: "d_cp ?d + n \<le> b_size b" using assms(2) d by (simp add: tail_avail_def)
  let ?x = "take (d_cp ?d) (d_data ?d) @ take n p @ drop (d_cp ?d + n) (d_data ?d)"
  let ?b = "b\<lparr>b_data := butlast (b_data b) @ [?d\<lparr>d_data := ?x, d_cp := d_cp ?d + n\<rparr>]\<rparr>"
  have t: "tail_put b p n = Some ?b"
    using assms(1,3) n d by (simp add: tail_put_def mem_copy_def room_ok_def Let_def)
  have l: "length ?x = b_size b" using n d assms(3) by simp
  have "chunk_content (?d\<lparr>d_data := ?x, d_cp := d_cp ?d + n\<rparr>) = chunk_content ?d @ take n p"
    using d n assms(3) by (simp add: chunk_content_def take_drop)
  then have c: "buffer_content ?b = buffer_content b @ take n p"
    unfolding buffer_content_def by (subst (2) e) simp
  show ?thesis
    by (intro exI [of _ ?b] conjI t c)
      (use assms(1) l d n in \<open>auto simp: room_ok_def buffer_ok_def chunk_ok_def Let_def\<close>)
qed

lemma buffer_put_content:
  assumes "buffer_ok b" "n \<le> length p"
  shows "\<exists>b'. buffer_put b p n = Some b' \<and> buffer_ok b' \<and> b_size b' = b_size b \<and>
    buffer_content b' = buffer_content b @ take n p"
  using assms
proof (induction n arbitrary: b p rule: less_induct)
  case (less n)
  show ?case
  proof (cases "n = 0")
    case True
    then show ?thesis using less.prems by (simp add: buffer_put.simps)
  next
    case False
    let ?b = "tail_room b"
    define k where "k = (if n \<le> tail_avail ?b then n else tail_avail ?b)"
    note r = tail_room_room [OF less.prems(1)]
    have c: "k \<le> tail_avail ?b" "k \<le> length p" "0 < k" "k \<le> n" using r less.prems(2) False by (auto simp: k_def)
    obtain b1 where b1: "tail_put ?b p k = Some b1" "buffer_ok b1" "b_size b1 = b_size b"
      "buffer_content b1 = buffer_content b @ take k p"
      using tail_put_room [OF r(1) c(1,2)] c(3) r(2,4) by auto
    obtain b2 where b2: "buffer_put b1 (drop k p) (n - k) = Some b2" "buffer_ok b2" "b_size b2 = b_size b1"
      "buffer_content b2 = buffer_content b1 @ take (n - k) (drop k p)"
      using less.IH [of "n - k" b1 "drop k p"] b1(2) c less.prems(2) False by (auto simp: diff_le_mono)
    have "take k p @ take (n - k) (drop k p) = take n p" using c by (metis le_add_diff_inverse take_add)
    moreover have "buffer_put b p n = Some b2"
      using False b1(1) b2(1) by (subst buffer_put.simps) (simp add: Let_def flip: k_def)
    ultimately show ?thesis using b1 b2 by auto
  qed
qed

lemma put_one_content:
  assumes "room_ok b"
  shows "\<exists>b'. put_one b c = Some b' \<and> buffer_ok b' \<and> b_size b' = b_size b \<and>
    buffer_content b' = buffer_content b @ [c]"
proof (cases "d_cp (last (b_data b)) = b_size b")
  case True
  have e: "b_data b = butlast (b_data b) @ [last (b_data b)]" using assms by (simp add: room_ok_def)
  have "chunk_ok (b_size b) (last (b_data b))" using assms True by (auto simp: room_ok_def Let_def chunk_ok_def)
  moreover have "set (b_data b) = set (butlast (b_data b)) \<union> {last (b_data b)}"
    using arg_cong [OF e, of set] unfolding set_append list.set .
  ultimately have "buffer_ok b" using assms by (auto simp: buffer_ok_def room_ok_def)
  note a = buffer_add_room [OF this]
  have "1 \<le> tail_avail (buffer_add b)" using a(3) assms by (simp add: room_ok_def)
  then show ?thesis using tail_put_room [OF a(1), of 1 "[c]"] a(2) True by (auto simp: put_one_def buffer_add_def)
next
  case False
  then have "1 \<le> tail_avail b" using assms by (auto simp: room_ok_def Let_def tail_avail_def)
  then show ?thesis using tail_put_room [OF assms, of 1 "[c]"] False by (auto simp: put_one_def)
qed

text \<open>Line ends as a terminal wants them.\<close>

definition crlf :: "u8 list \<Rightarrow> u8 list" where
  "crlf p = concat (map (\<lambda>c. if c = LF then [CR, LF] else [c]) p)"

lemma crlf_append [simp]: "crlf (p @ q) = crlf p @ crlf q"
  by (simp add: crlf_def)

lemma crlf_plain: "LF \<notin> set p \<Longrightarrow> crlf p = p"
  by (induction p) (auto simp: crlf_def)

lemma memchr_None: "memchr p c = None \<longleftrightarrow> c \<notin> set p"
  by (induction p) auto

lemma memchr_Some: "memchr p c = Some k \<Longrightarrow> k < length p \<and> p ! k = c \<and> c \<notin> set (take k p)"
  by (induction p arbitrary: k) (auto split: if_splits)

lemma memchr_drop: "memchr p c = Some k \<Longrightarrow> j \<le> k \<Longrightarrow> memchr (drop j p) c = Some (k - j)"
proof (induction j arbitrary: p k)
  case (Suc j)
  then show ?case by (cases p) (auto split: if_splits)
qed simp

lemma crlf_line:
  assumes "memchr p LF = Some k"
  shows "crlf p = take k p @ [CR, LF] @ crlf (drop (Suc k) p)"
proof -
  note m = memchr_Some [OF assms]
  have "p = take k p @ [LF] @ drop (Suc k) p" using m by (metis append_Cons append_Nil id_take_nth_drop)
  then have "crlf p = crlf (take k p) @ crlf [LF] @ crlf (drop (Suc k) p)" by (metis crlf_append)
  then show ?thesis using m by (simp add: crlf_plain) (simp add: crlf_def)
qed

lemma put_crlf_loop_content:
  assumes "buffer_ok b"
  shows "\<exists>b'. put_crlf_loop b p (memchr p LF) = Some b' \<and> buffer_ok b' \<and> b_size b' = b_size b \<and>
    buffer_content b' = buffer_content b @ crlf p"
  using assms
proof (induction "length p" arbitrary: b p rule: less_induct)
  case less
  show ?case
  proof (cases "p = []")
    case True
    then show ?thesis using less.prems by (simp add: put_crlf_loop.simps crlf_def)
  next
    case False
    let ?b = "tail_room b"
    define n where "n = (case memchr p LF of Some k \<Rightarrow> k | None \<Rightarrow> length p)"
    define j where "j = (if n \<le> tail_avail ?b then n else tail_avail ?b)"
    note r = tail_room_room [OF less.prems(1)]
    have n: "n \<le> length p" using memchr_Some [of p LF] by (auto simp: n_def split: option.splits)
    have c: "j \<le> tail_avail ?b" "j \<le> length p" "j \<le> n" using n by (auto simp: j_def)
    obtain b1 where b1: "tail_put ?b p j = Some b1" "room_ok b1" "0 < j \<longrightarrow> buffer_ok b1" "b_size b1 = b_size b"
      "buffer_content b1 = buffer_content b @ take j p"
      using tail_put_room [OF r(1) c(1,2)] r(2,4) by auto
    show ?thesis
    proof (cases "memchr p LF \<noteq> None \<and> n \<le> tail_avail ?b")
      case True
      then obtain k where k: "memchr p LF = Some k" "n = k" "j = k" by (auto simp: n_def j_def)
      obtain b2 where b2: "put_one b1 CR = Some b2" "buffer_ok b2" "b_size b2 = b_size b1"
        "buffer_content b2 = buffer_content b1 @ [CR]" using put_one_content [OF b1(2)] by blast
      have "room_ok b2"
        using b2 buffer_ok_room [of b2] by (cases "b_data b2") (auto simp: buffer_content_def)
      then obtain b3 where b3: "put_one b2 LF = Some b3" "buffer_ok b3" "b_size b3 = b_size b2"
        "buffer_content b3 = buffer_content b2 @ [LF]" using put_one_content by blast
      let ?p = "drop 1 (drop k p)"
      have "length ?p < length p" using memchr_Some [OF k(1)] by auto
      from less.hyps [OF this b3(2)] obtain b4 where b4: "put_crlf_loop b3 ?p (memchr ?p LF) = Some b4" "buffer_ok b4"
        "b_size b4 = b_size b3" "buffer_content b4 = buffer_content b3 @ crlf ?p" by blast
      have "put_crlf_loop b p (memchr p LF) = Some b4"
        using False True b1(1) b2(1) b3(1) b4(1) k
        by (subst put_crlf_loop.simps) (simp add: Let_def)
      then show ?thesis using b1 b2 b3 b4 crlf_line [OF k(1)] k(3) by auto
    next
      case no: False
      have pos: "0 < j" using no r(3) False by (auto simp: j_def n_def split: option.splits)
      then have ok: "buffer_ok b1" using b1(3) by blast
      have less': "length (drop j p) < length p" using pos c(2) False by (cases p) auto
      have lf: "map_option (\<lambda>k. k - j) (memchr p LF) = memchr (drop j p) LF"
        using memchr_drop [of p LF] c(3) no set_drop_subset [of j p] memchr_None [of p LF] memchr_None [of "drop j p" LF]
        by (cases "memchr p LF") (auto simp: n_def)
      from less.hyps [OF less' ok] obtain b2 where b2: "put_crlf_loop b1 (drop j p) (memchr (drop j p) LF) = Some b2"
        "buffer_ok b2" "b_size b2 = b_size b1" "buffer_content b2 = buffer_content b1 @ crlf (drop j p)" by blast
      have "put_crlf_loop b p (memchr p LF) = Some b2"
        using False no b1(1) b2(1)
        by (subst put_crlf_loop.simps, simp add: Let_def lf flip: n_def j_def del: not_None_eq, blast)
      moreover have "LF \<notin> set (take j p)"
        using memchr_Some [of p LF] memchr_None [of p LF] c(3) set_take_subset_set_take [of j n p] set_take_subset [of j p]
        by (cases "memchr p LF") (auto simp: n_def)
      then have "crlf p = take j p @ crlf (drop j p)" by (metis append_take_drop_id crlf_append crlf_plain)
      ultimately show ?thesis using b1 b2 by auto
    qed
  qed
qed

section \<open>Flushing\<close>

lemma gather_iov_content:
  assumes "\<forall>d \<in> set ds. chunk_ok n d"
  shows "\<exists>k. gather_iov ds iov nb =
      Some (iov @ map chunk_content (take k ds), nb + length (concat (map chunk_content (take k ds)))) \<and>
    (length iov < MAX_CHUNKS \<longrightarrow> nb < MAX_FLUSH \<longrightarrow> ds \<noteq> [] \<longrightarrow> 0 < k)"
  using assms
proof (induction ds arbitrary: iov nb)
  case (Cons d ds)
  show ?case
  proof (cases "length iov < MAX_CHUNKS \<and> nb < MAX_FLUSH")
    case True
    obtain k where "gather_iov ds (iov @ [chunk_content d]) (nb + (d_cp d - d_sp d)) =
      Some ((iov @ [chunk_content d]) @ map chunk_content (take k ds),
            nb + (d_cp d - d_sp d) + length (concat (map chunk_content (take k ds))))"
      using Cons.IH [of "iov @ [chunk_content d]" "nb + (d_cp d - d_sp d)"] Cons.prems by auto
    then show ?thesis using True Cons.prems 
      by (intro exI [of _ "Suc k"]) (simp add: chunk_bytes_content [of n] length_chunk_content [of n])
  next
    case False
    then show ?thesis by (intro exI [of _ 0]) auto
  qed
qed simp

lemma chunk_content_ne: "chunk_ok n d \<Longrightarrow> chunk_content d \<noteq> []"
  using length_chunk_content [of n d] by (auto simp: chunk_ok_def simp del: length_chunk_content)

lemma gather_iov_buffer:
  assumes "buffer_ok b" "b_data b \<noteq> []"
  obtains iov rest where "gather_iov (b_data b) [] 0 = Some (iov, length (concat iov))" "concat iov \<noteq> []"
    "concat (map chunk_content (b_data b)) = concat iov @ rest"
proof -
  have ok: "\<forall>d \<in> set (b_data b). chunk_ok (b_size b) d" using assms(1) by (simp add: buffer_ok_def)
  obtain j where j: "gather_iov (b_data b) [] 0 =
      Some (map chunk_content (take j (b_data b)), length (concat (map chunk_content (take j (b_data b)))))" "0 < j"
    using gather_iov_content [OF ok, of "[]" 0] assms(2) by (auto simp: MAX_CHUNKS_def MAX_FLUSH_def)
  obtain d ds where d: "b_data b = d # ds" using assms(2) by (cases "b_data b") auto
  have "chunk_content d \<noteq> []" using ok d chunk_content_ne by auto
  then have "concat (map chunk_content (take j (b_data b))) \<noteq> []" using j(2) d by (cases j) auto
  moreover have "concat (map chunk_content (b_data b)) =
      concat (map chunk_content (take j (b_data b))) @ concat (map chunk_content (drop j (b_data b)))"
    by (metis append_take_drop_id concat_append map_append)
  ultimately show thesis using that j(1) by blast
qed

lemma chunk_content_sp: "chunk_content (d\<lparr>d_sp := d_sp d + w\<rparr>) = drop w (chunk_content d)"
  by (simp add: chunk_content_def drop_take add.commute)

lemma drop_written_ret: "fst (drop_written ds w) \<Longrightarrow> snd (drop_written ds w) \<noteq> []"
  by (induction ds w rule: drop_written.induct) (auto split: if_splits)

lemma drop_written_content:
  assumes "\<forall>d \<in> set ds. chunk_ok n d" "w \<le> length (concat (map chunk_content ds))"
  shows "concat (map chunk_content (snd (drop_written ds w))) = drop w (concat (map chunk_content ds))"
    "\<forall>d \<in> set (snd (drop_written ds w)). chunk_ok n d"
    "0 < w \<Longrightarrow> length (snd (drop_written ds w)) < length ds \<or>
       d_sp (hd (snd (drop_written ds w))) \<noteq> d_sp (hd ds)"
  using assms
proof (induction ds w rule: drop_written.induct)
  case (3 d ds w)
  {
    case 1
    then show ?case using 3(1) chunk_content_sp [of d "Suc w"] by (cases "Suc w < d_cp d - d_sp d") auto
  next
    case 2
    then show ?case using 3(2) by (cases "Suc w < d_cp d - d_sp d") (auto simp: chunk_ok_def)
  next
    case 3
    have "length (snd (drop_written ds v)) \<le> length ds" for v
      by (induction ds v rule: drop_written.induct) auto
    then show ?case by (cases "Suc w < d_cp d - d_sp d") (auto simp: less_Suc_eq_le)
  }
qed auto

text \<open>One \<open>writev\<close>: what was sent is the front of the content, and nothing else is lost.\<close>

lemma buffer_flush_available_sent:
  assumes "buffer_ok b" "0 \<le> fd" "b_data b \<noteq> []" "script = Wrote k # rest"
  shows "\<exists>b' out. buffer_flush_available b fd en script =
      Some (if b_data b' = [] then BUFFER_EMPTY else BUFFER_PENDING, b', en, out, rest) \<and>
    buffer_ok b' \<and> buffer_content b = out @ buffer_content b' \<and>
    (0 < k \<longrightarrow> out \<noteq> [] \<and> (length (b_data b') < length (b_data b) \<or> d_sp (hd (b_data b')) \<noteq> d_sp (hd (b_data b))))"
proof -
  let ?c = "concat (map chunk_content (b_data b))"
  have ok: "\<forall>d \<in> set (b_data b). chunk_ok (b_size b) d" using assms(1) by (simp add: buffer_ok_def)
  obtain iov more where j: "gather_iov (b_data b) [] 0 = Some (iov, length (concat iov))" "concat iov \<noteq> []"
    "?c = concat iov @ more" by (rule gather_iov_buffer [OF assms(1,3)])
  let ?iov = "concat iov"
  have n: "0 < length ?iov" using j(2) by simp
  define w where "w = min k (length ?iov)"
  have w: "w \<le> length ?c" "w \<le> length ?iov" using j(3) by (auto simp: w_def)
  note dw = drop_written_content [OF ok w(1)]
  let ?b = "b\<lparr>b_data := snd (drop_written (b_data b) w)\<rparr>"
  have "buffer_flush_available b fd en script =
    Some (if b_data ?b = [] then BUFFER_EMPTY else BUFFER_PENDING, ?b, en, take w ?iov, rest)"
    using assms(2,4) j(1) n drop_written_ret [of "b_data b" w] by (auto simp: buffer_flush_available_def w_def Let_def split: prod.splits)
  moreover have "buffer_ok ?b" using dw(2) assms(1) by (simp add: buffer_ok_def)
  moreover have "take w ?iov = take w ?c" using w(2) by (simp add: j(3))
  then have "buffer_content b = take w ?iov @ buffer_content ?b"
    using dw(1) by (simp add: buffer_content_def)
  moreover have "take w ?iov \<noteq> []" if "0 < k" using n that by (auto simp: w_def)
  moreover have "0 < w" if "0 < k" using n that by (auto simp: w_def)
  ultimately show ?thesis using dw(3) by (intro exI [of _ ?b] exI [of _ "take w ?iov"]) auto
qed

lemma buffer_flush_available_failed:
  assumes "buffer_ok b" "0 \<le> fd" "b_data b \<noteq> []"
  shows "buffer_flush_available b fd en (Failed e # rest) =
    Some (if ERRNO_IO_RETRY e then BUFFER_PENDING else BUFFER_ERROR, b, e, [], rest)"
proof -
  obtain iov more where j: "gather_iov (b_data b) [] 0 = Some (iov, length (concat iov))" "concat iov \<noteq> []"
    by (rule gather_iov_buffer [OF assms(1,3)])
  show ?thesis using j assms(2) by (auto simp: buffer_flush_available_def)
qed

lemma buffer_flush_available_blocked:
  "buffer_ok b \<Longrightarrow> 0 \<le> fd \<Longrightarrow> b_data b = [] \<Longrightarrow> buffer_flush_available b fd en script = Some (BUFFER_EMPTY, b, en, [], script)"
  by (simp add: buffer_flush_available_def)

text \<open>With a kernel that always takes something, the whole content is sent in order.\<close>

lemma flush_all_loop_sent:
  assumes "buffer_ok b" "0 \<le> fd" "b_data b \<noteq> []" "length (buffer_content b) \<le> length script"
    "\<forall>x \<in> set script. \<exists>k > 0. x = Wrote k"
  shows "\<exists>b' rest. flush_all_loop b fd en script = Some (BUFFER_EMPTY, b', en, buffer_content b, rest) \<and> b_data b' = []"
  using assms
proof (induction script arbitrary: b)
  case Nil
  then obtain d ds where d: "b_data b = d # ds" by (cases "b_data b") auto
  then have "chunk_content d \<noteq> []" using Nil.prems(1) chunk_content_ne by (auto simp: buffer_ok_def)
  then show ?case using Nil.prems(4) d by (simp add: buffer_content_def)
next
  case (Cons x script)
  obtain k where k: "x = Wrote k" "0 < k" using Cons.prems(5) by auto
  obtain b1 out where b1: "buffer_flush_available b fd en (x # script) =
      Some (if b_data b1 = [] then BUFFER_EMPTY else BUFFER_PENDING, b1, en, out, script)" "buffer_ok b1"
    "buffer_content b = out @ buffer_content b1" "out \<noteq> []"
    "length (b_data b1) < length (b_data b) \<or> d_sp (hd (b_data b1)) \<noteq> d_sp (hd (b_data b))"
    using buffer_flush_available_sent [OF Cons.prems(1-3), of "x # script" k script en] k by blast
  show ?case
  proof (cases "b_data b1 = []")
    case True
    then show ?thesis using b1 by (subst flush_all_loop.simps) (simp add: buffer_content_def)
  next
    case False
    have "length (buffer_content b1) \<le> length script" using b1(3,4) Cons.prems(4) by (cases out) auto
    then obtain b2 rest where "flush_all_loop b1 fd en script = Some (BUFFER_EMPTY, b2, en, buffer_content b1, rest)"
      "b_data b2 = []" using Cons.IH [OF b1(2) Cons.prems(2) False] Cons.prems(5) by auto
    then show ?thesis using b1(1,3,5) False by (subst flush_all_loop.simps) auto
  qed
qed

text \<open>Whatever the kernel does, what was sent and what is left are the content.\<close>

lemma flush_all_loop_split:
  assumes "buffer_ok b" "b_data b \<noteq> []" "flush_all_loop b fd en script = Some (st, b', en', out, rest)"
  shows "buffer_content b = out @ buffer_content b' \<and> buffer_ok b' \<and> (st = BUFFER_EMPTY \<longrightarrow> b_data b' = [])"
  using assms
proof (induction script arbitrary: b en out)
  case Nil
  show ?case
  proof (cases "fd < 0")
    case True
    then show ?thesis using Nil.prems by (subst (asm) flush_all_loop.simps) (auto simp: buffer_flush_available_def)
  next
    case False
    obtain iov more where "gather_iov (b_data b) [] 0 = Some (iov, length (concat iov))" "concat iov \<noteq> []"
      by (rule gather_iov_buffer [OF Nil.prems(1,2)])
    then have "buffer_flush_available b fd en [] = None" using False by (auto simp: buffer_flush_available_def)
    then show ?thesis using Nil.prems(3) by (subst (asm) flush_all_loop.simps) simp
  qed
next
  case (Cons x script)
  show ?case
  proof (cases "fd < 0")
    case True
    then show ?thesis using Cons.prems by (subst (asm) flush_all_loop.simps) (auto simp: buffer_flush_available_def)
  next
    case False
    then have fd: "0 \<le> fd" by simp
    obtain st1 b1 en1 out1 where f: "buffer_flush_available b fd en (x # script) = Some (st1, b1, en1, out1, script)"
      "buffer_ok b1" "buffer_content b = out1 @ buffer_content b1" "st1 = BUFFER_EMPTY \<longrightarrow> b_data b1 = []"
      "st1 = BUFFER_PENDING \<longrightarrow> b_data b1 \<noteq> []"
    proof (cases x)
      case (Wrote k)
      then obtain b2 o2 where "buffer_flush_available b fd en (x # script) =
          Some (if b_data b2 = [] then BUFFER_EMPTY else BUFFER_PENDING, b2, en, o2, script)" "buffer_ok b2"
        "buffer_content b = o2 @ buffer_content b2"
        using buffer_flush_available_sent [OF Cons.prems(1) fd Cons.prems(2), of "x # script" k script en] by blast
      then show thesis by (intro that [of "if b_data b2 = [] then BUFFER_EMPTY else BUFFER_PENDING" b2 en o2]) simp_all
    next
      case (Failed e)
      then show thesis using Cons.prems(1,2) buffer_flush_available_failed [OF Cons.prems(1) fd Cons.prems(2), of en e script]
        by (intro that [of "if ERRNO_IO_RETRY e then BUFFER_PENDING else BUFFER_ERROR" b e "[]"]) simp_all
    qed
    have u: "flush_all_loop b fd en (x # script) =
      (if st1 = BUFFER_PENDING \<and> \<not> (length (b_data b1) = length (b_data b) \<and> d_sp (hd (b_data b)) = d_sp (hd (b_data b1)) \<and> en1 \<noteq> EINTR)
       then do { (ret, b2, en, out2, script) \<leftarrow> flush_all_loop b1 fd en1 script; Some (ret, b2, en, out1 @ out2, script) }
       else Some (st1, b1, en1, out1, script))"
      using f(1) by (subst flush_all_loop.simps) simp
    show ?thesis
    proof (cases "st1 = BUFFER_PENDING \<and> \<not> (length (b_data b1) = length (b_data b) \<and> d_sp (hd (b_data b)) = d_sp (hd (b_data b1)) \<and> en1 \<noteq> EINTR)")
      case True
      then obtain out2 where o: "flush_all_loop b1 fd en1 script = Some (st, b', en', out2, rest)" "out = out1 @ out2"
        using Cons.prems(3) unfolding u by (auto split: bind_splits)
      then show ?thesis using Cons.IH [OF f(2) _ o(1)] f True by auto
    next
      case no: False
      then show ?thesis using Cons.prems(3) f unfolding u by auto
    qed
  qed
qed

section \<open>One screen\<close>

lemma window_scan_bound:
  "window_scan width xs column height = (k, c, h) \<Longrightarrow> k \<le> length xs \<and> (k < length xs \<longrightarrow> h \<le> 0)"
  by (induction width xs column height arbitrary: k rule: window_scan.induct)
    (auto simp: Let_def split: if_splits prod.splits)

text \<open>The vectors never outgrow what is allocated for them, shown and left together are the content,
  and the chunks shown completely come first.\<close>

lemma window_loop_content:
  assumes "\<forall>d \<in> set ds. chunk_ok n d" "length iov < alloc"
  shows "\<exists>ds' shown alloc'. window_loop width ds column height iov alloc = Some (ds', iov @ shown, alloc') \<and>
    length (iov @ shown) < alloc' \<and> length shown \<le> length ds \<and> length ds' = length ds \<and>
    concat (map chunk_content ds) = concat shown @ concat (map chunk_content (dropWhile (\<lambda>d. d_sp d = d_cp d) ds')) \<and>
    (\<forall>d \<in> set (dropWhile (\<lambda>d. d_sp d = d_cp d) ds'). chunk_ok n d)"
  using assms
proof (induction ds arbitrary: column height iov alloc)
  case (Cons d ds)
  let ?Q = "\<lambda>d. d_sp d = d_cp d"
  have ok: "chunk_ok n d" "\<forall>d \<in> set ds. chunk_ok n d" using Cons.prems(1) by auto
  show ?case
  proof (cases "height > 0")
    case False
    moreover have "dropWhile ?Q (d # ds) = d # ds" using ok(1) by (auto simp: chunk_ok_def)
    ultimately show ?thesis using Cons.prems by (intro exI [of _ "d # ds"] exI [of _ "[]"] exI [of _ alloc]) simp
  next
    case True
    obtain k c h where w: "window_scan width (chunk_content d) column height = (k, c, h)" by (metis prod_cases3)
    note wb = window_scan_bound [OF w]
    let ?iov = "iov @ [take k (chunk_content d)]"
    let ?al = "if length ?iov = alloc then alloc * 2 else alloc"
    have "length ?iov < ?al" using Cons.prems(2) by auto
    from Cons.IH [OF ok(2) this, of c h] obtain ds' shown al' where r:
      "window_loop width ds c h ?iov ?al = Some (ds', ?iov @ shown, al')" "length (?iov @ shown) < al'"
      "length shown \<le> length ds" "length ds' = length ds"
      "concat (map chunk_content ds) = concat shown @ concat (map chunk_content (dropWhile ?Q ds'))"
      "\<forall>d \<in> set (dropWhile ?Q ds'). chunk_ok n d" by blast
    let ?d = "d\<lparr>d_sp := d_sp d + k\<rparr>"
    have step: "window_loop width (d # ds) column height iov alloc = Some (?d # ds', iov @ take k (chunk_content d) # shown, al')"
      using True w r(1) Cons.prems(2) ok(1) by (simp add: chunk_bytes_content [of n] Let_def)
    have split: "chunk_content d = take k (chunk_content d) @ chunk_content ?d" by (simp add: chunk_content_sp)
    have rest: "concat (map chunk_content (d # ds)) = concat (take k (chunk_content d) # shown) @
        concat (map chunk_content (dropWhile ?Q (?d # ds'))) \<and>
      (\<forall>d \<in> set (dropWhile ?Q (?d # ds')). chunk_ok n d)"
    proof (cases "k = length (chunk_content d)")
      case True
      then have "?Q ?d" using ok(1) by (auto simp: chunk_ok_def)
      then show ?thesis using True r(5,6) by simp
    next
      case False
      then have h: "h \<le> 0" using wb by simp
      then have same: "ds' = ds" "shown = []" using r(1) by (cases ds; simp)+
      have d: "chunk_ok n ?d" using False wb ok(1) by (auto simp: chunk_ok_def)
      then have "dropWhile ?Q (?d # ds') = ?d # ds'" by (auto simp: chunk_ok_def)
      then show ?thesis using split same ok(2) d by simp
    qed
    show ?thesis
      by (intro exI [of _ "?d # ds'"] exI [of _ "take k (chunk_content d) # shown"] exI [of _ al'] conjI step)
        (use r rest in auto)
  qed
qed simp

lemma window_writev_all:
  assumes "0 < iov_max" "length iov < fuel" "length iov \<le> length script" "\<forall>x \<in> set script. \<exists>k. x = Wrote k"
  shows "\<exists>rest. window_writev iov_max fuel iov script = Some (True, concat iov, rest)"
  using assms(2-)
proof (induction fuel arbitrary: iov script)
  case (Suc fuel)
  show ?case
  proof (cases iov)
    case (Cons x xs)
    then obtain k script' where s: "script = Wrote k # script'" using Suc.prems by (cases script) auto
    have "length (drop iov_max iov) < fuel" "length (drop iov_max iov) \<le> length script'"
      using Suc.prems Cons s assms(1) by auto
    then obtain rest where r: "window_writev iov_max fuel (drop iov_max iov) script' = Some (True, concat (drop iov_max iov), rest)"
      using Suc.IH [of "drop iov_max iov" script'] Suc.prems(3) s by auto
    have "concat (take iov_max iov) @ concat (drop iov_max iov) = concat iov"
      by (metis append_take_drop_id concat_append)
    then show ?thesis using r s Cons by simp
  qed simp
qed simp

lemma buffer_flush_window_content:
  assumes "buffer_ok b" "b_data b \<noteq> []" "0 < iov_max" "\<forall>x \<in> set script. \<exists>k. x = Wrote k"
    "length (b_data b) + 2 \<le> length script" "max 1 height * (max 1 width + 2) < 2 ^ 31 - 10"
  shows "\<exists>b' shown more rest. buffer_flush_window iov_max b width height erase_flag no_more_flag script =
      Some (if b_data b' = [] then BUFFER_EMPTY else BUFFER_PENDING, b',
            (if erase_flag then window_erase else []) @ shown @ (if more then window_more else []), rest) \<and>
    buffer_ok b' \<and> buffer_content b = shown @ buffer_content b' \<and> (more \<longrightarrow> b_data b' \<noteq> [] \<and> \<not> no_more_flag)"
proof -
  let ?Q = "\<lambda>d. d_sp d = d_cp d"
  define h where "h = (if height < 1 then 1 else if height \<ge> 2 then height - 1 else height)"
  define w where "w = (if width < 1 then 1 else width)"
  define al where "al = (if length (b_data b) = 1 then 3 else nat (h * (w + 2)) div b_size b + 10)"
  define iov where "iov = (if erase_flag then [window_erase] else [])"
  have hw: "h * (w + 2) < 2 ^ 31 - 10"
  proof -
    have "h * (w + 2) \<le> max 1 height * (max 1 width + 2)" by (intro mult_mono) (auto simp: h_def w_def)
    then show ?thesis using assms(6) by linarith
  qed
  have ok: "\<forall>d \<in> set (b_data b). chunk_ok (b_size b) d" using assms(1) by (simp add: buffer_ok_def)
  have "length iov < al" by (auto simp: iov_def al_def)
  from window_loop_content [OF ok this, of w 1 h] obtain ds shown al' where r:
    "window_loop w (b_data b) 1 h iov al = Some (ds, iov @ shown, al')" "length (iov @ shown) < al'"
    "length shown \<le> length (b_data b)" "length ds = length (b_data b)"
    "buffer_content b = concat shown @ concat (map chunk_content (dropWhile ?Q ds))"
    "\<forall>d \<in> set (dropWhile ?Q ds). chunk_ok (b_size b) d" unfolding buffer_content_def by blast
  define more where "more = (d_sp (last ds) < d_cp (last ds) \<and> \<not> no_more_flag)"
  define v where "v = (iov @ shown) @ (if more then [window_more] else [])"
  have vs: "(if d_sp (last ds) < d_cp (last ds) \<and> \<not> no_more_flag
      then (if length (iov @ shown) < al' then Some ((iov @ shown) @ [window_more]) else None)
      else Some (iov @ shown)) = Some v"
    using r(2) by (simp add: v_def more_def)
  have "length v \<le> length script" using r(3) assms(5) by (auto simp: iov_def v_def)
  then obtain rest where wv: "window_writev iov_max (Suc (length v)) v script = Some (True, concat v, rest)"
    using window_writev_all [OF assms(3), of v "Suc (length v)" script] assms(4) by auto
  let ?b = "b\<lparr>b_data := dropWhile ?Q ds\<rparr>"
  have "last ds \<in> set ds" using r(4) assms(2) by (intro last_in_set) auto
  then have m: "more \<longrightarrow> b_data ?b \<noteq> [] \<and> \<not> no_more_flag"
    by (auto simp: more_def dropWhile_eq_Nil_conv intro!: bexI [of _ "last ds"])
  have "buffer_flush_window iov_max b width height erase_flag no_more_flag script =
    Some (if b_data ?b = [] then BUFFER_EMPTY else BUFFER_PENDING, ?b, concat v, rest)"
  proof -
    have "(if length (b_data b) = 1 then Some 3
        else if h * (w + 2) < 2 ^ 31 - 10 then Some (nat (h * (w + 2)) div b_size b + 10) else None) = Some al"
      using hw by (simp add: al_def)
    then show ?thesis using assms(2) r(1) vs wv
      unfolding buffer_flush_window_def h_def [symmetric] w_def [symmetric] Let_def iov_def [symmetric]
      by (simp del: window_writev.simps)
  qed
  moreover have "buffer_ok ?b" using r(6) assms(1) by (simp add: buffer_ok_def)
  moreover have "buffer_content b = concat shown @ buffer_content ?b" using r(5) by (simp add: buffer_content_def)
  ultimately show ?thesis using m
    by (intro exI [of _ ?b] exI [of _ "concat shown"] exI [of _ more] exI [of _ rest]) (simp add: iov_def v_def)
qed

lemma buffer_content_empty: "buffer_ok b \<Longrightarrow> buffer_content b = [] \<longleftrightarrow> b_data b = []"
  by (cases "b_data b") (auto simp: buffer_content_def buffer_ok_def dest: chunk_content_ne)

lemma buffer_write_content:
  assumes "buffer_ok b" "n \<le> length p" "b_data b \<noteq> [] \<or> script \<noteq> []"
  shows "\<exists>st b' en' out rest. buffer_write b p n en script = Some (st, b', en', out, rest) \<and> buffer_ok b' \<and>
    (if st = BUFFER_ERROR then b' = b \<and> out = []
     else buffer_content b @ take n p = out @ buffer_content b' \<and> (b_data b \<noteq> [] \<longrightarrow> out = [] \<and> rest = script) \<and>
       (st = BUFFER_EMPTY \<longleftrightarrow> buffer_content b' = []))"
proof -
  have put: "\<exists>b'. (if w < n then buffer_put b (drop w p) (n - w) else Some b) = Some b' \<and> buffer_ok b' \<and>
      buffer_content b' = buffer_content b @ take (n - w) (drop w p)" for w
    using buffer_put_content [OF assms(1), of "n - w" "drop w p"] assms(1,2) by (auto simp: diff_le_mono)
  have tk: "take w p @ take (n - w) (drop w p) = take n p" if "w \<le> n" for w
    using that by (metis le_add_diff_inverse take_add)
  show ?thesis
  proof (cases "b_data b = []")
    case False
    obtain b' where b': "(if 0 < n then buffer_put b (drop 0 p) (n - 0) else Some b) = Some b'" "buffer_ok b'"
      "buffer_content b' = buffer_content b @ take n p" using put [of 0] by auto
    have ne: "buffer_content b' \<noteq> []" "b_data b' \<noteq> []"
      using b'(2,3) False buffer_content_empty [OF assms(1)] buffer_content_empty [OF b'(2)] by auto
    have "buffer_write b p n en script = Some (BUFFER_PENDING, b', en, [], script)"
      using False b'(1) ne(2) assms(2) by (simp add: buffer_write_def)
    then show ?thesis using b' ne False by simp
  next
    case True
    then have c: "buffer_content b = []" using buffer_content_empty [OF assms(1)] by simp
    obtain x rest where s: "script = x # rest" using True assms(3) by (cases script) auto
    have fin: ?thesis if w: "w \<le> n" and e: "buffer_write b p n en script = do {
        b \<leftarrow> (if w < n then buffer_put b (drop w p) (n - w) else Some b);
        Some (if b_data b \<noteq> [] then BUFFER_PENDING else BUFFER_EMPTY, b, en', take w p, rest) }" for w en'
    proof -
      obtain b' where b': "(if w < n then buffer_put b (drop w p) (n - w) else Some b) = Some b'" "buffer_ok b'"
        "buffer_content b' = take (n - w) (drop w p)" using put [of w] c by auto
      have "buffer_write b p n en script =
          Some (if b_data b' \<noteq> [] then BUFFER_PENDING else BUFFER_EMPTY, b', en', take w p, rest)"
        unfolding e b'(1) by simp
      moreover have "take n p = take w p @ buffer_content b'" using tk [OF w] b'(3) by simp
      ultimately show ?thesis using b' c True buffer_content_empty [OF b'(2)]
        by (intro exI [of _ "if b_data b' \<noteq> [] then BUFFER_PENDING else BUFFER_EMPTY"] exI [of _ b'] exI [of _ en']
            exI [of _ "take w p"] exI [of _ rest]) auto
    qed
    show ?thesis
    proof (cases x)
      case (Wrote k)
      then show ?thesis using assms(2) True s by (intro fin [of "min k n" en]) (simp_all add: buffer_write_def)
    next
      case (Failed e)
      show ?thesis
      proof (cases "ERRNO_IO_RETRY e")
        case True
        then show ?thesis using assms(2) \<open>b_data b = []\<close> s Failed
          by (intro fin [of 0 e]) (simp_all add: buffer_write_def)
      next
        case False
        then show ?thesis using assms(1,2) True s Failed by (simp add: buffer_write_def)
      qed
    qed
  qed
qed

lemma buffer_new_ok: "0 < pgsz \<Longrightarrow> buffer_ok (buffer_new pgsz n) \<and> buffer_content (buffer_new pgsz n) = []"
  by (simp add: buffer_new_def buffer_ok_def buffer_content_def)

end
