(* ===== verification/Varint.thy ===== *)
theory Varint
  imports YJC_Prelude
begin

text \<open>
  The integer helpers of \<^verbatim>\<open>src/base/math.h\<close>: rounding to powers of two on \<open>unsigned long\<close>, and the
  base-128 variable-length integers the framing of packets reads.
\<close>

section \<open>Model\<close>

text \<open>\<open>while (n >>= 1) ++e\<close>: the count, and \<open>while (e--) ret <<= 1\<close>.\<close>

function count_shifts :: "u64 \<Rightarrow> nat \<Rightarrow> nat" where
  "count_shifts n e = (if drop_bit 1 n \<noteq> 0 then count_shifts (drop_bit 1 n) (Suc e) else e)"
  by pat_completeness auto
termination
proof (relation "measure (\<lambda>(n, e). unat n)")
  fix n :: u64 and e :: nat
  assume "drop_bit 1 n \<noteq> 0"
  then have "0 < unat (drop_bit 1 n)" by (simp add: unat_gt_0)
  then show "((drop_bit 1 n, Suc e), n, e) \<in> measure (\<lambda>(n, e). unat n)"
    by (simp add: unat_drop_bit)
qed simp

declare count_shifts.simps [simp del]

fun shift_loop :: "nat \<Rightarrow> u64 \<Rightarrow> u64" where
  "shift_loop 0 r = r"
| "shift_loop (Suc e) r = shift_loop e (push_bit 1 r)"

definition floor2e :: "u64 \<Rightarrow> u64" where
  "floor2e num = shift_loop (count_shifts num 0) 1"

definition ceil2e :: "u64 \<Rightarrow> u64" where
  "ceil2e num = (if num = 0 \<or> num = 1 then 1 else shift_loop (count_shifts (num - 1) 1) 1)"

text \<open>\<open>varint_encode\<close> writes to \<open>buf\<close> from offset \<open>i\<close>; \<open>>>\<close> on a \<open>long long\<close> is arithmetic, \<open>& 0x7F\<close> is
  the value modulo 128.\<close>

function varint_encode_loop :: "int \<Rightarrow> u8 list \<Rightarrow> nat \<Rightarrow> (nat \<times> u8 list) option" where
  "varint_encode_loop v buf i =
     (if i < length buf
      then (let ch = v mod 128; v' = v div 128;
                buf = buf[i := (if v' = 0 then of_int ch else of_int ch OR 0x80)]
            in if v' \<noteq> 0 then varint_encode_loop v' buf (Suc i) else Some (Suc i, buf))
      else None)"
  by pat_completeness auto
termination by (relation "measure (\<lambda>(v, buf, i). length buf - i)") auto

declare varint_encode_loop.simps [simp del]

definition varint_encode :: "int \<Rightarrow> u8 list \<Rightarrow> (nat \<times> u8 list) option" where
  "varint_encode v buf = varint_encode_loop v buf 0"

text \<open>\<open>varint_decode\<close> reads \<open>buf\<close> from offset \<open>off\<close>; the result is the value and what is stored in
  \<open>*len\<close>. The loop body runs at most ten times.\<close>

fun varint_decode_loop :: "nat \<Rightarrow> u8 list \<Rightarrow> nat \<Rightarrow> int \<Rightarrow> nat \<Rightarrow> u64 \<Rightarrow> (u64 \<times> int) option" where
  "varint_decode_loop 0 buf off len bytes ret = Some (ret, - 1)"
| "varint_decode_loop (Suc fuel) buf off len bytes ret =
     (if len \<noteq> 0 \<and> int bytes = len then Some (0, 0)
      else do {
        c \<leftarrow> mem_read buf (off + bytes);
        let ret = ret OR push_bit (7 * bytes) (ucast (c AND 0x7F));
        (if c AND 0x80 = 0 then Some (ret, int bytes + 1)
         else varint_decode_loop fuel buf off len (bytes + 1) ret) })"

definition varint_decode :: "u8 list \<Rightarrow> nat \<Rightarrow> int \<Rightarrow> (u64 \<times> int) option" where
  "varint_decode buf off len = varint_decode_loop 10 buf off len 0 0"

section \<open>Powers of two\<close>

lemma unat_shift_loop: "unat (shift_loop e r) = unat r * 2 ^ e mod 2 ^ 64"
proof (induction e arbitrary: r)
  case 0
  then show ?case using unsigned_less [of r, where 'a = nat] by simp
next
  case (Suc e)
  have "unat (push_bit 1 r) = unat r * 2 mod 2 ^ 64"
    unfolding unsigned_push_bit_eq by (simp add: take_bit_eq_mod push_bit_eq_mult)
  then show ?case unfolding shift_loop.simps Suc by (simp only: mod_mult_left_eq power_Suc mult.assoc)
qed

lemma count_shifts_log:
  "n \<noteq> 0 \<Longrightarrow> \<exists>k. count_shifts n e = e + k \<and> 2 ^ k \<le> unat n \<and> unat n < 2 ^ Suc k"
proof (induction n e rule: count_shifts.induct)
  case (1 n e)
  show ?case
  proof (cases "drop_bit 1 n = 0")
    case True
    then have "unat n div 2 = 0" using unat_drop_bit [of 1 n] by simp
    moreover have "0 < unat n" using 1(2) by (simp add: unat_gt_0)
    ultimately have "unat n = 1" by linarith
    then show ?thesis using True by (subst count_shifts.simps) (auto intro: exI [of _ 0])
  next
    case False
    obtain k where k: "count_shifts (drop_bit 1 n) (Suc e) = Suc e + k" "2 ^ k \<le> unat n div 2" "unat n div 2 < 2 ^ Suc k"
      using 1(1) [OF False False] by (auto simp: unat_drop_bit)
    have "count_shifts n e = e + Suc k" using False k(1) by (subst count_shifts.simps) simp
    moreover have "2 ^ Suc k \<le> unat n" "unat n < 2 ^ Suc (Suc k)" using k(2,3) by auto
    ultimately show ?thesis by blast
  qed
qed

lemma floor2e_bounds:
  assumes "n \<noteq> 0"
  shows "\<exists>k. unat (floor2e n) = 2 ^ k \<and> unat (floor2e n) \<le> unat n \<and> unat n < 2 * unat (floor2e n)"
proof -
  obtain k where k: "count_shifts n 0 = k" "2 ^ k \<le> unat n" "unat n < 2 ^ Suc k"
    using count_shifts_log [OF assms, of 0] by auto
  have "unat n < 2 ^ 64" using unsigned_less [of n, where 'a = nat] by simp
  then have "(2::nat) ^ k < 2 ^ 64" using k(2) by linarith
  then have "unat (floor2e n) = 2 ^ k" using k(1) by (simp add: floor2e_def unat_shift_loop)
  then show ?thesis using k by (intro exI [of _ k]) auto
qed

text \<open>Above \<open>2 ^ 63\<close> there is no power of two to return: the shift leaves zero.\<close>

lemma ceil2e_bounds:
  assumes "1 < unat n"
  shows "unat n \<le> 2 ^ 63 \<Longrightarrow> \<exists>k. unat (ceil2e n) = 2 ^ k \<and> unat n \<le> unat (ceil2e n) \<and> unat (ceil2e n) < 2 * unat n"
    "2 ^ 63 < unat n \<Longrightarrow> ceil2e n = 0"
proof -
  have n: "n \<noteq> 0" "n \<noteq> 1" using assms by auto
  then have u: "unat (n - 1) = unat n - 1" by (simp add: unat_minus_one)
  then have "n - 1 \<noteq> 0" using n by auto
  then obtain k where k: "count_shifts (n - 1) 1 = Suc k" "2 ^ k \<le> unat n - 1" "unat n - 1 < 2 ^ Suc k"
    using count_shifts_log [of "n - 1" 1] u by auto
  have c: "unat (ceil2e n) = 2 ^ Suc k mod 2 ^ 64"
    using n k(1) unat_shift_loop [of "Suc k" 1] by (simp add: ceil2e_def)
  show "\<exists>k. unat (ceil2e n) = 2 ^ k \<and> unat n \<le> unat (ceil2e n) \<and> unat (ceil2e n) < 2 * unat n" if "unat n \<le> 2 ^ 63"
  proof -
    have "(2::nat) ^ k < 2 ^ 63" using k(2) that assms by linarith
    then have "k < 63" by (rule power_less_imp_less_exp [rotated]) simp
    then have "(2::nat) ^ Suc k < 2 ^ 64" by (intro power_strict_increasing) auto
    then have "unat (ceil2e n) = 2 ^ Suc k" unfolding c by (rule mod_less)
    then show ?thesis using k(2,3) assms by (intro exI [of _ "Suc k"]) auto
  qed
  show "ceil2e n = 0" if "2 ^ 63 < unat n"
  proof -
    have "(2::nat) ^ 63 < 2 ^ Suc k" using k(3) that by linarith
    then have "63 < Suc k" by (rule power_less_imp_less_exp [rotated]) simp
    then have "(2::nat) ^ 64 dvd 2 ^ Suc k" by (intro le_imp_power_dvd) simp
    then have "unat (ceil2e n) = 0" unfolding c by (simp only: dvd_eq_mod_eq_0)
    then show ?thesis by (simp only: unat_eq_zero)
  qed
qed

section \<open>Variable-length integers\<close>

text \<open>The reference encoding: seven bits a byte, least significant first, the top bit set on all but the
  last.\<close>

function varint :: "nat \<Rightarrow> u8 list" where
  "varint v = (if v < 128 then [of_nat v] else of_nat (v mod 128 + 128) # varint (v div 128))"
  by pat_completeness auto
termination by (relation "measure (\<lambda>v. v)") auto

declare varint.simps [simp del]

lemma take_bit_self: "unat (x :: 'a::len word) < 2 ^ k \<Longrightarrow> take_bit k x = x"
  by (simp add: word_unat_eq_iff unsigned_take_bit_eq take_bit_nat_eq_self)

lemma or_push_disjoint:
  assumes "unat (x :: 'a::len word) < 2 ^ k"
  shows "x OR push_bit k y = x + push_bit k y"
proof -
  have "x AND push_bit k y = take_bit k x AND push_bit k y" using take_bit_self [OF assms] by simp
  also have "\<dots> = 0" by (rule bit_eqI) (auto simp: bit_and_iff bit_take_bit_iff bit_push_bit_iff)
  finally show ?thesis by (simp add: disjunctive_add_eq_or)
qed

lemma or_80: "(of_nat x :: u8) OR 0x80 = of_nat (x + 128)" if "x < 128"
proof -
  have "(of_nat x :: u8) OR push_bit 7 1 = of_nat x + push_bit 7 1"
    using that by (intro or_push_disjoint) (simp add: unat_of_nat)
  then show ?thesis by simp
qed

lemma varint_encode_loop_varint:
  assumes "i + length (varint v) \<le> length buf"
  shows "varint_encode_loop (int v) buf i =
    Some (i + length (varint v), take i buf @ varint v @ drop (i + length (varint v)) buf)"
  using assms
proof (induction v arbitrary: buf i rule: varint.induct)
  case (1 v)
  show ?case
  proof (cases "v < 128")
    case True
    then have "int v div 128 = 0" "int v mod 128 = int v" by auto
    moreover have i: "i < length buf" using 1(2) by (subst (asm) varint.simps) (simp split: if_splits)
    ultimately show ?thesis using True
      by (subst varint_encode_loop.simps) (simp add: varint.simps upd_conv_take_nth_drop)
  next
    case False
    let ?c = "of_nat (v mod 128 + 128) :: u8"
    have v: "varint v = ?c # varint (v div 128)" using False by (subst varint.simps) simp
    have i: "i < length buf" and l: "Suc i + length (varint (v div 128)) \<le> length (buf[i := ?c])" using 1(2) v by auto
    have "(of_int (int v mod 128) :: u8) OR 0x80 = ?c"
    proof -
      have "(of_int (int v mod 128) :: u8) = of_nat (v mod 128)"
        by (metis of_int_of_nat_eq of_nat_numeral zmod_int)
      then show ?thesis using or_80 [of "v mod 128"] by simp
    qed
    moreover have "int v div 128 = int (v div 128)" "v div 128 \<noteq> 0" using False by (auto simp: zdiv_int)
    ultimately have "varint_encode_loop (int v) buf i = varint_encode_loop (int (v div 128)) (buf[i := ?c]) (Suc i)"
      using i by (subst varint_encode_loop.simps) (simp add: Let_def)
    then show ?thesis using 1(1) [OF False l] i unfolding v
      by (simp add: take_Suc_conv_app_nth)
  qed
qed

lemma unat_or_push:
  assumes "unat (r :: u64) < 2 ^ k" "unat x * 2 ^ k < 2 ^ 64" "k \<le> 64"
  shows "unat (r OR push_bit k x) = unat r + unat x * 2 ^ k"
proof -
  have p: "unat (push_bit k x) = unat x * 2 ^ k"
    using assms(2) unfolding unsigned_push_bit_eq by (simp add: take_bit_eq_mod push_bit_eq_mult)
  have e: "(2::nat) ^ 64 = 2 ^ (64 - k) * 2 ^ k" using assms(3) by (simp flip: power_add)
  then have "unat x * 2 ^ k < 2 ^ (64 - k) * 2 ^ k" using assms(2) by (simp only:)
  then have "unat x < 2 ^ (64 - k)" by (rule mult_right_less_imp_less) simp
  then have "(unat x + 1) * 2 ^ k \<le> 2 ^ (64 - k) * 2 ^ k" by (intro mult_right_mono) auto
  then have "unat r + unat x * 2 ^ k < 2 ^ 64" using assms(1) e by (simp add: add_mult_distrib)
  then show ?thesis unfolding or_push_disjoint [OF assms(1)] unat_word_ariths p by simp
qed

lemma length_varint: "v < 128 ^ n \<Longrightarrow> 0 < n \<Longrightarrow> length (varint v) \<le> n"
proof (induction n arbitrary: v)
  case (Suc n)
  show ?case
  proof (cases "v < 128")
    case True
    then show ?thesis by (simp add: varint.simps)
  next
    case False
    then have "0 < n" using Suc.prems by (cases n) auto
    moreover have "v div 128 < 128 ^ n" using Suc.prems by (simp add: less_mult_imp_div_less mult.commute)
    ultimately show ?thesis using Suc.IH False by (subst varint.simps) simp
  qed
qed simp

lemma unat_and_7F: "unat (x AND (0x7F :: u8)) = unat x mod 128"
  using unat_and_mask [of x 7] by (simp add: mask_eq_exp_minus_1)

lemma unat_hi: "unat (of_nat (v mod 128) + 0x80 :: u8) = v mod 128 + 128"
  by (simp add: unat_word_ariths unat_of_nat)

lemma and_80_zero: "(x AND (0x80 :: u8)) = 0 \<longleftrightarrow> unat x < 128"
proof -
  have "x AND 0x80 = 0 \<longleftrightarrow> \<not> bit x 7"
    using and_exp_eq_0_iff_not_bit [of x 7] by simp
  also have "\<dots> \<longleftrightarrow> even (unat x div 128)"
    using bit_unsigned_iff [of x 7, where 'a = nat] by (auto simp: bit_iff_odd [of "unat x"])
  also have "\<dots> \<longleftrightarrow> unat x < 128"
  proof -
    have "unat x div 128 < 2" using unat_u8_less [of x] by (simp add: less_mult_imp_div_less)
    then show ?thesis by (auto simp: less_2_cases_iff div_eq_0_iff)
  qed
  finally show ?thesis .
qed

text \<open>Decoding stops after the encoding of \<open>v\<close>, whatever follows it.\<close>

lemma varint_decode_loop_varint:
  assumes "length (varint v) \<le> fuel" "off + bytes + length (varint v) \<le> length buf"
    "take (length (varint v)) (drop (off + bytes) buf) = varint v"
    "len = 0 \<or> int bytes + int (length (varint v)) \<le> len"
    "unat ret < 2 ^ (7 * bytes)" "v * 2 ^ (7 * bytes) < 2 ^ 64" "7 * bytes \<le> 64"
  shows "\<exists>r. varint_decode_loop fuel buf off len bytes ret = Some (r, int bytes + int (length (varint v))) \<and>
    unat r = unat ret + v * 2 ^ (7 * bytes)"
  using assms
proof (induction v arbitrary: fuel bytes ret rule: varint.induct)
  case (1 v)
  have v0: "varint v = (if v < 128 then [of_nat v] else of_nat (v mod 128 + 128) # varint (v div 128))"
    by (rule varint.simps)
  obtain f where f: "fuel = Suc f" using 1(2) v0 by (cases fuel) (auto split: if_splits)
  have off: "off + bytes < length buf" using 1(3) v0 by (auto split: if_splits)
  let ?c = "buf ! (off + bytes)"
  have c: "?c = hd (varint v)" using 1(4) off v0
    by (metis append_take_drop_id hd_append2 hd_drop_conv_nth list.discI)
  have le: "\<not> (len \<noteq> 0 \<and> int bytes = len)" using 1(5) v0 by (auto split: if_splits)
  let ?r = "ret OR push_bit (7 * bytes) (ucast (?c AND 0x7F))"
  have cv: "unat ?c mod 128 = v mod 128" using c v0 by (auto simp: unat_of_nat unat_hi split: if_splits)
  have x: "unat (ucast (?c AND 0x7F) :: u64) = v mod 128"
    using cv unat_and_7F [of ?c] by (simp add: unsigned_ucast_eq take_bit_eq_mod)
  have "v mod 128 * 2 ^ (7 * bytes) \<le> v * 2 ^ (7 * bytes)" by (intro mult_right_mono) auto
  then have vm: "v mod 128 * 2 ^ (7 * bytes) < 2 ^ 64" using 1(7) by (rule le_less_trans)
  have r: "unat ?r = unat ret + v mod 128 * 2 ^ (7 * bytes)"
    using unat_or_push [OF 1(6), of "ucast (?c AND 0x7F)"] 1(7,8) x vm by simp
  show ?case
  proof (cases "v < 128")
    case True
    then have "?c AND 0x80 = 0" using c v0 by (simp add: and_80_zero unat_of_nat)
    then show ?thesis using True f off le r v0 by (simp add: mem_read_def Let_def)
  next
    case False
    have "unat ?c = v mod 128 + 128" using c v0 False by (simp add: unat_hi)
    then have "?c AND 0x80 \<noteq> 0" by (simp add: and_80_zero)
    then have step: "varint_decode_loop fuel buf off len bytes ret = varint_decode_loop f buf off len (Suc bytes) ?r"
      using f off le by (auto simp: mem_read_def Let_def)
    have pw: "(2::nat) ^ (7 * Suc bytes) = 128 * 2 ^ (7 * bytes)" by (simp add: power_add)
    have vd: "v div 128 * 2 ^ (7 * Suc bytes) + v mod 128 * 2 ^ (7 * bytes) = v * 2 ^ (7 * bytes)"
      unfolding pw by (metis add_mult_distrib div_mult_mod_eq mult.assoc)
    have nx: "v div 128 * 2 ^ (7 * Suc bytes) < 2 ^ 64" using 1(7) vd by linarith
    have "unat ?r < 2 ^ (7 * Suc bytes)"
    proof -
      have "(v mod 128 + 1) * 2 ^ (7 * bytes) \<le> 128 * 2 ^ (7 * bytes)" by (intro mult_right_mono) auto
      then have "v mod 128 * 2 ^ (7 * bytes) + 2 ^ (7 * bytes) \<le> 128 * 2 ^ (7 * bytes)"
        by (simp only: add_mult_distrib mult_1)
      then show ?thesis unfolding r pw using 1(6) by linarith
    qed
    moreover have "7 * Suc bytes \<le> 64"
    proof (rule ccontr)
      assume "\<not> 7 * Suc bytes \<le> 64"
      then have "(2::nat) ^ 64 \<le> 2 ^ (7 * Suc bytes)" by (intro power_increasing) auto
      moreover have "1 * 2 ^ (7 * Suc bytes) \<le> v div 128 * 2 ^ (7 * Suc bytes)" using False by (intro mult_right_mono) auto
      ultimately show False using nx by linarith
    qed
    moreover have "take (length (varint (v div 128))) (drop (off + Suc bytes) buf) = varint (v div 128)"
    proof -
      have "drop (off + bytes) buf = ?c # drop (off + Suc bytes) buf" using off by (simp add: Cons_nth_drop_Suc)
      then show ?thesis using 1(4) v0 False by simp
    qed
    ultimately obtain q where q: "varint_decode_loop f buf off len (Suc bytes) ?r =
        Some (q, int (Suc bytes) + int (length (varint (v div 128))))" "unat q = unat ?r + v div 128 * 2 ^ (7 * Suc bytes)"
      using 1(1) [OF False, of f "Suc bytes" ?r] 1(2,3,5) v0 False f nx by auto
    then show ?thesis using step r vd v0 False by simp
  qed
qed

lemma varint_decode_varint:
  assumes "v < 2 ^ 63" "take (length (varint v)) (drop off buf) = varint v" "off + length (varint v) \<le> length buf"
    "len = 0 \<or> int (length (varint v)) \<le> len"
  shows "\<exists>r. varint_decode buf off len = Some (r, int (length (varint v))) \<and> unat r = v"
proof -
  have "v < 128 ^ 9" using assms(1) by simp
  then have "length (varint v) \<le> 9" by (rule length_varint) simp
  then show ?thesis
    using varint_decode_loop_varint [of v 10 off 0 buf len 0] assms by (simp add: varint_decode_def)
qed

text \<open>A negative value is shifted towards \<open>-1\<close> and never reaches zero: the encoder fills any buffer and
  runs over its end.\<close>

lemma varint_encode_negative: "v < 0 \<Longrightarrow> varint_encode_loop v buf i = None"
proof (induction v buf i rule: varint_encode_loop.induct)
  case (1 v buf i)
  have "v div 128 < 0" using 1(2) by (simp add: neg_imp_zdiv_neg_iff)
  then show ?case using 1(1) by (subst varint_encode_loop.simps) (auto simp: Let_def)
qed

end
