(* ===== verification/Unpack.thy ===== *)
theory Unpack
  imports Varint
begin

text \<open>
  The read path of a connection: \<open>nio_read\<close> of \<^verbatim>\<open>src/event/nio.c\<close>, the read buffer of
  \<^verbatim>\<open>src/event/event.c\<close> and the framing of \<^verbatim>\<open>src/event/unpack.c\<close>. Pointers into the read buffer are
  offsets, every access is checked against the allocated buffer. The packets handed to the
  application's \<open>read_cb\<close> are collected in order; a callback that changes the connection itself is
  not modelled. A buffer size that does not fit an \<open>int\<close> is \<open>None\<close>.
\<close>

section \<open>Model\<close>

datatype unpack_mode_e = UNPACK_MODE_NONE | UNPACK_BY_FIXED_LENGTH | UNPACK_BY_DELIMITER | UNPACK_BY_LENGTH_FIELD

datatype unpack_coding_e = ENCODE_BY_VARINT | ENCODE_BY_LITTEL_ENDIAN | ENCODE_BY_BIG_ENDIAN

definition DEFAULT_PACKAGE_MAX_LENGTH :: nat where "DEFAULT_PACKAGE_MAX_LENGTH = 2 ^ 21"
definition EVLOOP_READ_BUFSIZE :: nat where "EVLOOP_READ_BUFSIZE = 8192"
definition READ_BUFSIZE_HIGH_WATER :: nat where "READ_BUFSIZE_HIGH_WATER = 65536"

record unpack_setting =
  u_mode :: unpack_mode_e
  package_max_length :: nat
  fixed_length :: nat
  delimiter :: "u8 list"
  delimiter_bytes :: nat
  body_offset :: nat
  length_field_offset :: nat
  length_field_bytes :: nat
  length_adjustment :: int
  length_field_coding :: unpack_coding_e

text \<open>The fields of \<open>evio_t\<close> the read path uses. The buffer is the loop's own until another is set or
  allocated; \<open>io_reads\<close> is what \<open>read_cb\<close> was called with.\<close>

record evio =
  rb_base :: "u8 list"
  rb_len :: nat
  rb_head :: nat
  rb_tail :: nat
  alloced_readbuf :: bool
  loop_readbuf :: bool
  max_read_bufsize :: nat
  small_readbytes_cnt :: nat
  read_once :: bool
  read_until_len :: bool
  read_until_del :: bool
  read_until :: nat
  unpack_set :: "unpack_setting option"
  io_reading :: bool
  io_over_limit :: bool
  io_closed :: bool
  io_reads :: "u8 list list"

definition int_size :: "nat \<Rightarrow> nat option" where
  "int_size n = (if n < 2 ^ 31 then Some n else None)"

text \<open>\<open>evio_read_cb (io, base + off, len)\<close>.\<close>

definition evio_read_cb :: "evio \<Rightarrow> nat \<Rightarrow> nat \<Rightarrow> evio option" where
  "evio_read_cb io off n =
     (if off + n \<le> length (rb_base io)
      then (let io = (if read_once io then io\<lparr>read_once := False, io_reading := False\<rparr> else io);
                io = io\<lparr>io_reads := io_reads io @ [take n (drop off (rb_base io))]\<rparr>
            in Some (if alloced_readbuf io \<and> rb_len io > READ_BUFSIZE_HIGH_WATER
                     then io\<lparr>small_readbytes_cnt := (if n < rb_len io div 2 then small_readbytes_cnt io + 1 else 0)\<rparr>
                     else io))
      else None)"

definition evio_close :: "evio \<Rightarrow> evio" where
  "evio_close io = io\<lparr>io_closed := True\<rparr>"

text \<open>\<open>ev_zrealloc\<close> keeps the old content and clears the rest, \<open>EV_ALLOC\<close> gives cleared memory.\<close>

definition zrealloc :: "u8 list \<Rightarrow> nat \<Rightarrow> u8 list" where
  "zrealloc base n = take n base @ replicate (n - length base) 0"

definition evio_alloc_readbuf :: "evio \<Rightarrow> nat \<Rightarrow> evio option" where
  "evio_alloc_readbuf io len = do {
     len \<leftarrow> int_size len;
     Some (if len > max_read_bufsize io then evio_close io
           else io\<lparr>rb_base := (if alloced_readbuf io then zrealloc (rb_base io) len else replicate len 0),
                   rb_len := len, alloced_readbuf := True, loop_readbuf := False, small_readbytes_cnt := 0\<rparr>) }"

definition evio_free_readbuf :: "u8 list \<Rightarrow> evio \<Rightarrow> evio" where
  "evio_free_readbuf loop_base io =
     (if alloced_readbuf io
      then io\<lparr>alloced_readbuf := False, loop_readbuf := True, rb_base := loop_base, rb_len := length loop_base\<rparr>
      else io)"

definition evio_memmove_readbuf :: "evio \<Rightarrow> evio option" where
  "evio_memmove_readbuf io =
     (if rb_tail io = rb_head io then Some (io\<lparr>rb_head := 0, rb_tail := 0\<rparr>)
      else if rb_tail io > rb_head io then do {
        let n = rb_tail io - rb_head io;
        base \<leftarrow> mem_move (rb_base io) 0 (rb_head io) n;
        Some (io\<lparr>rb_base := base, rb_head := 0, rb_tail := n\<rparr>) }
      else Some io)"

definition evio_unset_unpack :: "u8 list \<Rightarrow> evio \<Rightarrow> evio" where
  "evio_unset_unpack loop_base io =
     (if unpack_set io \<noteq> None then evio_free_readbuf loop_base (io\<lparr>unpack_set := None\<rparr>) else io)"

text \<open>\<open>strlen\<close> of the delimiter array, and the assertions of \<open>evio_set_unpack\<close>.\<close>

definition evio_set_unpack :: "u8 list \<Rightarrow> evio \<Rightarrow> unpack_setting option \<Rightarrow> evio option" where
  "evio_set_unpack loop_base io setting =
     (let io = evio_unset_unpack loop_base io in
      case setting of None \<Rightarrow> Some io
      | Some s \<Rightarrow> do {
          let s = (if package_max_length s = 0 then s\<lparr>package_max_length := DEFAULT_PACKAGE_MAX_LENGTH\<rparr> else s);
          s \<leftarrow> (case u_mode s of
              UNPACK_BY_FIXED_LENGTH \<Rightarrow>
                (if fixed_length s \<noteq> 0 \<and> fixed_length s \<le> package_max_length s then Some s else None)
            | UNPACK_BY_DELIMITER \<Rightarrow>
                Some (if delimiter_bytes s = 0
                      then s\<lparr>delimiter_bytes := length (takeWhile (\<lambda>c. c \<noteq> 0) (delimiter s))\<rparr> else s)
            | UNPACK_BY_LENGTH_FIELD \<Rightarrow>
                (if body_offset s \<ge> length_field_offset s + length_field_bytes s then Some s else None)
            | UNPACK_MODE_NONE \<Rightarrow> Some s);
          let len = (if u_mode s = UNPACK_BY_FIXED_LENGTH then fixed_length s
                     else min EVLOOP_READ_BUFSIZE (package_max_length s));
          evio_alloc_readbuf (io\<lparr>unpack_set := Some s, rb_len := len, max_read_bufsize := package_max_length s\<rparr>) len })"

text \<open>The end of every unpacking: \<open>[p, p + remain]\<close> moves to the start of the buffer.\<close>

definition keep_remain :: "evio \<Rightarrow> nat \<Rightarrow> nat \<Rightarrow> evio option" where
  "keep_remain io p remain = do {
     let io = io\<lparr>rb_head := 0, rb_tail := remain\<rparr>;
     (if remain \<noteq> 0 \<and> p \<noteq> 0
      then do { base \<leftarrow> mem_move (rb_base io) 0 p remain; Some (io\<lparr>rb_base := base\<rparr>) }
      else Some io) }"

partial_function (option) fixed_loop :: "nat \<Rightarrow> evio \<Rightarrow> nat \<Rightarrow> nat \<Rightarrow> nat \<Rightarrow> (evio \<times> nat \<times> nat \<times> nat) option" where
  "fixed_loop n io p remain handled =
     (if remain \<ge> n
      then do { io \<leftarrow> evio_read_cb io p n; fixed_loop n io (p + n) (remain - n) (handled + n) }
      else Some (io, p, remain, handled))"

definition evio_unpack_by_fixed_length :: "evio \<Rightarrow> unpack_setting \<Rightarrow> nat \<Rightarrow> nat \<Rightarrow> (evio \<times> int) option" where
  "evio_unpack_by_fixed_length io s buf readbytes =
     (let sp = rb_head io; ep = buf + readbytes in
      if rb_len io \<ge> fixed_length s \<and> sp \<le> ep then do {
        (io, p, remain, handled) \<leftarrow> fixed_loop (fixed_length s) io sp (ep - sp) 0;
        io \<leftarrow> keep_remain io p remain;
        Some (io, int handled) }
      else None)"

text \<open>The comparison of the delimiter at \<open>p\<close>, from position \<open>i\<close> on.\<close>

function delim_match :: "u8 list \<Rightarrow> nat \<Rightarrow> u8 list \<Rightarrow> nat \<Rightarrow> nat \<Rightarrow> bool option" where
  "delim_match base p d n i =
     (if i < n
      then do {
        x \<leftarrow> mem_read base (p + i);
        y \<leftarrow> mem_read d i;
        (if x \<noteq> y then Some False else delim_match base p d n (i + 1)) }
      else Some True)"
  by pat_completeness auto
termination by (relation "measure (\<lambda>(base, p, d, n, i). n - i)") auto

declare delim_match.simps [simp del]

partial_function (option) delim_loop ::
    "unpack_setting \<Rightarrow> evio \<Rightarrow> nat \<Rightarrow> nat \<Rightarrow> nat \<Rightarrow> nat \<Rightarrow> (evio \<times> nat \<times> nat) option" where
  "delim_loop s io p remain sp handled =
     (if remain \<ge> delimiter_bytes s
      then do {
        found \<leftarrow> delim_match (rb_base io) p (delimiter s) (delimiter_bytes s) 0;
        (if found
         then do {
           let p = p + delimiter_bytes s;
           io \<leftarrow> evio_read_cb io sp (p - sp);
           delim_loop s io p (remain - delimiter_bytes s) p (handled + (p - sp)) }
         else delim_loop s io (p + 1) (remain - 1) sp handled) }
      else Some (io, sp, handled))"

definition evio_unpack_by_delimiter :: "evio \<Rightarrow> unpack_setting \<Rightarrow> nat \<Rightarrow> nat \<Rightarrow> (evio \<times> int) option" where
  "evio_unpack_by_delimiter io s buf readbytes =
     (let sp = rb_head io; ep = buf + readbytes;
          p0 = int buf - int (delimiter_bytes s) + 1;
          p = (if p0 < int sp then sp else nat p0)
      in if p \<le> ep \<and> sp \<le> ep then do {
        (io, sp, handled) \<leftarrow> delim_loop s io p (ep - p) sp 0;
        let remain = ep - sp;
        io \<leftarrow> keep_remain io sp remain;
        (if remain \<noteq> 0 \<and> rb_tail io = rb_len io
         then (if rb_len io \<ge> package_max_length s
               then Some (evio_close (io\<lparr>io_over_limit := True\<rparr>), - 1)
               else do {
                 io \<leftarrow> evio_alloc_readbuf io (min (rb_len io * 2) (package_max_length s));
                 Some (io, int handled) })
         else Some (io, int handled)) }
      else None)"

text \<open>The length field, as an \<open>unsigned int\<close>.\<close>

fun be_field :: "u8 list \<Rightarrow> nat \<Rightarrow> nat \<Rightarrow> u32 \<Rightarrow> u32 option" where
  "be_field base lp 0 body_len = Some body_len"
| "be_field base lp (Suc k) body_len = do {
     x \<leftarrow> mem_read base lp;
     be_field base (lp + 1) k (push_bit 8 body_len OR ucast x) }"

fun le_field :: "u8 list \<Rightarrow> nat \<Rightarrow> nat \<Rightarrow> nat \<Rightarrow> u32 \<Rightarrow> u32 option" where
  "le_field base lp 0 i body_len = Some body_len"
| "le_field base lp (Suc k) i body_len = do {
     x \<leftarrow> mem_read base lp;
     le_field base (lp + 1) k (i + 1) (body_len OR push_bit (i * 8) (ucast x)) }"

text \<open>What one turn of the loop of \<open>evio_unpack_by_length_field\<close> finds at \<open>p\<close>: the package length, a
  field that is not complete, or one that is too big.\<close>

datatype field = Package nat | Incomplete | Too_big

definition length_field :: "unpack_setting \<Rightarrow> u8 list \<Rightarrow> nat \<Rightarrow> nat \<Rightarrow> field option" where
  "length_field s base p ep =
     (let lp = p + length_field_offset s;
          package = (\<lambda>head_len body_len :: u32.
            Package (unat (head_len + body_len + of_int (length_adjustment s)))) in
      case length_field_coding s of
        ENCODE_BY_BIG_ENDIAN \<Rightarrow> do {
          body_len \<leftarrow> be_field base lp (length_field_bytes s) 0;
          Some (package (of_nat (body_offset s)) body_len) }
      | ENCODE_BY_LITTEL_ENDIAN \<Rightarrow> do {
          body_len \<leftarrow> le_field base lp (length_field_bytes s) 0 0;
          Some (package (of_nat (body_offset s)) body_len) }
      | ENCODE_BY_VARINT \<Rightarrow> do {
          (v, varint_bytes) \<leftarrow> varint_decode base lp (int ep - int lp);
          (if varint_bytes = 0 then Some Incomplete
           else if varint_bytes = - 1 then Some Too_big
           else Some (package (of_int (int (body_offset s) + varint_bytes - int (length_field_bytes s))) (ucast v))) })"

text \<open>The loop ends with the packages read, with the last package length computed, or with an error.\<close>

partial_function (option) field_loop ::
    "unpack_setting \<Rightarrow> evio \<Rightarrow> nat \<Rightarrow> nat \<Rightarrow> nat \<Rightarrow> nat \<Rightarrow> nat \<Rightarrow> (evio \<times> (nat \<times> nat \<times> nat \<times> nat) option) option" where
  "field_loop s io p ep remain handled package_len =
     (if remain \<ge> body_offset s
      then do {
        f \<leftarrow> length_field s (rb_base io) p ep;
        (case f of
           Too_big \<Rightarrow> Some (evio_close (io\<lparr>io_over_limit := True\<rparr>), None)
         | Incomplete \<Rightarrow> Some (io, Some (p, remain, handled, package_len))
         | Package n \<Rightarrow>
             (if remain \<ge> n
              then do { io \<leftarrow> evio_read_cb io p n; field_loop s io (p + n) ep (remain - n) (handled + n) n }
              else Some (io, Some (p, remain, handled, n)))) }
      else Some (io, Some (p, remain, handled, package_len)))"

definition evio_unpack_by_length_field :: "evio \<Rightarrow> unpack_setting \<Rightarrow> nat \<Rightarrow> nat \<Rightarrow> (evio \<times> int) option" where
  "evio_unpack_by_length_field io s buf readbytes =
     (let sp = rb_head io; ep = buf + readbytes in
      if sp \<le> ep then do {
        (io, r) \<leftarrow> field_loop s io sp ep (ep - sp) 0 (body_offset s);
        (case r of
           None \<Rightarrow> Some (io, - 1)
         | Some (p, remain, handled, package_len) \<Rightarrow> do {
             io \<leftarrow> keep_remain io p remain;
             (if remain \<noteq> 0 \<and> package_len > rb_len io
              then (if package_len > package_max_length s
                    then Some (evio_close (io\<lparr>io_over_limit := True\<rparr>), - 1)
                    else do {
                      let v = rb_len io * 2;
                      io \<leftarrow> evio_alloc_readbuf io
                        (if v < package_len then package_len
                         else if v > package_max_length s then package_max_length s else v);
                      Some (io, int handled) })
              else Some (io, int handled)) }) }
      else None)"

definition evio_unpack :: "evio \<Rightarrow> unpack_setting \<Rightarrow> nat \<Rightarrow> nat \<Rightarrow> (evio \<times> int) option" where
  "evio_unpack io s buf readbytes = (case u_mode s of
     UNPACK_BY_FIXED_LENGTH \<Rightarrow> evio_unpack_by_fixed_length io s buf readbytes
   | UNPACK_BY_DELIMITER \<Rightarrow> evio_unpack_by_delimiter io s buf readbytes
   | UNPACK_BY_LENGTH_FIELD \<Rightarrow> evio_unpack_by_length_field io s buf readbytes
   | UNPACK_MODE_NONE \<Rightarrow> do { io \<leftarrow> evio_read_cb io buf readbytes; Some (io, int readbytes) })"

text \<open>The head has caught up with the tail.\<close>

definition reset_readbuf :: "evio \<Rightarrow> evio" where
  "reset_readbuf io = (if rb_head io = rb_tail io then io\<lparr>rb_head := 0, rb_tail := 0\<rparr> else io)"

text \<open>\<open>for (int i = 0; i < readbytes; ++i, ++p)\<close>: the first delimiter.\<close>

fun find_delim :: "u8 list \<Rightarrow> nat \<Rightarrow> nat \<Rightarrow> nat \<Rightarrow> nat option option" where
  "find_delim base p 0 c = Some None"
| "find_delim base p (Suc k) c = do {
     x \<leftarrow> mem_read base p;
     (if unat x = c then Some (Some p) else find_delim base (p + 1) k c) }"

definition readbuf_autosize :: "evio \<Rightarrow> evio option" where
  "readbuf_autosize io =
     (let io = reset_readbuf io in
      if rb_tail io = rb_len io
      then (if rb_head io = 0 then evio_alloc_readbuf io (rb_len io * 2) else evio_memmove_readbuf io)
      else if rb_tail io < rb_len io div 2 \<and> small_readbytes_cnt io \<ge> 3
      then evio_alloc_readbuf io (rb_len io div 2)
      else Some io)"

definition evio_handle_read :: "evio \<Rightarrow> nat \<Rightarrow> nat \<Rightarrow> evio option" where
  "evio_handle_read io buf readbytes = (case unpack_set io of
     Some s \<Rightarrow> do { (io, r) \<leftarrow> evio_unpack io s buf readbytes; readbuf_autosize io }
   | None \<Rightarrow>
       (let sp = rb_head io; ep = buf + readbytes in
        if sp \<le> ep then
          (if read_until_len io
           then (if ep - sp \<ge> read_until io
                 then do {
                   let n = read_until io;
                   let io = reset_readbuf (io\<lparr>rb_head := rb_head io + n\<rparr>);
                   io \<leftarrow> evio_read_cb (io\<lparr>read_until_len := False\<rparr>) sp n;
                   readbuf_autosize io }
                 else readbuf_autosize io)
           else if read_until_del io
           then do {
             r \<leftarrow> find_delim (rb_base io) buf readbytes (read_until io mod 256);
             (case r of
                Some p \<Rightarrow> do {
                  let n = p - sp + 1;
                  let io = reset_readbuf (io\<lparr>rb_head := rb_head io + n\<rparr>);
                  evio_read_cb (io\<lparr>read_until_del := False\<rparr>) sp n }
              | None \<Rightarrow> readbuf_autosize io) }
           else do {
             io \<leftarrow> evio_read_cb (io\<lparr>rb_head := 0, rb_tail := 0\<rparr>) sp (ep - sp);
             readbuf_autosize io })
        else None))"

text \<open>\<open>evio_read_start\<close> is \<open>evio_read\<close>, which hands over what is already there.\<close>

definition evio_read_remain :: "evio \<Rightarrow> evio option" where
  "evio_read_remain io =
     (if rb_head io < rb_tail io
      then evio_read_cb (io\<lparr>rb_head := 0, rb_tail := 0\<rparr>) (rb_head io) (rb_tail io - rb_head io)
      else Some io)"

definition evio_read :: "evio \<Rightarrow> (evio \<times> int) option" where
  "evio_read io =
     (if io_closed io then Some (io, - 1)
      else do {
        let io = io\<lparr>io_reading := True\<rparr>;
        io \<leftarrow> (if rb_tail io > rb_head io \<and> unpack_set io = None \<and> \<not> read_once io \<and> \<not> read_until_len io \<and> \<not> read_until_del io
               then evio_read_remain io else Some io);
        Some (io, 0) })"

definition evio_read_once :: "evio \<Rightarrow> (evio \<times> int) option" where
  "evio_read_once io = evio_read (io\<lparr>read_once := True\<rparr>)"

definition evio_read_until_length :: "evio \<Rightarrow> nat \<Rightarrow> (evio \<times> int) option" where
  "evio_read_until_length io len =
     (if len = 0 then Some (io, 0)
      else if rb_tail io - rb_head io \<ge> len
      then do {
        let buf = rb_head io;
        io \<leftarrow> evio_read_cb (reset_readbuf (io\<lparr>rb_head := rb_head io + len\<rparr>)) buf len;
        Some (io, int len) }
      else do {
        let io = io\<lparr>read_once := False, read_until_len := True, read_until_del := False, read_until := len\<rparr>;
        io \<leftarrow> (if rb_head io > 1024 \<or> rb_tail io - rb_head io < 1024 then evio_memmove_readbuf io else Some io);
        let need_len = rb_head io + len;
        io \<leftarrow> (if loop_readbuf io \<or> rb_len io < need_len then evio_alloc_readbuf io need_len else Some io);
        evio_read_once io })"

text \<open>The scan \<open>while (p <= ep)\<close> also looks at the byte after the data.\<close>

definition evio_read_until_delim :: "evio \<Rightarrow> u8 \<Rightarrow> (evio \<times> int) option" where
  "evio_read_until_delim io delim = do {
     r \<leftarrow> (if rb_tail io - rb_head io > 0
           then find_delim (rb_base io) (rb_head io) (rb_tail io - rb_head io + 1) (unat delim) else Some None);
     (case r of
        Some p \<Rightarrow> do {
          let sp = rb_head io;
          let n = p - sp + 1;
          io \<leftarrow> evio_read_cb (reset_readbuf (io\<lparr>rb_head := rb_head io + n\<rparr>)) sp n;
          Some (io, int n) }
      | None \<Rightarrow> do {
          let io = io\<lparr>read_once := False, read_until_len := False, read_until_del := True, read_until := unat delim\<rparr>;
          io \<leftarrow> (if loop_readbuf io \<or> rb_len io < EVLOOP_READ_BUFSIZE
                 then evio_alloc_readbuf io EVLOOP_READ_BUFSIZE else Some io);
          evio_read_once io }) }"

text \<open>\<open>nio_read\<close> on a stream socket without SSL: the kernel's answer is a parameter; it is stored at the
  tail of the buffer.\<close>

datatype read_outcome = Data "u8 list" | Again | Msgsize | Read_error | Eof

definition nio_read :: "evio \<Rightarrow> read_outcome \<Rightarrow> evio option" where
  "nio_read io r =
     (let buf = rb_tail io;
          len = (if read_until_len io then int (read_until io) - (int (rb_tail io) - int (rb_head io))
                 else int (rb_len io) - int (rb_tail io))
      in if len > 0
         then (case r of
             Again \<Rightarrow> Some io
           | Msgsize \<Rightarrow> Some io
           | Read_error \<Rightarrow> Some (evio_close io)
           | Eof \<Rightarrow> Some (evio_close io)
           | Data xs \<Rightarrow>
               (if 0 < length xs \<and> int (length xs) \<le> len
                then do {
                  base \<leftarrow> mem_copy (rb_base io) buf xs 0 (length xs);
                  evio_handle_read (io\<lparr>rb_base := base, rb_tail := rb_tail io + length xs\<rparr>) buf (length xs) }
                else None))
         else None)"

declare fixed_loop.simps [code] delim_loop.simps [code] field_loop.simps [code]

section \<open>Framing as a function of the stream\<close>

text \<open>A framing tells from the bytes at hand how long the first package is, if they are enough to
  tell. The packages of a stream and what is left of it:\<close>

function frames :: "('a list \<Rightarrow> nat option) \<Rightarrow> 'a list \<Rightarrow> 'a list list \<times> 'a list" where
  "frames plen s = (case plen s of
     Some n \<Rightarrow>
       (if 0 < n \<and> n \<le> length s
        then (case frames plen (drop n s) of (ps, r) \<Rightarrow> (take n s # ps, r)) else ([], s))
   | None \<Rightarrow> ([], s))"
  by pat_completeness auto
termination by (relation "measure (\<lambda>(plen, s). length s)") auto

declare frames.simps [simp del]

lemma frames_concat: "concat (fst (frames plen s)) @ snd (frames plen s) = s"
proof (induction plen s rule: frames.induct)
  case (1 plen s)
  then show ?case by (subst (1 2) frames.simps) (auto split: option.splits prod.splits)
qed

locale framer =
  fixes plen :: "'a list \<Rightarrow> nat option"
  assumes plen_stable: "plen s = Some n \<Longrightarrow> plen (s @ t) = Some n"
    and plen_pos: "plen s \<noteq> Some 0"
begin

text \<open>Framing does not depend on how the stream arrives.\<close>

lemma frames_append:
  "frames plen (s @ t) =
     (fst (frames plen s) @ fst (frames plen (snd (frames plen s) @ t)), snd (frames plen (snd (frames plen s) @ t)))"
proof (induction "length s" arbitrary: s rule: less_induct)
  case less
  show ?case
  proof (cases "\<exists>n. plen s = Some n \<and> 0 < n \<and> n \<le> length s")
    case True
    then obtain n where n: "plen s = Some n" "0 < n" "n \<le> length s" by blast
    have st: "plen (s @ t) = Some n" using plen_stable n(1) by blast
    have "length (drop n s) < length s" using n by simp
    note ih = less [OF this]
    have "frames plen (s @ t) = (case frames plen (drop n s @ t) of (ps, r) \<Rightarrow> (take n s # ps, r))"
      using st n by (subst frames.simps) simp
    moreover have "frames plen s = (case frames plen (drop n s) of (ps, r) \<Rightarrow> (take n s # ps, r))"
      using n by (subst frames.simps) simp
    ultimately show ?thesis using ih by (simp split: prod.splits)
  next
    case False
    then have "frames plen s = ([], s)" by (subst frames.simps) (auto split: option.splits)
    then show ?thesis by simp
  qed
qed

lemma frames_residue: "frames plen (snd (frames plen s)) = ([], snd (frames plen s))"
proof (induction "length s" arbitrary: s rule: less_induct)
  case less
  show ?case
  proof (cases "\<exists>n. plen s = Some n \<and> 0 < n \<and> n \<le> length s")
    case True
    then obtain n where n: "plen s = Some n" "0 < n" "n \<le> length s" by blast
    have "length (drop n s) < length s" using n by simp
    note ih = less [OF this]
    have "frames plen s = (case frames plen (drop n s) of (ps, r) \<Rightarrow> (take n s # ps, r))"
      using n by (subst frames.simps) simp
    then show ?thesis using ih by (simp split: prod.splits)
  next
    case False
    then have "frames plen s = ([], s)" by (subst frames.simps) (auto split: option.splits)
    then show ?thesis by simp
  qed
qed

lemma frames_step:
  "plen s = Some n \<Longrightarrow> n \<le> length s \<Longrightarrow>
   frames plen s = (take n s # fst (frames plen (drop n s)), snd (frames plen (drop n s)))"
  using plen_pos [of s] by (subst frames.simps) (auto split: prod.splits)

lemma frames_stop: "(\<And>n. plen s = Some n \<Longrightarrow> length s < n) \<Longrightarrow> frames plen s = ([], s)"
  by (subst frames.simps) (auto split: option.splits)

end

text \<open>The three framings.\<close>

definition fixed_plen :: "nat \<Rightarrow> u8 list \<Rightarrow> nat option" where
  "fixed_plen n s = (if n = 0 then None else Some n)"

fun find_sub :: "u8 list \<Rightarrow> u8 list \<Rightarrow> nat option" where
  "find_sub d [] = (if d = [] then Some 0 else None)"
| "find_sub d (x # xs) = (if take (length d) (x # xs) = d then Some 0 else map_option Suc (find_sub d xs))"

definition delim_plen :: "u8 list \<Rightarrow> u8 list \<Rightarrow> nat option" where
  "delim_plen d s = (if d = [] then None else map_option (\<lambda>k. k + length d) (find_sub d s))"

definition field_ok :: "unpack_setting \<Rightarrow> bool" where
  "field_ok s \<longleftrightarrow> length_field_offset s + length_field_bytes s \<le> body_offset s \<and>
     (length_field_coding s = ENCODE_BY_VARINT \<longrightarrow> 0 < length_field_bytes s)"

definition field_plen :: "unpack_setting \<Rightarrow> u8 list \<Rightarrow> nat option" where
  "field_plen s bs = (if field_ok s \<and> body_offset s \<le> length bs
     then (case length_field s bs 0 (length bs) of Some (Package n) \<Rightarrow> (if n = 0 then None else Some n) | _ \<Rightarrow> None) else None)"

interpretation fixed: framer "fixed_plen n" for n
  by unfold_locales (auto simp: fixed_plen_def)

lemma find_sub_len: "find_sub d s = Some k \<Longrightarrow> k + length d \<le> length s \<and> take (length d) (drop k s) = d"
proof (induction d s arbitrary: k rule: find_sub.induct)
  case (2 d x xs)
  show ?case
  proof (cases "take (length d) (x # xs) = d")
    case True
    then have "length d \<le> length (x # xs)" by (metis length_take min.cobounded1)
    then show ?thesis using True 2 by simp
  next
    case False
    then show ?thesis using 2 by auto
  qed
qed (simp split: if_splits)

lemma find_sub_append: "find_sub d s = Some k \<Longrightarrow> find_sub d (s @ t) = Some k"
proof (induction d s arbitrary: k rule: find_sub.induct)
  case (1 d)
  then show ?case by (cases t) (auto split: if_splits)
next
  case (2 d x xs)
  show ?case
  proof (cases "take (length d) (x # xs) = d")
    case True
    then have "length d \<le> length (x # xs)" by (metis length_take min.cobounded1)
    then have "take (length d) ((x # xs) @ t) = d" unfolding take_append using True by simp
    then show ?thesis using True 2(2) by simp
  next
    case False
    then obtain j where j: "find_sub d xs = Some j" "k = Suc j" using 2(2) by auto
    have "length d \<le> length (x # xs)" using find_sub_len [OF j(1)] by simp
    then have "take (length d) ((x # xs) @ t) \<noteq> d" unfolding take_append using False by simp
    then show ?thesis using 2(1) [OF False j(1)] j(2) by simp
  qed
qed

interpretation delim: framer "delim_plen d" for d
  by unfold_locales (auto simp: delim_plen_def find_sub_append split: if_splits)

lemma mem_read_slice:
  "p + i < ep \<Longrightarrow> ep \<le> length base \<Longrightarrow> mem_read (take (ep - p) (drop p base)) i = mem_read base (p + i)"
  by (auto simp: mem_read_def)

lemma be_field_slice:
  "i + k \<le> ep - p \<Longrightarrow> ep \<le> length base \<Longrightarrow>
   be_field (take (ep - p) (drop p base)) i k b = be_field base (p + i) k b"
proof (induction k arbitrary: i b)
  case (Suc k)
  have m: "mem_read (take (ep - p) (drop p base)) i = mem_read base (p + i)"
    using Suc.prems by (intro mem_read_slice) auto
  show ?case using Suc.IH [of "i + 1"] Suc.prems by (simp add: m cong: Option.bind_cong)
qed simp

lemma le_field_slice:
  "i + k \<le> ep - p \<Longrightarrow> ep \<le> length base \<Longrightarrow>
   le_field (take (ep - p) (drop p base)) i k j b = le_field base (p + i) k j b"
proof (induction k arbitrary: i j b)
  case (Suc k)
  have m: "mem_read (take (ep - p) (drop p base)) i = mem_read base (p + i)"
    using Suc.prems by (intro mem_read_slice) auto
  show ?case using Suc.IH [of "i + 1"] Suc.prems by (simp add: m cong: Option.bind_cong)
qed simp

lemma varint_decode_loop_slice:
  "i < ep - p \<Longrightarrow> ep \<le> length base \<Longrightarrow> len = int (ep - p) - int i \<Longrightarrow> int bytes \<le> len \<Longrightarrow>
   varint_decode_loop fuel (take (ep - p) (drop p base)) i len bytes ret = varint_decode_loop fuel base (p + i) len bytes ret"
proof (induction fuel arbitrary: bytes ret)
  case (Suc fuel)
  show ?case
  proof (cases "int bytes = len")
    case False
    then have m: "mem_read (take (ep - p) (drop p base)) (i + bytes) = mem_read base (p + i + bytes)"
      using Suc.prems mem_read_slice [of p "i + bytes" ep base] by (simp add: add.assoc)
    have "int (bytes + 1) \<le> len" using False Suc.prems by linarith
    then have ih: "varint_decode_loop fuel (take (ep - p) (drop p base)) i len (Suc bytes) r =
        varint_decode_loop fuel base (p + i) len (Suc bytes) r" for r
      using Suc.IH [of "Suc bytes" r] Suc.prems by simp
    show ?thesis unfolding varint_decode_loop.simps m Suc_eq_plus1 [symmetric] ih ..
  qed (use Suc.prems in auto)
qed simp

text \<open>The length field only depends on the bytes between \<open>p\<close> and \<open>ep\<close>.\<close>

lemma length_field_slice:
  assumes "field_ok s" "body_offset s \<le> ep - p" "ep \<le> length base"
  shows "length_field s (take (ep - p) (drop p base)) 0 (ep - p) = length_field s base p ep"
proof -
  let ?o = "length_field_offset s"
  have o: "?o + length_field_bytes s \<le> ep - p" using assms by (simp add: field_ok_def)
  have v: "varint_decode (take (ep - p) (drop p base)) ?o (int (ep - p) - int ?o) = varint_decode base (p + ?o) (int ep - int (p + ?o))"
    if "length_field_coding s = ENCODE_BY_VARINT"
  proof -
    have l: "?o < ep - p" using o that assms(1) by (auto simp: field_ok_def)
    moreover have "int ep - int (p + ?o) = int (ep - p) - int ?o" using l by linarith
    ultimately show ?thesis unfolding varint_decode_def using assms(3)
      by (simp only:) (rule varint_decode_loop_slice; simp)
  qed
  show ?thesis
    using be_field_slice [OF o assms(3), of 0] le_field_slice [OF o assms(3), of 0 0] v
    by (cases "length_field_coding s") (simp_all add: length_field_def Let_def)
qed

lemma varint_decode_loop_more:
  assumes "varint_decode_loop fuel buf off len bytes ret = Some (r, k)" "k \<noteq> 0" "len > 0" "int bytes \<le> len" "len \<le> len'"
    "len = int (length buf) - int off"
  shows "varint_decode_loop fuel (buf @ t) off len' bytes ret = Some (r, k)"
  using assms
proof (induction fuel arbitrary: bytes ret)
  case (Suc fuel)
  have ne: "int bytes \<noteq> len" using Suc.prems(1-3) by auto
  then have b: "off + bytes < length buf" using Suc.prems by linarith
  have m: "(buf @ t) ! (off + bytes) = buf ! (off + bytes)" using b by (simp add: nth_append)
  have ne': "int bytes \<noteq> len'" "len' \<noteq> 0" using ne Suc.prems by linarith+
  have "int (bytes + 1) \<le> len" using ne Suc.prems by linarith
  then show ?case using Suc.IH [of "bytes + 1"] Suc.prems ne ne' b
    by (auto simp: m mem_read_def Let_def split: if_splits)
qed simp

lemma be_field_more: "be_field buf i k b = Some x \<Longrightarrow> be_field (buf @ t) i k b = Some x"
  by (induction k arbitrary: i b) (auto simp: mem_read_def nth_append split: bind_splits if_splits)

lemma le_field_more: "le_field buf i k j b = Some x \<Longrightarrow> le_field (buf @ t) i k j b = Some x"
  by (induction k arbitrary: i j b) (auto simp: mem_read_def nth_append split: bind_splits if_splits)

lemma length_field_more:
  assumes "length_field s bs 0 (length bs) = Some (Package n)" "field_ok s" "body_offset s \<le> length bs"
  shows "length_field s (bs @ t) 0 (length (bs @ t)) = Some (Package n)"
proof (cases "length_field_coding s")
  case ENCODE_BY_VARINT
  let ?o = "length_field_offset s"
  have l: "?o < length bs" using assms(2,3) ENCODE_BY_VARINT by (auto simp: field_ok_def)
  obtain v k where d: "varint_decode bs ?o (int (length bs) - int ?o) = Some (v, k)" "k \<noteq> 0" "k \<noteq> - 1"
    "n = unat (of_int (int (body_offset s) + k - int (length_field_bytes s)) + ucast v + of_int (length_adjustment s) :: u32)"
    using assms(1) ENCODE_BY_VARINT by (auto simp: length_field_def Let_def split: bind_splits if_splits)
  have "varint_decode (bs @ t) ?o (int (length (bs @ t)) - int ?o) = Some (v, k)"
    unfolding varint_decode_def using d(1,2) l
    by (intro varint_decode_loop_more [of 10 bs ?o "int (length bs) - int ?o"]) (auto simp: varint_decode_def)
  then show ?thesis using d ENCODE_BY_VARINT by (simp add: length_field_def)
next
  case ENCODE_BY_LITTEL_ENDIAN
  then obtain x where "le_field bs (length_field_offset s) (length_field_bytes s) 0 0 = Some x"
    "n = unat (of_nat (body_offset s) + x + of_int (length_adjustment s) :: u32)"
    using assms(1) by (auto simp: length_field_def split: bind_splits)
  then show ?thesis using ENCODE_BY_LITTEL_ENDIAN le_field_more by (simp add: length_field_def)
next
  case ENCODE_BY_BIG_ENDIAN
  then obtain x where "be_field bs (length_field_offset s) (length_field_bytes s) 0 = Some x"
    "n = unat (of_nat (body_offset s) + x + of_int (length_adjustment s) :: u32)"
    using assms(1) by (auto simp: length_field_def split: bind_splits)
  then show ?thesis using ENCODE_BY_BIG_ENDIAN be_field_more by (simp add: length_field_def)
qed

interpretation field: framer "field_plen s" for s
proof
  fix bs t n
  assume "field_plen s bs = Some n"
  then have "field_ok s" "body_offset s \<le> length bs" "length_field s bs 0 (length bs) = Some (Package n)" "n \<noteq> 0"
    by (auto simp: field_plen_def split: if_splits option.splits field.splits)
  then show "field_plen s (bs @ t) = Some n" using length_field_more [of s bs n t] by (simp add: field_plen_def)
next
  fix bs
  show "field_plen s bs \<noteq> Some 0" by (auto simp: field_plen_def split: if_splits option.splits field.splits)
qed

end
