(* ===== verification/Unpack_Stream.thy ===== *)
theory Unpack_Stream
  imports Unpack
begin

text \<open>
  What the application sees of a connection with a framing: the packages of the stream, however
  the kernel cuts the stream into reads. Each unpacking routine is shown to compute \<open>frames\<close> on
  the bytes kept from before and the new ones, and the read buffer to have room again after
  every read unless the connection was closed.
\<close>

section \<open>The loops\<close>

abbreviation bslice :: "u8 list \<Rightarrow> nat \<Rightarrow> nat \<Rightarrow> u8 list" where
  "bslice base p ep \<equiv> take (ep - p) (drop p base)"

text \<open>What \<open>evio_read_cb\<close> leaves alone.\<close>

definition rb_view :: "evio \<Rightarrow> u8 list \<times> nat \<times> nat \<times> nat \<times> bool \<times> nat \<times> unpack_setting option \<times> bool \<times> bool" where
  "rb_view io = (rb_base io, rb_len io, rb_head io, rb_tail io, alloced_readbuf io, max_read_bufsize io,
     unpack_set io, read_until_len io, io_closed io)"

lemma rb_viewD: "rb_view io' = rb_view io \<Longrightarrow> rb_base io' = rb_base io \<and> rb_len io' = rb_len io \<and>
   rb_head io' = rb_head io \<and> rb_tail io' = rb_tail io \<and> alloced_readbuf io' = alloced_readbuf io \<and>
   max_read_bufsize io' = max_read_bufsize io \<and> unpack_set io' = unpack_set io \<and>
   read_until_len io' = read_until_len io \<and> io_closed io' = io_closed io"
  by (simp add: rb_view_def)

text \<open>The packages \<open>ps\<close> were handed over; large packages do not count as small ones.\<close>

definition delivered :: "evio \<Rightarrow> evio \<Rightarrow> u8 list list \<Rightarrow> bool" where
  "delivered io io' ps \<longleftrightarrow> rb_view io' = rb_view io \<and> io_reads io' = io_reads io @ ps \<and>
     ((\<forall>p \<in> set ps. rb_len io div 2 \<le> length p) \<longrightarrow> small_readbytes_cnt io = 0 \<longrightarrow> small_readbytes_cnt io' = 0)"

lemma delivered_refl [simp]: "delivered io io []"
  by (simp add: delivered_def)

lemma delivered_trans: "delivered io io1 ps \<Longrightarrow> delivered io1 io2 qs \<Longrightarrow> delivered io io2 (ps @ qs)"
  unfolding delivered_def using rb_viewD [of io1 io] by auto

lemma delivered_base: "delivered io io' ps \<Longrightarrow> rb_base io' = rb_base io"
  by (simp add: delivered_def rb_view_def)

lemma evio_read_cb_delivered:
  "off + n \<le> length (rb_base io) \<Longrightarrow> \<exists>io'. evio_read_cb io off n = Some io' \<and> delivered io io' [take n (drop off (rb_base io))]"
  by (auto simp: evio_read_cb_def delivered_def rb_view_def Let_def)

lemma slice_step: "p + n \<le> ep \<Longrightarrow> drop n (bslice base p ep) = bslice base (p + n) ep"
  by (simp add: drop_take add.commute)

lemma slice_front: "p + n \<le> ep \<Longrightarrow> take n (bslice base p ep) = take n (drop p base)"
  by (simp add: min_absorb1)

lemma fixed_loop_frames:
  assumes "p \<le> ep" "ep \<le> length (rb_base io)" "0 < n"
  shows "\<exists>io' p' handled'. fixed_loop n io p (ep - p) handled = Some (io', p', ep - p', handled') \<and> p' \<le> ep \<and>
    delivered io io' (fst (frames (fixed_plen n) (bslice (rb_base io) p ep))) \<and>
    snd (frames (fixed_plen n) (bslice (rb_base io) p ep)) = bslice (rb_base io) p' ep"
  using assms(1,2)
proof (induction "ep - p" arbitrary: p io handled rule: less_induct)
  case less
  let ?s = "bslice (rb_base io) p ep"
  have plen: "fixed_plen n ?s = Some n" using assms(3) by (simp add: fixed_plen_def)
  show ?case
  proof (cases "n \<le> ep - p")
    case True
    have "p + n \<le> length (rb_base io)" using True less.prems by linarith
    from evio_read_cb_delivered [OF this] obtain io1 where
      io1: "evio_read_cb io p n = Some io1" "delivered io io1 [take n (drop p (rb_base io))]" by blast
    have b: "rb_base io1 = rb_base io" by (rule delivered_base [OF io1(2)])
    have "ep - (p + n) < ep - p" "p + n \<le> ep" "ep \<le> length (rb_base io1)" using True assms(3) less.prems b by auto
    from less.hyps [OF this, of "handled + n"] obtain io2 p2 h2 where r:
      "fixed_loop n io1 (p + n) (ep - (p + n)) (handled + n) = Some (io2, p2, ep - p2, h2)" "p2 \<le> ep"
      "delivered io1 io2 (fst (frames (fixed_plen n) (bslice (rb_base io) (p + n) ep)))"
      "snd (frames (fixed_plen n) (bslice (rb_base io) (p + n) ep)) = bslice (rb_base io) p2 ep" unfolding b by blast
    have "frames (fixed_plen n) ?s = (take n ?s # fst (frames (fixed_plen n) (drop n ?s)), snd (frames (fixed_plen n) (drop n ?s)))"
      using True less.prems by (intro fixed.frames_step plen) auto
    then have f: "frames (fixed_plen n) ?s = (take n (drop p (rb_base io)) # fst (frames (fixed_plen n) (bslice (rb_base io) (p + n) ep)),
        snd (frames (fixed_plen n) (bslice (rb_base io) (p + n) ep)))"
      using slice_step [of p n ep] slice_front [of p n ep] True less.prems(1) by (simp add: le_diff_conv2 add.commute)
    have "fixed_loop n io p (ep - p) handled = Some (io2, p2, ep - p2, h2)"
      using True io1(1) r(1) by (subst fixed_loop.simps) simp
    then show ?thesis using r delivered_trans [OF io1(2) r(3)] f by auto
  next
    case False
    then have "frames (fixed_plen n) ?s = ([], ?s)" using plen less.prems by (intro fixed.frames_stop) auto
    then show ?thesis using False less.prems by (subst fixed_loop.simps) auto
  qed
qed

text \<open>The delimiter.\<close>

lemma delim_match_take:
  assumes "p + n \<le> length base" "n \<le> length d" "i \<le> n"
  shows "delim_match base p d n i = Some (drop i (take n (drop p base)) = drop i (take n d))"
  using assms(3)
proof (induction "n - i" arbitrary: i)
  case 0
  then show ?case by (subst delim_match.simps) simp
next
  case (Suc k)
  then have i: "i < n" by simp
  have x: "drop i (take n (drop p base)) = base ! (p + i) # drop (i + 1) (take n (drop p base))"
    using i assms(1) by (subst Cons_nth_drop_Suc [symmetric]) auto
  have y: "drop i (take n d) = d ! i # drop (i + 1) (take n d)"
    using i assms(2) by (subst Cons_nth_drop_Suc [symmetric]) auto
  have "delim_match base p d n (i + 1) = Some (drop (i + 1) (take n (drop p base)) = drop (i + 1) (take n d))"
    using Suc by (intro Suc.hyps(1)) auto
  then show ?case unfolding x y using i assms(1,2) by (subst delim_match.simps) (simp add: mem_read_def)
qed

lemma find_subI:
  "k + length d \<le> length s \<Longrightarrow> take (length d) (drop k s) = d \<Longrightarrow> \<forall>i<k. take (length d) (drop i s) \<noteq> d \<Longrightarrow> find_sub d s = Some k"
proof (induction s arbitrary: k)
  case (Cons x xs)
  show ?case
  proof (cases k)
    case (Suc j)
    then have "\<forall>i<j. take (length d) (drop i xs) \<noteq> d" using Cons.prems(3) by (metis Suc_less_eq drop_Suc_Cons)
    then have "find_sub d xs = Some j" using Cons Suc by simp
    moreover have "take (length d) (x # xs) \<noteq> d" using Cons.prems(3) Suc by (metis drop0 zero_less_Suc)
    ultimately show ?thesis using Suc by simp
  qed (use Cons.prems in simp)
qed simp

lemma find_sub_NoneI: "\<forall>i. i + length d \<le> length s \<longrightarrow> take (length d) (drop i s) \<noteq> d \<Longrightarrow> find_sub d s = None"
  using find_sub_len [of d s] by (cases "find_sub d s") auto

lemma find_sub_NoneD: "find_sub d s = None \<Longrightarrow> i + length d \<le> length s \<Longrightarrow> take (length d) (drop i s) \<noteq> d"
proof (induction d s arbitrary: i rule: find_sub.induct)
  case (2 d x xs)
  then show ?case by (cases i) (auto split: if_splits)
qed (auto split: if_splits)

lemma delim_loop_frames:
  assumes "delimiter_bytes s \<le> length (delimiter s)" "0 < delimiter_bytes s"
    and "sp \<le> p" "p \<le> ep" "ep \<le> length (rb_base io)"
    and "\<forall>i < p - sp. take (delimiter_bytes s) (drop i (bslice (rb_base io) sp ep)) \<noteq> take (delimiter_bytes s) (delimiter s)"
  shows "\<exists>io' sp' handled'. delim_loop s io p (ep - p) sp handled = Some (io', sp', handled') \<and> sp' \<le> ep \<and>
    delivered io io' (fst (frames (delim_plen (take (delimiter_bytes s) (delimiter s))) (bslice (rb_base io) sp ep))) \<and>
    snd (frames (delim_plen (take (delimiter_bytes s) (delimiter s))) (bslice (rb_base io) sp ep)) = bslice (rb_base io) sp' ep"
  using assms(3-)
proof (induction "ep - p" arbitrary: p sp io handled rule: less_induct)
  case less
  let ?n = "delimiter_bytes s"
  let ?d = "take ?n (delimiter s)"
  let ?s = "bslice (rb_base io) sp ep"
  have d: "length ?d = ?n" "?d \<noteq> []" using assms(1,2) by auto
  show ?case
  proof (cases "?n \<le> ep - p")
    case True
    have m: "delim_match (rb_base io) p (delimiter s) ?n 0 = Some (take ?n (drop p (rb_base io)) = ?d)"
      using delim_match_take [of p ?n "rb_base io" "delimiter s" 0] True less.prems assms(1) by simp
    have here: "take ?n (drop (p - sp) ?s) = take ?n (drop p (rb_base io))"
      using True less.prems by (simp add: slice_step slice_front)
    show ?thesis
    proof (cases "take ?n (drop p (rb_base io)) = ?d")
      case found: True
      have "find_sub ?d ?s = Some (p - sp)"
        using found here less.prems True d by (intro find_subI) auto
      then have plen: "delim_plen ?d ?s = Some (p + ?n - sp)" using d less.prems(1) by (simp add: delim_plen_def)
      have "sp + (p + ?n - sp) \<le> length (rb_base io)" using True less.prems(1-3) by linarith
      from evio_read_cb_delivered [OF this] obtain io1 where io1: "evio_read_cb io sp (p + ?n - sp) = Some io1"
        "delivered io io1 [take (p + ?n - sp) (drop sp (rb_base io))]" by blast
      have b: "rb_base io1 = rb_base io" by (rule delivered_base [OF io1(2)])
      have "ep - (p + ?n) < ep - p" "p + ?n \<le> p + ?n" "p + ?n \<le> ep" "ep \<le> length (rb_base io1)"
        using True assms(2) less.prems b by auto
      from less.hyps [OF this, of "handled + (p + ?n - sp)"] obtain io2 sp2 h2 where r:
        "delim_loop s io1 (p + ?n) (ep - (p + ?n)) (p + ?n) (handled + (p + ?n - sp)) = Some (io2, sp2, h2)" "sp2 \<le> ep"
        "delivered io1 io2 (fst (frames (delim_plen ?d) (bslice (rb_base io) (p + ?n) ep)))"
        "snd (frames (delim_plen ?d) (bslice (rb_base io) (p + ?n) ep)) = bslice (rb_base io) sp2 ep" unfolding b by auto
      have "p + ?n - sp \<le> length ?s" using True less.prems by auto
      then have f: "frames (delim_plen ?d) ?s = (take (p + ?n - sp) ?s # fst (frames (delim_plen ?d) (drop (p + ?n - sp) ?s)),
          snd (frames (delim_plen ?d) (drop (p + ?n - sp) ?s)))"
        by (intro delim.frames_step plen)
      have "sp + (p + ?n - sp) = p + ?n" using less.prems(1) by simp
      then have f': "drop (p + ?n - sp) ?s = bslice (rb_base io) (p + ?n) ep" "take (p + ?n - sp) ?s = take (p + ?n - sp) (drop sp (rb_base io))"
        using slice_step [of sp "p + ?n - sp" ep] slice_front [of sp "p + ?n - sp" ep] True less.prems(2) by simp_all
      have "delim_loop s io p (ep - p) sp handled = Some (io2, sp2, h2)"
        using True m found io1(1) r(1) by (subst delim_loop.simps) simp
      then show ?thesis using r delivered_trans [OF io1(2) r(3)] unfolding f f' by auto
    next
      case no: False
      have "\<forall>i < (p + 1) - sp. take ?n (drop i ?s) \<noteq> ?d"
      proof (intro allI impI)
        fix i assume "i < (p + 1) - sp"
        then consider "i < p - sp" | "i = p - sp" using less.prems(1) by linarith
        then show "take ?n (drop i ?s) \<noteq> ?d" using less.prems(4) no here by cases auto
      qed
      moreover have "ep - (p + 1) < ep - p" "sp \<le> p + 1" "p + 1 \<le> ep" using True assms(2) less.prems by auto
      ultimately obtain io2 sp2 h2 where "delim_loop s io (p + 1) (ep - (p + 1)) sp handled = Some (io2, sp2, h2)" "sp2 \<le> ep"
        "delivered io io2 (fst (frames (delim_plen ?d) ?s))" "snd (frames (delim_plen ?d) ?s) = bslice (rb_base io) sp2 ep"
        using less.hyps [of "p + 1" sp io handled] less.prems(3) by blast
      moreover have "ep - p - 1 = ep - (p + 1)" by simp
      ultimately show ?thesis using True m no by (subst delim_loop.simps) auto
    qed
  next
    case False
    have "find_sub ?d ?s = None"
      using less.prems False d by (intro find_sub_NoneI) auto
    then have "frames (delim_plen ?d) ?s = ([], ?s)" by (intro delim.frames_stop) (auto simp: delim_plen_def split: if_splits)
    then show ?thesis using False less.prems by (subst delim_loop.simps) auto
  qed
qed

text \<open>The length field. The loop only ends when no package is empty, which \<open>field_pos\<close> says.\<close>

definition field_pos :: "unpack_setting \<Rightarrow> bool" where
  "field_pos s \<longleftrightarrow> (\<forall>bs. length_field s bs 0 (length bs) \<noteq> Some (Package 0))"

lemma or_small: "unat (x OR y :: u32) < 2 ^ k" if "unat x < 2 ^ k" "unat y < 2 ^ k"
proof -
  have "int (unat x) OR int (unat y) < 2 ^ k"
    using that by (intro OR_upper) (simp_all only: of_nat_0_le_iff of_nat_less_numeral_power_cancel_iff)
  then have "int (unat (x OR y)) < 2 ^ k" by (simp add: uint_or)
  then show ?thesis by (simp only: of_nat_less_numeral_power_cancel_iff)
qed

lemma be_field_bound:
  assumes "be_field base lp k b = Some v" "unat b < 2 ^ m" "m + 8 * k \<le> 32"
  shows "unat v < 2 ^ (m + 8 * k)"
  using assms
proof (induction k arbitrary: lp b m)
  case (Suc k)
  obtain x :: u8 where x: "be_field base (lp + 1) k (push_bit 8 b OR ucast x) = Some v"
    using Suc.prems(1) by (auto split: bind_splits intro: that)
  have "unat (push_bit 8 b :: u32) < 2 ^ (m + 8)"
    using Suc.prems(2) by (simp add: push_bit_eq_mult unat_word_ariths power_add)
  moreover have "unat (ucast x :: u32) < 2 ^ (m + 8)"
  proof -
    have "unat (ucast x :: u32) < 2 ^ 8" using unsigned_less [of x, where 'a = nat] by (simp add: unsigned_ucast_eq take_bit_nat_eq_self)
    also have "(2 :: nat) ^ 8 \<le> 2 ^ (m + 8)" by (rule power_increasing) simp_all
    finally show ?thesis .
  qed
  ultimately have "unat (push_bit 8 b OR ucast x :: u32) < 2 ^ (m + 8)" by (rule or_small)
  from Suc.IH [OF x this] Suc.prems(3) show ?case by (simp add: algebra_simps)
qed simp

text \<open>A big-endian field whose largest value keeps the package length below \<open>2 ^ 32\<close> never gives an empty
  package.\<close>

lemma field_pos_big_endian:
  assumes "length_field_coding s = ENCODE_BY_BIG_ENDIAN" "length_field_bytes s \<le> 4"
    "0 < int (body_offset s) + length_adjustment s"
    "int (body_offset s) + length_adjustment s + 2 ^ (8 * length_field_bytes s) \<le> 2 ^ 32"
  shows "field_pos s"
proof -
  have "unat (of_nat (body_offset s) + v + of_int (length_adjustment s) :: u32) \<noteq> 0"
    if "unat v < 2 ^ (8 * length_field_bytes s)" for v :: u32
  proof -
    let ?z = "int (body_offset s) + int (unat v) + length_adjustment s"
    have eq: "(of_nat (body_offset s) + v + of_int (length_adjustment s) :: u32) = of_int ?z" by simp
    have "int (unat v) < 2 ^ (8 * length_field_bytes s)" using that by (simp only: of_nat_less_numeral_power_cancel_iff)
    then have z: "0 < ?z" "?z < 2 ^ 32" using assms(3,4) by linarith+
    have "(of_int ?z :: u32) \<noteq> 0" unfolding word_of_int_eq_0_iff using zdvd_not_zless [OF z] by simp
    then show ?thesis unfolding eq by (simp only: unat_eq_zero not_False_eq_True)
  qed
  then show ?thesis
    using be_field_bound [of _ "length_field_offset s" "length_field_bytes s" 0 _ 0] assms(1,2)
    by (auto simp: field_pos_def length_field_def split: bind_splits)
qed

lemma length_field_some:
  assumes "field_ok s" "body_offset s \<le> length bs"
  shows "length_field s bs 0 (length bs) \<noteq> None"
proof -
  have be: "i + k \<le> length bs \<Longrightarrow> be_field bs i k b \<noteq> None" for i k b
    by (induction k arbitrary: i b) (auto simp: mem_read_def)
  have le: "i + k \<le> length bs \<Longrightarrow> le_field bs i k j b \<noteq> None" for i k j b
    by (induction k arbitrary: i j b) (auto simp: mem_read_def)
  have vi: "varint_decode_loop f bs off len b r \<noteq> None" if "0 < len" "len = int (length bs) - int off" "int b \<le> len" for f off len b r
    using that
  proof (induction f arbitrary: b r)
    case (Suc f)
    show ?case
    proof (cases "int b = len")
      case False
      then have "off + b < length bs" using Suc.prems by linarith
      then show ?thesis using Suc False by (auto simp: mem_read_def Let_def)
    qed (use Suc.prems in simp)
  qed simp
  have o: "length_field_offset s + length_field_bytes s \<le> length bs" using assms by (simp add: field_ok_def)
  show ?thesis
  proof (cases "length_field_coding s")
    case ENCODE_BY_VARINT
    then have "varint_decode bs (length_field_offset s) (int (length bs) - int (length_field_offset s)) \<noteq> None"
      using assms o unfolding varint_decode_def by (intro vi) (auto simp: field_ok_def)
    then show ?thesis using ENCODE_BY_VARINT by (auto simp: length_field_def)
  qed (use be [OF o, of 0] le [OF o, of 0 0] in \<open>auto simp: length_field_def\<close>)
qed

text \<open>The field at hand is a variable-length integer of more than ten bytes.\<close>

definition too_big :: "unpack_setting \<Rightarrow> u8 list \<Rightarrow> bool" where
  "too_big s bs \<longleftrightarrow> body_offset s \<le> length bs \<and> length_field s bs 0 (length bs) = Some Too_big"

lemma field_loop_frames:
  assumes "field_ok s" "field_pos s" "p \<le> ep" "ep \<le> length (rb_base io)"
  shows "(\<exists>io' p' handled' n'. field_loop s io p ep (ep - p) handled n = Some (io', Some (p', ep - p', handled', n')) \<and> p' \<le> ep \<and>
      delivered io io' (fst (frames (field_plen s) (bslice (rb_base io) p ep))) \<and>
      snd (frames (field_plen s) (bslice (rb_base io) p ep)) = bslice (rb_base io) p' ep \<and>
      (n' = n \<or> n' \<le> ep - p \<or> field_plen s (bslice (rb_base io) p' ep) = Some n')) \<or>
    (\<exists>io'. field_loop s io p ep (ep - p) handled n = Some (io', None) \<and> io_closed io' \<and> io_over_limit io' \<and>
      rb_len io' = rb_len io \<and> rb_head io' = rb_head io \<and>
      io_reads io' = io_reads io @ fst (frames (field_plen s) (bslice (rb_base io) p ep)) \<and>
      too_big s (snd (frames (field_plen s) (bslice (rb_base io) p ep))))"
  using assms(3-)
proof (induction "ep - p" arbitrary: p io handled n rule: less_induct)
  case less
  let ?s = "bslice (rb_base io) p ep"
  have l: "length ?s = ep - p" using less.prems by simp
  show ?case
  proof (cases "body_offset s \<le> ep - p")
    case False
    then have "frames (field_plen s) ?s = ([], ?s)" using l by (intro field.frames_stop) (simp add: field_plen_def)
    then show ?thesis using False less.prems by (subst (1 2) field_loop.simps) auto
  next
    case True
    have sl: "length_field s ?s 0 (length ?s) = length_field s (rb_base io) p ep"
      unfolding l by (rule length_field_slice [OF assms(1) True less.prems(2)])
    have "length_field s ?s 0 (length ?s) \<noteq> None" using True by (intro length_field_some assms(1)) (simp only: l)
    then obtain f where f: "length_field s (rb_base io) p ep = Some f" unfolding sl by blast
    show ?thesis
    proof (cases f)
      case Incomplete
      then have "frames (field_plen s) ?s = ([], ?s)" using f sl by (intro field.frames_stop) (simp add: field_plen_def split: if_splits)
      then show ?thesis using True f Incomplete less.prems by (subst (1 2) field_loop.simps) auto
    next
      case Too_big
      then have "frames (field_plen s) ?s = ([], ?s)" using f sl by (intro field.frames_stop) (simp add: field_plen_def split: if_splits)
      moreover have "too_big s ?s" using True l f sl Too_big by (simp add: too_big_def)
      ultimately show ?thesis using True f Too_big by (subst (1 2) field_loop.simps) (simp add: evio_close_def)
    next
      case (Package k)
      have k: "k \<noteq> 0" using assms(2) f sl Package unfolding field_pos_def by metis
      have plen: "field_plen s ?s = Some k" using True l assms(1) f sl Package k by (simp add: field_plen_def)
      show ?thesis
      proof (cases "k \<le> ep - p")
        case False
        then have "frames (field_plen s) ?s = ([], ?s)" using plen l by (intro field.frames_stop) auto
        then show ?thesis using True f Package False less.prems plen by (subst (1 2) field_loop.simps) auto
      next
        case fits: True
        have "p + k \<le> length (rb_base io)" using fits less.prems by linarith
        from evio_read_cb_delivered [OF this] obtain io1 where
          io1: "evio_read_cb io p k = Some io1" "delivered io io1 [take k (drop p (rb_base io))]" by blast
        have b: "rb_base io1 = rb_base io" by (rule delivered_base [OF io1(2)])
        have len: "rb_len io1 = rb_len io" "rb_head io1 = rb_head io" using io1(2) by (simp_all add: delivered_def rb_view_def)
        have step: "field_loop s io p ep (ep - p) handled n = field_loop s io1 (p + k) ep (ep - (p + k)) (handled + k) k"
          using True f Package fits io1(1) by (subst field_loop.simps) simp
        have lt: "ep - (p + k) < ep - p" "p + k \<le> ep" "ep \<le> length (rb_base io1)" using fits k less.prems b by auto
        have fr: "frames (field_plen s) ?s = (take k (drop p (rb_base io)) # fst (frames (field_plen s) (bslice (rb_base io) (p + k) ep)),
            snd (frames (field_plen s) (bslice (rb_base io) (p + k) ep)))"
          using field.frames_step [OF plen] fits l slice_step [OF lt(2), of "rb_base io"] slice_front [OF lt(2), of "rb_base io"] by simp
        from less.hyps [OF lt, of "handled + k" k, unfolded b len]
        consider (ok) io' p' h' n' where
            "field_loop s io1 (p + k) ep (ep - (p + k)) (handled + k) k = Some (io', Some (p', ep - p', h', n'))" "p' \<le> ep"
            "delivered io1 io' (fst (frames (field_plen s) (bslice (rb_base io) (p + k) ep)))"
            "snd (frames (field_plen s) (bslice (rb_base io) (p + k) ep)) = bslice (rb_base io) p' ep"
            "n' = k \<or> n' \<le> ep - (p + k) \<or> field_plen s (bslice (rb_base io) p' ep) = Some n'"
          | (big) io' where
            "field_loop s io1 (p + k) ep (ep - (p + k)) (handled + k) k = Some (io', None)" "io_closed io'" "io_over_limit io'"
            "rb_len io' = rb_len io" "rb_head io' = rb_head io"
            "io_reads io' = io_reads io1 @ fst (frames (field_plen s) (bslice (rb_base io) (p + k) ep))"
            "too_big s (snd (frames (field_plen s) (bslice (rb_base io) (p + k) ep)))" by blast
        then show ?thesis
        proof cases
          case ok
          then have "n' = n \<or> n' \<le> ep - p \<or> field_plen s (bslice (rb_base io) p' ep) = Some n'" using fits by auto
          then show ?thesis unfolding step fr using ok delivered_trans [OF io1(2) ok(3)] by auto
        next
          case big
          then show ?thesis unfolding step fr using io1(2) by (auto simp: delivered_def)
        qed
      qed
    qed
  qed
qed

lemma keep_remain_moves:
  assumes "p \<le> ep" "ep \<le> length (rb_base io)"
  shows "\<exists>base. keep_remain io p (ep - p) = Some (io\<lparr>rb_base := base, rb_head := 0, rb_tail := ep - p\<rparr>) \<and>
    length base = length (rb_base io) \<and> take (ep - p) base = bslice (rb_base io) p ep"
proof (cases "ep - p \<noteq> 0 \<and> p \<noteq> 0")
  case True
  let ?base = "bslice (rb_base io) p ep @ drop (ep - p) (rb_base io)"
  have "mem_move (rb_base io) 0 p (ep - p) = Some ?base" using assms by (simp add: mem_move_def mem_copy_def)
  then show ?thesis using True assms by (intro exI [of _ ?base]) (auto simp: keep_remain_def Let_def)
next
  case False
  then show ?thesis using assms by (intro exI [of _ "rb_base io"]) (auto simp: keep_remain_def Let_def)
qed

section \<open>One read\<close>

definition plen_of :: "unpack_setting \<Rightarrow> u8 list \<Rightarrow> nat option" where
  "plen_of s = (case u_mode s of
     UNPACK_BY_FIXED_LENGTH \<Rightarrow> fixed_plen (fixed_length s)
   | UNPACK_BY_DELIMITER \<Rightarrow> delim_plen (take (delimiter_bytes s) (delimiter s))
   | UNPACK_BY_LENGTH_FIELD \<Rightarrow> field_plen s
   | UNPACK_MODE_NONE \<Rightarrow> (\<lambda>_. None))"

interpretation plen_of: framer "plen_of s" for s
proof -
  have "framer (\<lambda>_. None)" by unfold_locales auto
  then show "framer (plen_of s)"
    by (cases "u_mode s")
      (simp_all add: plen_of_def fixed.framer_axioms delim.framer_axioms field.framer_axioms)
qed

text \<open>A setting that \<open>evio_set_unpack\<close> accepts, with a bound that keeps all sizes in an \<open>int\<close>.\<close>

definition setting_ok :: "unpack_setting \<Rightarrow> bool" where
  "setting_ok s \<longleftrightarrow> 0 < package_max_length s \<and> package_max_length s < 2 ^ 30 \<and>
     (case u_mode s of
        UNPACK_BY_FIXED_LENGTH \<Rightarrow> 0 < fixed_length s \<and> fixed_length s \<le> package_max_length s
      | UNPACK_BY_DELIMITER \<Rightarrow> 0 < delimiter_bytes s \<and> delimiter_bytes s \<le> length (delimiter s)
      | UNPACK_BY_LENGTH_FIELD \<Rightarrow> field_ok s \<and> field_pos s \<and> body_offset s \<le> package_max_length s
      | UNPACK_MODE_NONE \<Rightarrow> False)"

definition pending :: "evio \<Rightarrow> u8 list" where
  "pending io = take (rb_tail io) (rb_base io)"

definition buf_ok :: "unpack_setting \<Rightarrow> evio \<Rightarrow> bool" where
  "buf_ok s io \<longleftrightarrow> rb_head io = 0 \<and> length (rb_base io) = rb_len io \<and> rb_tail io \<le> rb_len io \<and> 0 < rb_len io \<and>
     rb_len io \<le> package_max_length s \<and> max_read_bufsize io = package_max_length s \<and> alloced_readbuf io \<and>
     unpack_set io = Some s \<and> \<not> read_until_len io \<and> \<not> io_closed io \<and>
     (u_mode s = UNPACK_BY_FIXED_LENGTH \<longrightarrow> rb_len io = fixed_length s \<and> small_readbytes_cnt io = 0)"

definition conn_ok :: "unpack_setting \<Rightarrow> evio \<Rightarrow> bool" where
  "conn_ok s io \<longleftrightarrow> buf_ok s io \<and> rb_tail io < rb_len io \<and> frames (plen_of s) (pending io) = ([], pending io)"

text \<open>What is left of the stream is at odds with the largest package allowed: it may not be buffered in
  full, its package is too long, or its length is not a 64-bit number.\<close>

definition overlong :: "unpack_setting \<Rightarrow> u8 list \<Rightarrow> bool" where
  "overlong s r \<longleftrightarrow> u_mode s \<noteq> UNPACK_BY_FIXED_LENGTH \<and>
     (package_max_length s < 2 * length r \<or> (\<exists>n. plen_of s r = Some n \<and> package_max_length s < n) \<or>
      u_mode s = UNPACK_BY_LENGTH_FIELD \<and> too_big s r)"

text \<open>A closed connection, still with a buffer that can be resized.\<close>

definition closed_ok :: "unpack_setting \<Rightarrow> evio \<Rightarrow> bool" where
  "closed_ok s io \<longleftrightarrow> io_closed io \<and> rb_head io = 0 \<and> rb_len io \<le> package_max_length s"

lemma alloc_readbuf_grow:
  assumes "buf_ok s io" "rb_tail io \<le> n" "0 < n" "n \<le> package_max_length s" "package_max_length s < 2 ^ 30"
    "u_mode s \<noteq> UNPACK_BY_FIXED_LENGTH"
  shows "\<exists>io'. evio_alloc_readbuf io n = Some io' \<and> buf_ok s io' \<and> rb_len io' = n \<and> rb_tail io' = rb_tail io \<and>
    pending io' = pending io \<and> io_reads io' = io_reads io \<and> io_closed io' = io_closed io"
  using assms by (auto simp: evio_alloc_readbuf_def int_size_def buf_ok_def pending_def zrealloc_def min_absorb1)

lemma autosize_closed:
  assumes "closed_ok s io" "package_max_length s < 2 ^ 30"
  shows "\<exists>io'. readbuf_autosize io = Some io' \<and> io_closed io' \<and> io_reads io' = io_reads io"
proof -
  have "int_size (rb_len io * 2) \<noteq> None" "int_size (rb_len io div 2) \<noteq> None"
    using assms by (auto simp: int_size_def closed_ok_def)
  then show ?thesis using assms(1)
    by (auto simp: readbuf_autosize_def reset_readbuf_def evio_alloc_readbuf_def evio_close_def closed_ok_def Let_def)
qed

lemma autosize_ok:
  assumes "setting_ok s" "buf_ok s io" "u_mode s = UNPACK_BY_FIXED_LENGTH \<longrightarrow> rb_tail io < rb_len io"
  shows "\<exists>io'. readbuf_autosize io = Some io' \<and>
    io_reads io' = io_reads io \<and>
    (if io_closed io' then overlong s (pending io)
     else buf_ok s io' \<and> rb_tail io' < rb_len io' \<and> pending io' = pending io)"
proof -
  have mx: "package_max_length s < 2 ^ 30" using assms(1) by (simp add: setting_ok_def)
  have rs: "reset_readbuf io = io" using assms(2) by (cases io) (simp add: reset_readbuf_def buf_ok_def)
  show ?thesis
  proof (cases "rb_tail io = rb_len io")
    case full: True
    then have m: "u_mode s \<noteq> UNPACK_BY_FIXED_LENGTH" using assms(3) by auto
    have a: "readbuf_autosize io = evio_alloc_readbuf io (rb_len io * 2)"
      using full rs assms(2) by (simp add: readbuf_autosize_def buf_ok_def)
    show ?thesis
    proof (cases "rb_len io * 2 \<le> package_max_length s")
      case True
      have "rb_tail io \<le> rb_len io * 2" "0 < rb_len io * 2" using assms(2) by (auto simp: buf_ok_def)
      then obtain io' where "evio_alloc_readbuf io (rb_len io * 2) = Some io'" "buf_ok s io'" "rb_len io' = rb_len io * 2"
        "rb_tail io' = rb_tail io" "pending io' = pending io" "io_reads io' = io_reads io"
        using alloc_readbuf_grow [OF assms(2) _ _ True mx m] by blast
      moreover have "\<not> io_closed io'" "rb_tail io' < rb_len io'"
        using calculation full assms(2) by (auto simp: buf_ok_def)
      ultimately show ?thesis unfolding a by simp
    next
      case False
      have "rb_len io * 2 < 2 ^ 31" using assms(2) mx by (simp add: buf_ok_def)
      moreover have "overlong s (pending io)"
        using m False full assms(2) by (simp add: overlong_def pending_def buf_ok_def)
      ultimately show ?thesis using False assms(2) unfolding a
        by (simp add: evio_alloc_readbuf_def int_size_def evio_close_def buf_ok_def)
    qed
  next
    case notfull: False
    then have lt: "rb_tail io < rb_len io" using assms(2) by (simp add: buf_ok_def)
    show ?thesis
    proof (cases "rb_tail io < rb_len io div 2 \<and> small_readbytes_cnt io \<ge> 3")
      case True
      then have m: "u_mode s \<noteq> UNPACK_BY_FIXED_LENGTH" using assms(2) by (auto simp: buf_ok_def)
      have le: "rb_tail io \<le> rb_len io div 2" "0 < rb_len io div 2" "rb_len io div 2 \<le> package_max_length s"
        using True assms(2) by (auto simp: buf_ok_def)
      have a: "readbuf_autosize io = evio_alloc_readbuf io (rb_len io div 2)"
        using notfull rs True by (simp add: readbuf_autosize_def)
      obtain io' where "evio_alloc_readbuf io (rb_len io div 2) = Some io'" "buf_ok s io'" "rb_len io' = rb_len io div 2"
        "rb_tail io' = rb_tail io" "pending io' = pending io" "io_reads io' = io_reads io"
        using alloc_readbuf_grow [OF assms(2) le mx m] by blast
      moreover have "\<not> io_closed io'" using calculation by (simp add: buf_ok_def)
      ultimately show ?thesis using True unfolding a by simp
    next
      case False
      then have "readbuf_autosize io = Some io" using notfull rs by (auto simp: readbuf_autosize_def)
      moreover have "\<not> io_closed io" using assms(2) by (simp add: buf_ok_def)
      ultimately show ?thesis using lt assms(2) by simp
    qed
  qed
qed

lemma keep_remain_ok:
  assumes "buf_ok s io" "delivered io io1 ps" "p \<le> rb_tail io"
    and "u_mode s = UNPACK_BY_FIXED_LENGTH \<longrightarrow> (\<forall>x \<in> set ps. length x = fixed_length s)"
  shows "\<exists>io2. keep_remain io1 p (rb_tail io - p) = Some io2 \<and> buf_ok s io2 \<and> pending io2 = bslice (rb_base io) p (rb_tail io) \<and>
    io_reads io2 = io_reads io @ ps \<and> rb_tail io2 = rb_tail io - p \<and> rb_len io2 = rb_len io"
proof -
  have v: "rb_base io1 = rb_base io" "rb_len io1 = rb_len io" "alloced_readbuf io1 = alloced_readbuf io"
    "max_read_bufsize io1 = max_read_bufsize io" "unpack_set io1 = unpack_set io" "read_until_len io1 = read_until_len io"
    "io_reads io1 = io_reads io @ ps" "io_closed io1 = io_closed io"
    using assms(2) by (simp_all add: delivered_def rb_view_def)
  have sm: "u_mode s = UNPACK_BY_FIXED_LENGTH \<longrightarrow> small_readbytes_cnt io1 = 0"
    using assms(1,2,4) by (auto simp: delivered_def buf_ok_def)
  have "rb_tail io \<le> length (rb_base io1)" using assms(1) v by (simp add: buf_ok_def)
  from keep_remain_moves [OF assms(3) this] obtain base where
    b: "keep_remain io1 p (rb_tail io - p) = Some (io1\<lparr>rb_base := base, rb_head := 0, rb_tail := rb_tail io - p\<rparr>)"
      "length base = length (rb_base io1)" "take (rb_tail io - p) base = bslice (rb_base io1) p (rb_tail io)" by blast
  show ?thesis
    using b v sm assms(1)
    by (intro exI [of _ "io1\<lparr>rb_base := base, rb_head := 0, rb_tail := rb_tail io - p\<rparr>"]) (auto simp: buf_ok_def pending_def)
qed

lemma frames_fixed_length:
  "x \<in> set (fst (frames (fixed_plen n) s)) \<Longrightarrow> length x = n"
  "0 < n \<Longrightarrow> length (snd (frames (fixed_plen n) s)) < n"
proof (induction "length s" arbitrary: s rule: less_induct)
  case less
  {
    case 1
    show ?case
    proof (cases "0 < n \<and> n \<le> length s")
      case True
      then have "frames (fixed_plen n) s = (take n s # fst (frames (fixed_plen n) (drop n s)), snd (frames (fixed_plen n) (drop n s)))"
        by (intro fixed.frames_step) (auto simp: fixed_plen_def)
      then show ?thesis using 1 less(1) [of "drop n s"] True by auto
    next
      case False
      then have "frames (fixed_plen n) s = ([], s)" by (intro fixed.frames_stop) (auto simp: fixed_plen_def split: if_splits)
      then show ?thesis using 1 by simp
    qed
  next
    case 2
    show ?case
    proof (cases "n \<le> length s")
      case True
      then have "frames (fixed_plen n) s = (take n s # fst (frames (fixed_plen n) (drop n s)), snd (frames (fixed_plen n) (drop n s)))"
        using 2 by (intro fixed.frames_step) (auto simp: fixed_plen_def)
      then show ?thesis using 2 less(2) [of "drop n s"] True by auto
    next
      case False
      then have "frames (fixed_plen n) s = ([], s)" by (intro fixed.frames_stop) (auto simp: fixed_plen_def split: if_splits)
      then show ?thesis using False by simp
    qed
  }
qed

text \<open>The promise of every unpacking routine.\<close>

definition unpacked :: "unpack_setting \<Rightarrow> evio \<Rightarrow> evio \<Rightarrow> bool" where
  "unpacked s io io' \<longleftrightarrow> io_reads io' = io_reads io @ fst (frames (plen_of s) (pending io)) \<and>
     (closed_ok s io' \<and> overlong s (snd (frames (plen_of s) (pending io))) \<or>
      buf_ok s io' \<and> pending io' = snd (frames (plen_of s) (pending io)) \<and>
      (u_mode s = UNPACK_BY_FIXED_LENGTH \<longrightarrow> rb_tail io' < rb_len io'))"

lemma unpack_fixed_ok:
  assumes "setting_ok s" "u_mode s = UNPACK_BY_FIXED_LENGTH" "buf_ok s io" "t \<le> rb_tail io"
  shows "\<exists>io' r. evio_unpack io s t (rb_tail io - t) = Some (io', r) \<and> unpacked s io io'"
proof -
  let ?n = "fixed_length s"
  have n: "0 < ?n" using assms(1,2) by (simp add: setting_ok_def)
  have b: "rb_head io = 0" "rb_tail io \<le> length (rb_base io)" "rb_len io = ?n" using assms(2,3) by (auto simp: buf_ok_def)
  have P: "plen_of s = fixed_plen ?n" using assms(2) by (simp add: plen_of_def)
  obtain io1 p h where l: "fixed_loop ?n io 0 (rb_tail io - 0) 0 = Some (io1, p, rb_tail io - p, h)" "p \<le> rb_tail io"
    "delivered io io1 (fst (frames (fixed_plen ?n) (pending io)))"
    "snd (frames (fixed_plen ?n) (pending io)) = bslice (rb_base io) p (rb_tail io)"
    using fixed_loop_frames [OF le0 b(2) n, of 0] by (auto simp: pending_def)
  obtain io2 where k: "keep_remain io1 p (rb_tail io - p) = Some io2" "buf_ok s io2"
    "pending io2 = bslice (rb_base io) p (rb_tail io)" "io_reads io2 = io_reads io @ fst (frames (fixed_plen ?n) (pending io))"
    "rb_tail io2 = rb_tail io - p" "rb_len io2 = rb_len io"
    using keep_remain_ok [OF assms(3) l(3,2)] frames_fixed_length(1) by blast
  have "evio_unpack io s t (rb_tail io - t) = Some (io2, int h)"
    using l(1) k(1) b assms(2,4) by (simp add: evio_unpack_def evio_unpack_by_fixed_length_def Let_def)
  moreover have "rb_tail io2 < rb_len io2"
  proof -
    have "length (pending io2) = rb_tail io2" using k(2) by (auto simp: pending_def buf_ok_def)
    then show ?thesis using frames_fixed_length(2) [OF n, of "pending io"] l(4) k(3,6) b(3) by simp
  qed
  ultimately show ?thesis unfolding unpacked_def P using k l(4) by auto
qed

lemma unpack_delim_ok:
  assumes "setting_ok s" "u_mode s = UNPACK_BY_DELIMITER" "buf_ok s io" "t \<le> rb_tail io"
    "frames (plen_of s) (take t (pending io)) = ([], take t (pending io))"
  shows "\<exists>io' r. evio_unpack io s t (rb_tail io - t) = Some (io', r) \<and> unpacked s io io'"
proof -
  let ?n = "delimiter_bytes s"
  let ?d = "take ?n (delimiter s)"
  have n: "?n \<le> length (delimiter s)" "0 < ?n" using assms(1,2) by (auto simp: setting_ok_def)
  have mx: "package_max_length s < 2 ^ 30" using assms(1) by (simp add: setting_ok_def)
  have b: "rb_head io = 0" "rb_tail io \<le> length (rb_base io)" using assms(3) by (auto simp: buf_ok_def)
  have P: "plen_of s = delim_plen ?d" using assms(2) by (simp add: plen_of_def)
  define p where "p = (if int t - int ?n + 1 < int (rb_head io) then rb_head io else nat (int t - int ?n + 1))"
  have p: "p \<le> rb_tail io" "\<And>i. i < p \<Longrightarrow> i + ?n \<le> t" using assms(4) n(2) b(1) by (auto simp: p_def split: if_splits)
  have none: "find_sub ?d (take t (pending io)) = None"
  proof (rule ccontr)
    assume "find_sub ?d (take t (pending io)) \<noteq> None"
    then obtain k where k: "find_sub ?d (take t (pending io)) = Some k" by blast
    have pl: "delim_plen ?d (take t (pending io)) = Some (k + ?n)" using k n by (auto simp: delim_plen_def)
    have "k + ?n \<le> length (take t (pending io))" using find_sub_len [OF k] n by simp
    from delim.frames_step [OF pl this] assms(5) show False unfolding P by simp
  qed
  have old: "\<forall>i < p - 0. take ?n (drop i (bslice (rb_base io) 0 (rb_tail io))) \<noteq> ?d"
  proof (intro allI impI)
    fix i assume "i < p - 0"
    then have i: "i + ?n \<le> t" using p(2) by simp
    have "take ?n (drop i (take t (pending io))) \<noteq> ?d"
      using find_sub_NoneD [OF none, of i] i n assms(4) b(2) by (simp add: pending_def)
    moreover have "take ?n (drop i (take t (pending io))) = take ?n (drop i (pending io))"
      using i by (simp add: drop_take min_absorb1)
    ultimately show "take ?n (drop i (bslice (rb_base io) 0 (rb_tail io))) \<noteq> ?d" by (simp add: pending_def)
  qed
  obtain io1 sp h where l: "delim_loop s io p (rb_tail io - p) 0 0 = Some (io1, sp, h)" "sp \<le> rb_tail io"
    "delivered io io1 (fst (frames (delim_plen ?d) (pending io)))"
    "snd (frames (delim_plen ?d) (pending io)) = bslice (rb_base io) sp (rb_tail io)"
    using delim_loop_frames [OF n le0 p(1) b(2) old, of 0] by (auto simp: pending_def)
  obtain io2 where k: "keep_remain io1 sp (rb_tail io - sp) = Some io2" "buf_ok s io2"
    "pending io2 = bslice (rb_base io) sp (rb_tail io)" "io_reads io2 = io_reads io @ fst (frames (delim_plen ?d) (pending io))"
    "rb_tail io2 = rb_tail io - sp" "rb_len io2 = rb_len io"
    using keep_remain_ok [OF assms(3) l(3,2)] assms(2) by auto
  have ep: "t + (rb_tail io - t) = rb_tail io" using assms(4) by simp
  have u: "evio_unpack io s t (rb_tail io - t) =
    (if rb_tail io - sp \<noteq> 0 \<and> rb_tail io2 = rb_len io2
     then (if rb_len io2 \<ge> package_max_length s
           then Some (evio_close (io2\<lparr>io_over_limit := True\<rparr>), - 1)
           else do { io \<leftarrow> evio_alloc_readbuf io2 (min (rb_len io2 * 2) (package_max_length s)); Some (io, int h) })
     else Some (io2, int h))"
    using l(1,2) k(1) b p(1) assms(2)
    unfolding evio_unpack_def evio_unpack_by_delimiter_def ep Let_def p_def [symmetric] by simp
  show ?thesis
  proof (cases "rb_tail io - sp \<noteq> 0 \<and> rb_tail io2 = rb_len io2")
    case False
    then show ?thesis using u k l(4) assms(2) unfolding unpacked_def P by auto
  next
    case full: True
    show ?thesis
    proof (cases "rb_len io2 \<ge> package_max_length s")
      case True
      then have "closed_ok s (evio_close (io2\<lparr>io_over_limit := True\<rparr>))" using k(2) by (simp add: closed_ok_def evio_close_def buf_ok_def)
      moreover have "overlong s (pending io2)" using True full k(2) assms(1,2)
        by (auto simp: overlong_def pending_def buf_ok_def setting_ok_def)
      ultimately show ?thesis using u full True k(3,4) l(4) unfolding unpacked_def P by (auto simp: evio_close_def)
    next
      case False
      have le: "rb_tail io2 \<le> min (rb_len io2 * 2) (package_max_length s)" "0 < min (rb_len io2 * 2) (package_max_length s)"
        "min (rb_len io2 * 2) (package_max_length s) \<le> package_max_length s" using full False k(2) by (auto simp: buf_ok_def)
      obtain io3 where "evio_alloc_readbuf io2 (min (rb_len io2 * 2) (package_max_length s)) = Some io3" "buf_ok s io3"
        "pending io3 = pending io2" "io_reads io3 = io_reads io2"
        using alloc_readbuf_grow [OF k(2) le mx] assms(2) by auto
      then show ?thesis using u full False k l(4) assms(2) unfolding unpacked_def P by auto
    qed
  qed
qed

lemma unpack_field_ok:
  assumes "setting_ok s" "u_mode s = UNPACK_BY_LENGTH_FIELD" "buf_ok s io" "t \<le> rb_tail io"
  shows "\<exists>io' r. evio_unpack io s t (rb_tail io - t) = Some (io', r) \<and> unpacked s io io'"
proof -
  have f: "field_ok s" "field_pos s" "package_max_length s < 2 ^ 30" using assms(1,2) by (auto simp: setting_ok_def)
  have b: "rb_head io = 0" "rb_tail io \<le> length (rb_base io)" "rb_len io \<le> package_max_length s"
    using assms(3) by (auto simp: buf_ok_def)
  have P: "plen_of s = field_plen s" using assms(2) by (simp add: plen_of_def)
  have ep: "t + (rb_tail io - t) = rb_tail io" using assms(4) by simp
  consider (ok) io1 p h n where "field_loop s io 0 (rb_tail io) (rb_tail io - 0) 0 (body_offset s) = Some (io1, Some (p, rb_tail io - p, h, n))"
      "p \<le> rb_tail io" "delivered io io1 (fst (frames (field_plen s) (bslice (rb_base io) 0 (rb_tail io))))"
      "snd (frames (field_plen s) (bslice (rb_base io) 0 (rb_tail io))) = bslice (rb_base io) p (rb_tail io)"
      "n = body_offset s \<or> n \<le> rb_tail io - 0 \<or> field_plen s (bslice (rb_base io) p (rb_tail io)) = Some n"
    | (big) io1 where "field_loop s io 0 (rb_tail io) (rb_tail io - 0) 0 (body_offset s) = Some (io1, None)"
      "io_closed io1" "rb_len io1 = rb_len io" "rb_head io1 = rb_head io"
      "io_reads io1 = io_reads io @ fst (frames (field_plen s) (bslice (rb_base io) 0 (rb_tail io)))"
      "too_big s (snd (frames (field_plen s) (bslice (rb_base io) 0 (rb_tail io))))"
    using field_loop_frames [OF f(1,2) le0 b(2), of 0 "body_offset s"] by blast
  then show ?thesis
  proof cases
    case big
    then have "evio_unpack io s t (rb_tail io - t) = Some (io1, - 1)"
      using b assms(2) unfolding evio_unpack_def evio_unpack_by_length_field_def ep Let_def by simp
    moreover have "closed_ok s io1" using big b by (simp add: closed_ok_def)
    ultimately show ?thesis using big(5,6) assms(2) unfolding unpacked_def P by (auto simp: overlong_def pending_def)
  next
    case ok
    have D: "bslice (rb_base io) 0 (rb_tail io) = pending io" by (simp add: pending_def)
    obtain io2 where k: "keep_remain io1 p (rb_tail io - p) = Some io2" "buf_ok s io2"
      "pending io2 = bslice (rb_base io) p (rb_tail io)" "io_reads io2 = io_reads io @ fst (frames (field_plen s) (pending io))"
      "rb_tail io2 = rb_tail io - p" "rb_len io2 = rb_len io"
      using keep_remain_ok [OF assms(3) ok(3,2)] assms(2) unfolding D by auto
    let ?new = "if rb_len io2 * 2 < n then n else if rb_len io2 * 2 > package_max_length s then package_max_length s else rb_len io2 * 2"
    have u: "evio_unpack io s t (rb_tail io - t) =
      (if rb_tail io - p \<noteq> 0 \<and> n > rb_len io2
       then (if n > package_max_length s then Some (evio_close (io2\<lparr>io_over_limit := True\<rparr>), - 1)
             else do { io \<leftarrow> evio_alloc_readbuf io2 ?new; Some (io, int h) })
       else Some (io2, int h))"
      using ok(1) k(1) b assms(2) unfolding evio_unpack_def evio_unpack_by_length_field_def ep Let_def by simp
    show ?thesis
    proof (cases "rb_tail io - p \<noteq> 0 \<and> n > rb_len io2")
      case False
      then show ?thesis using u k ok(4) assms(2) unfolding unpacked_def P D by auto
    next
      case grow: True
      show ?thesis
      proof (cases "n > package_max_length s")
        case True
        then have "closed_ok s (evio_close (io2\<lparr>io_over_limit := True\<rparr>))" using k(2) by (simp add: closed_ok_def evio_close_def buf_ok_def)
        moreover have "plen_of s (pending io2) = Some n"
          using True ok(5) assms(1-3) b(3) k(3) unfolding P by (auto simp: setting_ok_def buf_ok_def)
        then have "overlong s (pending io2)" using True assms(2) by (simp add: overlong_def)
        ultimately show ?thesis using u grow True k(3,4) ok(4) unfolding unpacked_def P D by (auto simp: evio_close_def)
      next
        case False
        have le: "rb_tail io2 \<le> ?new" "0 < ?new" "?new \<le> package_max_length s"
          using grow False k(2) by (auto simp: buf_ok_def)
        obtain io3 where "evio_alloc_readbuf io2 ?new = Some io3" "buf_ok s io3"
          "pending io3 = pending io2" "io_reads io3 = io_reads io2"
          using alloc_readbuf_grow [OF k(2) le f(3)] assms(2) by auto
        then show ?thesis using u grow False k ok(4) assms(2) unfolding unpacked_def P D by auto
      qed
    qed
  qed
qed

text \<open>One read of the kernel.\<close>

lemma nio_read_step:
  assumes "setting_ok s" "conn_ok s io" "xs \<noteq> []" "rb_tail io + length xs \<le> rb_len io"
  shows "\<exists>io'. nio_read io (Data xs) = Some io' \<and>
    io_reads io' = io_reads io @ fst (frames (plen_of s) (pending io @ xs)) \<and>
    (if io_closed io' then overlong s (snd (frames (plen_of s) (pending io @ xs)))
     else conn_ok s io' \<and> pending io' = snd (frames (plen_of s) (pending io @ xs)))"
proof -
  have bo: "buf_ok s io" and res: "frames (plen_of s) (pending io) = ([], pending io)" using assms(2) by (auto simp: conn_ok_def)
  let ?t = "rb_tail io"
  let ?base = "take ?t (rb_base io) @ xs @ drop (?t + length xs) (rb_base io)"
  let ?io = "io\<lparr>rb_base := ?base, rb_tail := ?t + length xs\<rparr>"
  have len: "length (rb_base io) = rb_len io" "?t \<le> rb_len io" using bo by (auto simp: buf_ok_def)
  have bo1: "buf_ok s ?io" using bo assms(4) by (auto simp: buf_ok_def)
  have pe: "pending ?io = pending io @ xs" using len by (simp add: pending_def)
  have tk: "take ?t (pending ?io) = pending io" unfolding pe using len by (simp add: pending_def)
  have un: "\<exists>io1 r. evio_unpack ?io s ?t (rb_tail ?io - ?t) = Some (io1, r) \<and> unpacked s ?io io1"
  proof (cases "u_mode s")
    case UNPACK_MODE_NONE
    then show ?thesis using assms(1) by (simp add: setting_ok_def)
  next
    case UNPACK_BY_FIXED_LENGTH
    then show ?thesis by (intro unpack_fixed_ok assms(1) bo1) auto
  next
    case UNPACK_BY_DELIMITER
    then show ?thesis using tk res by (intro unpack_delim_ok assms(1) bo1) auto
  next
    case UNPACK_BY_LENGTH_FIELD
    then show ?thesis by (intro unpack_field_ok assms(1) bo1) auto
  qed
  then obtain io1 r where u: "evio_unpack ?io s ?t (length xs) = Some (io1, r)" "unpacked s ?io io1" by auto
  have mx: "package_max_length s < 2 ^ 30" using assms(1) by (simp add: setting_ok_def)
  have "mem_copy (rb_base io) ?t xs 0 (length xs) = Some ?base" using len assms(4) by (simp add: mem_copy_def)
  then have n: "nio_read io (Data xs) = readbuf_autosize io1"
    using bo assms(2-4) u(1) by (simp add: nio_read_def evio_handle_read_def buf_ok_def conn_ok_def Let_def)
  show ?thesis
  proof (cases "closed_ok s io1")
    case True
    then have "\<not> buf_ok s io1" by (simp add: closed_ok_def buf_ok_def)
    then show ?thesis using autosize_closed [OF True mx] n u(2) unfolding unpacked_def pe by auto
  next
    case False
    then have un1: "buf_ok s io1" "io_reads io1 = io_reads io @ fst (frames (plen_of s) (pending io @ xs))"
      "pending io1 = snd (frames (plen_of s) (pending io @ xs))" "u_mode s = UNPACK_BY_FIXED_LENGTH \<longrightarrow> rb_tail io1 < rb_len io1"
      using u(2) unfolding unpacked_def pe by auto
    from autosize_ok [OF assms(1) un1(1,4)] obtain io2 where a: "readbuf_autosize io1 = Some io2" "io_reads io2 = io_reads io1"
      "if io_closed io2 then overlong s (pending io1) else buf_ok s io2 \<and> rb_tail io2 < rb_len io2 \<and> pending io2 = pending io1" by blast
    then show ?thesis using n un1(2,3) plen_of.frames_residue [of s "pending io @ xs"]
      by (auto simp: conn_ok_def split: if_splits)
  qed
qed

section \<open>Streams\<close>

text \<open>Reads in turn until the connection is closed.\<close>

fun read_all :: "evio \<Rightarrow> u8 list list \<Rightarrow> evio option" where
  "read_all io [] = Some io"
| "read_all io (xs # xss) = do { io \<leftarrow> nio_read io (Data xs); (if io_closed io then Some io else read_all io xss) }"

text \<open>The kernel's reads fit the room it was offered.\<close>

fun reads_fit :: "evio \<Rightarrow> u8 list list \<Rightarrow> bool" where
  "reads_fit io [] = True"
| "reads_fit io (xs # xss) \<longleftrightarrow> xs \<noteq> [] \<and> rb_tail io + length xs \<le> rb_len io \<and>
     (case nio_read io (Data xs) of None \<Rightarrow> True | Some io' \<Rightarrow> io_closed io' \<or> reads_fit io' xss)"

lemma read_all_frames:
  assumes "setting_ok s" "conn_ok s io" "reads_fit io xss"
  shows "\<exists>io' k. read_all io xss = Some io' \<and> k \<le> length xss \<and>
    io_reads io' = io_reads io @ fst (frames (plen_of s) (pending io @ concat (take k xss))) \<and>
    (if io_closed io' then overlong s (snd (frames (plen_of s) (pending io @ concat (take k xss))))
     else k = length xss \<and> conn_ok s io' \<and> pending io' = snd (frames (plen_of s) (pending io @ concat xss)))"
  using assms(2,3)
proof (induction xss arbitrary: io)
  case Nil
  then show ?case by (auto simp: conn_ok_def buf_ok_def)
next
  case (Cons xs xss)
  obtain io1 where n: "nio_read io (Data xs) = Some io1"
    "io_reads io1 = io_reads io @ fst (frames (plen_of s) (pending io @ xs))"
    "if io_closed io1 then overlong s (snd (frames (plen_of s) (pending io @ xs)))
     else conn_ok s io1 \<and> pending io1 = snd (frames (plen_of s) (pending io @ xs))"
    using nio_read_step [OF assms(1) Cons.prems(1), of xs] Cons.prems(2) by auto
  show ?case
  proof (cases "io_closed io1")
    case True
    then show ?thesis using n by (intro exI [of _ io1] exI [of _ 1]) auto
  next
    case False
    then have c: "conn_ok s io1" "pending io1 = snd (frames (plen_of s) (pending io @ xs))" "reads_fit io1 xss"
      using Cons.prems(2) n by auto
    from Cons.IH [OF c(1,3)] obtain io' k where i: "read_all io1 xss = Some io'" "k \<le> length xss"
      "io_reads io' = io_reads io1 @ fst (frames (plen_of s) (pending io1 @ concat (take k xss)))"
      "if io_closed io' then overlong s (snd (frames (plen_of s) (pending io1 @ concat (take k xss))))
       else k = length xss \<and> conn_ok s io' \<and> pending io' = snd (frames (plen_of s) (pending io1 @ concat xss))" by blast
    have "\<And>t. frames (plen_of s) (pending io @ xs @ t) = (fst (frames (plen_of s) (pending io @ xs)) @ fst (frames (plen_of s) (pending io1 @ t)),
        snd (frames (plen_of s) (pending io1 @ t)))"
      unfolding c(2) using plen_of.frames_append [of s "pending io @ xs"] by simp
    then show ?thesis using i n False by (intro exI [of _ io'] exI [of _ "Suc k"]) (auto split: if_splits)
  qed
qed

text \<open>There is always room for one more byte.\<close>

lemma reads_fit_bytes:
  assumes "setting_ok s" "conn_ok s io"
  shows "reads_fit io (map (\<lambda>b. [b]) bs)"
  using assms(2)
proof (induction bs arbitrary: io)
  case (Cons b bs)
  have "rb_tail io + length [b] \<le> rb_len io" using Cons.prems by (simp add: conn_ok_def)
  from nio_read_step [OF assms(1) Cons.prems _ this] Cons show ?case by (auto simp: conn_ok_def split: if_splits)
qed simp

text \<open>A delimited stream is only given up when half the largest package is buffered.\<close>

lemma delim_not_overlong:
  assumes "u_mode s = UNPACK_BY_DELIMITER" "2 * length r \<le> package_max_length s"
  shows "\<not> overlong s r"
proof -
  have "n \<le> package_max_length s" if "plen_of s r = Some n" for n
    using that assms find_sub_len [of "take (delimiter_bytes s) (delimiter s)" r]
    by (auto simp: plen_of_def delim_plen_def split: if_splits)
  then show ?thesis using assms by (force simp: overlong_def)
qed

lemma frames_Nil [simp]: "frames (plen_of s) [] = ([], [])"
  using plen_of.plen_pos [of s "[]"] by (intro plen_of.frames_stop) auto

lemma evio_set_unpack_conn:
  assumes "setting_ok s" "unpack_set io = None" "rb_head io = 0" "rb_tail io = 0" "\<not> read_until_len io"
    "\<not> alloced_readbuf io" "\<not> io_closed io"
  shows "\<exists>io'. evio_set_unpack lb io (Some s) = Some io' \<and> conn_ok s io' \<and> io_reads io' = io_reads io \<and>
    pending io' = []"
proof -
  let ?len = "if u_mode s = UNPACK_BY_FIXED_LENGTH then fixed_length s else min EVLOOP_READ_BUFSIZE (package_max_length s)"
  have len: "0 < ?len" "?len \<le> package_max_length s" "package_max_length s < 2 ^ 30" "package_max_length s \<noteq> 0"
    using assms(1) by (auto simp: setting_ok_def EVLOOP_READ_BUFSIZE_def)
  have e: "evio_set_unpack lb io (Some s) =
      evio_alloc_readbuf (io\<lparr>unpack_set := Some s, rb_len := ?len, max_read_bufsize := package_max_length s\<rparr>) ?len"
    using assms(1,2) len(4)
    by (cases "u_mode s") (auto simp: evio_set_unpack_def evio_unset_unpack_def setting_ok_def field_ok_def Let_def)
  show ?thesis unfolding e using assms len
    by (auto simp: evio_alloc_readbuf_def int_size_def conn_ok_def buf_ok_def pending_def Let_def)
qed

section \<open>Two weak points\<close>

text \<open>A package of length zero is delivered over and over: the loop does not return.\<close>

lemma field_loop_zero:
  assumes "field_loop s io p ep remain handled n = Some y" "body_offset s \<le> remain"
    "length_field s (rb_base io) p ep = Some (Package 0)" "p \<le> length (rb_base io)"
  shows False
proof -
  define P where "P = (\<lambda>s (io :: evio) p ep remain (handled :: nat) (n :: nat) (y :: evio \<times> (nat \<times> nat \<times> nat \<times> nat) option).
    \<not> (body_offset s \<le> remain \<and> length_field s (rb_base io) p ep = Some (Package 0) \<and> p \<le> length (rb_base io)))"
  have "P s io p ep remain handled n y"
  proof (rule field_loop.raw_induct [OF _ assms(1)])
    fix f s io p ep remain handled n y
    assume ih: "\<And>s io p ep remain handled n y. f s io p ep remain handled n = Some y \<Longrightarrow> P s io p ep remain handled n y"
      and b: "(if body_offset s \<le> remain
       then do {
         fl \<leftarrow> length_field s (rb_base io) p ep;
         (case fl of
            Package k \<Rightarrow>
              (if k \<le> remain
               then do { io \<leftarrow> evio_read_cb io p k; f s io (p + k) ep (remain - k) (handled + k) k }
               else Some (io, Some (p, remain, handled, k)))
          | Incomplete \<Rightarrow> Some (io, Some (p, remain, handled, n))
          | Too_big \<Rightarrow> Some (evio_close (io\<lparr>io_over_limit := True\<rparr>), None)) }
       else Some (io, Some (p, remain, handled, n))) = Some y"
    show "P s io p ep remain handled n y"
    proof (rule ccontr)
      assume "\<not> P s io p ep remain handled n y"
      then have a: "body_offset s \<le> remain" "length_field s (rb_base io) p ep = Some (Package 0)" "p \<le> length (rb_base io)"
        by (auto simp: P_def)
      obtain io1 where io1: "evio_read_cb io p 0 = Some io1" "delivered io io1 [take 0 (drop p (rb_base io))]"
        using evio_read_cb_delivered [of p 0 io] a(3) by auto
      have "f s io1 p ep remain handled 0 = Some y" using b a io1(1) by simp
      from ih [OF this] show False using a delivered_base [OF io1(2)] by (simp add: P_def)
    qed
  qed
  then show False using assms(2-4) by (simp add: P_def)
qed

lemma unpack_zero_package:
  assumes "u_mode s = UNPACK_BY_LENGTH_FIELD" "rb_head io \<le> length (rb_base io)" "rb_head io + body_offset s \<le> buf + n"
    "length_field s (rb_base io) (rb_head io) (buf + n) = Some (Package 0)"
  shows "evio_unpack io s buf n = None"
proof -
  have "body_offset s \<le> buf + n - rb_head io" using assms(3) by linarith
  then have "field_loop s io (rb_head io) (buf + n) (buf + n - rb_head io) 0 (body_offset s) = None"
    using field_loop_zero [of s io "rb_head io" "buf + n" "buf + n - rb_head io" 0 "body_offset s"] assms(2-4)
    by (cases "field_loop s io (rb_head io) (buf + n) (buf + n - rb_head io) 0 (body_offset s)") auto
  then show ?thesis using assms(1) by (simp add: evio_unpack_def evio_unpack_by_length_field_def Let_def)
qed

lemma find_delim_after:
  "p + k < length base \<Longrightarrow> \<forall>i<k. base ! (p + i) \<noteq> c \<Longrightarrow> base ! (p + k) = c \<Longrightarrow>
   find_delim base p (Suc k) (unat c) = Some (Some (p + k))"
proof (induction k arbitrary: p)
  case 0
  then show ?case by (simp add: mem_read_def)
next
  case (Suc k)
  have "base ! p \<noteq> c" using Suc.prems(2) by (metis add.right_neutral zero_less_Suc)
  then have ne: "unat (base ! p) \<noteq> unat c" by (simp add: word_unat_eq_iff)
  have "\<forall>i<k. base ! (p + 1 + i) \<noteq> c" using Suc.prems(2) by (metis Suc_less_eq add.assoc plus_1_eq_Suc)
  then have "find_delim base (p + 1) (Suc k) (unat c) = Some (Some (p + 1 + k))" using Suc.prems by (intro Suc.IH) auto
  then show ?case using ne Suc.prems(1) by (subst find_delim.simps) (simp add: mem_read_def del: find_delim.simps)
qed

text \<open>The scan of the buffered data looks one byte too far: a stale byte behind the data is delivered
  as data, and the head passes the tail.\<close>

lemma evio_read_until_delim_stale:
  assumes "rb_head io < rb_tail io" "rb_tail io < length (rb_base io)" "rb_base io ! rb_tail io = c"
    "\<forall>i. rb_head io \<le> i \<longrightarrow> i < rb_tail io \<longrightarrow> rb_base io ! i \<noteq> c"
  shows "\<exists>io'. evio_read_until_delim io c = Some (io', int (rb_tail io - rb_head io) + 1) \<and>
    rb_head io' = rb_tail io' + 1 \<and> last (last (io_reads io')) = c"
proof -
  let ?n = "rb_tail io - rb_head io"
  have f: "find_delim (rb_base io) (rb_head io) (Suc ?n) (unat c) = Some (Some (rb_head io + ?n))"
    using assms by (intro find_delim_after) auto
  have r: "reset_readbuf (io\<lparr>rb_head := rb_head io + (?n + 1)\<rparr>) = io\<lparr>rb_head := rb_tail io + 1\<rparr>"
    using assms(1) by (simp add: reset_readbuf_def)
  have le: "rb_head io + (?n + 1) \<le> length (rb_base (io\<lparr>rb_head := rb_tail io + 1\<rparr>))" using assms(1,2) by simp
  obtain io1 where io1: "evio_read_cb (io\<lparr>rb_head := rb_tail io + 1\<rparr>) (rb_head io) (?n + 1) = Some io1"
    "delivered (io\<lparr>rb_head := rb_tail io + 1\<rparr>) io1 [take (?n + 1) (drop (rb_head io) (rb_base io))]"
    using evio_read_cb_delivered [OF le] by auto
  have "evio_read_until_delim io c = Some (io1, int ?n + 1)"
    using f r io1(1) assms(1) by (simp add: evio_read_until_delim_def)
  moreover have "last (take (?n + 1) (drop (rb_head io) (rb_base io))) = c"
    using assms(1-3) by (simp add: take_Suc_conv_app_nth)
  ultimately show ?thesis using io1(2) by (auto simp: delivered_def rb_view_def)
qed

end
