(* ===== verification/Prefix.thy ===== *)
theory Prefix
  imports Interfaces Jhash
begin

text \<open>
  Network prefixes, \<open>src/src/network/prefix.c\<close> and \<open>prefix.h\<close>: containment, comparison, masks and the hash
  key. A prefix is its family, its length and the bytes of its union \<open>u\<close>; a read outside these bytes or a failed
  assertion is \<open>None\<close>. Addresses are their bytes in network order. The layout of a flow specification inside the
  union (family at 0, length at 2, pointer at 8) is the one of a little-endian LP64 machine.
\<close>

section \<open>The code\<close>

record prefix =
  pf_family :: u8
  pf_len :: nat
  pf_val :: "u8 list"

definition AF_UNSPEC :: u8 where "AF_UNSPEC = 0"
definition AF_INET :: u8 where "AF_INET = 2"
definition AF_INET6 :: u8 where "AF_INET6 = 10"
definition AF_ETHERNET :: u8 where "AF_ETHERNET = 17"
definition AF_MAX :: u8 where "AF_MAX = 46"
definition AF_EVPN :: u8 where "AF_EVPN = AF_MAX + 1"
definition AF_FLOWSPEC :: u8 where "AF_FLOWSPEC = AF_MAX + 2"

definition IPV4_MAX_BYTELEN :: nat where "IPV4_MAX_BYTELEN = 4"
definition IPV4_MAX_BITLEN :: nat where "IPV4_MAX_BITLEN = 32"
definition IPV6_MAX_BYTELEN :: nat where "IPV6_MAX_BYTELEN = 16"
definition IPV6_MAX_BITLEN :: nat where "IPV6_MAX_BITLEN = 128"
definition ETH_ALEN :: nat where "ETH_ALEN = 6"

definition PSIZE :: "nat \<Rightarrow> nat" where "PSIZE a = (a + 7) div 8"

definition maskbit :: "u8 list" where
  "maskbit = [0x00, 0x80, 0xc0, 0xe0, 0xf0, 0xf8, 0xfc, 0xfe, 0xff]"

definition prefix_bit :: "u8 list \<Rightarrow> nat \<Rightarrow> u8 option" where
  "prefix_bit prefix bit_index =
     do { x \<leftarrow> mem_read prefix (bit_index div 8); Some (drop_bit (7 - bit_index mod 8) x AND 1) }"

definition numcmp :: "'a::linorder \<Rightarrow> 'a \<Rightarrow> int" where
  "numcmp a b = (if a < b then - 1 else if a > b then 1 else 0)"

text \<open>The fields of \<open>u.prefix_flowspec\<close>.\<close>

definition fs_family :: "prefix \<Rightarrow> u8 option" where
  "fs_family p = mem_read (pf_val p) 0"

definition fs_prefixlen :: "prefix \<Rightarrow> nat option" where
  "fs_prefixlen p = do { lo \<leftarrow> mem_read (pf_val p) 2; hi \<leftarrow> mem_read (pf_val p) 3; Some (unat lo + 256 * unat hi) }"

text \<open>\<open>while (offset--) if (np[offset] != pp[offset]) return 0; return 1\<close>.\<close>

fun match_bytes :: "u8 list \<Rightarrow> u8 list \<Rightarrow> nat \<Rightarrow> bool option" where
  "match_bytes np pp 0 = Some True"
| "match_bytes np pp (Suc offset) = do {
     x \<leftarrow> mem_read np offset;
     y \<leftarrow> mem_read pp offset;
     (if x \<noteq> y then Some False else match_bytes np pp offset) }"

definition prefix_match :: "prefix \<Rightarrow> prefix \<Rightarrow> bool option" where
  "prefix_match n p =
     (if pf_len n > pf_len p then Some False
      else if pf_family n = AF_FLOWSPEC
      then do {
        fn \<leftarrow> fs_family n;
        fp \<leftarrow> fs_family p;
        (if fn \<noteq> fp then Some False
         else do {
           ln \<leftarrow> fs_prefixlen n;
           lp \<leftarrow> fs_prefixlen p;
           (if ln > lp then Some False else match_bytes (drop 8 (pf_val n)) (drop 8 (pf_val p)) ln) }) }
      else do {
        let offset = pf_len n div 8;
        let shift = pf_len n mod 8;
        ok \<leftarrow> (if shift \<noteq> 0
               then do { x \<leftarrow> mem_read (pf_val n) offset; y \<leftarrow> mem_read (pf_val p) offset;
                         Some (maskbit ! shift AND (x XOR y) = 0) }
               else Some True);
        (if \<not> ok then Some False else match_bytes (pf_val n) (pf_val p) offset) })"

text \<open>\<open>memcmp\<close>, of which the code uses the sign.\<close>

definition memcmp :: "u8 list \<Rightarrow> u8 list \<Rightarrow> nat \<Rightarrow> int option" where
  "memcmp a b n = (if n \<le> length a \<and> n \<le> length b then Some (strcmp (take n a) (take n b)) else None)"

definition evpn_addr_size :: nat where "evpn_addr_size = 44"

definition prefix_same :: "prefix option \<Rightarrow> prefix option \<Rightarrow> bool option" where
  "prefix_same up1 up2 = (case (up1, up2) of
     (None, None) \<Rightarrow> Some True
   | (Some p1, Some p2) \<Rightarrow>
       (let same = (\<lambda>a b n. do { i \<leftarrow> memcmp a b n; Some (i = 0) }) in
        if pf_family p1 = pf_family p2 \<and> pf_len p1 = pf_len p2
        then (if pf_family p1 = AF_INET then same (pf_val p1) (pf_val p2) IPV4_MAX_BYTELEN
              else if pf_family p1 = AF_INET6 then same (pf_val p1) (pf_val p2) IPV6_MAX_BYTELEN
              else if pf_family p1 = AF_ETHERNET then same (pf_val p1) (pf_val p2) ETH_ALEN
              else if pf_family p1 = AF_EVPN then same (pf_val p1) (pf_val p2) evpn_addr_size
              else if pf_family p1 = AF_FLOWSPEC
              then do {
                f1 \<leftarrow> fs_family p1;
                f2 \<leftarrow> fs_family p2;
                (if f1 \<noteq> f2 then Some False
                 else do {
                   l1 \<leftarrow> fs_prefixlen p1;
                   l2 \<leftarrow> fs_prefixlen p2;
                   (if l1 \<noteq> l2 then Some False else same (drop 8 (pf_val p1)) (drop 8 (pf_val p2)) l2) }) }
              else Some False)
        else Some False)
   | _ \<Rightarrow> Some False)"

text \<open>The flow specifications are compared through their pointers: \<open>mem\<close> is what a pointer, given by its
  bytes, points to.\<close>

type_synonym pmem = "u8 list \<rightharpoonup> u8 list"

definition fs_ptr :: "prefix \<Rightarrow> u8 list" where
  "fs_ptr p = take 8 (drop 8 (pf_val p))"

fun fs_cmp_bytes :: "u8 list \<Rightarrow> u8 list \<Rightarrow> nat \<Rightarrow> int option" where
  "fs_cmp_bytes a b 0 = Some 0"
| "fs_cmp_bytes a b (Suc offset) = do {
     x \<leftarrow> mem_read a offset;
     y \<leftarrow> mem_read b offset;
     (if x \<noteq> y then Some (numcmp x y) else fs_cmp_bytes a b offset) }"

definition prefix_cmp :: "pmem \<Rightarrow> prefix \<Rightarrow> prefix \<Rightarrow> int option" where
  "prefix_cmp mem p1 p2 =
     (if pf_family p1 \<noteq> pf_family p2 then Some (numcmp (pf_family p1) (pf_family p2))
      else if pf_family p1 = AF_FLOWSPEC
      then do {
        f1 \<leftarrow> fs_family p1;
        f2 \<leftarrow> fs_family p2;
        (if f1 \<noteq> f2 then Some 1
         else do {
           l1 \<leftarrow> fs_prefixlen p1;
           l2 \<leftarrow> fs_prefixlen p2;
           (if l1 \<noteq> l2 then Some (numcmp l1 l2)
            else do {
              a \<leftarrow> mem (fs_ptr p1);
              b \<leftarrow> mem (fs_ptr p2);
              fs_cmp_bytes a b l1 }) }) }
      else if pf_len p1 \<noteq> pf_len p2 then Some (numcmp (pf_len p1) (pf_len p2))
      else do {
        let offset = pf_len p1 div 8;
        let shift = pf_len p1 mod 8;
        i \<leftarrow> memcmp (pf_val p1) (pf_val p2) offset;
        (if i \<noteq> 0 then Some i
         else if shift \<noteq> 0
         then do { x \<leftarrow> mem_read (pf_val p1) offset; y \<leftarrow> mem_read (pf_val p2) offset;
                   Some (numcmp (x AND maskbit ! shift) (y AND maskbit ! shift)) }
         else Some 0) })"

text \<open>The two loops of \<open>prefix_common_bits\<close>.\<close>

fun common_bytes :: "u8 list \<Rightarrow> u8 list \<Rightarrow> nat \<Rightarrow> nat \<Rightarrow> nat option" where
  "common_bytes a b pos 0 = Some pos"
| "common_bytes a b pos (Suc k) = do {
     x \<leftarrow> mem_read a pos;
     y \<leftarrow> mem_read b pos;
     (if x \<noteq> y then Some pos else common_bytes a b (pos + 1) k) }"

fun first_bit :: "u8 \<Rightarrow> nat \<Rightarrow> nat \<Rightarrow> nat" where
  "first_bit x b 0 = b"
| "first_bit x b (Suc k) = (if x AND push_bit (7 - b) 1 \<noteq> 0 then b else first_bit x (b + 1) k)"

definition prefix_common_bits :: "prefix \<Rightarrow> prefix \<Rightarrow> int option" where
  "prefix_common_bits p1 p2 =
     (let len = (if pf_family p1 = AF_INET then IPV4_MAX_BYTELEN
                 else if pf_family p1 = AF_INET6 then IPV6_MAX_BYTELEN
                 else if pf_family p1 = AF_ETHERNET then ETH_ALEN
                 else if pf_family p1 = AF_EVPN then 8 * evpn_addr_size else 0)
      in if pf_family p1 \<noteq> pf_family p2 \<or> len = 0 then Some (- 1)
         else do {
           pos \<leftarrow> common_bytes (pf_val p1) (pf_val p2) 0 len;
           (if pos = len then Some (int pos * 8)
            else do {
              x \<leftarrow> mem_read (pf_val p1) pos;
              y \<leftarrow> mem_read (pf_val p2) pos;
              Some (int pos * 8 + int (first_bit (x XOR y) 0 8)) }) })"

text \<open>A copy of the bytes the family uses; a flow specification is copied to the block \<open>temp\<close> that \<open>calloc\<close>
  returned. An unknown family fails the assertion.\<close>

definition prefix_copy :: "u8 list \<Rightarrow> pmem \<Rightarrow> prefix \<Rightarrow> prefix \<Rightarrow> (prefix \<times> pmem) option" where
  "prefix_copy temp mem dest src =
     (let dest = dest\<lparr>pf_family := pf_family src, pf_len := pf_len src\<rparr>;
          copy = (\<lambda>n. do { v \<leftarrow> mem_copy (pf_val dest) 0 (pf_val src) 0 n; Some (dest\<lparr>pf_val := v\<rparr>, mem) }) in
      if pf_family src = AF_INET then copy IPV4_MAX_BYTELEN
      else if pf_family src = AF_INET6 then copy IPV6_MAX_BYTELEN
      else if pf_family src = AF_ETHERNET then copy ETH_ALEN
      else if pf_family src = AF_EVPN then copy evpn_addr_size
      else if pf_family src = AF_UNSPEC then copy 8
      else if pf_family src = AF_FLOWSPEC
      then do {
        len \<leftarrow> fs_prefixlen src;
        f \<leftarrow> fs_family src;
        v \<leftarrow> mem_copy (pf_val dest) 2 [of_nat len, of_nat (len div 256)] 0 2;
        v \<leftarrow> mem_write v 0 f;
        v \<leftarrow> mem_copy v 8 temp 0 8;
        block \<leftarrow> mem (fs_ptr src);
        block \<leftarrow> mem_copy (replicate len 0) 0 block 0 len;
        Some (dest\<lparr>pf_val := v\<rparr>, mem(temp \<mapsto> block)) }
      else None)"

text \<open>Masks. \<open>0xffffffffULL << (32 - masklen)\<close>, cut to 32 bits by \<open>htonl\<close>.\<close>

definition masklen2ip :: "nat \<Rightarrow> u8 list option" where
  "masklen2ip masklen =
     (if masklen \<le> IPV4_MAX_BITLEN then Some (be32_bytes (ucast (push_bit (32 - masklen) (0xffffffff :: u64)))) else None)"

definition builtin_clz :: "u32 \<Rightarrow> nat" where
  "builtin_clz x = length (takeWhile (\<lambda>i. \<not> bit x i) (rev [0..<32]))"

definition ntohl :: "u8 list \<Rightarrow> u32" where
  "ntohl bs = (case bs of b0 # b1 # b2 # b3 # _ \<Rightarrow> be32 b0 b1 b2 b3 | _ \<Rightarrow> 0)"

definition ip_masklen :: "u8 list \<Rightarrow> nat" where
  "ip_masklen netmask = (let tmp = NOT (ntohl netmask) in if tmp \<noteq> 0 then builtin_clz tmp else 32)"

definition apply_mask_ipv4 :: "prefix \<Rightarrow> prefix option" where
  "apply_mask_ipv4 p = do {
     mask \<leftarrow> masklen2ip (pf_len p);
     Some (p\<lparr>pf_val := map2 (AND) (take 4 (pf_val p)) mask @ drop 4 (pf_val p)\<rparr>) }"

definition ip6_masklen :: "u8 list \<Rightarrow> nat" where
  "ip6_masklen netmask =
     (let w = (\<lambda>i. ntohl (drop (4 * i) netmask)) in
      if w 0 \<noteq> 0xffffffff then builtin_clz (NOT (w 0))
      else if w 1 \<noteq> 0xffffffff then builtin_clz (NOT (w 1)) + 32
      else if w 2 \<noteq> 0xffffffff then builtin_clz (NOT (w 2)) + 64
      else if w 3 \<noteq> 0xffffffff then builtin_clz (NOT (w 3)) + 96
      else 128)"

definition masklen2ip6 :: "nat \<Rightarrow> u8 list option" where
  "masklen2ip6 masklen =
     (let ones = 0xffffffff :: u32; m = (\<lambda>n. push_bit (n - masklen) ones);
          words = (\<lambda>ws. Some (concat (map be32_bytes ws))) in
      if masklen > IPV6_MAX_BITLEN then None
      else if masklen = 0 then words [0, 0, 0, 0]
      else if masklen \<le> 32 then words [m 32, 0, 0, 0]
      else if masklen \<le> 64 then words [ones, m 64, 0, 0]
      else if masklen \<le> 96 then words [ones, ones, m 96, 0]
      else words [ones, ones, ones, m 128])"

text \<open>\<open>while (index < 16) pnt[index++] = 0\<close>.\<close>

fun clear_loop :: "u8 list \<Rightarrow> nat \<Rightarrow> nat \<Rightarrow> u8 list option" where
  "clear_loop v index 0 = Some v"
| "clear_loop v index (Suc k) = do { v \<leftarrow> mem_write v index 0; clear_loop v (index + 1) k }"

definition apply_mask_ipv6 :: "prefix \<Rightarrow> prefix option" where
  "apply_mask_ipv6 p =
     (let index = pf_len p div 8; offset = pf_len p mod 8 in
      if index < 16
      then do {
        x \<leftarrow> mem_read (pf_val p) index;
        v \<leftarrow> mem_write (pf_val p) index (x AND maskbit ! offset);
        v \<leftarrow> clear_loop v (index + 1) (16 - (index + 1));
        Some (p\<lparr>pf_val := v\<rparr>) }
      else Some p)"

definition apply_mask :: "prefix \<Rightarrow> prefix option" where
  "apply_mask p =
     (if pf_family p = AF_INET then apply_mask_ipv4 p
      else if pf_family p = AF_INET6 then apply_mask_ipv6 p else Some p)"

definition prefix_blen :: "prefix \<Rightarrow> nat" where
  "prefix_blen p =
     (if pf_family p = AF_INET then IPV4_MAX_BYTELEN
      else if pf_family p = AF_INET6 then IPV6_MAX_BYTELEN
      else if pf_family p = AF_ETHERNET then ETH_ALEN else 0)"

text \<open>The class macros of \<open>netinet/in.h\<close>.\<close>

definition IN_CLASSB :: "u32 \<Rightarrow> bool" where "IN_CLASSB a \<longleftrightarrow> a AND 0xc0000000 = 0x80000000"
definition IN_CLASSC :: "u32 \<Rightarrow> bool" where "IN_CLASSC a \<longleftrightarrow> a AND 0xe0000000 = 0xc0000000"

definition apply_classful_mask_ipv4 :: "prefix \<Rightarrow> prefix option" where
  "apply_classful_mask_ipv4 p =
     (let destination = ntohl (pf_val p) in
      if pf_len p = IPV4_MAX_BITLEN then Some p
      else if IN_CLASSC destination then apply_mask_ipv4 (p\<lparr>pf_len := 24\<rparr>)
      else if IN_CLASSB destination then apply_mask_ipv4 (p\<lparr>pf_len := 16\<rparr>)
      else apply_mask_ipv4 (p\<lparr>pf_len := 8\<rparr>))"

definition ipv4_broadcast_addr :: "u8 list \<Rightarrow> nat \<Rightarrow> u8 list option" where
  "ipv4_broadcast_addr hostaddr masklen = do {
     mask \<leftarrow> masklen2ip masklen;
     Some (if masklen \<noteq> IPV4_MAX_BITLEN - 1 then map2 (\<lambda>h m. h OR NOT m) hostaddr mask else be32_bytes 0xFFFFFFFF) }"

text \<open>The bytes of a cleared \<open>struct prefix\<close> up to \<open>u.prefix\<close>: family, a pad byte, the length, four pad bytes. The
  size of the union is 48 bytes.\<close>

definition prefix_hash_key :: "u8 list \<Rightarrow> pmem \<Rightarrow> prefix \<Rightarrow> u32 option" where
  "prefix_hash_key temp mem pp = do {
     (copy, mem) \<leftarrow> prefix_copy temp mem \<lparr>pf_family = 0, pf_len = 0, pf_val = replicate 48 0\<rparr> pp;
     (if pf_family pp = AF_FLOWSPEC
      then do {
        len \<leftarrow> fs_prefixlen copy;
        block \<leftarrow> mem (fs_ptr copy);
        (if len \<le> length block then Some (jhash (take len block) 0x55aa5a5a) else None) }
      else do {
        let head = [pf_family copy, 0, of_nat (pf_len copy), of_nat (pf_len copy div 256), 0, 0, 0, 0];
        (if PSIZE (pf_len copy) \<le> 48
         then Some (jhash (head @ take (PSIZE (pf_len copy)) (pf_val copy)) 0x55aa5a5a) else None) }) }"

definition prefix_ipv4_any :: "prefix \<Rightarrow> bool" where
  "prefix_ipv4_any p \<longleftrightarrow> take 4 (pf_val p) = [0, 0, 0, 0] \<and> pf_len p = 0"

definition is_host_route :: "prefix \<Rightarrow> bool" where
  "is_host_route p =
     (if pf_family p = AF_INET then pf_len p = IPV4_MAX_BITLEN
      else if pf_family p = AF_INET6 then pf_len p = IPV6_MAX_BITLEN else False)"

section \<open>Bits of an address\<close>

text \<open>Bit \<open>k\<close> of an address, the most significant bit of its first byte being bit 0, and agreement of two
  addresses on their first bits.\<close>

definition abit :: "u8 list \<Rightarrow> nat \<Rightarrow> bool" where
  "abit bs k \<longleftrightarrow> bit (bs ! (k div 8)) (7 - k mod 8)"

definition agree :: "nat \<Rightarrow> u8 list \<Rightarrow> u8 list \<Rightarrow> bool" where
  "agree k a b \<longleftrightarrow> (\<forall>i < k. abit a i = abit b i)"

lemma prefix_bit_abit: "k div 8 < length bs \<Longrightarrow> prefix_bit bs k = Some (of_bool (abit bs k))"
  by (simp add: prefix_bit_def abit_def mem_read_def and_one_eq mod_2_eq_odd bit_iff_odd_drop_bit)

lemma byte_eq_iff: "(x :: u8) = y \<longleftrightarrow> (\<forall>j < 8. bit x (7 - j) = bit y (7 - j))"
proof
  assume h: "\<forall>j < 8. bit x (7 - j) = bit y (7 - j)"
  show "x = y"
  proof (rule bit_word_eqI)
    fix n assume "n < LENGTH(8)"
    then show "bit x n = bit y n" using h [rule_format, of "7 - n"] by simp
  qed
qed simp

lemma agree_split:
  assumes "s \<le> 8"
  shows "agree (8 * n + s) a b \<longleftrightarrow> agree (8 * n) a b \<and> (\<forall>j < s. bit (a ! n) (7 - j) = bit (b ! n) (7 - j))"
proof -
  have "(\<forall>i < 8 * n + s. P i) \<longleftrightarrow> (\<forall>i < 8 * n. P i) \<and> (\<forall>j < s. P (8 * n + j))" for P
  proof (intro iffI conjI allI impI)
    fix i assume "(\<forall>i < 8 * n. P i) \<and> (\<forall>j < s. P (8 * n + j))" "i < 8 * n + s"
    then show "P i" by (cases "i < 8 * n") (auto dest: spec [of _ "i - 8 * n"])
  qed auto
  moreover have "j < s \<Longrightarrow> abit c (8 * n + j) = bit (c ! n) (7 - j)" for c j using assms by (simp add: abit_def)
  ultimately show ?thesis by (simp add: agree_def)
qed

lemma agree_bytes: "n \<le> length a \<Longrightarrow> n \<le> length b \<Longrightarrow> take n a = take n b \<longleftrightarrow> agree (8 * n) a b"
proof (induction n)
  case (Suc n)
  then have "take (Suc n) a = take (Suc n) b \<longleftrightarrow> agree (8 * n) a b \<and> a ! n = b ! n"
    by (auto simp: take_Suc_conv_app_nth)
  then show ?case using agree_split [of 8 n a b] byte_eq_iff [of "a ! n" "b ! n"] by (simp add: add.commute)
qed (simp add: agree_def)

lemma maskbit_bits: "list_all (\<lambda>s. list_all (\<lambda>j. bit (maskbit ! s) (7 - j) \<longleftrightarrow> j < s) [0..<8]) [0..<9]"
  by code_simp

lemma maskbit_bit: "s \<le> 8 \<Longrightarrow> j < 8 \<Longrightarrow> bit (maskbit ! s) (7 - j) \<longleftrightarrow> j < s"
  using maskbit_bits by (auto simp: list_all_iff)

lemma mask_eq_iff:
  assumes "s \<le> 8"
  shows "x AND maskbit ! s = y AND maskbit ! s \<longleftrightarrow> (\<forall>j < s. bit x (7 - j) = bit y (7 - j))"
    "maskbit ! s AND (x XOR y) = 0 \<longleftrightarrow> (\<forall>j < s. bit x (7 - j) = bit y (7 - j))"
proof -
  have restrict: "(\<forall>j < 8. (A j \<and> j < s) = (B j \<and> j < s)) \<longleftrightarrow> (\<forall>j < s. A j = B j)" for A B :: "nat \<Rightarrow> bool"
    using assms by (meson less_le_trans)
  show "x AND maskbit ! s = y AND maskbit ! s \<longleftrightarrow> (\<forall>j < s. bit x (7 - j) = bit y (7 - j))"
    unfolding byte_eq_iff [of "x AND _"] restrict [symmetric] using maskbit_bit [OF assms] by (simp add: bit_simps)
  have "(\<forall>j < 8. j < s \<longrightarrow> A j = B j) \<longleftrightarrow> (\<forall>j < s. A j = B j)" for A B :: "nat \<Rightarrow> bool" using assms by (meson less_le_trans)
  then show "maskbit ! s AND (x XOR y) = 0 \<longleftrightarrow> (\<forall>j < s. bit x (7 - j) = bit y (7 - j))"
    unfolding byte_eq_iff [of "_ AND (x XOR y)"] using maskbit_bit [OF assms] by (simp add: bit_simps)
qed

lemma match_bytes_take:
  "n \<le> length a \<Longrightarrow> n \<le> length b \<Longrightarrow> match_bytes a b n = Some (take n a = take n b)"
  by (induction n) (auto simp: mem_read_def take_Suc_conv_app_nth)

section \<open>Containment\<close>

text \<open>A prefix whose bytes are there.\<close>

definition pfx_ok :: "prefix \<Rightarrow> bool" where
  "pfx_ok p \<longleftrightarrow> pf_family p \<noteq> AF_FLOWSPEC \<and> PSIZE (pf_len p) \<le> length (pf_val p) \<and> pf_len p < 2 ^ 16"

lemma PSIZE_bytes: "m div 8 \<le> PSIZE m" "m mod 8 \<noteq> 0 \<Longrightarrow> m div 8 < PSIZE m" "m \<le> n \<Longrightarrow> PSIZE m \<le> PSIZE n"
proof -
  show "m div 8 \<le> PSIZE m" "m \<le> n \<Longrightarrow> PSIZE m \<le> PSIZE n" unfolding PSIZE_def by (simp_all add: div_le_mono)
  have "m = m div 8 * 8 + m mod 8" by simp
  then have "Suc (m div 8) * 8 \<le> m + 7" if "m mod 8 \<noteq> 0" using that unfolding mult_Suc by linarith
  then show "m div 8 < PSIZE m" if "m mod 8 \<noteq> 0"
    using that unfolding PSIZE_def by (simp only: less_eq_div_iff_mult_less_eq Suc_le_eq [symmetric] not_False_eq_True)
qed

lemma pfx_ok_bytes:
  assumes "pfx_ok p" "m \<le> pf_len p"
  shows "m div 8 \<le> length (pf_val p)" "m mod 8 \<noteq> 0 \<Longrightarrow> m div 8 < length (pf_val p)"
  using assms PSIZE_bytes(1,2) [of m] PSIZE_bytes(3) [of m "pf_len p"] by (auto simp: pfx_ok_def)

lemma prefix_match_agree:
  assumes "pfx_ok n" "pfx_ok p"
  shows "prefix_match n p = Some (pf_len n \<le> pf_len p \<and> agree (pf_len n) (pf_val n) (pf_val p))"
proof (cases "pf_len n \<le> pf_len p")
  case True
  let ?o = "pf_len n div 8" and ?s = "pf_len n mod 8"
  have p: "?o \<le> length (pf_val n)" "?o \<le> length (pf_val p)" "?s \<noteq> 0 \<Longrightarrow> ?o < length (pf_val n)" "?s \<noteq> 0 \<Longrightarrow> ?o < length (pf_val p)"
    using True pfx_ok_bytes [OF assms(1)] pfx_ok_bytes [OF assms(2)] by auto
  have a: "agree (pf_len n) (pf_val n) (pf_val p) \<longleftrightarrow> take ?o (pf_val n) = take ?o (pf_val p) \<and>
      (\<forall>j < ?s. bit (pf_val n ! ?o) (7 - j) = bit (pf_val p ! ?o) (7 - j))"
    using agree_split [of ?s ?o "pf_val n" "pf_val p"] agree_bytes [OF p(1,2)] by simp
  show ?thesis
    using True p assms(1) mask_eq_iff(2) [of ?s "pf_val n ! ?o" "pf_val p ! ?o"] unfolding a
    by (auto simp: prefix_match_def pfx_ok_def mem_read_def match_bytes_take Let_def)
qed (simp add: prefix_match_def)

lemma agree_refl [simp]: "agree k a a"
  by (simp add: agree_def)

lemma agree_trans: "agree k a b \<Longrightarrow> agree l b c \<Longrightarrow> k \<le> l \<Longrightarrow> agree k a c"
  by (simp add: agree_def)

section \<open>Order\<close>

text \<open>The comparison is that of a key: family, length, and the bytes under the mask.\<close>

definition prefix_key :: "prefix \<Rightarrow> u8 list" where
  "prefix_key p = pf_family p # of_nat (pf_len p div 256) # of_nat (pf_len p) # take (pf_len p div 8) (pf_val p) @
     (if pf_len p mod 8 = 0 then [] else [pf_val p ! (pf_len p div 8) AND maskbit ! (pf_len p mod 8)])"

lemma strcmp_append:
  "length a = length b \<Longrightarrow> strcmp (a @ c) (b @ d) = (if a = b then strcmp c d else strcmp a b)"
  by (induction a b rule: list_induct2) auto

lemma strcmp_byte: "strcmp [x] [y] = numcmp x y"
  by (auto simp: numcmp_def)

lemma strcmp_len:
  assumes "m < 2 ^ 16" "n < 2 ^ 16"
  shows "strcmp (of_nat (m div 256) # of_nat m # a) (of_nat (n div 256) # of_nat n # b) =
    (if m = n then strcmp a b else numcmp m n)"
proof -
  have u: "unat (of_nat (k div 256) :: u8) = k div 256" "unat (of_nat k :: u8) = k mod 256" if "k < 2 ^ 16" for k :: nat
    using that by (simp_all add: unsigned_of_nat take_bit_eq_mod)
  have "m = n \<longleftrightarrow> m div 256 = n div 256 \<and> m mod 256 = n mod 256" by (metis div_mult_mod_eq)
  moreover have "m < n \<longleftrightarrow> m div 256 < n div 256 \<or> m div 256 = n div 256 \<and> m mod 256 < n mod 256"
  proof -
    have "m = 256 * (m div 256) + m mod 256" "n = 256 * (n div 256) + n mod 256" "m mod 256 < 256" "n mod 256 < 256" by simp_all
    then show ?thesis by linarith
  qed
  ultimately show ?thesis
    using u [OF assms(1)] u [OF assms(2)]
    by (auto simp: numcmp_def word_less_nat_alt word_unat_eq_iff)
qed

lemma prefix_cmp_key:
  assumes "pfx_ok p" "pfx_ok q"
  shows "prefix_cmp mem p q = Some (strcmp (prefix_key p) (prefix_key q))"
proof (cases "pf_family p = pf_family q \<and> pf_len p = pf_len q")
  case False
  then show ?thesis using assms strcmp_len [of "pf_len p" "pf_len q"]
    by (auto simp: prefix_cmp_def prefix_key_def pfx_ok_def numcmp_def)
next
  case True
  let ?o = "pf_len p div 8" and ?s = "pf_len p mod 8"
  have l: "length (take ?o (pf_val p)) = length (take ?o (pf_val q))" "?o \<le> length (pf_val q)"
    using True pfx_ok_bytes(1) [OF assms(1) order_refl] pfx_ok_bytes(1) [OF assms(2) order_refl] by auto
  show ?thesis
    using True assms pfx_ok_bytes [OF assms(1) order_refl] pfx_ok_bytes [OF assms(2) order_refl] strcmp_append [OF l(1)] strcmp_0 [of "take ?o (pf_val p)"]
    by (auto simp: prefix_cmp_def prefix_key_def memcmp_def pfx_ok_def mem_read_def numcmp_def Let_def)
qed

interpretation prefix_order: comparison "\<lambda>p q. strcmp (prefix_key p) (prefix_key q)"
  by unfold_locales (rule strcmp_anti, rule strcmp_trans)

lemma prefix_key_eq:
  assumes "pfx_ok p" "pfx_ok q"
  shows "prefix_key p = prefix_key q \<longleftrightarrow>
    pf_family p = pf_family q \<and> pf_len p = pf_len q \<and> agree (pf_len p) (pf_val p) (pf_val q)"
proof (cases "pf_family p = pf_family q \<and> pf_len p = pf_len q")
  case False
  then show ?thesis using strcmp_len [of "pf_len p" "pf_len q" "[]" "[]"] assms
    by (auto simp: prefix_key_def pfx_ok_def numcmp_def split: if_splits)
next
  case True
  let ?o = "pf_len p div 8" and ?s = "pf_len p mod 8"
  have o: "?o \<le> length (pf_val p)" "?o \<le> length (pf_val q)"
    using True pfx_ok_bytes(1) [OF assms(1) order_refl] pfx_ok_bytes(1) [OF assms(2) order_refl] by auto
  have "agree (pf_len p) (pf_val p) (pf_val q) \<longleftrightarrow> take ?o (pf_val p) = take ?o (pf_val q) \<and>
      (\<forall>j < ?s. bit (pf_val p ! ?o) (7 - j) = bit (pf_val q ! ?o) (7 - j))"
    using agree_split [of ?s ?o "pf_val p" "pf_val q"] agree_bytes [OF o] by simp
  then show ?thesis using True o mask_eq_iff(1) [of ?s "pf_val p ! ?o" "pf_val q ! ?o"] by (auto simp: prefix_key_def)
qed

section \<open>Common bits\<close>

lemma common_bytes_first:
  assumes "pos + k \<le> length a" "pos + k \<le> length b"
  shows "\<exists>q. common_bytes a b pos k = Some q \<and> pos \<le> q \<and> q \<le> pos + k \<and> (\<forall>i. pos \<le> i \<longrightarrow> i < q \<longrightarrow> a ! i = b ! i) \<and>
    (q < pos + k \<longrightarrow> a ! q \<noteq> b ! q)"
  using assms
proof (induction k arbitrary: pos)
  case (Suc k)
  show ?case
  proof (cases "a ! pos = b ! pos")
    case True
    from Suc.IH [of "Suc pos"] Suc.prems obtain q where q: "common_bytes a b (Suc pos) k = Some q" "Suc pos \<le> q" "q \<le> pos + Suc k"
      "\<forall>i. Suc pos \<le> i \<longrightarrow> i < q \<longrightarrow> a ! i = b ! i" "q < pos + Suc k \<longrightarrow> a ! q \<noteq> b ! q" by auto
    have "\<forall>i. pos \<le> i \<longrightarrow> i < q \<longrightarrow> a ! i = b ! i" using q(4) True by (metis le_neq_implies_less Suc_leI)
    then show ?thesis using q Suc.prems True by (auto simp: mem_read_def)
  next
    case False
    then show ?thesis using Suc.prems by (auto simp: mem_read_def)
  qed
qed auto

lemma and_push_bit: "x AND push_bit k 1 \<noteq> 0 \<longleftrightarrow> bit x k" if "k < 8" for x :: u8
  using that by (simp add: push_bit_eq_mult and_exp_eq_0_iff_not_bit)

lemma first_bit_first:
  assumes "b + k = 8"
  shows "b \<le> first_bit x b k \<and> first_bit x b k \<le> 8 \<and> (\<forall>j. b \<le> j \<longrightarrow> j < first_bit x b k \<longrightarrow> \<not> bit x (7 - j)) \<and>
    (first_bit x b k < 8 \<longrightarrow> bit x (7 - first_bit x b k))"
  using assms
proof (induction k arbitrary: b)
  case (Suc k)
  have "x AND push_bit (7 - b) 1 \<noteq> 0 \<longleftrightarrow> bit x (7 - b)" by (rule and_push_bit) simp
  moreover have "\<forall>j. b \<le> j \<longrightarrow> j < first_bit x (Suc b) k \<longrightarrow> \<not> bit x (7 - j)" if "\<not> bit x (7 - b)"
    using Suc.IH [of "Suc b"] Suc.prems that by (metis Suc_leI add_Suc_shift le_neq_implies_less)
  ultimately show ?case using Suc.IH [of "Suc b"] Suc.prems by auto
qed auto

text \<open>The whole address is compared; \<open>prefix_blen\<close> is its size.\<close>

lemma prefix_common_bits_longest:
  assumes "pf_family p = pf_family q" "0 < prefix_blen p" "prefix_blen p \<le> length (pf_val p)" "prefix_blen p \<le> length (pf_val q)"
  shows "\<exists>k. prefix_common_bits p q = Some (int k) \<and> k \<le> 8 * prefix_blen p \<and> agree k (pf_val p) (pf_val q) \<and>
    (k < 8 * prefix_blen p \<longrightarrow> \<not> agree (Suc k) (pf_val p) (pf_val q))"
proof -
  let ?a = "pf_val p" and ?b = "pf_val q" and ?n = "prefix_blen p"
  obtain pos where pos: "common_bytes ?a ?b 0 ?n = Some pos" "pos \<le> ?n" "\<forall>i < pos. ?a ! i = ?b ! i" "pos < ?n \<longrightarrow> ?a ! pos \<noteq> ?b ! pos"
    using common_bytes_first [of 0 ?n ?a ?b] assms(3,4) by auto
  have "take pos ?a = take pos ?b" using pos(2,3) assms(3,4) by (intro nth_take_lemma) auto
  then have ag: "agree (8 * pos) ?a ?b" using agree_bytes [of pos ?a ?b] pos(2) assms(3,4) by simp
  have len: "(if pf_family p = AF_INET then IPV4_MAX_BYTELEN else if pf_family p = AF_INET6 then IPV6_MAX_BYTELEN
      else if pf_family p = AF_ETHERNET then ETH_ALEN else if pf_family p = AF_EVPN then 8 * evpn_addr_size else 0) = ?n"
    using assms(2) by (auto simp: prefix_blen_def)
  show ?thesis
  proof (cases "pos = ?n")
    case True
    then have "prefix_common_bits p q = Some (int (8 * ?n))"
      unfolding prefix_common_bits_def len Let_def using assms(1,2) pos(1) by simp
    then show ?thesis using ag True by (intro exI [of _ "8 * ?n"]) simp
  next
    case False
    then have lt: "pos < ?n" using pos(2) by simp
    let ?x = "?a ! pos XOR ?b ! pos"
    let ?f = "first_bit ?x 0 8"
    have f: "?f \<le> 8" "\<forall>j < ?f. \<not> bit ?x (7 - j)" "?f < 8 \<longrightarrow> bit ?x (7 - ?f)" using first_bit_first [of 0 8 ?x] by auto
    have "?f < 8"
    proof (rule ccontr)
      assume "\<not> ?f < 8"
      then have "\<forall>j < 8. bit (?a ! pos) (7 - j) = bit (?b ! pos) (7 - j)" using f(2) by (auto simp: bit_simps)
      then show False using pos(4) lt byte_eq_iff by blast
    qed
    have "prefix_common_bits p q = Some (int (8 * pos + ?f))"
      unfolding prefix_common_bits_def len Let_def using assms lt pos(1) by (simp add: mem_read_def)
    moreover have "agree (8 * pos + ?f) ?a ?b" using agree_split [OF f(1), of pos ?a ?b] ag f(2) by (auto simp: bit_simps)
    moreover have "\<not> agree (8 * pos + Suc ?f) ?a ?b"
      using agree_split [of "Suc ?f" pos ?a ?b] \<open>?f < 8\<close> f(3) by (auto simp: bit_simps)
    moreover have "8 * pos + ?f \<le> 8 * ?n" using lt \<open>?f < 8\<close> by linarith
    ultimately show ?thesis by (intro exI [of _ "8 * pos + ?f"]) simp
  qed
qed

text \<open>Two equal EVPN prefixes make the loop run past the end of the union.\<close>

lemma common_bytes_beyond:
  assumes "length a < pos + k" "pos \<le> length a"
  shows "common_bytes a a pos k = None"
  using assms by (induction k arbitrary: pos) (auto simp: mem_read_def)

lemma prefix_common_bits_evpn:
  "pf_family p = AF_EVPN \<Longrightarrow> length (pf_val p) = 48 \<Longrightarrow> prefix_common_bits p p = None"
  by (simp add: prefix_common_bits_def common_bytes_beyond evpn_addr_size_def AF_EVPN_def AF_INET_def AF_INET6_def AF_ETHERNET_def AF_MAX_def)

section \<open>Masks\<close>

lemma less_8 [simp]: "7 - k mod 8 < (8 :: nat)"
  by linarith

lemma bit_byte_of: "bit (byte_of x s) j \<longleftrightarrow> j < 8 \<and> bit x (s + j)"
proof -
  have m: "(0xFF :: u32) = mask 8" by (simp add: mask_eq_exp_minus_1)
  show ?thesis unfolding byte_of_def m by (auto simp: bit_simps)
qed

lemma abit_be32: "i < 32 \<Longrightarrow> abit (be32_bytes x) i \<longleftrightarrow> bit x (31 - i)"
proof -
  assume i: "i < 32"
  have "be32_bytes x ! (i div 8) = byte_of x (24 - 8 * (i div 8))"
  proof -
    have "i div 8 < 4" using i by simp
    then consider "i div 8 = 0" | "i div 8 = 1" | "i div 8 = 2" | "i div 8 = 3" by linarith
    then show ?thesis by cases (simp_all add: be32_bytes_def)
  qed
  moreover have "24 - 8 * (i div 8) + (7 - i mod 8) = 31 - i"
  proof -
    have "i = 8 * (i div 8) + i mod 8" "i mod 8 < 8" "i div 8 \<le> 3" using i by simp_all
    then show ?thesis by linarith
  qed
  ultimately show ?thesis by (simp add: abit_def bit_byte_of)
qed

lemma masklen2ip_abit:
  assumes "n \<le> 32"
  obtains m where "masklen2ip n = Some m" "length m = 4" "\<And>i. i < 32 \<Longrightarrow> abit m i \<longleftrightarrow> i < n"
proof
  let ?w = "ucast (push_bit (32 - n) (0xffffffff :: u64)) :: u32"
  have m: "(0xffffffff :: u64) = mask 32" by (simp add: mask_eq_exp_minus_1)
  have b: "bit ?w k \<longleftrightarrow> 32 - n \<le> k" if "k < 32" for k
    unfolding m using that by (auto simp: bit_simps)
  show "masklen2ip n = Some (be32_bytes ?w)" using assms by (simp add: masklen2ip_def IPV4_MAX_BITLEN_def)
  show "length (be32_bytes ?w) = 4" by simp
  show "abit (be32_bytes ?w) i \<longleftrightarrow> i < n" if "i < 32" for i
    using that assms by (simp add: abit_be32 b) linarith
qed

text \<open>A masked address keeps the bits of the prefix and clears the others.\<close>

definition masked :: "nat \<Rightarrow> prefix \<Rightarrow> prefix \<Rightarrow> bool" where
  "masked n p p' \<longleftrightarrow> pf_family p' = pf_family p \<and> pf_len p' = pf_len p \<and> length (pf_val p') = length (pf_val p) \<and>
     drop n (pf_val p') = drop n (pf_val p) \<and> (\<forall>i < 8 * n. abit (pf_val p') i \<longleftrightarrow> i < pf_len p \<and> abit (pf_val p) i)"

lemma apply_mask_ipv4_masked:
  assumes "pf_len p \<le> 32" "4 \<le> length (pf_val p)"
  shows "\<exists>p'. apply_mask_ipv4 p = Some p' \<and> masked 4 p p'"
proof -
  obtain m where m: "masklen2ip (pf_len p) = Some m" "length m = 4" "\<And>i. i < 32 \<Longrightarrow> abit m i \<longleftrightarrow> i < pf_len p"
    using masklen2ip_abit [OF assms(1)] by blast
  let ?v = "map2 (AND) (take 4 (pf_val p)) m @ drop 4 (pf_val p)"
  have "abit ?v i \<longleftrightarrow> i < pf_len p \<and> abit (pf_val p) i" if "i < 32" for i
  proof -
    have "i div 8 < 4" using that by simp
    then have "abit ?v i \<longleftrightarrow> abit (pf_val p) i \<and> abit m i"
      using m(2) assms(2) by (simp add: abit_def nth_append bit_simps)
    then show ?thesis using m(3) [OF that] by blast
  qed
  then show ?thesis using m(1,2) assms(2) by (simp add: apply_mask_ipv4_def masked_def)
qed

lemma clear_loop_replicate:
  "index + k \<le> length v \<Longrightarrow> clear_loop v index k = Some (take index v @ replicate k 0 @ drop (index + k) v)"
proof (induction k arbitrary: v index)
  case (Suc k)
  from Suc.IH [of "Suc index" "v[index := 0]"] Suc.prems show ?case
    by (simp add: mem_write_def take_Suc_conv_app_nth replicate_app_Cons_same flip: replicate_Suc)
qed simp

lemma apply_mask_ipv6_masked:
  assumes "pf_len p \<le> 128" "16 \<le> length (pf_val p)"
  shows "\<exists>p'. apply_mask_ipv6 p = Some p' \<and> masked 16 p p'"
proof (cases "pf_len p div 8 < 16")
  case False
  then have "pf_len p = 128" using assms(1) by simp
  then show ?thesis by (simp add: apply_mask_ipv6_def masked_def)
next
  case True
  let ?i = "pf_len p div 8" and ?s = "pf_len p mod 8"
  let ?x = "pf_val p ! ?i AND maskbit ! ?s"
  let ?v = "take ?i (pf_val p) @ ?x # replicate (16 - Suc ?i) 0 @ drop 16 (pf_val p)"
  have ap: "apply_mask_ipv6 p = Some (p\<lparr>pf_val := ?v\<rparr>)"
    using True assms(2) clear_loop_replicate [of "Suc ?i" "16 - Suc ?i" "(pf_val p)[?i := ?x]"]
    by (simp add: apply_mask_ipv6_def mem_read_def mem_write_def Let_def take_Suc_conv_app_nth)
  have "abit ?v k \<longleftrightarrow> k < pf_len p \<and> abit (pf_val p) k" if "k < 128" for k
  proof -
    have d: "k = 8 * (k div 8) + k mod 8" "k mod 8 < 8" "pf_len p = 8 * ?i + ?s" by simp_all
    consider "k div 8 < ?i" | "k div 8 = ?i" | "k div 8 > ?i" by linarith
    then show ?thesis
    proof cases
      case 1
      then have "k < pf_len p" using d by linarith
      then show ?thesis using 1 assms(2) True by (simp add: abit_def nth_append)
    next
      case 2
      then have "k < pf_len p \<longleftrightarrow> k mod 8 < ?s" using d by linarith
      moreover have "?v ! (k div 8) = ?x" using 2 assms(2) True by (simp add: nth_append)
      ultimately show ?thesis using 2 maskbit_bit [of ?s "k mod 8"] by (auto simp: abit_def bit_simps)
    next
      case 3
      then have "\<not> k < pf_len p" using d by linarith
      moreover have "?v ! (k div 8) = 0"
      proof -
        have "k div 8 - Suc ?i < 16 - Suc ?i" using 3 that by (simp add: less_diff_iff)
        then show ?thesis using 3 assms(2) True by (simp add: nth_append nth_Cons')
      qed
      ultimately show ?thesis by (simp add: abit_def)
    qed
  qed
  moreover have "drop 16 ?v = drop 16 (pf_val p)" 
  proof -
    have "16 - ?i = Suc (16 - Suc ?i)" using True by simp
    then show ?thesis using True assms(2) by simp
  qed
  ultimately show ?thesis using ap True assms(2) by (simp add: masked_def)
qed

lemma masked_agree: "masked n p p' \<Longrightarrow> pf_len p \<le> 8 * n \<Longrightarrow> agree (pf_len p) (pf_val p) (pf_val p')"
  by (auto simp: masked_def agree_def)

lemma mask_words:
  "list_all (\<lambda>n. map_option ip_masklen (masklen2ip n) = Some n) [0..<33]"
  "list_all (\<lambda>k. builtin_clz (NOT (push_bit (32 - k) 0xffffffff)) = k \<and> push_bit (32 - k) (0xffffffff :: u32) \<noteq> 0xffffffff) [1..<32]"
  "builtin_clz (NOT 0) = 0"
  by code_simp+

lemma ip_masklen_masklen2ip: "n \<le> 32 \<Longrightarrow> \<exists>m. masklen2ip n = Some m \<and> ip_masklen m = n"
  using mask_words(1) by (auto simp: list_all_iff)

lemma ntohl_be32 [simp]: "ntohl (be32_bytes x @ r) = x"
proof -
  have "ntohl (be32_bytes x @ r) = be32 (byte_of x 24) (byte_of x 16) (byte_of x 8) (byte_of x 0)"
    by (simp add: ntohl_def be32_bytes_def)
  also have "\<dots> = x"
  proof (rule bit_word_eqI)
    fix n assume "n < LENGTH(32)"
    then have "n < 8 \<or> 8 \<le> n \<and> n - 8 < 8 \<or> 16 \<le> n \<and> n - 16 < 8 \<or> 24 \<le> n \<and> n - 24 < 8" by auto
    then show "bit (be32 (byte_of x 24) (byte_of x 16) (byte_of x 8) (byte_of x 0)) n = bit x n"
      by (auto simp: be32_def le32_def bit_simps bit_byte_of)
  qed
  finally show ?thesis .
qed

lemma ntohl_be32_end [simp]: "ntohl (be32_bytes x) = x"
  using ntohl_be32 [of x "[]"] by (simp del: ntohl_be32)

lemma ip6_masklen_masklen2ip6:
  assumes "n \<le> 128"
  shows "\<exists>m. masklen2ip6 n = Some m \<and> ip6_masklen m = n"
proof -
  have w: "builtin_clz (NOT (push_bit (32 + lo - n) 0xffffffff)) = n - lo \<and> push_bit (32 + lo - n) (0xffffffff :: u32) \<noteq> 0xffffffff"
    if "lo < n \<and> n < lo + 32" for lo
  proof -
    have "n - lo \<in> set [1..<32]" "32 - (n - lo) = 32 + lo - n" using that by auto
    with mask_words(2) show ?thesis unfolding list_all_iff by metis
  qed
  have four: "ip6_masklen (concat (map be32_bytes [a, b, c, d])) =
     (if a \<noteq> 0xffffffff then builtin_clz (NOT a) else if b \<noteq> 0xffffffff then builtin_clz (NOT b) + 32
      else if c \<noteq> 0xffffffff then builtin_clz (NOT c) + 64 else if d \<noteq> 0xffffffff then builtin_clz (NOT d) + 96 else 128)" for a b c d
    by (simp add: ip6_masklen_def)
  consider "n = 0" | "0 < n \<and> n < 32" | "n = 32" | "32 < n \<and> n < 64" | "n = 64" | "64 < n \<and> n < 96" | "n = 96" | "96 < n \<and> n < 128" | "n = 128"
    using assms by linarith
  then show ?thesis
    using w [of 0] w [of 32] w [of 64] w [of 96] mask_words(3)
    by cases (simp_all add: masklen2ip6_def IPV6_MAX_BITLEN_def four [simplified] Let_def)
qed

text \<open>The broadcast address has the bits of the host before the mask and ones after it, but for a /31 all are
  ones.\<close>

lemma ipv4_broadcast_abit:
  assumes "n \<le> 32" "length h = 4"
  shows "\<exists>b. ipv4_broadcast_addr h n = Some b \<and> (\<forall>i < 32. abit b i \<longleftrightarrow> (if i < n \<and> n \<noteq> 31 then abit h i else True))"
proof -
  obtain m where m: "masklen2ip n = Some m" "length m = 4" "\<And>i. i < 32 \<Longrightarrow> abit m i \<longleftrightarrow> i < n"
    using masklen2ip_abit [OF assms(1)] by blast
  have "abit (map2 (\<lambda>h m. h OR NOT m) h m) i \<longleftrightarrow> (if i < n then abit h i else True)" if "i < 32" for i
  proof -
    have "i div 8 < 4" using that by simp
    then have "abit (map2 (\<lambda>h m. h OR NOT m) h m) i \<longleftrightarrow> abit h i \<or> \<not> abit m i"
      using m(2) assms(2) by (simp add: abit_def bit_simps)
    then show ?thesis using m(3) [OF that] by auto
  qed
  moreover have "abit (be32_bytes 0xFFFFFFFF) i" if "i < 32" for i
  proof -
    have o: "(0xFFFFFFFF :: u32) = mask 32" by (simp add: mask_eq_exp_minus_1)
    show ?thesis unfolding abit_be32 [OF that] o using that by (simp add: bit_mask_iff)
  qed
  ultimately show ?thesis using m(1) by (auto simp: ipv4_broadcast_addr_def IPV4_MAX_BITLEN_def)
qed

section \<open>Hash key\<close>

lemma prefix_same_bytes:
  assumes "pf_family p \<noteq> AF_FLOWSPEC" "prefix_same (Some p) (Some q) = Some True"
  obtains n where "pf_family q = pf_family p" "pf_len q = pf_len p" "n \<le> length (pf_val p)" "n \<le> length (pf_val q)"
    "take n (pf_val p) = take n (pf_val q)"
    "\<And>temp mem d r. pf_family r = pf_family p \<Longrightarrow> prefix_copy temp mem d r =
       do { v \<leftarrow> mem_copy (pf_val d) 0 (pf_val r) 0 n; Some (d\<lparr>pf_family := pf_family r, pf_len := pf_len r, pf_val := v\<rparr>, mem) }"
proof -
  have eq: "pf_family q = pf_family p" "pf_len q = pf_len p"
    using assms(2) by (simp_all add: prefix_same_def split: if_splits)
  have nz: "memcmp a b k \<bind> (\<lambda>i. Some (i = 0)) = Some True \<Longrightarrow> k \<le> length a \<and> k \<le> length b \<and> take k a = take k b" for a b k
    by (auto simp: memcmp_def split: if_splits)
  consider "pf_family p = AF_INET" | "pf_family p \<noteq> AF_INET" "pf_family p = AF_INET6"
    | "pf_family p \<noteq> AF_INET" "pf_family p \<noteq> AF_INET6" "pf_family p = AF_ETHERNET"
    | "pf_family p \<noteq> AF_INET" "pf_family p \<noteq> AF_INET6" "pf_family p \<noteq> AF_ETHERNET" "pf_family p = AF_EVPN"
    using assms eq by (auto simp: prefix_same_def Let_def split: if_splits)
  then show thesis
  proof cases
    case 1
    then have "memcmp (pf_val p) (pf_val q) IPV4_MAX_BYTELEN \<bind> (\<lambda>i. Some (i = 0)) = Some True"
      using assms(2) eq by (simp add: prefix_same_def Let_def)
    from nz [OF this] show thesis using 1 eq by (intro that) (auto simp: prefix_copy_def Let_def)
  next
    case 2
    then have "memcmp (pf_val p) (pf_val q) IPV6_MAX_BYTELEN \<bind> (\<lambda>i. Some (i = 0)) = Some True"
      using assms(2) eq by (simp add: prefix_same_def Let_def)
    from nz [OF this] show thesis using 2 eq by (intro that) (auto simp: prefix_copy_def Let_def)
  next
    case 3
    then have "memcmp (pf_val p) (pf_val q) ETH_ALEN \<bind> (\<lambda>i. Some (i = 0)) = Some True"
      using assms(2) eq by (simp add: prefix_same_def Let_def)
    from nz [OF this] show thesis using 3 eq by (intro that) (auto simp: prefix_copy_def Let_def)
  next
    case 4
    then have "memcmp (pf_val p) (pf_val q) evpn_addr_size \<bind> (\<lambda>i. Some (i = 0)) = Some True"
      using assms(2) eq by (simp add: prefix_same_def Let_def)
    from nz [OF this] show thesis using 4 eq by (intro that) (auto simp: prefix_copy_def Let_def)
  qed
qed

lemma prefix_same_hash:
  assumes "pf_family p \<noteq> AF_FLOWSPEC" "prefix_same (Some p) (Some q) = Some True"
  shows "prefix_hash_key temp mem p = prefix_hash_key temp mem q"
proof -
  obtain n where n: "pf_family q = pf_family p" "pf_len q = pf_len p" "n \<le> length (pf_val p)" "n \<le> length (pf_val q)"
    "take n (pf_val p) = take n (pf_val q)"
    "\<And>temp mem d r. pf_family r = pf_family p \<Longrightarrow> prefix_copy temp mem d r =
       do { v \<leftarrow> mem_copy (pf_val d) 0 (pf_val r) 0 n; Some (d\<lparr>pf_family := pf_family r, pf_len := pf_len r, pf_val := v\<rparr>, mem) }"
    using prefix_same_bytes [OF assms] by blast
  have "mem_copy z 0 (pf_val p) 0 n = mem_copy z 0 (pf_val q) 0 n" for z using n(3-5) by (simp add: mem_copy_def)
  then show ?thesis unfolding prefix_hash_key_def n(6) [OF refl] n(6) [OF n(1)] n(1,2) by simp
qed

end
