(* ===== verification/Heap_Tree.thy ===== *)
theory Heap_Tree
  imports Interfaces
begin

text \<open>
  The binary heap of \<open>src/container/heap.h\<close>, which orders the timers of an event loop. The
  heap is intrusive: nodes with three pointers live inside the client's objects, so the model
  has a store of nodes next to the \<open>struct heap\<close> itself; every dereference of a pointer that
  is not in the store is \<open>None\<close>, and so is a failed \<open>assert\<close>. The comparison is a function
  pointer that reads the client's objects: it is applied to the client's memory \<open>m\<close>.

  The invariant relates the pointers to positions: position 1 is the root and the children of
  position \<open>i\<close> are the positions \<open>2 * i\<close> and \<open>2 * i + 1\<close>. It makes the tree complete, the
  back pointers right and the nodes distinct, and turns every operation on pointers into an
  operation on the positions: a swap of parent and child, the appending of a last position or
  its removal.
\<close>

section \<open>Model\<close>

record heap_node =
  hn_parent :: ptr
  hn_left :: ptr
  hn_right :: ptr

type_synonym nodes = "ptr \<rightharpoonup> heap_node"

record 'm heap_t =
  hp_root :: ptr
  hp_nelts :: nat
  hp_compare :: "('m \<Rightarrow> ptr \<Rightarrow> ptr \<Rightarrow> bool) option"

text \<open>Assignments to the three fields of \<open>*p\<close>.\<close>

definition set_parent :: "nodes \<Rightarrow> ptr \<Rightarrow> ptr \<Rightarrow> nodes option" where
  "set_parent N p v = do { nd \<leftarrow> N p; Some (N(p \<mapsto> nd\<lparr>hn_parent := v\<rparr>)) }"

definition set_left :: "nodes \<Rightarrow> ptr \<Rightarrow> ptr \<Rightarrow> nodes option" where
  "set_left N p v = do { nd \<leftarrow> N p; Some (N(p \<mapsto> nd\<lparr>hn_left := v\<rparr>)) }"

definition set_right :: "nodes \<Rightarrow> ptr \<Rightarrow> ptr \<Rightarrow> nodes option" where
  "set_right N p v = do { nd \<leftarrow> N p; Some (N(p \<mapsto> nd\<lparr>hn_right := v\<rparr>)) }"

definition heap_init :: "('m \<Rightarrow> ptr \<Rightarrow> ptr \<Rightarrow> bool) option \<Rightarrow> 'm heap_t" where
  "heap_init fn = \<lparr>hp_root = NULL, hp_nelts = 0, hp_compare = fn\<rparr>"

text \<open>The pointer to \<open>s\<close> in its parent \<open>p\<close>, or the root, becomes \<open>r\<close>: the first statement of
  \<open>heap_replace\<close> and of \<open>heap_swap\<close>.\<close>

definition relink_parent :: "nodes \<Rightarrow> 'm heap_t \<Rightarrow> ptr \<Rightarrow> ptr \<Rightarrow> ptr \<Rightarrow> (nodes \<times> 'm heap_t) option" where
  "relink_parent N H p s r =
     (if p = NULL then Some (N, H\<lparr>hp_root := r\<rparr>)
      else do {
        nd \<leftarrow> N p;
        N \<leftarrow> (if hn_left nd = s then set_left N p r
             else if hn_right nd = s then set_right N p r else Some N);
        Some (N, H) })"

definition heap_replace :: "nodes \<Rightarrow> 'm heap_t \<Rightarrow> ptr \<Rightarrow> ptr \<Rightarrow> (nodes \<times> 'm heap_t) option" where
  "heap_replace N H s r = do {
     sn \<leftarrow> N s;
     (N, H) \<leftarrow> relink_parent N H (hn_parent sn) s r;
     sn \<leftarrow> N s;
     N \<leftarrow> (if hn_left sn \<noteq> NULL then set_parent N (hn_left sn) r else Some N);
     sn \<leftarrow> N s;
     N \<leftarrow> (if hn_right sn \<noteq> NULL then set_parent N (hn_right sn) r else Some N);
     if r \<noteq> NULL then do {
       sn \<leftarrow> N s; N \<leftarrow> set_parent N r (hn_parent sn);
       sn \<leftarrow> N s; N \<leftarrow> set_left N r (hn_left sn);
       sn \<leftarrow> N s; N \<leftarrow> set_right N r (hn_right sn);
       Some (N, H) }
     else Some (N, H) }"

definition heap_swap :: "nodes \<Rightarrow> 'm heap_t \<Rightarrow> ptr \<Rightarrow> ptr \<Rightarrow> (nodes \<times> 'm heap_t) option" where
  "heap_swap N H parent child = do {
     cn \<leftarrow> N child;
     pn \<leftarrow> N parent;
     if \<not> (hn_parent cn = parent \<and> (hn_left pn = child \<or> hn_right pn = child)) then None else do {
       let pparent = hn_parent pn;
       let lchild = hn_left cn;
       let rchild = hn_right cn;
       (N, H) \<leftarrow> relink_parent N H pparent parent child;
       N \<leftarrow> (if lchild \<noteq> NULL then set_parent N lchild parent else Some N);
       N \<leftarrow> (if rchild \<noteq> NULL then set_parent N rchild parent else Some N);
       N \<leftarrow> set_parent N child pparent;
       pn \<leftarrow> N parent;
       (N, sibling) \<leftarrow>
         (if hn_left pn = child then do {
            let sibling = hn_right pn;
            N \<leftarrow> set_left N child parent; N \<leftarrow> set_right N child sibling; Some (N, sibling) }
          else do {
            let sibling = hn_left pn;
            N \<leftarrow> set_left N child sibling; N \<leftarrow> set_right N child parent; Some (N, sibling) });
       N \<leftarrow> (if sibling \<noteq> NULL then set_parent N sibling child else Some N);
       N \<leftarrow> set_parent N parent child;
       N \<leftarrow> set_left N parent lchild;
       N \<leftarrow> set_right N parent rchild;
       Some (N, H) } }"

text \<open>
  \<open>for (d = 0, n = nelts; n >= 2; ++d, n >>= 1) path = (path << 1) | (n & 1)\<close>: the path from
  the root to position \<open>n\<close>, lowest bit first, and its length.
\<close>

function last_path :: "nat \<Rightarrow> nat \<Rightarrow> nat \<Rightarrow> nat \<times> nat" where
  "last_path n path d =
     (if n \<ge> 2 then last_path (drop_bit 1 n) (push_bit 1 path OR (n AND 1)) (d + 1) else (path, d))"
  by pat_completeness auto

termination last_path
  by (relation "measure (\<lambda>(n, _). n)") (auto simp: drop_bit_eq_div)

text \<open>\<open>while (d > 1)\<close>: down the path to the parent of the last position.\<close>

fun walk_path :: "nodes \<Rightarrow> nat \<Rightarrow> nat \<Rightarrow> ptr \<Rightarrow> (ptr \<times> nat) option" where
  "walk_path N d path parent =
     (if d > 1 then do {
        nd \<leftarrow> N parent;
        walk_path N (d - 1) (drop_bit 1 path) (if path AND 1 \<noteq> 0 then hn_right nd else hn_left nd) }
      else Some (parent, path))"

declare last_path.simps [simp del] walk_path.simps [simp del]

text \<open>\<open>while (node->parent && heap->compare(node, node->parent)) heap_swap(heap, node->parent, node)\<close>.\<close>

partial_function (option) sift_up ::
    "(ptr \<Rightarrow> ptr \<Rightarrow> bool) \<Rightarrow> nodes \<Rightarrow> 'm heap_t \<Rightarrow> ptr \<Rightarrow> (nodes \<times> 'm heap_t) option" where
  "sift_up lt N H node = do {
     nd \<leftarrow> N node;
     if hn_parent nd \<noteq> NULL \<and> lt node (hn_parent nd) then do {
       (N, H) \<leftarrow> heap_swap N H (hn_parent nd) node;
       sift_up lt N H node }
     else Some (N, H) }"

partial_function (option) sift_down ::
    "(ptr \<Rightarrow> ptr \<Rightarrow> bool) \<Rightarrow> nodes \<Rightarrow> 'm heap_t \<Rightarrow> ptr \<Rightarrow> (nodes \<times> 'm heap_t) option" where
  "sift_down lt N H v = do {
     nd \<leftarrow> N v;
     let est = v;
     let est = (if hn_left nd \<noteq> NULL then (if lt est (hn_left nd) then est else hn_left nd) else est);
     let est = (if hn_right nd \<noteq> NULL then (if lt est (hn_right nd) then est else hn_right nd) else est);
     if est = v then Some (N, H)
     else do {
       (N, H) \<leftarrow> heap_swap N H v est;
       sift_down lt N H v } }"

text \<open>\<open>++nelts\<close> on a full \<open>int\<close> is undefined in C and \<open>None\<close> here.\<close>

definition heap_insert :: "'m \<Rightarrow> nodes \<Rightarrow> 'm heap_t \<Rightarrow> ptr \<Rightarrow> (nodes \<times> 'm heap_t) option" where
  "heap_insert m N H node =
     (if hp_nelts H + 1 \<ge> 2 ^ 31 then None else do {
        let H = H\<lparr>hp_nelts := hp_nelts H + 1\<rparr>;
        let (path, d) = last_path (hp_nelts H) 0 0;
        (parent, path) \<leftarrow> walk_path N d path (hp_root H);
        N \<leftarrow> set_parent N node parent;
        (N, H) \<leftarrow>
          (if parent = NULL then Some (N, H\<lparr>hp_root := node\<rparr>)
           else if path AND 1 \<noteq> 0 then do { N \<leftarrow> set_right N parent node; Some (N, H) }
           else do { N \<leftarrow> set_left N parent node; Some (N, H) });
        case hp_compare H of None \<Rightarrow> Some (N, H) | Some compare \<Rightarrow> sift_up (compare m) N H node })"

text \<open>\<open>node->parent = node->left = node->right = NULL\<close>.\<close>

definition clear_node :: "nodes \<Rightarrow> ptr \<Rightarrow> nodes option" where
  "clear_node N p = do { N \<leftarrow> set_right N p NULL; N \<leftarrow> set_left N p NULL; set_parent N p NULL }"

definition heap_remove :: "'m \<Rightarrow> nodes \<Rightarrow> 'm heap_t \<Rightarrow> ptr \<Rightarrow> (nodes \<times> 'm heap_t) option" where
  "heap_remove m N H node =
     (if hp_nelts H = 0 then Some (N, H) else do {
        let (path, d) = last_path (hp_nelts H) 0 0;
        let H = H\<lparr>hp_nelts := hp_nelts H - 1\<rparr>;
        (parent, path) \<leftarrow> walk_path N d path (hp_root H);
        if parent = NULL then Some (N, H) else do {
          pn \<leftarrow> N parent;
          (N, last) \<leftarrow>
            (if path AND 1 \<noteq> 0 then do { N \<leftarrow> set_right N parent NULL; Some (N, hn_right pn) }
             else do { N \<leftarrow> set_left N parent NULL; Some (N, hn_left pn) });
          if last = NULL then
            (if hp_root H = node then Some (N, H\<lparr>hp_root := NULL\<rparr>) else Some (N, H))
          else do {
            (N, H) \<leftarrow> heap_replace N H node last;
            N \<leftarrow> clear_node N node;
            case hp_compare H of
              None \<Rightarrow> Some (N, H)
            | Some compare \<Rightarrow> do {
                (N, H) \<leftarrow> sift_down (compare m) N H last;
                sift_up (compare m) N H last } } } })"

definition heap_dequeue :: "'m \<Rightarrow> nodes \<Rightarrow> 'm heap_t \<Rightarrow> (nodes \<times> 'm heap_t) option" where
  "heap_dequeue m N H = heap_remove m N H (hp_root H)"

text \<open>A client that inserts a list of nodes, and one that dequeues \<open>n\<close> nodes and notes the root each time.\<close>

fun heap_insert_all :: "'m \<Rightarrow> nodes \<Rightarrow> 'm heap_t \<Rightarrow> ptr list \<Rightarrow> (nodes \<times> 'm heap_t) option" where
  "heap_insert_all m N H [] = Some (N, H)"
| "heap_insert_all m N H (x # xs) = do { (N, H) \<leftarrow> heap_insert m N H x; heap_insert_all m N H xs }"

fun heap_drain :: "'m \<Rightarrow> nodes \<Rightarrow> 'm heap_t \<Rightarrow> nat \<Rightarrow> (nodes \<times> 'm heap_t \<times> ptr list) option" where
  "heap_drain m N H 0 = Some (N, H, [])"
| "heap_drain m N H (Suc n) = do {
     let node = hp_root H;
     (N, H) \<leftarrow> heap_dequeue m N H;
     (N, H, ys) \<leftarrow> heap_drain m N H n;
     Some (N, H, node # ys) }"

section \<open>Field-wise view of the store\<close>

text \<open>The store in which the nodes \<open>D\<close> have the fields \<open>P\<close>, \<open>L\<close> and \<open>R\<close>.\<close>

definition fields :: "nodes \<Rightarrow> ptr set \<Rightarrow> (ptr \<Rightarrow> ptr) \<Rightarrow> (ptr \<Rightarrow> ptr) \<Rightarrow> (ptr \<Rightarrow> ptr) \<Rightarrow> nodes" where
  "fields N D P L R =
     (\<lambda>x. if x \<in> D then Some \<lparr>hn_parent = P x, hn_left = L x, hn_right = R x\<rparr> else N x)"

named_theorems node_simps \<open>reads and writes of node fields, field by field\<close>

lemma fields_get [node_simps]:
  "x \<in> D \<Longrightarrow> fields N D P L R x = Some \<lparr>hn_parent = P x, hn_left = L x, hn_right = R x\<rparr>"
  by (simp add: fields_def)

lemma fields_set [node_simps]:
  assumes "x \<in> D"
  shows "set_parent (fields N D P L R) x v = Some (fields N D (P(x := v)) L R)"
    "set_left (fields N D P L R) x v = Some (fields N D P (L(x := v)) R)"
    "set_right (fields N D P L R) x v = Some (fields N D P L (R(x := v)))"
  using assms by (auto simp: fields_def set_parent_def set_left_def set_right_def)

lemma fields_null:
  assumes "NULL \<notin> D"
  shows "fields N D (P(NULL := v)) L R = fields N D P L R"
    "fields N D P (L(NULL := v)) R = fields N D P L R"
    "fields N D P L (R(NULL := v)) = fields N D P L R"
  using assms by (auto simp: fields_def)

lemma set_parent_guarded [node_simps]:
  assumes "NULL \<notin> D" "x = NULL \<or> x \<in> D"
  shows "(if x \<noteq> NULL then set_parent (fields N D P L R) x v else Some (fields N D P L R)) =
    Some (fields N D (P(x := v)) L R)"
  using assms by (auto simp: fields_set fields_null simp del: fun_upd_apply)

lemma relink_parent_fields [node_simps]:
  assumes "NULL \<notin> D" "p = NULL \<or> p \<in> D"
  shows "relink_parent (fields N D P L R) H p s r =
    Some (fields N D P (if L p = s then L(p := r) else L) (if L p \<noteq> s \<and> R p = s then R(p := r) else R),
      if p = NULL then H\<lparr>hp_root := r\<rparr> else H)"
  using assms by (auto simp: relink_parent_def fields_get fields_set fields_null)

lemma fields_self:
  assumes "D \<subseteq> dom N"
  shows "N = fields N D (\<lambda>x. hn_parent (the (N x))) (\<lambda>x. hn_left (the (N x))) (\<lambda>x. hn_right (the (N x)))"
  using assms by (force simp: fields_def fun_eq_iff)

lemma heap_swap_fields:
  fixes L R :: "ptr \<Rightarrow> ptr"
  assumes D: "NULL \<notin> D" "p \<in> D" "c \<in> D" "p \<noteq> c" "P c = p"
    and pp: "P p = NULL \<or> P p \<in> D" "P p \<noteq> p" "P p \<noteq> c"
    and ch: "L c = NULL \<or> L c \<in> D" "R c = NULL \<or> R c \<in> D"
    and sib: "L p = c \<and> sib = R p \<or> L p \<noteq> c \<and> R p = c \<and> sib = L p" "sib = NULL \<or> sib \<in> D"
  shows "heap_swap (fields N D P L R) H p c =
    Some (fields N D (P(L c := p, R c := p, c := P p, sib := c, p := c))
        ((if L (P p) = p then L(P p := c) else L)(c := if L p = c then p else sib, p := L c))
        ((if L (P p) \<noteq> p \<and> R (P p) = p then R(P p := c) else R)(c := if L p = c then sib else p, p := R c)),
      if P p = NULL then H\<lparr>hp_root := c\<rparr> else H)"
proof -
  define L1 R1 where "L1 = (if L (P p) = p then L(P p := c) else L)"
    and "R1 = (if L (P p) \<noteq> p \<and> R (P p) = p then R(P p := c) else R)"
  have LR: "L1 p = L p" "R1 p = R p" using pp by (auto simp: L1_def R1_def)
  have "heap_swap (fields N D P L R) H p c =
    Some (fields N D (P(L c := p, R c := p, c := P p, sib := c, p := c))
        (L1(c := if L p = c then p else sib, p := L c)) (R1(c := if L p = c then sib else p, p := R c)),
      if P p = NULL then H\<lparr>hp_root := c\<rparr> else H)"
    using sib(1)
  proof (elim disjE conjE)
    assume s: "L p = c" "sib = R p"
    show ?thesis
      using D pp(1) ch sib(2) LR s unfolding L1_def R1_def
      by (simp add: heap_swap_def node_simps Let_def del: fun_upd_apply neq0_conv split del: if_split)
  next
    assume s: "L p \<noteq> c" "R p = c" "sib = L p"
    show ?thesis
      using D pp(1) ch sib(2) LR s unfolding L1_def R1_def
      by (simp add: heap_swap_def node_simps Let_def del: fun_upd_apply neq0_conv split del: if_split)
  qed
  then show ?thesis by (simp add: L1_def R1_def)
qed

section \<open>Positions\<close>

text \<open>
  \<open>a\<close> places the nodes of a heap of \<open>n\<close> elements: \<open>a 1\<close> is the root and \<open>a (2 * i)\<close> and
  \<open>a (2 * i + 1)\<close> are the children of \<open>a i\<close>; outside \<open>1..n\<close> there is no node.
\<close>

definition placed :: "(nat \<Rightarrow> ptr) \<Rightarrow> nat \<Rightarrow> bool" where
  "placed a n \<longleftrightarrow> (\<forall>i. a i = NULL \<longleftrightarrow> i = 0 \<or> n < i) \<and> inj_on a {1..n}"

definition heap_rep :: "nodes \<Rightarrow> 'm heap_t \<Rightarrow> (nat \<Rightarrow> ptr) \<Rightarrow> bool" where
  "heap_rep N H a \<longleftrightarrow> placed a (hp_nelts H) \<and> hp_root H = a 1 \<and>
     (\<forall>i \<in> {1..hp_nelts H}.
        N (a i) = Some \<lparr>hn_parent = a (i div 2), hn_left = a (2 * i), hn_right = a (2 * i + 1)\<rparr>)"

lemma placed_null: "placed a n \<Longrightarrow> a i = NULL \<longleftrightarrow> i = 0 \<or> n < i"
  by (simp add: placed_def)

lemma placed_eq:
  assumes "placed a n" "1 \<le> k" "k \<le> n"
  shows "a k = a l \<longleftrightarrow> k = l" "a l = a k \<longleftrightarrow> k = l"
proof -
  have "inj_on a {1..n}" using assms(1) by (simp add: placed_def)
  moreover have "a k \<noteq> NULL" using assms by (auto simp: placed_null)
  ultimately show "a k = a l \<longleftrightarrow> k = l" "a l = a k \<longleftrightarrow> k = l"
    using placed_null [OF assms(1), of l] assms(2,3)
    by (cases "l \<in> {1..n}"; auto dest: inj_onD)+
qed

lemma placed_in:
  assumes "placed a n"
  shows "a k = NULL \<or> a k \<in> a ` {1..n}" "NULL \<notin> a ` {1..n}"
  using placed_null [OF assms] by (force simp: not_less Suc_le_eq)+

lemma rep_placed: "heap_rep N H a \<Longrightarrow> placed a (hp_nelts H)"
  by (simp add: heap_rep_def)

lemma rep_root: "heap_rep N H a \<Longrightarrow> hp_root H = a 1"
  by (simp add: heap_rep_def)

lemma rep_node:
  "heap_rep N H a \<Longrightarrow> 1 \<le> i \<Longrightarrow> i \<le> hp_nelts H \<Longrightarrow>
   N (a i) = Some \<lparr>hn_parent = a (i div 2), hn_left = a (2 * i), hn_right = a (2 * i + 1)\<rparr>"
  unfolding heap_rep_def by simp

lemma rep_dom: "heap_rep N H a \<Longrightarrow> a ` {1..hp_nelts H} \<subseteq> dom N"
  unfolding heap_rep_def by auto

text \<open>The links of placement \<open>a\<close> in the fields \<open>P\<close>, \<open>L\<close> and \<open>R\<close>.\<close>

definition linked :: "(nat \<Rightarrow> ptr) \<Rightarrow> nat \<Rightarrow> (ptr \<Rightarrow> ptr) \<Rightarrow> (ptr \<Rightarrow> ptr) \<Rightarrow> (ptr \<Rightarrow> ptr) \<Rightarrow> bool" where
  "linked a n P L R \<longleftrightarrow>
     (\<forall>k \<in> {1..n}. P (a k) = a (k div 2) \<and> L (a k) = a (2 * k) \<and> R (a k) = a (2 * k + 1))"

lemma linkedD:
  "linked a n P L R \<Longrightarrow> 1 \<le> k \<Longrightarrow> k \<le> n \<Longrightarrow>
   P (a k) = a (k div 2) \<and> L (a k) = a (2 * k) \<and> R (a k) = a (2 * k + 1)"
  by (simp add: linked_def)

lemma rep_fields:
  assumes "heap_rep N H a" "a ` {1..hp_nelts H} \<subseteq> D" "D \<subseteq> dom N"
  obtains P L R where "N = fields N D P L R" "linked a (hp_nelts H) P L R"
    "\<And>x. x \<in> D \<Longrightarrow> N x = Some \<lparr>hn_parent = P x, hn_left = L x, hn_right = R x\<rparr>"
proof
  let ?P = "\<lambda>x. hn_parent (the (N x))" and ?L = "\<lambda>x. hn_left (the (N x))" and ?R = "\<lambda>x. hn_right (the (N x))"
  show "N = fields N D ?P ?L ?R" by (rule fields_self [OF assms(3)])
  show "\<And>x. x \<in> D \<Longrightarrow> N x = Some \<lparr>hn_parent = ?P x, hn_left = ?L x, hn_right = ?R x\<rparr>"
    using assms(3) by (force dest: subsetD)
  show "linked a (hp_nelts H) ?P ?L ?R"
    using rep_node [OF assms(1)] by (simp add: linked_def)
qed

lemma heap_rep_fieldsI:
  assumes "placed a (hp_nelts H)" "hp_root H = a 1" "a ` {1..hp_nelts H} \<subseteq> D" "linked a (hp_nelts H) P L R"
  shows "heap_rep (fields N D P L R) H a"
  using assms unfolding heap_rep_def linked_def by (auto simp: fields_get)

section \<open>Swapping parent and child\<close>

text \<open>A swap of parent and child exchanges the contents of two positions.\<close>

definition swap_pos :: "nat \<Rightarrow> nat \<Rightarrow> (nat \<Rightarrow> 'a) \<Rightarrow> nat \<Rightarrow> 'a" where
  "swap_pos i j a = a(i := a j, j := a i)"

lemma swap_pos_at:
  assumes "i \<noteq> j"
  shows "swap_pos i j a i = a j" "swap_pos i j a j = a i" "k \<noteq> i \<Longrightarrow> k \<noteq> j \<Longrightarrow> swap_pos i j a k = a k"
  using assms by (simp_all add: swap_pos_def)

lemma inj_on_swap_pos:
  assumes "inj_on a S" "i \<in> S" "j \<in> S"
  shows "inj_on (swap_pos i j a) S" "swap_pos i j a ` S = a ` S"
  using assms by (auto simp: swap_pos_def inj_on_def image_iff)

lemma placed_swap_pos:
  assumes "placed a n" "1 \<le> i" "i \<le> n" "1 \<le> j" "j \<le> n"
  shows "placed (swap_pos i j a) n" "swap_pos i j a ` {1..n} = a ` {1..n}"
  using assms inj_on_swap_pos [of a "{1..n}" i j] unfolding placed_def
  by (simp_all add: swap_pos_def)

lemma child_arith:
  fixes i j n :: nat
  assumes "1 \<le> i" "j div 2 = i" "j \<le> n"
  shows "1 \<le> j" "i \<le> n" "i \<noteq> j" "j = 2 * i \<or> j = 2 * i + 1" "i div 2 \<noteq> i" "i div 2 \<noteq> j"
  using assms by auto

text \<open>The three fields after the swap; \<open>s\<close> is the sibling of position \<open>j\<close>.\<close>

definition sib_pos :: "nat \<Rightarrow> nat \<Rightarrow> nat" where
  "sib_pos i j = (if j = 2 * i then 2 * i + 1 else 2 * i)"

lemma sib_pos_arith:
  assumes "1 \<le> i" "j div 2 = i"
  shows "sib_pos i j \<noteq> j" "sib_pos i j \<noteq> i" "k \<noteq> j \<Longrightarrow> k div 2 = i \<longleftrightarrow> k = sib_pos i j"
  using assms by (auto simp: sib_pos_def)

lemma swap_parent:
  assumes a: "placed a n" "linked a n P L R" and i: "1 \<le> i" "j div 2 = i" "j \<le> n" and k: "1 \<le> k" "k \<le> n"
  shows "(P(a (2 * j) := a i, a (2 * j + 1) := a i, a j := a (i div 2), a (sib_pos i j) := a j, a i := a j))
    (swap_pos i j a k) = swap_pos i j a (k div 2)"
proof -
  note ij = child_arith [OF i] and sb = sib_pos_arith [OF i(1,2)]
  note at = swap_pos_at [OF ij(3), where a = a] and e = placed_eq [OF a(1) i(1) ij(2)] placed_eq [OF a(1) ij(1) i(3)]
  consider "k = i" | "k = j" | "k \<noteq> i" "k \<noteq> j" by blast
  then show ?thesis
  proof cases
    case 1
    then show ?thesis using ij(3,5,6) sb(1) at e by simp
  next
    case 2
    then show ?thesis using i(2) ij(3) at e by simp
  next
    case 3
    have "k div 2 = j \<longleftrightarrow> k = 2 * j \<or> k = 2 * j + 1" by auto
    then show ?thesis
      using 3 at sb(3) [of k] placed_eq [OF a(1) k] linkedD [OF a(2) k]
      by (cases "k div 2 = j"; cases "k div 2 = i") auto
  qed
qed

lemma far_arith:
  fixes i j :: nat
  assumes "1 \<le> i" "j div 2 = i"
  shows "2 * i \<noteq> i" "2 * j \<noteq> i" "2 * j \<noteq> j" "2 * i + 1 \<noteq> i" "2 * j + 1 \<noteq> i" "2 * j + 1 \<noteq> j"
    "k \<noteq> i \<Longrightarrow> 2 * k \<noteq> j" "k \<noteq> i \<Longrightarrow> 2 * k + 1 \<noteq> j"
  using assms by auto

lemma swap_children:
  assumes "1 \<le> i" "j div 2 = i" "j \<le> n"
  shows "swap_pos i j a (2 * i) = (if j = 2 * i then a i else a (sib_pos i j))"
    "swap_pos i j a (2 * i + 1) = (if j = 2 * i then a (sib_pos i j) else a i)"
    "swap_pos i j a (2 * j) = a (2 * j)" "swap_pos i j a (2 * j + 1) = a (2 * j + 1)"
  unfolding swap_pos_def sib_pos_def using child_arith(4) [OF assms] far_arith [OF assms(1,2)] by auto

lemma swap_left:
  assumes a: "placed a n" "linked a n P L R" and i: "1 \<le> i" "j div 2 = i" "j \<le> n" and k: "1 \<le> k" "k \<le> n"
  shows "((if L (a (i div 2)) = a i then L(a (i div 2) := a j) else L)
      (a j := if j = 2 * i then a i else a (sib_pos i j), a i := a (2 * j))) (swap_pos i j a k) =
    swap_pos i j a (2 * k)"
proof -
  note ij = child_arith [OF i] and e = placed_eq [OF a(1) i(1) ij(2)] placed_eq [OF a(1) ij(1) i(3)]
  note at = swap_pos_at [OF ij(3), where a = a] and ch = swap_children [OF i, of a]
  note ek = placed_eq [OF a(1) k] and lk = linkedD [OF a(2) k]
  consider "k = i" | "k = j" | "k \<noteq> i" "k \<noteq> j" "2 * k = i" | "k \<noteq> i" "k \<noteq> j" "2 * k \<noteq> i" by blast
  then show ?thesis
  proof cases
    case 1
    then show ?thesis using ij(3) by (simp add: at ch e)
  next
    case 2
    then show ?thesis using ij(3) by (simp add: at ch e)
  next
    case 3
    then have "i div 2 = k" by auto
    with 3 lk show ?thesis by (simp add: at ek)
  next
    case 4
    then have "L (a k) \<noteq> a i" using lk e by auto
    with 4 lk show ?thesis using far_arith(7) [OF i(1,2), of k] by (cases "i div 2 = k") (simp_all add: at ek)
  qed
qed

lemma swap_right:
  assumes a: "placed a n" "linked a n P L R" and i: "1 \<le> i" "j div 2 = i" "j \<le> n" and k: "1 \<le> k" "k \<le> n"
  shows "((if L (a (i div 2)) \<noteq> a i \<and> R (a (i div 2)) = a i then R(a (i div 2) := a j) else R)
      (a j := if j = 2 * i then a (sib_pos i j) else a i, a i := a (2 * j + 1))) (swap_pos i j a k) =
    swap_pos i j a (2 * k + 1)"
proof -
  note ij = child_arith [OF i] and e = placed_eq [OF a(1) i(1) ij(2)] placed_eq [OF a(1) ij(1) i(3)]
  note at = swap_pos_at [OF ij(3), where a = a] and ch = swap_children [OF i, of a]
  note ek = placed_eq [OF a(1) k] and lk = linkedD [OF a(2) k]
  consider "k = i" | "k = j" | "k \<noteq> i" "k \<noteq> j" "2 * k + 1 = i" | "k \<noteq> i" "k \<noteq> j" "2 * k + 1 \<noteq> i" by blast
  then show ?thesis
  proof cases
    case 1
    then show ?thesis using ij(3) by (simp add: at ch e del: One_nat_def add_Suc_right)
  next
    case 2
    then show ?thesis using ij(3) by (simp add: at ch e del: One_nat_def add_Suc_right)
  next
    case 3
    then have "i div 2 = k" "L (a k) \<noteq> a i" "R (a k) = a i" using lk e by auto
    with 3 show ?thesis by (simp add: at ek)
  next
    case 4
    then have "R (a k) \<noteq> a i" using lk e by auto
    with 4 lk show ?thesis using far_arith(8) [OF i(1,2), of k] by (cases "i div 2 = k") (simp_all add: at ek)
  qed
qed

lemma heap_swap_rep:
  assumes rep: "heap_rep N H a" and i: "1 \<le> i" "j div 2 = i" "j \<le> hp_nelts H"
  shows "\<exists>N' H'. heap_swap N H (a i) (a j) = Some (N', H') \<and> heap_rep N' H' (swap_pos i j a) \<and>
    hp_nelts H' = hp_nelts H \<and> hp_compare H' = hp_compare H \<and> (\<forall>x. x \<notin> a ` {1..hp_nelts H} \<longrightarrow> N' x = N x)"
proof -
  let ?n = "hp_nelts H" and ?D = "a ` {1..hp_nelts H}" and ?s = "sib_pos i j"
  note ij = child_arith [OF i] and pl = rep_placed [OF rep]
  obtain P L R where f: "N = fields N ?D P L R" and lk: "linked a ?n P L R"
    using rep_fields [OF rep order_refl rep_dom [OF rep]] by metis
  have v: "P (a i) = a (i div 2)" "L (a i) = a (2 * i)" "R (a i) = a (2 * i + 1)"
    "P (a j) = a i" "L (a j) = a (2 * j)" "R (a j) = a (2 * j + 1)"
    using linkedD [OF lk, of i] linkedD [OF lk, of j] i ij by simp_all
  note ei = placed_eq [OF pl i(1) ij(2)] and ej = placed_eq [OF pl ij(1) i(3)]
  let ?P = "P(a (2 * j) := a i, a (2 * j + 1) := a i, a j := a (i div 2), a ?s := a j, a i := a j)"
  let ?L = "(if L (a (i div 2)) = a i then L(a (i div 2) := a j) else L)
    (a j := if j = 2 * i then a i else a ?s, a i := a (2 * j))"
  let ?R = "(if L (a (i div 2)) \<noteq> a i \<and> R (a (i div 2)) = a i then R(a (i div 2) := a j) else R)
    (a j := if j = 2 * i then a ?s else a i, a i := a (2 * j + 1))"
  let ?H = "if a (i div 2) = NULL then H\<lparr>hp_root := a j\<rparr> else H"
  have D: "a i \<in> ?D" "a j \<in> ?D" using i ij by auto
  have sb: "L (a i) = a j \<and> a ?s = R (a i) \<or> L (a i) \<noteq> a j \<and> R (a i) = a j \<and> a ?s = L (a i)"
    using ij(4) by (auto simp: v ej sib_pos_def)
  have "heap_swap (fields N ?D P L R) H (a i) (a j) = Some (fields N ?D ?P ?L ?R, ?H)"
    using heap_swap_fields [of ?D "a i" "a j" P L R "a ?s" N H, OF placed_in(2) [OF pl] D _ v(4) _ _ _ _ _ sb placed_in(1) [OF pl]]
      placed_in(1) [OF pl] ij(3,5,6)
    unfolding v ei ej by simp
  moreover have "linked (swap_pos i j a) ?n ?P ?L ?R"
    unfolding linked_def
    by (intro ballI conjI; rule swap_parent [OF pl lk i] swap_left [OF pl lk i] swap_right [OF pl lk i]; simp)
  moreover have "hp_root ?H = swap_pos i j a 1"
    using i ij rep_root [OF rep] by (auto simp: swap_pos_def placed_null [OF pl])
  moreover note placed_swap_pos [OF pl i(1) ij(2) ij(1) i(3)]
  moreover have "hp_nelts ?H = ?n" "hp_compare ?H = hp_compare H" by simp_all
  moreover have "\<forall>x. x \<notin> ?D \<longrightarrow> fields N ?D ?P ?L ?R x = N x" by (simp add: fields_def)
  ultimately show ?thesis
    using heap_rep_fieldsI [of "swap_pos i j a" ?H ?D ?P ?L ?R N] f by (metis order_refl)
qed

section \<open>The path to the last position\<close>

lemma last_path_step: "n \<ge> 2 \<Longrightarrow> last_path n p d = last_path (n div 2) (2 * p + n mod 2) (d + 1)"
proof -
  assume "n \<ge> 2"
  moreover have "push_bit 1 p OR (n AND 1) = 2 * p + n mod 2"
    using or_one_eq [of "2 * p"]
    by (cases "even n") (auto simp: and_one_eq push_bit_eq_mult odd_iff_mod_2_eq_one mult.commute)
  ultimately show ?thesis by (subst last_path.simps) (simp add: drop_bit_eq_div)
qed

text \<open>Walking down the whole path leads to the position it was computed from.\<close>

lemma walk_last_path:
  assumes "heap_rep N H a" "1 \<le> n" "n div 2 \<le> hp_nelts H" "1 \<le> d" "last_path n p d = (q, e)"
  shows "walk_path N e q (a 1) = walk_path N d p (a n)"
  using assms(2-)
proof (induction n arbitrary: p d rule: less_induct)
  case (less n)
  show ?case
  proof (cases "n \<ge> 2")
    case True
    have l: "last_path (n div 2) (2 * p + n mod 2) (d + 1) = (q, e)"
      using less.prems(4) last_path_step [OF True] by simp
    have "walk_path N e q (a 1) = walk_path N (d + 1) (2 * p + n mod 2) (a (n div 2))"
      using less.IH [OF _ _ _ _ l] True less.prems by auto
    also have "\<dots> = walk_path N d p (a n)"
      using rep_node [OF assms(1), of "n div 2"] True less.prems odd_two_times_div_two_succ [of n]
      by (subst walk_path.simps) (auto simp: and_one_eq drop_bit_eq_div odd_iff_mod_2_eq_one)
    finally show ?thesis .
  next
    case False
    then have "n = 1" using less.prems(1) by simp
    then show ?thesis using less.prems(4) by (simp add: last_path.simps)
  qed
qed

lemma walk_to_last:
  assumes "heap_rep N H a" "2 \<le> n" "n div 2 \<le> hp_nelts H" "last_path n 0 0 = (q, e)"
  shows "walk_path N e q (hp_root H) = Some (a (n div 2), n mod 2)"
proof -
  have "last_path (n div 2) (n mod 2) 1 = (q, e)" using last_path_step [OF assms(2), of 0 0] assms(4) by simp
  then have "walk_path N e q (a 1) = walk_path N 1 (n mod 2) (a (n div 2))"
    using walk_last_path [OF assms(1), of "n div 2" 1] assms(2,3) by auto
  then show ?thesis using rep_root [OF assms(1)] by (simp add: walk_path.simps)
qed

section \<open>Heap order\<close>

text \<open>
  What the heap needs of its comparison: a strict weak order on the nodes, that is, one node
  is not before another is a total preorder.
\<close>

locale node_order =
  fixes lt :: "ptr \<Rightarrow> ptr \<Rightarrow> bool"
  assumes lt_asym: "lt x y \<Longrightarrow> \<not> lt y x"
    and lt_ntrans: "\<not> lt x y \<Longrightarrow> \<not> lt y z \<Longrightarrow> \<not> lt x z"
begin

lemma lt_trans: "lt x y \<Longrightarrow> lt y z \<Longrightarrow> lt x z"
  using lt_asym lt_ntrans by blast

end

definition heap_ordered :: "(ptr \<Rightarrow> ptr \<Rightarrow> bool) \<Rightarrow> nat \<Rightarrow> (nat \<Rightarrow> ptr) \<Rightarrow> bool" where
  "heap_ordered lt n a \<longleftrightarrow> (\<forall>k \<in> {2..n}. \<not> lt (a k) (a (k div 2)))"

text \<open>
  Ordered except that \<open>a i\<close> may be before its parent (\<open>up_ok\<close>), and also after its children
  (\<open>down_ok\<close>); in both, the children of \<open>i\<close> are not before the parent of \<open>i\<close>.
\<close>

definition grand_ok :: "(ptr \<Rightarrow> ptr \<Rightarrow> bool) \<Rightarrow> nat \<Rightarrow> (nat \<Rightarrow> ptr) \<Rightarrow> nat \<Rightarrow> bool" where
  "grand_ok lt n a i \<longleftrightarrow> (2 \<le> i \<longrightarrow> (\<forall>k \<in> {2..n}. k div 2 = i \<longrightarrow> \<not> lt (a k) (a (i div 2))))"

definition up_ok :: "(ptr \<Rightarrow> ptr \<Rightarrow> bool) \<Rightarrow> nat \<Rightarrow> (nat \<Rightarrow> ptr) \<Rightarrow> nat \<Rightarrow> bool" where
  "up_ok lt n a i \<longleftrightarrow> (\<forall>k \<in> {2..n}. k \<noteq> i \<longrightarrow> \<not> lt (a k) (a (k div 2))) \<and> grand_ok lt n a i"

definition down_ok :: "(ptr \<Rightarrow> ptr \<Rightarrow> bool) \<Rightarrow> nat \<Rightarrow> (nat \<Rightarrow> ptr) \<Rightarrow> nat \<Rightarrow> bool" where
  "down_ok lt n a i \<longleftrightarrow> (\<forall>k \<in> {2..n}. k \<noteq> i \<longrightarrow> k div 2 \<noteq> i \<longrightarrow> \<not> lt (a k) (a (k div 2))) \<and> grand_ok lt n a i"

text \<open>The smallest of a node and its children, as \<open>sift_down\<close> picks it.\<close>

definition pick_pos :: "(ptr \<Rightarrow> ptr \<Rightarrow> bool) \<Rightarrow> nat \<Rightarrow> (nat \<Rightarrow> ptr) \<Rightarrow> nat \<Rightarrow> nat" where
  "pick_pos lt n a i =
     (let j = (if 2 * i \<le> n \<and> \<not> lt (a i) (a (2 * i)) then 2 * i else i)
      in if 2 * i + 1 \<le> n \<and> \<not> lt (a j) (a (2 * i + 1)) then 2 * i + 1 else j)"

lemma up_ordered: "up_ok lt n a i \<Longrightarrow> i < 2 \<or> \<not> lt (a i) (a (i div 2)) \<Longrightarrow> heap_ordered lt n a"
  unfolding up_ok_def heap_ordered_def by force

context node_order
begin

lemma ordered_root:
  assumes "heap_ordered lt n a" "1 \<le> k" "k \<le> n"
  shows "\<not> lt (a k) (a 1)"
  using assms(2,3)
proof (induction k rule: less_induct)
  case (less k)
  show ?case
  proof (cases "k = 1")
    case True
    then show ?thesis using lt_asym by blast
  next
    case False
    then have "\<not> lt (a k) (a (k div 2))" "\<not> lt (a (k div 2)) (a 1)"
      using less assms(1) by (auto simp: heap_ordered_def)
    then show ?thesis by (rule lt_ntrans)
  qed
qed

lemma up_swap:
  assumes u: "up_ok lt n a i" and i: "2 \<le> i" "i \<le> n" and l: "lt (a i) (a (i div 2))"
  shows "up_ok lt n (swap_pos (i div 2) i a) (i div 2)"
proof -
  let ?p = "i div 2" let ?b = "swap_pos ?p i a"
  have p: "?p \<noteq> i" "?p div 2 \<noteq> ?p" "?p div 2 \<noteq> i" "1 \<le> ?p" using i by auto
  note at = swap_pos_at [OF p(1), where a = a]
  have o: "\<not> lt (a k) (a (k div 2))" if "k \<in> {2..n}" "k \<noteq> i" for k using u that by (simp add: up_ok_def)
  have g: "\<not> lt (a k) (a ?p)" if "k \<in> {2..n}" "k div 2 = i" for k
    using u i that by (simp add: up_ok_def grand_ok_def)
  have s: "\<not> lt (?b k) (?b (k div 2))" if k: "k \<in> {2..n}" "k \<noteq> ?p" for k
  proof -
    consider "k = i" | "k \<noteq> i" "k div 2 = i" | "k \<noteq> i" "k div 2 = ?p" | "k \<noteq> i" "k div 2 \<noteq> i" "k div 2 \<noteq> ?p"
      by blast
    then show ?thesis
    proof cases
      case 1
      then show ?thesis using l lt_asym at by simp
    next
      case 2
      then show ?thesis using g k at by simp
    next
      case 3
      have "\<not> lt (a k) (a i)" using o [OF k(1) 3(1)] 3(2) l lt_trans [of "a k" "a i" "a ?p"] by metis
      then show ?thesis using 3 k at by simp
    next
      case 4
      then show ?thesis using o k at by simp
    qed
  qed
  have "grand_ok lt n ?b ?p"
    unfolding grand_ok_def
  proof (intro impI ballI)
    fix k assume k: "2 \<le> ?p" "k \<in> {2..n}" "k div 2 = ?p"
    have pp: "\<not> lt (a ?p) (a (?p div 2))" using o [of ?p] i k(1) p(1) by auto
    have kp: "k \<noteq> ?p" using k by auto
    show "\<not> lt (?b k) (?b (?p div 2))"
    proof (cases "k = i")
      case True
      then show ?thesis using pp at p by simp
    next
      case False
      then have "\<not> lt (a k) (a ?p)" using o [of k] k by simp
      then show ?thesis using pp at p kp False lt_ntrans [of "a k" "a ?p" "a (?p div 2)"] by simp
    qed
  qed
  with s show ?thesis by (simp add: up_ok_def)
qed

lemma down_swap:
  assumes d: "down_ok lt n a i" and i: "1 \<le> i" "j div 2 = i" "j \<le> n"
    and l: "\<not> lt (a i) (a j)" "\<And>k. k \<in> {2..n} \<Longrightarrow> k div 2 = i \<Longrightarrow> \<not> lt (a k) (a j)"
  shows "down_ok lt n (swap_pos i j a) j"
proof -
  let ?b = "swap_pos i j a"
  note ij = child_arith [OF i] and at = swap_pos_at [OF child_arith(3) [OF i], where a = a]
  have o: "\<not> lt (a k) (a (k div 2))" if "k \<in> {2..n}" "k \<noteq> i" "k div 2 \<noteq> i" for k
    using d that by (simp add: down_ok_def)
  have s: "\<not> lt (?b k) (?b (k div 2))" if k: "k \<in> {2..n}" "k \<noteq> j" "k div 2 \<noteq> j" for k
  proof -
    consider "k = i" | "k \<noteq> i" "k div 2 = i" | "k \<noteq> i" "k div 2 \<noteq> i" by blast
    then show ?thesis
    proof cases
      case 1
      moreover have "j \<in> {2..n}" "2 \<le> i" using i k 1 by auto
      ultimately have "\<not> lt (a j) (a (i div 2))"
        using d i(2) by (simp add: down_ok_def grand_ok_def)
      then show ?thesis using 1 at ij by simp
    next
      case 2
      then show ?thesis using l k at by simp
    next
      case 3
      then show ?thesis using o k at by simp
    qed
  qed
  have "grand_ok lt n ?b j"
    unfolding grand_ok_def
  proof (intro impI ballI)
    fix k assume k: "k \<in> {2..n}" "k div 2 = j"
    then have "k \<noteq> i" "k \<noteq> j" using ij by auto
    then show "\<not> lt (?b k) (?b (j div 2))" using o [of k] k i ij at by simp
  qed
  with s show ?thesis by (simp add: down_ok_def)
qed

end

section \<open>Sifting\<close>

text \<open>The same nodes at other positions: what sifting may do to a heap.\<close>

definition moved :: "nodes \<Rightarrow> 'm heap_t \<Rightarrow> (nat \<Rightarrow> ptr) \<Rightarrow> nodes \<Rightarrow> 'm heap_t \<Rightarrow> (nat \<Rightarrow> ptr) \<Rightarrow> bool" where
  "moved N H a N' H' b \<longleftrightarrow> heap_rep N' H' b \<and> hp_nelts H' = hp_nelts H \<and> hp_compare H' = hp_compare H \<and>
     b ` {1..hp_nelts H} = a ` {1..hp_nelts H} \<and> (\<forall>x. x \<notin> a ` {1..hp_nelts H} \<longrightarrow> N' x = N x)"

lemma moved_refl: "heap_rep N H a \<Longrightarrow> moved N H a N H a"
  by (simp add: moved_def)

lemma moved_trans: "moved N H a N1 H1 b \<Longrightarrow> moved N1 H1 b N2 H2 c \<Longrightarrow> moved N H a N2 H2 c"
  by (simp add: moved_def)

lemma heap_swap_moved:
  assumes "heap_rep N H a" "1 \<le> i" "j div 2 = i" "j \<le> hp_nelts H"
  shows "\<exists>N' H'. heap_swap N H (a i) (a j) = Some (N', H') \<and> moved N H a N' H' (swap_pos i j a)"
  using heap_swap_rep [OF assms] placed_swap_pos(2) [OF rep_placed [OF assms(1)], of i j]
    child_arith [OF assms(2-)] assms unfolding moved_def by metis

context node_order
begin

lemma sift_up_moved:
  assumes "heap_rep N H a" "up_ok lt (hp_nelts H) a i" "1 \<le> i" "i \<le> hp_nelts H"
  shows "\<exists>N' H' b. sift_up lt N H (a i) = Some (N', H') \<and> moved N H a N' H' b \<and> heap_ordered lt (hp_nelts H) b"
  using assms
proof (induction i arbitrary: N H a rule: less_induct)
  case (less i)
  note nd = rep_node [OF less.prems(1,3,4)]
  show ?case
  proof (cases "2 \<le> i \<and> lt (a i) (a (i div 2))")
    case True
    then have p: "1 \<le> i div 2" "i div 2 < i" "i div 2 \<le> hp_nelts H" using less.prems(4) by auto
    let ?b = "swap_pos (i div 2) i a"
    obtain N1 H1 where 1: "heap_swap N H (a (i div 2)) (a i) = Some (N1, H1)" "moved N H a N1 H1 ?b"
      using heap_swap_moved [OF less.prems(1) p(1) refl less.prems(4)] by blast
    have n1: "hp_nelts H1 = hp_nelts H" "heap_rep N1 H1 ?b" using 1(2) by (auto simp: moved_def)
    have "up_ok lt (hp_nelts H) ?b (i div 2)"
      using up_swap [OF less.prems(2) _ less.prems(4)] True by blast
    then obtain N2 H2 c where 2: "sift_up lt N1 H1 (?b (i div 2)) = Some (N2, H2)" "moved N1 H1 ?b N2 H2 c"
      "heap_ordered lt (hp_nelts H) c"
      using less.IH [OF p(2) n1(2)] n1 p by auto
    have "?b (i div 2) = a i" using p(2) by (simp add: swap_pos_def)
    then have "sift_up lt N H (a i) = Some (N2, H2)"
      using nd 1(1) 2(1) True p(1,3) placed_null [OF rep_placed [OF less.prems(1)], of "i div 2"]
      by (subst sift_up.simps) simp
    then show ?thesis using moved_trans [OF 1(2) 2(2)] 2(3) by blast
  next
    case False
    then have "sift_up lt N H (a i) = Some (N, H)"
      using nd placed_null [OF rep_placed [OF less.prems(1)], of "i div 2"]
      by (subst sift_up.simps) auto
    then show ?thesis using moved_refl [OF less.prems(1)] up_ordered [OF less.prems(2)] False by auto
  qed
qed

lemma pick_down:
  assumes i: "1 \<le> i" "i \<le> n" and d: "down_ok lt n a i" and j: "pick_pos lt n a i = j" "j \<noteq> i"
  shows "j div 2 = i \<and> j \<le> n" "down_ok lt n (swap_pos i j a) j"
proof -
  have irr: "\<not> lt x x" for x using lt_asym by blast
  show c: "j div 2 = i \<and> j \<le> n" using j by (auto simp: pick_pos_def Let_def split: if_splits)
  have l: "\<not> lt (a i) (a j)"
    using j lt_ntrans [of "a i" "a (2 * i)" "a (2 * i + 1)"] by (auto simp: pick_pos_def Let_def split: if_splits)
  have left: "\<not> lt (a (2 * i)) (a j)" if "2 * i \<le> n"
  proof (cases "lt (a i) (a (2 * i))")
    case True
    then show ?thesis using l lt_asym lt_ntrans by blast
  next
    case False
    then show ?thesis using j that irr by (auto simp: pick_pos_def Let_def split: if_splits)
  qed
  have right: "\<not> lt (a (2 * i + 1)) (a j)" if "2 * i + 1 \<le> n"
    using j that irr lt_asym by (auto simp: pick_pos_def Let_def split: if_splits)
  have "\<not> lt (a k) (a j)" if "k \<in> {2..n}" "k div 2 = i" for k
  proof -
    have "k = 2 * i \<or> k = 2 * i + 1" using that(2) by auto
    then show ?thesis using left right that(1) by auto
  qed
  then show "down_ok lt n (swap_pos i j a) j" using down_swap [OF d i(1) _ _ l] c by blast
qed

lemma pick_stop:
  assumes d: "down_ok lt n a i" and j: "pick_pos lt n a i = i"
  shows "up_ok lt n a i"
proof -
  have "\<not> lt (a k) (a (k div 2))" if k: "k \<in> {2..n}" "k \<noteq> i" for k
  proof (cases "k div 2 = i")
    case True
    then have "k = 2 * i \<or> k = 2 * i + 1" by auto
    then show ?thesis
      using j k True lt_asym [of "a k" "a i"] by (auto simp: pick_pos_def Let_def split: if_splits)
  next
    case False
    then show ?thesis using d k by (simp add: down_ok_def)
  qed
  then show ?thesis using d by (simp add: up_ok_def down_ok_def)
qed

lemma sift_down_moved:
  assumes "heap_rep N H a" "down_ok lt (hp_nelts H) a i" "1 \<le> i" "i \<le> hp_nelts H"
  shows "\<exists>N' H' b j. sift_down lt N H (a i) = Some (N', H') \<and> moved N H a N' H' b \<and>
    up_ok lt (hp_nelts H) b j \<and> b j = a i \<and> 1 \<le> j \<and> j \<le> hp_nelts H"
  using assms
proof (induction "hp_nelts H - i" arbitrary: N H a i rule: less_induct)
  case less
  let ?n = "hp_nelts H" and ?j = "pick_pos lt (hp_nelts H) a i"
  note nd = rep_node [OF less.prems(1,3,4)] and pl = rep_placed [OF less.prems(1)]
  note e = placed_eq [OF pl less.prems(3,4)]
  have est: "sift_down lt N H (a i) =
      (if ?j = i then Some (N, H) else heap_swap N H (a i) (a ?j) \<bind> (\<lambda>(N, H). sift_down lt N H (a i)))"
  proof -
    let ?l = "if a (2 * i) \<noteq> NULL then (if lt (a i) (a (2 * i)) then a i else a (2 * i)) else a i"
    have "2 * i \<noteq> 0" "2 * i + 1 \<noteq> 0" using less.prems(3) by auto
    then have nl: "a (2 * i) \<noteq> NULL \<longleftrightarrow> 2 * i \<le> ?n" "a (2 * i + 1) \<noteq> NULL \<longleftrightarrow> 2 * i + 1 \<le> ?n"
      unfolding placed_null [OF pl] by linarith+
    have "(if a (2 * i + 1) \<noteq> NULL then (if lt ?l (a (2 * i + 1)) then ?l else a (2 * i + 1)) else ?l) = a ?j"
      unfolding nl pick_pos_def Let_def by simp
    moreover have "a ?j = a i \<longleftrightarrow> ?j = i" using e(2) [of ?j] by (simp only: eq_commute [of i])
    ultimately show ?thesis
      using nd by (subst sift_down.simps)
        (simp add: Let_def cong: if_cong split del: if_split del: neq0_conv One_nat_def add_Suc_right)
  qed
  show ?case
  proof (cases "?j = i")
    case True
    then show ?thesis
      using est moved_refl [OF less.prems(1)] pick_stop [OF less.prems(2) True] less.prems(3,4) by auto
  next
    case False
    let ?b = "swap_pos i ?j a"
    have c: "?j div 2 = i" "?j \<le> ?n" "down_ok lt ?n ?b ?j"
      using pick_down [OF less.prems(3,4,2) refl False] by auto
    note ij = child_arith [OF less.prems(3) c(1,2)]
    obtain N1 H1 where 1: "heap_swap N H (a i) (a ?j) = Some (N1, H1)" "moved N H a N1 H1 ?b"
      using heap_swap_moved [OF less.prems(1,3) c(1,2)] by blast
    have n1: "hp_nelts H1 = ?n" "heap_rep N1 H1 ?b" using 1(2) by (auto simp: moved_def)
    have b: "?b ?j = a i" by (simp add: swap_pos_def)
    have "hp_nelts H1 - ?j < ?n - i" using n1(1) c ij less.prems(3) by linarith
    from less.hyps [OF this n1(2)] c(2,3) ij(1) n1(1) obtain N2 H2 b2 j2 where
      2: "sift_down lt N1 H1 (?b ?j) = Some (N2, H2)" "moved N1 H1 ?b N2 H2 b2"
      "up_ok lt ?n b2 j2" "b2 j2 = ?b ?j" "1 \<le> j2" "j2 \<le> ?n" by auto
    then show ?thesis using est False 1 b moved_trans [OF 1(2) 2(2)] by auto
  qed
qed

end

section \<open>Insertion\<close>

lemma linked_attach:
  assumes a: "placed a n" "linked a n P L R" and x: "x \<noteq> NULL" "x \<notin> a ` {1..n}" "L x = NULL" "R x = NULL"
  defines "p \<equiv> a (Suc n div 2)"
  shows "placed (a(Suc n := x)) (Suc n)"
    "linked (a(Suc n := x)) (Suc n) (P(x := p)) (if even (Suc n) then L(p := x) else L)
      (if even (Suc n) then R else R(p := x))"
proof -
  have xa: "a k \<noteq> x" for k using placed_in(1) [OF a(1), of k] x by auto
  have nn: "a (2 * Suc n) = NULL" "a (2 * Suc n + 1) = NULL" by (simp_all add: placed_null [OF a(1)])
  have "{1..Suc n} = insert (Suc n) {1..n}" by auto
  then show "placed (a(Suc n := x)) (Suc n)"
    using a(1) x(1,2) unfolding placed_def by (auto simp: inj_on_fun_updI)
  have px: "p \<noteq> x" using xa p_def by metis
  let ?a = "a(Suc n := x)" and ?L = "if even (Suc n) then L(p := x) else L"
    and ?R = "if even (Suc n) then R else R(p := x)"
  have "(P(x := p)) (?a k) = ?a (k div 2) \<and> ?L (?a k) = ?a (2 * k) \<and> ?R (?a k) = ?a (2 * k + 1)"
    if k: "1 \<le> k" "k \<le> Suc n" for k
  proof (cases "k = Suc n")
    case True
    have "Suc n div 2 \<noteq> Suc n" "2 * Suc n \<noteq> Suc n" "2 * Suc n + 1 \<noteq> Suc n" "a (Suc n div 2) = p"
      by (simp_all add: p_def)
    then show ?thesis using True nn px x(3,4) by (simp del: mult_Suc_right add_Suc_right div_Suc_eq_div_add3)
  next
    case False
    then have k: "1 \<le> k" "k \<le> n" using k by auto
    note ek = placed_eq [OF a(1) k] and lk = linkedD [OF a(2) k]
    have h: "k div 2 \<noteq> Suc n" "even (Suc n) \<Longrightarrow> 2 * k = Suc n \<longleftrightarrow> k = Suc n div 2"
      "odd (Suc n) \<Longrightarrow> 2 * k + 1 = Suc n \<longleftrightarrow> k = Suc n div 2"
      "odd (Suc n) \<Longrightarrow> 2 * k \<noteq> Suc n" "even (Suc n) \<Longrightarrow> 2 * k + 1 \<noteq> Suc n" using k by presburger+
    show ?thesis
      using lk False xa h unfolding p_def by (cases "even (Suc n)") (simp_all add: ek del: One_nat_def add_Suc_right even_Suc)
  qed
  then show "linked ?a (Suc n) (P(x := p)) ?L ?R" by (simp add: linked_def)
qed

lemma heap_insert_attach:
  assumes rep: "heap_rep N H a" and x: "x \<noteq> NULL" "x \<notin> a ` {1..hp_nelts H}"
    "N x = Some nd" "hn_left nd = NULL" "hn_right nd = NULL" and n: "hp_nelts H + 1 < 2 ^ 31"
  shows "\<exists>N' H'. heap_insert m N H x =
      (case hp_compare H of None \<Rightarrow> Some (N', H') | Some compare \<Rightarrow> sift_up (compare m) N' H' x) \<and>
    heap_rep N' H' (a(Suc (hp_nelts H) := x)) \<and> hp_nelts H' = Suc (hp_nelts H) \<and> hp_compare H' = hp_compare H \<and>
    (\<forall>y. y \<notin> insert x (a ` {1..hp_nelts H}) \<longrightarrow> N' y = N y)"
proof -
  let ?n = "hp_nelts H" let ?D = "insert x (a ` {1..?n})" and ?a = "a(Suc ?n := x)"
  note pl = rep_placed [OF rep]
  have D: "?D \<subseteq> dom N" "a ` {1..?n} \<subseteq> ?D" using rep_dom [OF rep] x(3) by auto
  obtain P L R where f: "N = fields N ?D P L R" and lk: "linked a ?n P L R"
    and F: "\<And>y. y \<in> ?D \<Longrightarrow> N y = Some \<lparr>hn_parent = P y, hn_left = L y, hn_right = R y\<rparr>"
    using rep_fields [OF rep D(2,1)] by metis
  let ?p = "a (Suc ?n div 2)"
  let ?P = "P(x := ?p)" and ?L = "if even (Suc ?n) then L(?p := x) else L"
    and ?R = "if even (Suc ?n) then R else R(?p := x)"
  let ?H = "H\<lparr>hp_nelts := Suc ?n, hp_root := ?a 1\<rparr>"
  have lr: "L x = NULL" "R x = NULL" using F [of x] x(3-5) by auto
  have D0: "NULL \<notin> ?D" using placed_in(2) [OF pl] x(1) by auto
  have A: "heap_rep (fields N ?D ?P ?L ?R) ?H ?a"
    using linked_attach [OF pl lk x(1,2) lr] by (intro heap_rep_fieldsI) (auto simp: le_Suc_eq simp del: even_Suc)
  have B: "heap_insert m N H x =
      (case hp_compare H of None \<Rightarrow> Some (fields N ?D ?P ?L ?R, ?H)
       | Some compare \<Rightarrow> sift_up (compare m) (fields N ?D ?P ?L ?R) ?H x)"
  proof (cases "?n = 0")
    case True
    have z: "a 0 = NULL" "hp_root H = NULL" using rep_root [OF rep] True by (simp_all add: placed_null [OF pl])
    have "set_parent N x NULL = Some (fields N ?D ?P ?L ?R)"
      using f fields_set(1) [of x ?D N P L R NULL] fields_null(3) [OF D0, of N "P(x := NULL)" L R x] True z
      by simp
    then show ?thesis
      using True z by (cases "hp_compare H") (simp_all add: heap_insert_def last_path.simps walk_path.simps Let_def)
  next
    case False
    obtain q e where qe: "last_path (Suc ?n) 0 0 = (q, e)" by fastforce
    have "2 \<le> Suc ?n" "Suc ?n div 2 \<le> ?n" using False by auto
    then have w: "walk_path N e q (hp_root H) = Some (?p, Suc ?n mod 2)"
      using walk_to_last [OF rep _ _ qe] by blast
    have pD: "?p \<in> ?D" "?p \<noteq> NULL"
    proof -
      show p: "?p \<noteq> NULL" using False by (simp add: placed_null [OF pl])
      have "Suc ?n div 2 \<in> {1..?n}" using False by auto
      then show "?p \<in> ?D" by (intro insertI2 imageI)
    qed
    have H: "?H = H\<lparr>hp_nelts := Suc ?n\<rparr>" using rep_root [OF rep] False by simp
    have st: "set_parent N x ?p = Some (fields N ?D ?P L R)"
      using f fields_set(1) [of x ?D N P L R ?p] by simp
    show ?thesis
      using n qe w pD st fields_set(2,3) [OF pD(1), of N ?P L R x] unfolding H
      by (cases "hp_compare H"; cases "even (Suc ?n)")
        (simp_all add: heap_insert_def Let_def and_one_eq mod_2_eq_odd del: even_Suc)
  qed
  have C: "\<forall>y. y \<notin> ?D \<longrightarrow> fields N ?D ?P ?L ?R y = N y" by (simp add: fields_def)
  have "hp_nelts ?H = Suc ?n" "hp_compare ?H = hp_compare H" by simp_all
  with A B C show ?thesis by (intro exI conjI)
qed

section \<open>Removal\<close>

lemma heap_replace_fields:
  fixes L R :: "ptr \<Rightarrow> ptr"
  defines "L1 \<equiv> \<lambda>s r p. if L p = s then L(p := r) else L"
    and "R1 \<equiv> \<lambda>s r p. if L p \<noteq> s \<and> R p = s then R(p := r) else R"
  assumes D: "NULL \<notin> D" "s \<in> D" "r \<in> D" "P s = NULL \<or> P s \<in> D"
    and ch: "L1 s r (P s) s = NULL \<or> L1 s r (P s) s \<in> D" "R1 s r (P s) s = NULL \<or> R1 s r (P s) s \<in> D"
  shows "heap_replace (fields N D P L R) H s r =
    (let L' = L1 s r (P s); R' = R1 s r (P s); P' = P(L' s := r, R' s := r)
     in Some (fields N D (P'(r := P' s)) (L'(r := L' s)) (R'(r := R' s)),
          if P s = NULL then H\<lparr>hp_root := r\<rparr> else H))"
proof -
  define L' R' where "L' = L1 s r (P s)" and "R' = R1 s r (P s)"
  have rp: "relink_parent (fields N D P L R) H (P s) s r =
      Some (fields N D P L' R', if P s = NULL then H\<lparr>hp_root := r\<rparr> else H)"
    unfolding L'_def R'_def L1_def R1_def by (rule relink_parent_fields [OF D(1,4)])
  have "r \<noteq> NULL" using D(1,3) by metis
  then show ?thesis
    using D ch rp unfolding L'_def [symmetric] R'_def [symmetric] heap_replace_def
    by (simp add: node_simps Let_def cong: if_cong del: fun_upd_apply neq0_conv split del: if_split)
qed

text \<open>Cutting off the last position.\<close>

lemma linked_cut:
  assumes a: "placed a n" "linked a n P L R" and n: "2 \<le> n"
  defines "p \<equiv> a (n div 2)"
  shows "placed (a(n := NULL)) (n - 1)"
    "linked (a(n := NULL)) (n - 1) P (if even n then L(p := NULL) else L) (if even n then R else R(p := NULL))"
proof -
  have "{1..n} = insert n {1..n - 1}" using n by auto
  then have "inj_on a {1..n - 1}" using a(1) by (simp add: placed_def)
  moreover have "inj_on (a(n := NULL)) {1..n - 1} = inj_on a {1..n - 1}"
    using n by (intro inj_on_cong) auto
  moreover have "(a(n := NULL)) k = NULL \<longleftrightarrow> k = 0 \<or> n - 1 < k" for k
    using placed_null [OF a(1), of k] n by auto
  ultimately show "placed (a(n := NULL)) (n - 1)" by (simp add: placed_def)
  let ?a = "a(n := NULL)" and ?L = "if even n then L(p := NULL) else L" and ?R = "if even n then R else R(p := NULL)"
  have "P (?a k) = ?a (k div 2) \<and> ?L (?a k) = ?a (2 * k) \<and> ?R (?a k) = ?a (2 * k + 1)"
    if k: "1 \<le> k" "k \<le> n - 1" for k
  proof -
    have k': "k \<le> n" "k \<noteq> n" "k div 2 \<noteq> n" using k by auto
    note ek = placed_eq [OF a(1) k(1) k'(1)] and lk = linkedD [OF a(2) k(1) k'(1)]
    have h: "even n \<Longrightarrow> 2 * k = n \<longleftrightarrow> k = n div 2" "odd n \<Longrightarrow> 2 * k + 1 = n \<longleftrightarrow> k = n div 2"
      "odd n \<Longrightarrow> 2 * k \<noteq> n" "even n \<Longrightarrow> 2 * k + 1 \<noteq> n" by presburger+
    show ?thesis
      using lk k' h unfolding p_def by (cases "even n") (simp_all add: ek del: One_nat_def add_Suc_right)
  qed
  then show "linked ?a (n - 1) P ?L ?R" by (simp add: linked_def)
qed

text \<open>Putting the node \<open>x\<close>, which is at no position, in place of \<open>a i\<close>.\<close>

lemma linked_replace:
  assumes a: "placed a n" "linked a n P L R" and i: "1 \<le> i" "i \<le> n" and x: "x \<noteq> NULL" "x \<notin> a ` {1..n}"
  defines "L' \<equiv> (if L (a (i div 2)) = a i then L(a (i div 2) := x) else L)"
    and "R' \<equiv> (if L (a (i div 2)) \<noteq> a i \<and> R (a (i div 2)) = a i then R(a (i div 2) := x) else R)"
  defines "P' \<equiv> P(a (2 * i) := x, a (2 * i + 1) := x)"
  shows "placed (a(i := x)) n" "L' (a i) = a (2 * i)" "R' (a i) = a (2 * i + 1)" "P' (a i) = a (i div 2)"
    "linked (a(i := x)) n (P'(x := a (i div 2), a i := NULL)) (L'(x := a (2 * i), a i := NULL))
      (R'(x := a (2 * i + 1), a i := NULL))"
proof -
  have xa: "a k \<noteq> x" for k using placed_in(1) [OF a(1), of k] x by auto
  have "inj_on (a(i := x)) {1..n}" using a(1) x(2) by (simp add: placed_def inj_on_fun_updI)
  then show "placed (a(i := x)) n" using a(1) i x(1) by (simp add: placed_def)
  note ei = placed_eq [OF a(1) i] and li = linkedD [OF a(2) i]
  have ii: "i div 2 \<noteq> i" "2 * i \<noteq> i" "2 * i + 1 \<noteq> i" using i by auto
  show l1: "L' (a i) = a (2 * i)" "R' (a i) = a (2 * i + 1)" "P' (a i) = a (i div 2)"
    using li ii ei unfolding L'_def R'_def P'_def by auto
  let ?a = "a(i := x)" and ?P = "P'(x := a (i div 2), a i := NULL)" and ?L = "L'(x := a (2 * i), a i := NULL)"
    and ?R = "R'(x := a (2 * i + 1), a i := NULL)"
  have "?P (?a k) = ?a (k div 2) \<and> ?L (?a k) = ?a (2 * k) \<and> ?R (?a k) = ?a (2 * k + 1)"
    if k: "1 \<le> k" "k \<le> n" for k
  proof (cases "k = i")
    case True
    then show ?thesis using ii xa [of i] by (simp del: One_nat_def add_Suc_right)
  next
    case False
    note ek = placed_eq [OF a(1) k] and lk = linkedD [OF a(2) k]
    have c: "k div 2 = i \<longleftrightarrow> k = 2 * i \<or> k = 2 * i + 1" "2 * k = i \<Longrightarrow> i div 2 = k" "2 * k + 1 = i \<Longrightarrow> i div 2 = k"
      by auto
    have q: "L (a k) = a i \<longleftrightarrow> i = 2 * k" "R (a k) = a i \<longleftrightarrow> i = 2 * k + 1" using lk ei by auto
    have 1: "?P (?a k) = ?a (k div 2)"
      using False lk c(1) xa unfolding P'_def by (auto simp: ek)
    have "L' (a k) = ?a (2 * k)"
      using q c(2) lk unfolding L'_def by (cases "2 * k = i"; cases "i div 2 = k") (auto simp: ek)
    moreover have "R' (a k) = ?a (2 * k + 1)"
      using q c(3) lk unfolding R'_def by (cases "2 * k + 1 = i"; cases "i div 2 = k") (auto simp: ek)
    ultimately show ?thesis using 1 False xa by (simp add: ek)
  qed
  then show "linked ?a n ?P ?L ?R" by (simp add: linked_def)
qed

lemma linked_other:
  assumes "linked a n P L R" "x \<notin> a ` {1..n}"
  shows "linked a n (P(x := v)) L R" "linked a n P (L(x := v)) R" "linked a n P L (R(x := v))"
  using assms unfolding linked_def by auto

text \<open>The nodes after the last position has been cut off and its node put in place of \<open>a i\<close>.\<close>

definition cut_pos :: "(nat \<Rightarrow> ptr) \<Rightarrow> nat \<Rightarrow> nat \<Rightarrow> nat \<Rightarrow> ptr" where
  "cut_pos a n i = (if i = n then a(n := NULL) else a(n := NULL, i := a n))"

lemma clear_node_fields:
  "x \<in> D \<Longrightarrow> clear_node (fields N D P L R) x = Some (fields N D (P(x := NULL)) (L(x := NULL)) (R(x := NULL)))"
  by (simp add: clear_node_def fields_set)

lemma cut_fresh:
  assumes "placed a n" "1 \<le> n"
  shows "a n \<notin> (a(n := NULL)) ` {1..n - 1}"
proof
  assume "a n \<in> (a(n := NULL)) ` {1..n - 1}"
  then obtain k where k: "a n = (a(n := NULL)) k" "k \<in> {1..n - 1}" by (rule imageE)
  then have "k \<noteq> n" using assms(2) by auto
  with k(1) placed_eq(1) [OF assms order_refl, of k] show False by simp
qed

lemma replace_cut:
  assumes a: "placed a n" "linked a n P L R" and n: "2 \<le> n" and i: "1 \<le> i" "i \<le> n"
    and H: "hp_nelts H = n - 1" "hp_root H = a 1"
  defines "L0 \<equiv> if even n then L(a (n div 2) := NULL) else L"
    and "R0 \<equiv> if even n then R else R(a (n div 2) := NULL)"
  shows "\<exists>N' H'. do { (N, H) \<leftarrow> heap_replace (fields N (a ` {1..n}) P L0 R0) H (a i) (a n);
        N \<leftarrow> clear_node N (a i); Some (N, H) } = Some (N', H') \<and>
      heap_rep N' H' (cut_pos a n i) \<and> hp_nelts H' = n - 1 \<and> hp_compare H' = hp_compare H \<and>
      N' (a i) = Some \<lparr>hn_parent = NULL, hn_left = NULL, hn_right = NULL\<rparr> \<and>
      (\<forall>x. x \<notin> a ` {1..n} \<longrightarrow> N' x = N x)"
proof (cases "i = n")
  case True
  let ?D = "a ` {1..n}" and ?a = "a(n := NULL)" and ?x = "a n" and ?p = "a (n div 2)"
  let ?P = "P(NULL := ?x, ?x := NULL)" and ?L = "L0(?x := NULL)" and ?R = "R0(?x := NULL)"
  note c = linked_cut [OF a n, folded L0_def R0_def]
  have r: "n div 2 \<in> {1..n}" "n \<in> {1..n}" "n div 2 \<noteq> n" using n by auto
  have D: "NULL \<notin> ?D" "?x \<in> ?D" "?p \<in> ?D" using placed_in(2) [OF a(1)] r by blast+
  have e: "a n = a k \<longleftrightarrow> n = k" "a k = a n \<longleftrightarrow> n = k" for k using placed_eq [OF a(1), of n] n by auto
  have ln: "P ?x = ?p" "L ?x = NULL" "R ?x = NULL" "L ?p = a (2 * (n div 2))" "R ?p = a (2 * (n div 2) + 1)"
    using linkedD [OF a(2), of n] linkedD [OF a(2), of "n div 2"] r n by (auto simp: placed_null [OF a(1)])
  have px: "?p \<noteq> ?x" "?p \<noteq> NULL" "?x \<noteq> NULL" using e r D by metis+
  then have z: "L0 ?p \<noteq> ?x" "R0 ?p \<noteq> ?x" "L0 ?x = NULL" "R0 ?x = NULL"
    unfolding L0_def R0_def using ln e by (cases "even n"; auto)+
  have "heap_replace (fields N ?D P L0 R0) H ?x ?x =
      Some (fields N ?D (P(NULL := ?x)) L0 R0, H)"
    using heap_replace_fields [of ?D ?x ?x P L0 R0 N H] D ln(1) z px by simp
  then have A: "do { (N, H) \<leftarrow> heap_replace (fields N ?D P L0 R0) H (a i) (a n);
      N \<leftarrow> clear_node N (a i); Some (N, H) } = Some (fields N ?D ?P ?L ?R, H)"
    using True D by (simp add: clear_node_fields)
  have o: "NULL \<notin> ?a ` {1..n - 1}" "?x \<notin> ?a ` {1..n - 1}"
    using placed_in(2) [OF c(1)] cut_fresh [OF a(1)] n by simp_all
  have B: "heap_rep (fields N ?D ?P ?L ?R) H (cut_pos a n i)"
    using True c H n linked_other [OF _ o(1)] linked_other [OF _ o(2)] unfolding cut_pos_def
    by (intro heap_rep_fieldsI) auto
  have C: "fields N ?D ?P ?L ?R (a i) = Some \<lparr>hn_parent = NULL, hn_left = NULL, hn_right = NULL\<rparr>"
    "\<forall>x. x \<notin> ?D \<longrightarrow> fields N ?D ?P ?L ?R x = N x"
    using True D(2) by (simp_all add: fields_def)
  show ?thesis by (intro exI conjI) (rule A, rule B, rule H, rule refl, rule C, rule C)
next
  case False
  let ?D = "a ` {1..n}" and ?a = "a(n := NULL)" and ?x = "a n" and ?y = "a i"
  note c = linked_cut [OF a n, folded L0_def R0_def]
  have i': "i \<le> n - 1" "i div 2 \<noteq> n" "i \<in> {1..n}" "n \<in> {1..n}" using i n False by auto
  have e: "a n = a k \<longleftrightarrow> n = k" "a k = a n \<longleftrightarrow> n = k" for k using placed_eq [OF a(1), of n] n by auto
  have D: "NULL \<notin> ?D" "?x \<in> ?D" "?y \<in> ?D" using placed_in(2) [OF a(1)] i' by blast+
  have x: "?x \<noteq> NULL" "?x \<notin> ?a ` {1..n - 1}" using D(1,2) cut_fresh [OF a(1)] n by (metis, simp)
  have aD: "?a k = NULL \<or> ?a k \<in> ?D" for k using placed_in(1) [OF a(1), of k] by simp
  define L1 where "L1 = (if L0 (?a (i div 2)) = ?a i then L0(?a (i div 2) := ?x) else L0)"
  define R1 where "R1 = (if L0 (?a (i div 2)) \<noteq> ?a i \<and> R0 (?a (i div 2)) = ?a i then R0(?a (i div 2) := ?x) else R0)"
  define P1 where "P1 = P(?a (2 * i) := ?x, ?a (2 * i + 1) := ?x)"
  note rr = linked_replace [OF c i(1) i'(1) x, folded L1_def R1_def P1_def]
  have y: "?a i = ?y" "P ?y = ?a (i div 2)" using False linkedD [OF c(2) i(1) i'(1)] by simp_all
  let ?P = "P1(?x := ?a (i div 2), ?y := NULL)" and ?L = "L1(?x := ?a (2 * i), ?y := NULL)"
    and ?R = "R1(?x := ?a (2 * i + 1), ?y := NULL)" and ?H = "H\<lparr>hp_root := (?a(i := ?x)) 1\<rparr>"
  have hr: "heap_replace (fields N ?D P L0 R0) H ?y ?x =
      Some (fields N ?D (P1(?x := ?a (i div 2))) (L1(?x := ?a (2 * i))) (R1(?x := ?a (2 * i + 1))), ?H)"
  proof -
    have d: "L1 = (if L0 (P ?y) = ?y then L0(P ?y := ?x) else L0)"
      "R1 = (if L0 (P ?y) \<noteq> ?y \<and> R0 (P ?y) = ?y then R0(P ?y := ?x) else R0)"
      unfolding L1_def R1_def y by simp_all
    have "?a (i div 2) = NULL \<longleftrightarrow> i = 1" using placed_null [OF c(1), of "i div 2"] i(1) i' by auto
    then have h: "(if ?a (i div 2) = NULL then H\<lparr>hp_root := ?x\<rparr> else H) = ?H" using H(2) n by auto
    show ?thesis
      using heap_replace_fields [of ?D ?y ?x P L0 R0 N H, folded d] D aD rr(2-4) unfolding y h
      by (simp add: Let_def P1_def del: fun_upd_apply)
  qed
  then have A: "do { (N, H) \<leftarrow> heap_replace (fields N ?D P L0 R0) H (a i) (a n);
      N \<leftarrow> clear_node N (a i); Some (N, H) } = Some (fields N ?D ?P ?L ?R, ?H)"
    using D by (simp add: clear_node_fields del: fun_upd_apply)
  have "?a(i := ?x) = cut_pos a n i" using False by (simp add: cut_pos_def)
  moreover have "(?a(i := ?x)) ` {1..n - 1} \<subseteq> ?D" using D(2) by auto
  ultimately have B: "heap_rep (fields N ?D ?P ?L ?R) ?H (cut_pos a n i)"
    using rr(1,5) H unfolding y(1) by (intro heap_rep_fieldsI) (simp_all del: fun_upd_apply)
  have C: "fields N ?D ?P ?L ?R (a i) = Some \<lparr>hn_parent = NULL, hn_left = NULL, hn_right = NULL\<rparr>"
    "\<forall>x. x \<notin> ?D \<longrightarrow> fields N ?D ?P ?L ?R x = N x"
    using D(3) by (simp_all add: fields_def)
  have "hp_nelts ?H = n - 1" "hp_compare ?H = hp_compare H" using H by simp_all
  with A B C show ?thesis by (intro exI conjI)
qed

lemma heap_remove_detach:
  assumes rep: "heap_rep N H a" and i: "1 \<le> i" "i \<le> hp_nelts H" and n: "2 \<le> hp_nelts H"
  shows "\<exists>N' H'. heap_remove m N H (a i) =
      (case hp_compare H of None \<Rightarrow> Some (N', H')
       | Some compare \<Rightarrow> do { (N2, H2) \<leftarrow> sift_down (compare m) N' H' (a (hp_nelts H));
           sift_up (compare m) N2 H2 (a (hp_nelts H)) }) \<and>
    heap_rep N' H' (cut_pos a (hp_nelts H) i) \<and> hp_nelts H' = hp_nelts H - 1 \<and> hp_compare H' = hp_compare H \<and>
    N' (a i) = Some \<lparr>hn_parent = NULL, hn_left = NULL, hn_right = NULL\<rparr> \<and>
    (\<forall>x. x \<notin> a ` {1..hp_nelts H} \<longrightarrow> N' x = N x)"
proof -
  define n where "n = hp_nelts H"
  let ?D = "a ` {1..n}" and ?p = "a (n div 2)" and ?H = "H\<lparr>hp_nelts := n - 1\<rparr>"
  note pl = rep_placed [OF rep, folded n_def]
  obtain P L R where f: "N = fields N ?D P L R" and lk: "linked a n P L R"
    using rep_fields [OF rep order_refl rep_dom [OF rep], folded n_def] by metis
  let ?L = "if even n then L(?p := NULL) else L" and ?R = "if even n then R else R(?p := NULL)"
  obtain q e where qe: "last_path n 0 0 = (q, e)" by fastforce
  have r: "n div 2 \<in> {1..n}" "2 \<le> n" "1 \<le> n div 2" "n div 2 \<le> n" using n unfolding n_def by auto
  have w: "walk_path N e q (hp_root H) = Some (?p, n mod 2)"
    using walk_to_last [OF rep r(2) _ qe] r(4) unfolding n_def by simp
  have p: "?p \<noteq> NULL" "?p \<in> ?D" "a n \<noteq> NULL"
    using imageI [OF r(1), of a] r by (simp_all add: placed_null [OF pl])
  have lp: "L ?p = a (2 * (n div 2))" "R ?p = a (2 * (n div 2) + 1)"
    using linkedD [OF lk r(3,4)] by auto
  have g: "N ?p = Some \<lparr>hn_parent = P ?p, hn_left = L ?p, hn_right = R ?p\<rparr>"
    "set_left N ?p NULL = Some (fields N ?D P (L(?p := NULL)) R)"
    "set_right N ?p NULL = Some (fields N ?D P L (R(?p := NULL)))"
    using f fields_get [OF p(2)] fields_set [OF p(2)] by metis+
  have hp: "hp_nelts H = n" by (simp add: n_def)
  have "heap_remove m N H (a i) = do {
      (N, H) \<leftarrow> heap_replace (fields N ?D P ?L ?R) ?H (a i) (a n);
      N \<leftarrow> clear_node N (a i);
      case hp_compare H of
        None \<Rightarrow> Some (N, H)
      | Some compare \<Rightarrow> do { (N, H) \<leftarrow> sift_down (compare m) N H (a n); sift_up (compare m) N H (a n) } }"
    using qe w p g lp r(2) hp
    by (cases "even n") (simp_all add: heap_remove_def Let_def and_one_eq mod_2_eq_odd)
  moreover obtain N' H' where 1: "do { (N, H) \<leftarrow> heap_replace (fields N ?D P ?L ?R) ?H (a i) (a n);
        N \<leftarrow> clear_node N (a i); Some (N, H) } = Some (N', H')"
    "heap_rep N' H' (cut_pos a n i)" "hp_nelts H' = n - 1" "hp_compare H' = hp_compare ?H"
    "N' (a i) = Some \<lparr>hn_parent = NULL, hn_left = NULL, hn_right = NULL\<rparr>" "\<forall>x. x \<notin> ?D \<longrightarrow> N' x = N x"
    using replace_cut [OF pl lk r(2) i(1), of ?H N] i(2) rep_root [OF rep] n_def by auto
  moreover obtain N1 H1 where "heap_replace (fields N ?D P ?L ?R) ?H (a i) (a n) = Some (N1, H1)"
    "clear_node N1 (a i) = Some N'" "H1 = H'"
    using 1(1) by (auto split: Option.bind_split_asm)
  ultimately show ?thesis
    unfolding hp using 1(2-6) by (intro exI [of _ N'] exI [of _ H']) simp
qed

lemma heap_remove_single:
  assumes rep: "heap_rep N H a" and n: "hp_nelts H = 1"
  shows "\<exists>N' H'. heap_remove m N H (a 1) = Some (N', H') \<and> heap_rep N' H' (cut_pos a 1 1) \<and>
    hp_nelts H' = 0 \<and> hp_compare H' = hp_compare H \<and>
    N' (a 1) = Some \<lparr>hn_parent = NULL, hn_left = NULL, hn_right = NULL\<rparr> \<and> (\<forall>x. x \<notin> a ` {1..1} \<longrightarrow> N' x = N x)"
proof -
  note pl = rep_placed [OF rep] and rt = rep_root [OF rep]
  let ?nd = "\<lparr>hn_parent = NULL, hn_left = NULL, hn_right = NULL\<rparr>"
  let ?N = "N(a 1 \<mapsto> ?nd)" and ?H = "H\<lparr>hp_nelts := 0, hp_root := NULL\<rparr>"
  have z: "a 1 \<noteq> NULL" "a 0 = NULL" "a 2 = NULL" "a 3 = NULL" using n by (simp_all add: placed_null [OF pl])
  then have g: "N (a 1) = Some ?nd" using rep_node [OF rep, of 1] n by (simp add: numeral_3_eq_3)
  have "heap_remove m N H (a 1) = Some (?N, ?H)"
    using n rt z g by (simp add: heap_remove_def Let_def last_path.simps walk_path.simps set_left_def)
  moreover have "heap_rep ?N ?H (cut_pos a 1 1)"
    using n by (auto simp: heap_rep_def placed_def cut_pos_def placed_null [OF pl])
  ultimately show ?thesis by (intro exI [of _ ?N] exI [of _ ?H]) auto
qed

section \<open>The contract of the heap\<close>

text \<open>
  \<open>heap_ok m N H S\<close>: the heap \<open>H\<close> with the nodes \<open>N\<close> holds exactly the nodes \<open>S\<close>, its links
  form a complete binary tree and no node is before its parent, in client memory \<open>m\<close>.
\<close>

definition heap_ok :: "'m \<Rightarrow> nodes \<Rightarrow> 'm heap_t \<Rightarrow> ptr set \<Rightarrow> bool" where
  "heap_ok m N H S \<longleftrightarrow>
     (\<exists>a compare. hp_compare H = Some compare \<and> heap_rep N H a \<and> S = a ` {1..hp_nelts H} \<and>
        heap_ordered (compare m) (hp_nelts H) a)"

definition detached :: "nodes \<Rightarrow> ptr \<Rightarrow> bool" where
  "detached N x \<longleftrightarrow> x \<noteq> NULL \<and> (\<exists>p. N x = Some \<lparr>hn_parent = p, hn_left = NULL, hn_right = NULL\<rparr>)"

lemma heap_ok_init: "heap_ok m N (heap_init (Some compare)) {}"
  unfolding heap_ok_def heap_init_def heap_rep_def placed_def heap_ordered_def
  by (intro exI [of _ "\<lambda>_. NULL"] exI [of _ compare]) auto

lemma heap_ok_card: "heap_ok m N H S \<Longrightarrow> finite S \<and> card S = hp_nelts H"
  unfolding heap_ok_def heap_rep_def placed_def by (auto simp: card_image)

lemma heap_ok_root: "heap_ok m N H S \<Longrightarrow> hp_root H = NULL \<longleftrightarrow> S = {}"
  unfolding heap_ok_def heap_rep_def placed_def by fastforce

lemma heap_ok_frame:
  assumes ok: "heap_ok m N H S" and eq: "\<And>x. x \<in> S \<Longrightarrow> N' x = N x"
    and cmp: "\<And>compare x y. hp_compare H = Some compare \<Longrightarrow> x \<in> S \<Longrightarrow> y \<in> S \<Longrightarrow> compare m' x y = compare m x y"
  shows "heap_ok m' N' H S"
proof -
  obtain a compare where a: "hp_compare H = Some compare" "heap_rep N H a" "S = a ` {1..hp_nelts H}"
    "heap_ordered (compare m) (hp_nelts H) a" using ok unfolding heap_ok_def by auto
  have "heap_rep N' H a" using a(2,3) eq unfolding heap_rep_def by simp
  moreover have "compare m' (a k) (a (k div 2)) = compare m (a k) (a (k div 2))" if "k \<in> {2..hp_nelts H}" for k
  proof -
    have "k \<in> {1..hp_nelts H}" "k div 2 \<in> {1..hp_nelts H}" using that by auto
    then show ?thesis using cmp [OF a(1), of "a k" "a (k div 2)"] unfolding a(3) by (simp only: imageI)
  qed
  then have "heap_ordered (compare m') (hp_nelts H) a" using a(4) by (simp add: heap_ordered_def)
  ultimately show ?thesis using a(1,3) unfolding heap_ok_def by (intro exI conjI)
qed

lemma cut_image:
  assumes "placed a n" "1 \<le> i" "i \<le> n"
  shows "cut_pos a n i ` {1..n - 1} = a ` {1..n} - {a i}"
proof -
  have e: "a k = a i \<longleftrightarrow> k = i" if "1 \<le> k" "k \<le> n" for k using placed_eq [OF assms(1) that] by simp
  show ?thesis
  proof (cases "i = n")
    case True
    have "a ` {1..n} - {a n} = a ` {1..n - 1}" using e assms(2,3) True by fastforce
    moreover have "cut_pos a n i ` {1..n - 1} = a ` {1..n - 1}"
      using True assms(2) by (intro image_cong) (auto simp: cut_pos_def)
    ultimately show ?thesis using True by simp
  next
    case False
    have "{1..n - 1} = insert i ({1..n} - {i, n})" using assms(2,3) False by auto
    moreover have "cut_pos a n i ` ({1..n} - {i, n}) = a ` ({1..n} - {i, n})"
      using False by (intro image_cong) (auto simp: cut_pos_def)
    moreover have "cut_pos a n i i = a n" using False by (simp add: cut_pos_def)
    ultimately have "cut_pos a n i ` {1..n - 1} = insert (a n) (a ` ({1..n} - {i, n}))"
      by (simp only: image_insert)
    also have "\<dots> = a ` {1..n} - {a i}" using e assms(2,3) False by fastforce
    finally show ?thesis .
  qed
qed

context node_order
begin

lemma heap_insert_ok:
  assumes ok: "heap_ok m N H S" and c: "hp_compare H = Some compare" "compare m = lt"
    and x: "detached N x" "x \<notin> S" and n: "card S + 1 < 2 ^ 31"
  shows "\<exists>N' H'. heap_insert m N H x = Some (N', H') \<and> heap_ok m N' H' (insert x S) \<and>
    hp_compare H' = hp_compare H \<and> (\<forall>y. y \<notin> insert x S \<longrightarrow> N' y = N y)"
proof -
  let ?n = "hp_nelts H"
  obtain a where a: "heap_rep N H a" "S = a ` {1..?n}" "heap_ordered lt ?n a"
    using ok c unfolding heap_ok_def by auto
  let ?a = "a(Suc ?n := x)"
  have n': "hp_nelts H + 1 < 2 ^ 31" using heap_ok_card [OF ok] n by simp
  obtain N1 H1 where 1: "heap_insert m N H x = sift_up lt N1 H1 x" "heap_rep N1 H1 ?a" "hp_nelts H1 = Suc ?n"
    "hp_compare H1 = hp_compare H" "\<forall>y. y \<notin> insert x S \<longrightarrow> N1 y = N y"
    using heap_insert_attach [OF a(1) _ _ _ _ _ n', of x _ m] x c a(2) unfolding detached_def by auto
  have "up_ok lt (Suc ?n) ?a (Suc ?n)"
    using a(3) unfolding up_ok_def grand_ok_def heap_ordered_def by auto
  then obtain N2 H2 b where 2: "sift_up lt N1 H1 (?a (Suc ?n)) = Some (N2, H2)" "moved N1 H1 ?a N2 H2 b"
    "heap_ordered lt (Suc ?n) b" using sift_up_moved [OF 1(2), of "Suc ?n"] 1(3) by auto
  have "{1..Suc ?n} = insert (Suc ?n) {1..?n}" by auto
  then have im: "?a ` {1..Suc ?n} = insert x S" using a(2) by auto
  have "heap_ok m N2 H2 (insert x S)"
    using 2(2,3) 1(3,4) im c unfolding heap_ok_def moved_def by (intro exI [of _ b] exI [of _ compare]) simp
  moreover have "\<forall>y. y \<notin> insert x S \<longrightarrow> N2 y = N y" "hp_compare H2 = hp_compare H"
    using 2(2) 1(4,5) unfolding moved_def 1(3) im by simp_all
  ultimately show ?thesis using 1(1) 2(1) by (intro exI [of _ N2] exI [of _ H2]) simp
qed

lemma down_ok_cut:
  assumes o: "heap_ordered lt n a" and i: "1 \<le> i" "i < n"
  shows "down_ok lt (n - 1) (cut_pos a n i) i"
proof -
  let ?b = "cut_pos a n i"
  have b: "?b k = a k" if "k < n" "k \<noteq> i" for k using that i by (simp add: cut_pos_def)
  have k: "\<not> lt (a k) (a (k div 2))" if "k \<in> {2..n - 1}" for k using o that by (auto simp: heap_ordered_def)
  have "\<not> lt (a k) (a (i div 2))" if "k \<in> {2..n - 1}" "k div 2 = i" "2 \<le> i" for k
    using k [OF that(1)] k [of i] that i lt_ntrans [of "a k" "a i" "a (i div 2)"] by simp
  then have "grand_ok lt (n - 1) ?b i" using b i unfolding grand_ok_def by auto
  moreover have "k div 2 < n" if "k \<in> {2..n - 1}" for k using that by auto
  ultimately show ?thesis using k b unfolding down_ok_def by auto
qed

text \<open>Sifting a node that is in no heap leaves everything as it is.\<close>

lemma sift_isolated:
  assumes "N x = Some \<lparr>hn_parent = NULL, hn_left = NULL, hn_right = NULL\<rparr>"
  shows "sift_down lt N H x = Some (N, H)" "sift_up lt N H x = Some (N, H)"
  using assms by (simp_all add: sift_down.simps sift_up.simps)

lemma heap_remove_moved:
  assumes rep: "heap_rep N H a" and o: "heap_ordered lt (hp_nelts H) a" and i: "1 \<le> i" "i \<le> hp_nelts H"
    and c: "hp_compare H = Some compare" "compare m = lt"
  shows "\<exists>N' H' b. heap_remove m N H (a i) = Some (N', H') \<and> heap_rep N' H' b \<and> hp_nelts H' = hp_nelts H - 1 \<and>
    hp_compare H' = hp_compare H \<and> b ` {1..hp_nelts H - 1} = a ` {1..hp_nelts H} - {a i} \<and>
    heap_ordered lt (hp_nelts H - 1) b \<and>
    N' (a i) = Some \<lparr>hn_parent = NULL, hn_left = NULL, hn_right = NULL\<rparr> \<and>
    (\<forall>x. x \<notin> a ` {1..hp_nelts H} \<longrightarrow> N' x = N x)"
proof -
  let ?n = "hp_nelts H" and ?b = "cut_pos a (hp_nelts H) i"
  note pl = rep_placed [OF rep] note im = cut_image [OF pl i]
  consider "?n = 1" | "2 \<le> ?n" "i = ?n" | "2 \<le> ?n" "i < ?n" using i by linarith
  then show ?thesis
  proof cases
    case 1
    then have "i = 1" using i by simp
    then show ?thesis using heap_remove_single [OF rep 1, of m] im 1 by (auto simp: heap_ordered_def)
  next
    case 2
    obtain N1 H1 where 1: "heap_remove m N H (a i) =
        do { (N2, H2) \<leftarrow> sift_down lt N1 H1 (a ?n); sift_up lt N2 H2 (a ?n) }"
      "heap_rep N1 H1 ?b" "hp_nelts H1 = ?n - 1" "hp_compare H1 = hp_compare H"
      "N1 (a i) = Some \<lparr>hn_parent = NULL, hn_left = NULL, hn_right = NULL\<rparr>" "\<forall>x. x \<notin> a ` {1..?n} \<longrightarrow> N1 x = N x"
      using heap_remove_detach [OF rep i 2(1), of m] c by auto
    have "heap_ordered lt (?n - 1) ?b" using o 2 unfolding heap_ordered_def cut_pos_def by auto
    moreover have "heap_remove m N H (a i) = Some (N1, H1)"
      using 1(1) sift_isolated [of N1 "a i" H1, OF 1(5)] unfolding 2(2) [symmetric] by simp
    ultimately show ?thesis using 1(2-6) im by (intro exI conjI)
  next
    case 3
    obtain N1 H1 where 1: "heap_remove m N H (a i) =
        do { (N2, H2) \<leftarrow> sift_down lt N1 H1 (a ?n); sift_up lt N2 H2 (a ?n) }"
      "heap_rep N1 H1 ?b" "hp_nelts H1 = ?n - 1" "hp_compare H1 = hp_compare H"
      "N1 (a i) = Some \<lparr>hn_parent = NULL, hn_left = NULL, hn_right = NULL\<rparr>" "\<forall>x. x \<notin> a ` {1..?n} \<longrightarrow> N1 x = N x"
      using heap_remove_detach [OF rep i 3(1), of m] c by auto
    have bi: "?b i = a ?n" "i \<le> ?n - 1" using 3 by (auto simp: cut_pos_def)
    obtain N2 H2 b2 j where 2: "sift_down lt N1 H1 (?b i) = Some (N2, H2)" "moved N1 H1 ?b N2 H2 b2"
      "up_ok lt (?n - 1) b2 j" "b2 j = ?b i" "1 \<le> j" "j \<le> ?n - 1"
      using sift_down_moved [OF 1(2), of i] down_ok_cut [OF o i(1) 3(2)] 1(3) bi i(1) by auto
    have n2: "heap_rep N2 H2 b2" "hp_nelts H2 = ?n - 1" using 2(2) 1(3) by (auto simp: moved_def)
    obtain N3 H3 b3 where 3: "sift_up lt N2 H2 (b2 j) = Some (N3, H3)" "moved N2 H2 b2 N3 H3 b3"
      "heap_ordered lt (?n - 1) b3" using sift_up_moved [OF n2(1), of j] n2 2 by auto
    have mv: "moved N1 H1 ?b N3 H3 b3" by (rule moved_trans [OF 2(2) 3(2)])
    have fr: "N3 y = N1 y" if "y \<notin> a ` {1..?n} - {a i}" for y
      using mv that unfolding moved_def 1(3) im by simp
    have "heap_remove m N H (a i) = Some (N3, H3)" using 1(1) 2(1,4) 3(1) bi by simp
    moreover have "heap_rep N3 H3 b3" "hp_nelts H3 = ?n - 1" "hp_compare H3 = hp_compare H"
      "b3 ` {1..?n - 1} = a ` {1..?n} - {a i}" using mv 1(4) unfolding moved_def 1(3) im by simp_all
    ultimately show ?thesis using 3(3) fr 1(5,6) by (intro exI [of _ N3] exI [of _ H3] exI [of _ b3]) simp
  qed
qed

lemma heap_remove_ok:
  assumes ok: "heap_ok m N H S" and c: "hp_compare H = Some compare" "compare m = lt" and x: "x \<in> S"
  shows "\<exists>N' H'. heap_remove m N H x = Some (N', H') \<and> heap_ok m N' H' (S - {x}) \<and>
    hp_compare H' = hp_compare H \<and> N' x = Some \<lparr>hn_parent = NULL, hn_left = NULL, hn_right = NULL\<rparr> \<and>
    (\<forall>y. y \<notin> S \<longrightarrow> N' y = N y)"
proof -
  obtain a where a: "heap_rep N H a" "S = a ` {1..hp_nelts H}" "heap_ordered lt (hp_nelts H) a"
    using ok c unfolding heap_ok_def by auto
  from x a(2) obtain i where i: "x = a i" "1 \<le> i" "i \<le> hp_nelts H" by auto
  from heap_remove_moved [OF a(1,3) i(2,3) c] obtain N' H' b where
    r: "heap_remove m N H (a i) = Some (N', H')" "heap_rep N' H' b" "hp_nelts H' = hp_nelts H - 1"
    "hp_compare H' = hp_compare H" "b ` {1..hp_nelts H - 1} = a ` {1..hp_nelts H} - {a i}"
    "heap_ordered lt (hp_nelts H - 1) b" "N' (a i) = Some \<lparr>hn_parent = NULL, hn_left = NULL, hn_right = NULL\<rparr>"
    "\<forall>x. x \<notin> a ` {1..hp_nelts H} \<longrightarrow> N' x = N x" by (elim exE conjE)
  have "heap_ok m N' H' (S - {x})"
    using r(2-6) c a(2) i(1) unfolding heap_ok_def by (intro exI [of _ b] exI [of _ compare]) simp
  then show ?thesis using r a(2) i(1) by (intro exI [of _ N'] exI [of _ H']) simp
qed

lemma heap_root_min:
  assumes "heap_ok m N H S" "hp_compare H = Some compare" "compare m = lt" "x \<in> S"
  shows "hp_root H \<in> S" "\<not> lt x (hp_root H)"
proof -
  obtain a where a: "heap_rep N H a" "S = a ` {1..hp_nelts H}" "heap_ordered lt (hp_nelts H) a"
    using assms unfolding heap_ok_def by auto
  from assms(4) a(2) obtain i where i: "x = a i" "1 \<le> i" "i \<le> hp_nelts H" by auto
  then have "1 \<in> {1..hp_nelts H}" by simp
  then show "hp_root H \<in> S" using rep_root [OF a(1)] unfolding a(2) by (simp only: imageI)
  show "\<not> lt x (hp_root H)" using ordered_root [OF a(3) i(2,3)] rep_root [OF a(1)] i(1) by simp
qed

text \<open>All nodes inserted, then all dequeued: they come out in order.\<close>

lemma heap_insert_all_ok:
  assumes "heap_ok m N H S" "hp_compare H = Some compare" "compare m = lt"
    "distinct xs" "set xs \<inter> S = {}" "\<forall>x \<in> set xs. detached N x" "card S + length xs < 2 ^ 31"
  shows "\<exists>N' H'. heap_insert_all m N H xs = Some (N', H') \<and> heap_ok m N' H' (set xs \<union> S) \<and> hp_compare H' = Some compare"
  using assms
proof (induction xs arbitrary: N H S)
  case (Cons x xs)
  obtain N1 H1 where 1: "heap_insert m N H x = Some (N1, H1)" "heap_ok m N1 H1 (insert x S)"
    "hp_compare H1 = hp_compare H" "\<forall>y. y \<notin> insert x S \<longrightarrow> N1 y = N y"
    using heap_insert_ok [OF Cons.prems(1-3), of x] Cons.prems by auto
  have "detached N1 y" if "y \<in> set xs" for y
  proof -
    have "N1 y = N y" using that Cons.prems(4,5) 1(4) by auto
    then show ?thesis using that Cons.prems(6) by (auto simp: detached_def)
  qed
  moreover have "card (insert x S) = card S + 1" using Cons.prems(5) heap_ok_card [OF Cons.prems(1)] by simp
  ultimately obtain N2 H2 where "heap_insert_all m N1 H1 xs = Some (N2, H2)" "heap_ok m N2 H2 (set xs \<union> insert x S)"
    "hp_compare H2 = Some compare" using Cons.IH [OF 1(2)] 1(3) Cons.prems by auto
  then show ?case using 1(1) by simp
qed simp

lemma heap_drain_ok:
  assumes "heap_ok m N H S" "hp_compare H = Some compare" "compare m = lt" "card S = n"
  shows "\<exists>N' H' ys. heap_drain m N H n = Some (N', H', ys) \<and> heap_ok m N' H' {} \<and> set ys = S \<and> distinct ys \<and>
    sorted_wrt (\<lambda>x y. \<not> lt y x) ys"
  using assms
proof (induction n arbitrary: N H S)
  case 0
  then show ?case using heap_ok_card [OF 0(1)] by auto
next
  case (Suc n)
  have fin: "finite S" using heap_ok_card [OF Suc.prems(1)] by simp
  then obtain x where "x \<in> S" using Suc.prems(4) by fastforce
  note r = heap_root_min [OF Suc.prems(1-3)]
  have root: "hp_root H \<in> S" using r(1) \<open>x \<in> S\<close> by blast
  obtain N1 H1 where 1: "heap_dequeue m N H = Some (N1, H1)" "heap_ok m N1 H1 (S - {hp_root H})" "hp_compare H1 = Some compare"
    using heap_remove_ok [OF Suc.prems(1-3) root] Suc.prems(2) by (auto simp: heap_dequeue_def)
  obtain N2 H2 ys where 2: "heap_drain m N1 H1 n = Some (N2, H2, ys)" "heap_ok m N2 H2 {}" "set ys = S - {hp_root H}"
    "distinct ys" "sorted_wrt (\<lambda>x y. \<not> lt y x) ys"
    using Suc.IH [OF 1(2,3) Suc.prems(3)] Suc.prems(4) root fin by auto
  have "\<not> lt y (hp_root H)" if "y \<in> set ys" for y using that 2(3) r(2) by blast
  then show ?case using 1(1) 2 root by (intro exI [of _ N2] exI [of _ H2] exI [of _ "hp_root H # ys"]) auto
qed

end

end
