(* ===== verification/List_Head.thy ===== *)
theory List_Head
  imports Interfaces
begin

text \<open>
  The circular doubly linked list of \<open>src/container/list.h\<close>, with the nodes embedded in the
  client's objects and a node of its own as the head. The model is a store of nodes; a
  dereference of a pointer that is not in the store is \<open>None\<close>. \<open>ring L s xs\<close> says that the
  nodes \<open>xs\<close> are linked in this order in both directions from the head \<open>s\<close> back to it. The proofs are
  about the two functions \<open>nxt_of\<close> and \<open>prv_of\<close> that the store gives.
\<close>

section \<open>Model\<close>

record list_head =
  lh_next :: ptr
  lh_prev :: ptr

type_synonym links = "ptr \<rightharpoonup> list_head"

definition lh_set_next :: "links \<Rightarrow> ptr \<Rightarrow> ptr \<Rightarrow> links option" where
  "lh_set_next L p v = do { n \<leftarrow> L p; Some (L(p \<mapsto> n\<lparr>lh_next := v\<rparr>)) }"

definition lh_set_prev :: "links \<Rightarrow> ptr \<Rightarrow> ptr \<Rightarrow> links option" where
  "lh_set_prev L p v = do { n \<leftarrow> L p; Some (L(p \<mapsto> n\<lparr>lh_prev := v\<rparr>)) }"

definition list_init :: "links \<Rightarrow> ptr \<Rightarrow> links option" where
  "list_init L list = do { L \<leftarrow> lh_set_next L list list; lh_set_prev L list list }"

text \<open>\<open>list_new\<close>; \<open>calloc\<close> gives an address that is not in use.\<close>

definition list_head_new :: "(links \<Rightarrow> ptr) \<Rightarrow> links \<Rightarrow> links \<times> ptr" where
  "list_head_new calloc L = (let p = calloc L in (L(p \<mapsto> \<lparr>lh_next = p, lh_prev = p\<rparr>), p))"

text \<open>\<open>__list_add\<close>.\<close>

definition list_insert :: "links \<Rightarrow> ptr \<Rightarrow> ptr \<Rightarrow> ptr \<Rightarrow> links option" where
  "list_insert L n prev next = do {
     L \<leftarrow> lh_set_prev L next n;
     L \<leftarrow> lh_set_next L n next;
     L \<leftarrow> lh_set_prev L n prev;
     lh_set_next L prev n }"

definition list_add :: "links \<Rightarrow> ptr \<Rightarrow> ptr \<Rightarrow> links option" where
  "list_add L n head = do { h \<leftarrow> L head; list_insert L n head (lh_next h) }"

definition list_add_tail :: "links \<Rightarrow> ptr \<Rightarrow> ptr \<Rightarrow> links option" where
  "list_add_tail L n head = do { h \<leftarrow> L head; list_insert L n (lh_prev h) head }"

text \<open>\<open>__list_del\<close>.\<close>

definition list_unlink :: "links \<Rightarrow> ptr \<Rightarrow> ptr \<Rightarrow> links option" where
  "list_unlink L prev next = do { L \<leftarrow> lh_set_prev L next prev; lh_set_next L prev next }"

definition list_del :: "links \<Rightarrow> ptr \<Rightarrow> links option" where
  "list_del L entry = do { e \<leftarrow> L entry; list_unlink L (lh_prev e) (lh_next e) }"

definition list_replace :: "links \<Rightarrow> ptr \<Rightarrow> ptr \<Rightarrow> links option" where
  "list_replace L old n = do {
     e \<leftarrow> L old;
     L \<leftarrow> lh_set_next L n (lh_next e);
     N \<leftarrow> L n;
     L \<leftarrow> lh_set_prev L (lh_next N) n;
     e \<leftarrow> L old;
     L \<leftarrow> lh_set_prev L n (lh_prev e);
     N \<leftarrow> L n;
     lh_set_next L (lh_prev N) n }"

definition list_replace_init :: "links \<Rightarrow> ptr \<Rightarrow> ptr \<Rightarrow> links option" where
  "list_replace_init L old n = do { L \<leftarrow> list_replace L old n; list_init L old }"

definition list_del_init :: "links \<Rightarrow> ptr \<Rightarrow> links option" where
  "list_del_init L entry = do { L \<leftarrow> list_del L entry; list_init L entry }"

definition list_move :: "links \<Rightarrow> ptr \<Rightarrow> ptr \<Rightarrow> links option" where
  "list_move L list head = do { L \<leftarrow> list_del L list; list_add L list head }"

definition list_move_tail :: "links \<Rightarrow> ptr \<Rightarrow> ptr \<Rightarrow> links option" where
  "list_move_tail L list head = do { L \<leftarrow> list_del L list; list_add_tail L list head }"

definition list_is_last :: "links \<Rightarrow> ptr \<Rightarrow> ptr \<Rightarrow> bool option" where
  "list_is_last L list head = do { n \<leftarrow> L list; Some (lh_next n = head) }"

definition list_empty :: "links \<Rightarrow> ptr \<Rightarrow> bool option" where
  "list_empty L head = do { h \<leftarrow> L head; Some (lh_next h = head) }"

definition list_empty_careful :: "links \<Rightarrow> ptr \<Rightarrow> bool option" where
  "list_empty_careful L head = do { h \<leftarrow> L head; Some (lh_next h = head \<and> lh_next h = lh_prev h) }"

definition list_is_singular :: "links \<Rightarrow> ptr \<Rightarrow> bool option" where
  "list_is_singular L head = do {
     e \<leftarrow> list_empty L head;
     h \<leftarrow> L head;
     Some (\<not> e \<and> lh_next h = lh_prev h) }"

definition list_rotate_left :: "links \<Rightarrow> ptr \<Rightarrow> links option" where
  "list_rotate_left L head = do {
     e \<leftarrow> list_empty L head;
     if \<not> e then do { h \<leftarrow> L head; list_move_tail L (lh_next h) head } else Some L }"

text \<open>\<open>__list_cut_position\<close>.\<close>

definition list_cut :: "links \<Rightarrow> ptr \<Rightarrow> ptr \<Rightarrow> ptr \<Rightarrow> links option" where
  "list_cut L list head entry = do {
     e \<leftarrow> L entry;
     let new_first = lh_next e;
     h \<leftarrow> L head;
     L \<leftarrow> lh_set_next L list (lh_next h);
     l \<leftarrow> L list;
     L \<leftarrow> lh_set_prev L (lh_next l) list;
     L \<leftarrow> lh_set_prev L list entry;
     L \<leftarrow> lh_set_next L entry list;
     L \<leftarrow> lh_set_next L head new_first;
     lh_set_prev L new_first head }"

definition list_cut_position :: "links \<Rightarrow> ptr \<Rightarrow> ptr \<Rightarrow> ptr \<Rightarrow> links option" where
  "list_cut_position L list head entry = do {
     e \<leftarrow> list_empty L head;
     if e then Some L else do {
       sing \<leftarrow> list_is_singular L head;
       h \<leftarrow> L head;
       if sing \<and> lh_next h \<noteq> entry \<and> head \<noteq> entry then Some L
       else if entry = head then list_init L list
       else list_cut L list head entry } }"

text \<open>\<open>__list_splice\<close>.\<close>

definition list_splice_between :: "links \<Rightarrow> ptr \<Rightarrow> ptr \<Rightarrow> ptr \<Rightarrow> links option" where
  "list_splice_between L list prev next = do {
     l \<leftarrow> L list;
     let first = lh_next l;
     let last = lh_prev l;
     L \<leftarrow> lh_set_prev L first prev;
     L \<leftarrow> lh_set_next L prev first;
     L \<leftarrow> lh_set_next L last next;
     lh_set_prev L next last }"

definition list_splice :: "links \<Rightarrow> ptr \<Rightarrow> ptr \<Rightarrow> links option" where
  "list_splice L list head = do {
     e \<leftarrow> list_empty L list;
     if \<not> e then do { h \<leftarrow> L head; list_splice_between L list head (lh_next h) } else Some L }"

definition list_splice_tail :: "links \<Rightarrow> ptr \<Rightarrow> ptr \<Rightarrow> links option" where
  "list_splice_tail L list head = do {
     e \<leftarrow> list_empty L list;
     if \<not> e then do { h \<leftarrow> L head; list_splice_between L list (lh_prev h) head } else Some L }"

definition list_splice_init :: "links \<Rightarrow> ptr \<Rightarrow> ptr \<Rightarrow> links option" where
  "list_splice_init L list head = do {
     e \<leftarrow> list_empty L list;
     if \<not> e then do { h \<leftarrow> L head; L \<leftarrow> list_splice_between L list head (lh_next h); list_init L list } else Some L }"

definition list_splice_tail_init :: "links \<Rightarrow> ptr \<Rightarrow> ptr \<Rightarrow> links option" where
  "list_splice_tail_init L list head = do {
     e \<leftarrow> list_empty L list;
     if \<not> e then do { h \<leftarrow> L head; L \<leftarrow> list_splice_between L list (lh_prev h) head; list_init L list } else Some L }"

section \<open>Rings\<close>

definition nxt_of :: "links \<Rightarrow> ptr \<Rightarrow> ptr" where "nxt_of L p = lh_next (the (L p))"
definition prv_of :: "links \<Rightarrow> ptr \<Rightarrow> ptr" where "prv_of L p = lh_prev (the (L p))"

text \<open>From \<open>a\<close> through \<open>xs\<close> to \<open>b\<close>, forwards by \<open>f\<close> and backwards by \<open>g\<close>.\<close>

primrec linked_by :: "(ptr \<Rightarrow> ptr) \<Rightarrow> (ptr \<Rightarrow> ptr) \<Rightarrow> ptr \<Rightarrow> ptr list \<Rightarrow> ptr \<Rightarrow> bool" where
  "linked_by f g a [] b \<longleftrightarrow> f a = b \<and> g b = a"
| "linked_by f g a (x # xs) b \<longleftrightarrow> f a = x \<and> g x = a \<and> linked_by f g x xs b"

definition ring :: "links \<Rightarrow> ptr \<Rightarrow> ptr list \<Rightarrow> bool" where
  "ring L s xs \<longleftrightarrow> distinct (s # xs) \<and> set (s # xs) \<subseteq> dom L \<and> linked_by (nxt_of L) (prv_of L) s xs s"

named_theorems link_simps \<open>the store after an assignment, by fields\<close>

lemma linked_by_append [link_simps]:
  "linked_by f g a (xs @ y # ys) b \<longleftrightarrow> linked_by f g a xs y \<and> linked_by f g y ys b"
  by (induction xs arbitrary: a) auto

lemma linked_by_upd [link_simps]:
  "p \<noteq> a \<Longrightarrow> p \<notin> set xs \<Longrightarrow> linked_by (f(p := v)) g a xs b = linked_by f g a xs b"
  "p \<noteq> b \<Longrightarrow> p \<notin> set xs \<Longrightarrow> linked_by f (g(p := v)) a xs b = linked_by f g a xs b"
  by (induction xs arbitrary: a) auto

lemma linked_by_ends:
  assumes "linked_by f g a xs b"
  shows "f a = hd (xs @ [b])" "g b = last (a # xs)"
  using assms by (induction xs arbitrary: a) auto

lemma linked_by_cong:
  assumes "\<And>p. p \<in> set (a # xs) \<Longrightarrow> f' p = f p" "\<And>p. p \<in> set (xs @ [b]) \<Longrightarrow> g' p = g p"
  shows "linked_by f' g' a xs b = linked_by f g a xs b"
  using assms by (induction xs arbitrary: a) auto

text \<open>The four ways to see the store after an assignment.\<close>

lemma lh_set_next_some:
  assumes "p \<in> dom L"
  obtains L' where "lh_set_next L p v = Some L'" "dom L' = dom L" "nxt_of L' = (nxt_of L)(p := v)" "prv_of L' = prv_of L"
    "\<And>q. q \<noteq> p \<Longrightarrow> L' q = L q"
proof -
  obtain n where n: "L p = Some n" using assms by blast
  let ?L = "L(p \<mapsto> n\<lparr>lh_next := v\<rparr>)"
  have "lh_set_next L p v = Some ?L" "dom ?L = dom L" "nxt_of ?L = (nxt_of L)(p := v)" "prv_of ?L = prv_of L" "\<And>q. q \<noteq> p \<Longrightarrow> ?L q = L q"
    using n by (auto simp: lh_set_next_def nxt_of_def prv_of_def fun_eq_iff)
  then show thesis using that by blast
qed

lemma lh_set_prev_some:
  assumes "p \<in> dom L"
  obtains L' where "lh_set_prev L p v = Some L'" "dom L' = dom L" "nxt_of L' = nxt_of L" "prv_of L' = (prv_of L)(p := v)"
    "\<And>q. q \<noteq> p \<Longrightarrow> L' q = L q"
proof -
  obtain n where n: "L p = Some n" using assms by blast
  let ?L = "L(p \<mapsto> n\<lparr>lh_prev := v\<rparr>)"
  have "lh_set_prev L p v = Some ?L" "dom ?L = dom L" "nxt_of ?L = nxt_of L" "prv_of ?L = (prv_of L)(p := v)" "\<And>q. q \<noteq> p \<Longrightarrow> ?L q = L q"
    using n by (auto simp: lh_set_prev_def nxt_of_def prv_of_def fun_eq_iff)
  then show thesis using that by blast
qed

lemma list_insert_some:
  assumes "n \<in> dom L" "prev \<in> dom L" "next \<in> dom L"
  obtains L' where "list_insert L n prev next = Some L'" "dom L' = dom L" "nxt_of L' = (nxt_of L)(n := next, prev := n)"
    "prv_of L' = (prv_of L)(next := n, n := prev)" "\<And>q. q \<notin> {n, prev, next} \<Longrightarrow> L' q = L q"
proof -
  obtain L1 where 1: "lh_set_prev L next n = Some L1" "dom L1 = dom L" "nxt_of L1 = nxt_of L" "prv_of L1 = (prv_of L)(next := n)"
    "\<And>q. q \<noteq> next \<Longrightarrow> L1 q = L q" using lh_set_prev_some [OF assms(3)] by metis
  obtain L2 where 2: "lh_set_next L1 n next = Some L2" "dom L2 = dom L" "nxt_of L2 = (nxt_of L)(n := next)" "prv_of L2 = prv_of L1"
    "\<And>q. q \<noteq> n \<Longrightarrow> L2 q = L1 q" using lh_set_next_some [of n L1] assms(1) 1(2,3) by metis
  obtain L3 where 3: "lh_set_prev L2 n prev = Some L3" "dom L3 = dom L" "nxt_of L3 = nxt_of L2" "prv_of L3 = (prv_of L2)(n := prev)"
    "\<And>q. q \<noteq> n \<Longrightarrow> L3 q = L2 q" using lh_set_prev_some [of n L2] assms(1) 2(2) by metis
  obtain L4 where 4: "lh_set_next L3 prev n = Some L4" "dom L4 = dom L" "nxt_of L4 = (nxt_of L3)(prev := n)" "prv_of L4 = prv_of L3"
    "\<And>q. q \<noteq> prev \<Longrightarrow> L4 q = L3 q" using lh_set_next_some [of prev L3] assms(2) 3(2) by metis
  show thesis
    by (rule that [of L4]) (simp_all add: list_insert_def 1 2 3 4)
qed

lemma list_unlink_some:
  assumes "prev \<in> dom L" "next \<in> dom L"
  obtains L' where "list_unlink L prev next = Some L'" "dom L' = dom L" "nxt_of L' = (nxt_of L)(prev := next)"
    "prv_of L' = (prv_of L)(next := prev)" "\<And>q. q \<notin> {prev, next} \<Longrightarrow> L' q = L q"
proof -
  obtain L1 where 1: "lh_set_prev L next prev = Some L1" "dom L1 = dom L" "nxt_of L1 = nxt_of L" "prv_of L1 = (prv_of L)(next := prev)"
    "\<And>q. q \<noteq> next \<Longrightarrow> L1 q = L q" using lh_set_prev_some [OF assms(2)] by metis
  obtain L2 where 2: "lh_set_next L1 prev next = Some L2" "dom L2 = dom L" "nxt_of L2 = (nxt_of L)(prev := next)" "prv_of L2 = prv_of L1"
    "\<And>q. q \<noteq> prev \<Longrightarrow> L2 q = L1 q" using lh_set_next_some [of prev L1] assms(1) 1(2,3) by metis
  show thesis by (rule that [of L2]) (simp_all add: list_unlink_def 1 2)
qed

section \<open>The operations on rings\<close>

lemma linked_by_insert:
  assumes "linked_by f g a (xs @ ys) b" "distinct (a # xs @ ys)" "b \<notin> set (xs @ ys)" "n \<notin> set (a # xs @ ys)" "n \<noteq> b"
    "p = last (a # xs)" "q = hd (ys @ [b])"
  shows "linked_by (f(n := q, p := n)) (g(q := n, n := p)) a (xs @ n # ys) b"
  using assms
proof (induction xs arbitrary: a)
  case Nil
  show ?case
  proof (cases ys)
    case (Cons y zs)
    let ?f = "f(n := q, p := n)" and ?g = "g(q := n, n := p)"
    have "linked_by ?f ?g y zs b = linked_by f g y zs b" using Nil.prems Cons by (intro linked_by_cong) auto
    then have "linked_by ?f ?g y zs b" using Nil.prems Cons by auto
    moreover have "?f a = n" "?g n = a" "?f n = y" "?g y = n" using Nil.prems Cons by auto
    ultimately show ?thesis unfolding Cons append.simps linked_by.simps by (intro conjI)
  qed (use Nil.prems in auto)
next
  case (Cons x xs)
  have "q \<in> set (ys @ [b])" using Cons.prems(7) by (cases ys) auto
  then have "a \<noteq> p" "x \<noteq> q" using Cons.prems(2,3,6) by auto
  then show ?case using Cons by auto
qed

lemma linked_by_delete:
  assumes "linked_by f g a (xs @ n # ys) b" "distinct (a # xs @ n # ys)" "b \<notin> set (xs @ n # ys)"
    "p = last (a # xs)" "q = hd (ys @ [b])"
  shows "linked_by (f(p := q)) (g(q := p)) a (xs @ ys) b"
  using assms
proof (induction xs arbitrary: a)
  case Nil
  show ?case
  proof (cases ys)
    case (Cons y zs)
    let ?f = "f(p := q)" and ?g = "g(q := p)"
    have "linked_by ?f ?g y zs b = linked_by f g y zs b" using Nil.prems Cons by (intro linked_by_cong) auto
    then have "linked_by ?f ?g y zs b" using Nil.prems Cons by auto
    moreover have "?f a = y" "?g y = a" using Nil.prems Cons by auto
    ultimately show ?thesis unfolding Cons append.simps linked_by.simps by (intro conjI)
  qed (use Nil.prems in auto)
next
  case (Cons x xs)
  have "q \<in> set (ys @ [b])" using Cons.prems(5) by (cases ys) auto
  then have "a \<noteq> p" "x \<noteq> q" using Cons.prems(2,3,4) by auto
  then show ?case using Cons by auto
qed

lemma ring_neighbours:
  assumes "ring L s (xs @ ys)"
  shows "last (s # xs) \<in> dom L" "hd (ys @ [s]) \<in> dom L"
    "last (s # xs) \<in> set (s # xs)" "hd (ys @ [s]) \<in> set (s # ys)"
proof -
  show "last (s # xs) \<in> set (s # xs)" by (rule last_in_set) simp
  moreover show "hd (ys @ [s]) \<in> set (s # ys)" by (cases ys) auto
  ultimately show "last (s # xs) \<in> dom L" "hd (ys @ [s]) \<in> dom L" using assms by (auto simp: ring_def)
qed

lemma ring_cong:
  assumes "\<And>q. q \<in> set (s # xs) \<Longrightarrow> L' q = L q"
  shows "ring L' s xs \<longleftrightarrow> ring L s xs"
proof -
  have "linked_by (nxt_of L') (prv_of L') s xs s = linked_by (nxt_of L) (prv_of L) s xs s"
    using assms by (intro linked_by_cong) (auto simp: nxt_of_def prv_of_def)
  moreover have "set (s # xs) \<subseteq> dom L' \<longleftrightarrow> set (s # xs) \<subseteq> dom L"
    unfolding subset_iff dom_def mem_Collect_eq using assms by metis
  ultimately show ?thesis unfolding ring_def by blast
qed

lemma list_insert_ring:
  assumes r: "ring L s (xs @ ys)" and n: "n \<in> dom L" "n \<notin> set (s # xs @ ys)"
  shows "\<exists>L'. list_insert L n (last (s # xs)) (hd (ys @ [s])) = Some L' \<and> ring L' s (xs @ n # ys) \<and> dom L' = dom L \<and>
    (\<forall>q. q \<notin> insert n (set (s # xs @ ys)) \<longrightarrow> L' q = L q)"
proof -
  let ?p = "last (s # xs)" and ?q = "hd (ys @ [s])"
  note nb = ring_neighbours [OF r]
  obtain L' where L': "list_insert L n ?p ?q = Some L'" "dom L' = dom L" "nxt_of L' = (nxt_of L)(n := ?q, ?p := n)"
    "prv_of L' = (prv_of L)(?q := n, n := ?p)" "\<And>q. q \<notin> {n, ?p, ?q} \<Longrightarrow> L' q = L q"
    using list_insert_some [OF n(1) nb(1,2)] by metis
  have "linked_by (nxt_of L') (prv_of L') s (xs @ n # ys) s"
    unfolding L'(3,4) using r n(2) by (intro linked_by_insert) (auto simp: ring_def)
  then have "ring L' s (xs @ n # ys)" using r n L'(2) by (auto simp: ring_def)
  then show ?thesis using L'(1,2,5) nb(3,4) by auto
qed

lemma ring_ends:
  assumes "ring L s xs"
  shows "\<exists>h. L s = Some h \<and> lh_next h = hd (xs @ [s]) \<and> lh_prev h = last (s # xs)"
proof -
  obtain h where "L s = Some h" using assms by (auto simp: ring_def)
  then show ?thesis using linked_by_ends [of "nxt_of L" "prv_of L" s xs s] assms by (auto simp: ring_def nxt_of_def prv_of_def)
qed

lemma list_add_ring:
  assumes r: "ring L s xs" and n: "n \<in> dom L" "n \<notin> set (s # xs)"
  shows "\<exists>L'. list_add L n s = Some L' \<and> ring L' s (n # xs) \<and> dom L' = dom L \<and> (\<forall>q. q \<notin> insert n (set (s # xs)) \<longrightarrow> L' q = L q)"
  using list_insert_ring [of L s "[]" xs n] ring_ends [OF r] assms by (auto simp: list_add_def)

lemma list_add_tail_ring:
  assumes r: "ring L s xs" and n: "n \<in> dom L" "n \<notin> set (s # xs)"
  shows "\<exists>L'. list_add_tail L n s = Some L' \<and> ring L' s (xs @ [n]) \<and> dom L' = dom L \<and>
    (\<forall>q. q \<notin> insert n (set (s # xs)) \<longrightarrow> L' q = L q)"
  using list_insert_ring [of L s xs "[]" n] ring_ends [OF r] assms by (auto simp: list_add_tail_def)

lemma list_del_ring:
  assumes r: "ring L s (xs @ n # ys)"
  shows "\<exists>L'. list_del L n = Some L' \<and> ring L' s (xs @ ys) \<and> dom L' = dom L \<and> (\<forall>q. q \<notin> set (s # xs @ ys) \<longrightarrow> L' q = L q)"
proof -
  let ?p = "last (s # xs)" and ?q = "hd (ys @ [s])"
  have l: "linked_by (nxt_of L) (prv_of L) s xs n" "linked_by (nxt_of L) (prv_of L) n ys s" and d: "distinct (s # xs @ n # ys)" "set (s # xs @ n # ys) \<subseteq> dom L"
    using r by (auto simp: ring_def linked_by_append)
  have pq: "?p \<in> set (s # xs)" "?q \<in> set (s # ys)" by (rule last_in_set, simp) (cases ys; simp)
  have dm: "?p \<in> dom L" "?q \<in> dom L" using pq d(2) by auto
  obtain h where h: "L n = Some h" using d(2) by auto
  then have e: "lh_prev h = ?p" "lh_next h = ?q" using linked_by_ends(2) [OF l(1)] linked_by_ends(1) [OF l(2)] by (simp_all add: nxt_of_def prv_of_def)
  obtain L' where L': "list_unlink L ?p ?q = Some L'" "dom L' = dom L" "nxt_of L' = (nxt_of L)(?p := ?q)" "prv_of L' = (prv_of L)(?q := ?p)"
    "\<And>q. q \<notin> {?p, ?q} \<Longrightarrow> L' q = L q" using list_unlink_some [of ?p L ?q] dm by metis
  have "linked_by (nxt_of L') (prv_of L') s (xs @ ys) s"
    unfolding L'(3,4) using r d by (intro linked_by_delete [of _ _ s xs n ys]) (auto simp: ring_def)
  then have "ring L' s (xs @ ys)" using d L'(2) by (auto simp: ring_def)
  moreover have "list_del L n = Some L'" using h e L'(1) by (simp add: list_del_def)
  moreover have "\<forall>q. q \<notin> set (s # xs @ ys) \<longrightarrow> L' q = L q" 
  proof (intro allI impI)
    fix q assume "q \<notin> set (s # xs @ ys)"
    then have "q \<notin> {?p, ?q}" using pq by (auto simp del: last.simps)
    then show "L' q = L q" by (rule L'(5))
  qed
  ultimately show ?thesis using L'(2) by blast
qed

text \<open>The derived operations.\<close>

lemma list_init_ring: "s \<in> dom L \<Longrightarrow> \<exists>L'. list_init L s = Some L' \<and> ring L' s [] \<and> dom L' = dom L \<and> (\<forall>q. q \<noteq> s \<longrightarrow> L' q = L q)"
  by (auto simp: list_init_def lh_set_next_def lh_set_prev_def ring_def nxt_of_def prv_of_def)

lemma list_init_beside:
  assumes "ring L s xs" "l \<in> dom L" "l \<notin> set (s # xs)"
  shows "\<exists>L'. list_init L l = Some L' \<and> ring L' s xs \<and> ring L' l []"
proof -
  obtain L' where L': "list_init L l = Some L'" "ring L' l []" "\<And>q. q \<noteq> l \<Longrightarrow> L' q = L q"
    using list_init_ring [OF assms(2)] by auto
  have "L' p = L p" if "p \<in> set (s # xs)" for p using assms(3) that by (intro L'(3)) auto
  then have "ring L' s xs" using assms(1) ring_cong [of s xs L' L] by simp
  then show ?thesis using L'(1,2) by blast
qed

lemma list_head_new_ring: "ring (fst (list_head_new calloc L)) (snd (list_head_new calloc L)) []"
  by (simp add: list_head_new_def Let_def ring_def nxt_of_def prv_of_def)

lemma list_tests:
  assumes r: "ring L s xs"
  shows "list_empty L s = Some (xs = [])" "list_is_singular L s = Some (length xs = 1)"
    "x \<in> set xs \<Longrightarrow> list_is_last L x s = Some (x = last xs)"
proof -
  have s: "s \<notin> set xs" "distinct xs" using r by (auto simp: ring_def)
  show e: "list_empty L s = Some (xs = [])" using ring_ends [OF r] s by (cases xs) (auto simp: list_empty_def)
  have "hd xs = last xs \<longleftrightarrow> length xs = 1" if "xs \<noteq> []" using that s(2) by (cases xs) (auto simp: length_Suc_conv)
  then show "list_is_singular L s = Some (length xs = 1)"
    using ring_ends [OF r] e by (cases "xs = []") (auto simp: list_is_singular_def)
  assume x: "x \<in> set xs"
  then obtain ys zs where xs: "xs = ys @ x # zs" by (meson split_list)
  have "linked_by (nxt_of L) (prv_of L) x zs s" using r unfolding xs by (simp add: ring_def linked_by_append)
  moreover obtain h where "L x = Some h" using r x by (auto simp: ring_def)
  ultimately have "list_is_last L x s = Some (hd (zs @ [s]) = s)" using linked_by_ends(1) by (fastforce simp: list_is_last_def nxt_of_def)
  moreover have "hd (zs @ [s]) = s \<longleftrightarrow> x = last xs" using s unfolding xs by (cases zs) auto
  ultimately show "list_is_last L x s = Some (x = last xs)" by simp
qed

lemma list_move_ring:
  assumes r: "ring L s (xs @ n # ys)"
  shows "\<exists>L'. list_move L n s = Some L' \<and> ring L' s (n # xs @ ys)" "\<exists>L'. list_move_tail L n s = Some L' \<and> ring L' s (xs @ ys @ [n])"
proof -
  obtain L1 where 1: "list_del L n = Some L1" "ring L1 s (xs @ ys)" "dom L1 = dom L" using list_del_ring [OF r] by blast
  have n: "n \<in> dom L1" "n \<notin> set (s # xs @ ys)" using r 1(3) by (auto simp: ring_def)
  show "\<exists>L'. list_move L n s = Some L' \<and> ring L' s (n # xs @ ys)"
    using list_add_ring [OF 1(2) n] 1(1) by (auto simp: list_move_def)
  show "\<exists>L'. list_move_tail L n s = Some L' \<and> ring L' s (xs @ ys @ [n])"
    using list_add_tail_ring [OF 1(2) n] 1(1) by (auto simp: list_move_tail_def)
qed

lemma list_rotate_left_ring:
  assumes r: "ring L s xs"
  shows "\<exists>L'. list_rotate_left L s = Some L' \<and> ring L' s (rotate1 xs)"
proof (cases xs)
  case Nil
  then show ?thesis using r list_tests(1) [OF r] by (simp add: list_rotate_left_def)
next
  case (Cons x ys)
  then show ?thesis
    using r list_tests(1) [OF r] ring_ends [OF r] list_move_ring(2) [of L s "[]" x ys] by (auto simp: list_rotate_left_def)
qed

text \<open>Splicing the nodes \<open>z # zs\<close> of one ring between \<open>xs\<close> and \<open>ys\<close> of another.\<close>

lemma linked_by_splice_tail:
  assumes "linked_by f g z zs c" "distinct (z # zs)" "set (z # zs) \<inter> insert b (set ys) = {}" "p \<notin> set (z # zs)" "g' = g(z0 := p, q := w)"
    "f' = f(p := z0, w := q)" "z0 \<notin> set zs" "w = last (z # zs)" "q = hd (ys @ [b])"
    "ys \<noteq> [] \<Longrightarrow> linked_by f' g' (hd ys) (tl ys) b"
  shows "linked_by f' g' z (zs @ ys) b"
  using assms
proof (induction zs arbitrary: z)
  case Nil
  have fg: "f' z = q" "g' q = z" using Nil.prems by auto
  show ?case
  proof (cases ys)
    case (Cons y zs)
    then show ?thesis using fg Nil.prems(9,10) unfolding Cons append.simps linked_by.simps by (intro conjI) simp_all
  qed (use fg Nil.prems(9) in simp)
next
  case (Cons x zs)
  have q: "q \<in> insert b (set ys)" using Cons.prems(9) by (cases ys) auto
  have "z \<noteq> w" using Cons.prems(2,8) by auto
  then have "f' z = x" "g' x = z" using Cons.prems(1,3-7) q by auto
  moreover have "linked_by f' g' x (zs @ ys) b" using Cons.prems by (intro Cons.IH) auto
  ultimately show ?case unfolding append.simps linked_by.simps by (intro conjI)
qed

lemma linked_by_splice:
  assumes "linked_by f g a (xs @ ys) b" "distinct (a # xs @ ys)" "b \<notin> set (xs @ ys)" "linked_by f g z zs c"
    "distinct (z # zs)" "set (z # zs) \<inter> set (a # b # xs @ ys) = {}"
    "p = last (a # xs)" "q = hd (ys @ [b])" "w = last (z # zs)"
  shows "linked_by (f(p := z, w := q)) (g(z := p, q := w)) a (xs @ (z # zs) @ ys) b"
  using assms
proof (induction xs arbitrary: a)
  case Nil
  let ?f = "f(p := z, w := q)" and ?g = "g(z := p, q := w)"
  have w: "w \<in> set (z # zs)" unfolding Nil.prems(9) by (rule last_in_set) simp
  have q: "q \<in> insert b (set ys)" unfolding Nil.prems(8) by (cases ys) auto
  have "linked_by ?f ?g (hd ys) (tl ys) b" if "ys \<noteq> []"
  proof -
    obtain y vs where ys: "ys = y # vs" using \<open>ys \<noteq> []\<close> by (cases ys) auto
    have "linked_by ?f ?g y vs b = linked_by f g y vs b" using Nil.prems w ys by (intro linked_by_cong) auto
    then show ?thesis using Nil.prems(1) ys by auto
  qed
  then have "linked_by ?f ?g z (zs @ ys) b"
    using Nil.prems by (intro linked_by_splice_tail [where f = f and g = g and p = p and q = q and w = w and ?z0.0 = z, OF Nil.prems(4)]) auto
  moreover have "?f a = z" "?g z = a" using Nil.prems(6,7) w q by auto
  ultimately show ?case unfolding append.simps linked_by.simps by (intro conjI)
next
  case (Cons x xs)
  let ?f = "f(p := z, w := q)" and ?g = "g(z := p, q := w)"
  have w: "w \<in> set (z # zs)" unfolding Cons.prems(9) by (rule last_in_set) simp
  have q: "q \<in> insert b (set ys)" unfolding Cons.prems(8) by (cases ys) auto
  have "p \<in> set (x # xs)" unfolding Cons.prems(7) by (auto simp: last_in_set)
  then have "?f a = x" "?g x = a" using Cons.prems(1-3,6) w q by auto
  moreover have "linked_by ?f ?g x (xs @ (z # zs) @ ys) b" using Cons.prems by (intro Cons.IH) auto
  ultimately show ?case unfolding append.simps linked_by.simps by (intro conjI)
qed

lemma list_splice_between_ring:
  assumes r: "ring L s (xs @ ys)" and l: "ring L l (z # zs)" and d: "set (l # z # zs) \<inter> set (s # xs @ ys) = {}"
  shows "\<exists>L'. list_splice_between L l (last (s # xs)) (hd (ys @ [s])) = Some L' \<and> ring L' s (xs @ (z # zs) @ ys) \<and> dom L' = dom L"
proof -
  let ?p = "last (s # xs)" and ?q = "hd (ys @ [s])" and ?w = "last (z # zs)"
  note nb = ring_neighbours [OF r]
  obtain h where h: "L l = Some h" "lh_next h = z" "lh_prev h = ?w" using ring_ends [OF l] by auto
  have w: "?w \<in> set (z # zs)" by (rule last_in_set) simp
  have dm: "z \<in> dom L" "?w \<in> dom L" using l w by (auto simp: ring_def)
  obtain L1 where 1: "lh_set_prev L z ?p = Some L1" "dom L1 = dom L" "nxt_of L1 = nxt_of L" "prv_of L1 = (prv_of L)(z := ?p)"
    using lh_set_prev_some [OF dm(1)] by metis
  obtain L2 where 2: "lh_set_next L1 ?p z = Some L2" "dom L2 = dom L" "nxt_of L2 = (nxt_of L)(?p := z)" "prv_of L2 = prv_of L1"
    using lh_set_next_some [of ?p L1] nb(1) 1(2,3) by metis
  obtain L3 where 3: "lh_set_next L2 ?w ?q = Some L3" "dom L3 = dom L" "nxt_of L3 = (nxt_of L2)(?w := ?q)" "prv_of L3 = prv_of L2"
    using lh_set_next_some [of ?w L2] dm(2) 2(2) by metis
  obtain L4 where 4: "lh_set_prev L3 ?q ?w = Some L4" "dom L4 = dom L" "nxt_of L4 = nxt_of L3" "prv_of L4 = (prv_of L3)(?q := ?w)"
    using lh_set_prev_some [of ?q L3] nb(2) 3(2) by metis
  have fg: "nxt_of L4 = (nxt_of L)(?p := z, ?w := ?q)" "prv_of L4 = (prv_of L)(z := ?p, ?q := ?w)"
    unfolding 4(3,4) 3(3,4) 2(3,4) 1(4) by (rule refl)+
  have "linked_by (nxt_of L4) (prv_of L4) s (xs @ (z # zs) @ ys) s"
    unfolding fg using r l d by (intro linked_by_splice [where c = l]) (auto simp: ring_def)
  moreover have "list_splice_between L l ?p ?q = Some L4"
    unfolding list_splice_between_def using h 1(1) 2(1) 3(1) 4(1) by (simp del: last.simps)
  ultimately show ?thesis using r l d 4(2) by (auto simp: ring_def)
qed

lemma list_splice_ring:
  assumes r: "ring L s ys" and l: "ring L l zs" and d: "set (l # zs) \<inter> set (s # ys) = {}"
  shows "\<exists>L'. list_splice L l s = Some L' \<and> ring L' s (zs @ ys)"
    "\<exists>L'. list_splice_tail L l s = Some L' \<and> ring L' s (ys @ zs)"
    "\<exists>L'. list_splice_init L l s = Some L' \<and> ring L' s (zs @ ys) \<and> ring L' l []"
    "\<exists>L'. list_splice_tail_init L l s = Some L' \<and> ring L' s (ys @ zs) \<and> ring L' l []"
proof -
  have i: "\<exists>L'. list_init L1 l = Some L' \<and> ring L' s us \<and> ring L' l []" if "ring L1 s us" "dom L1 = dom L" "l \<notin> set (s # us)" for L1 us
    using list_init_beside [OF that(1) _ that(3)] that(2) l by (auto simp: ring_def)
  obtain h where h: "L s = Some h" "lh_next h = hd (ys @ [s])" "lh_prev h = last (s # ys)" using ring_ends [OF r] by blast
  note e = list_tests(1) [OF l]
  have a: "\<exists>L'. list_splice_between L l s (hd (ys @ [s])) = Some L' \<and> ring L' s (zs @ ys) \<and> dom L' = dom L" if "zs \<noteq> []"
    using list_splice_between_ring [of L s "[]" ys l "hd zs" "tl zs"] r l d that by (cases zs) auto
  have b: "\<exists>L'. list_splice_between L l (last (s # ys)) s = Some L' \<and> ring L' s (ys @ zs) \<and> dom L' = dom L" if "zs \<noteq> []"
    using list_splice_between_ring [of L s ys "[]" l "hd zs" "tl zs"] r l d that by (cases zs) auto
  show "\<exists>L'. list_splice L l s = Some L' \<and> ring L' s (zs @ ys)"
    using a e h r by (cases "zs = []") (auto simp: list_splice_def)
  show "\<exists>L'. list_splice_tail L l s = Some L' \<and> ring L' s (ys @ zs)"
    using b e h r by (cases "zs = []") (auto simp: list_splice_tail_def simp del: last.simps)
  show "\<exists>L'. list_splice_init L l s = Some L' \<and> ring L' s (zs @ ys) \<and> ring L' l []"
  proof (cases "zs = []")
    case False
    then obtain L1 where 1: "list_splice_between L l s (hd (ys @ [s])) = Some L1" "ring L1 s (zs @ ys)" "dom L1 = dom L" using a by blast
    have "l \<notin> set (s # zs @ ys)" using d l by (auto simp: ring_def)
    from i [OF 1(2,3) this] show ?thesis using False e h 1(1) by (simp add: list_splice_init_def)
  qed (use e r l in \<open>simp add: list_splice_init_def\<close>)
  show "\<exists>L'. list_splice_tail_init L l s = Some L' \<and> ring L' s (ys @ zs) \<and> ring L' l []"
  proof (cases "zs = []")
    case False
    then obtain L1 where 1: "list_splice_between L l (last (s # ys)) s = Some L1" "ring L1 s (ys @ zs)" "dom L1 = dom L" using b by blast
    have "l \<notin> set (s # ys @ zs)" using d l by (auto simp: ring_def)
    from i [OF 1(2,3) this] show ?thesis using False e h 1(1) by (simp add: list_splice_tail_init_def del: last.simps)
  qed (use e r l in \<open>simp add: list_splice_tail_init_def\<close>)
qed

text \<open>Replacing a node and cutting a list in two.\<close>

lemma the_node: "p \<in> dom L \<Longrightarrow> L p = Some \<lparr>lh_next = nxt_of L p, lh_prev = prv_of L p\<rparr>"
  by (auto simp: nxt_of_def prv_of_def)

lemma ring_at:
  assumes "ring L s (xs @ n # ys)"
  shows "nxt_of L n = hd (ys @ [s])" "prv_of L n = last (s # xs)" "n \<in> dom L"
  using assms linked_by_ends(1) [of "nxt_of L" "prv_of L" n ys s] linked_by_ends(2) [of "nxt_of L" "prv_of L" s xs n]
  by (auto simp: ring_def linked_by_append)

lemma list_del_init_ring:
  assumes r: "ring L s (xs @ n # ys)"
  shows "\<exists>L'. list_del_init L n = Some L' \<and> ring L' s (xs @ ys) \<and> ring L' n []"
proof -
  obtain L1 where 1: "list_del L n = Some L1" "ring L1 s (xs @ ys)" "dom L1 = dom L" using list_del_ring [OF r] by blast
  have n: "n \<in> dom L1" "n \<notin> set (s # xs @ ys)" using r 1(3) by (auto simp: ring_def)
  show ?thesis using list_init_beside [OF 1(2) n] 1(1) by (simp add: list_del_init_def)
qed

lemma list_replace_ring:
  assumes r: "ring L s (xs @ old # ys)" and n: "n \<in> dom L" "n \<notin> set (s # xs @ old # ys)"
  shows "\<exists>L'. list_replace L old n = Some L' \<and> ring L' s (xs @ n # ys) \<and> dom L' = dom L"
proof -
  let ?p = "last (s # xs)" and ?q = "hd (ys @ [s])"
  note o = ring_at [OF r]
  have d: "distinct (s # xs @ old # ys)" "set (s # xs @ old # ys) \<subseteq> dom L" using r by (auto simp: ring_def)
  have pq: "?p \<in> set (s # xs)" "?q \<in> set (s # ys)" by (rule last_in_set, simp) (cases ys; simp)
  then have dm: "?p \<in> dom L" "?q \<in> dom L" and ne: "?q \<noteq> old" "?q \<noteq> n" "?p \<noteq> n" "old \<noteq> n" using d n(2) by auto
  obtain L1 where 1: "lh_set_next L n ?q = Some L1" "dom L1 = dom L" "nxt_of L1 = (nxt_of L)(n := ?q)" "prv_of L1 = prv_of L"
    using lh_set_next_some [OF n(1)] by metis
  obtain L2 where 2: "lh_set_prev L1 ?q n = Some L2" "dom L2 = dom L" "nxt_of L2 = nxt_of L1" "prv_of L2 = (prv_of L)(?q := n)"
    using lh_set_prev_some [of ?q L1] dm(2) 1(2,4) by metis
  obtain L3 where 3: "lh_set_prev L2 n ?p = Some L3" "dom L3 = dom L" "nxt_of L3 = nxt_of L2" "prv_of L3 = (prv_of L2)(n := ?p)"
    using lh_set_prev_some [of n L2] n(1) 2(2) by metis
  obtain L4 where 4: "lh_set_next L3 ?p n = Some L4" "dom L4 = dom L" "nxt_of L4 = (nxt_of L3)(?p := n)" "prv_of L4 = prv_of L3"
    using lh_set_next_some [of ?p L3] dm(1) 3(2) by metis
  have "linked_by ((nxt_of L)(?p := ?q)) ((prv_of L)(?q := ?p)) s (xs @ ys) s"
    using r d by (intro linked_by_delete [of _ _ s xs old ys]) (auto simp: ring_def)
  then have "linked_by (((nxt_of L)(?p := ?q))(n := ?q, ?p := n)) (((prv_of L)(?q := ?p))(?q := n, n := ?p)) s (xs @ n # ys) s"
    using d n(2) by (intro linked_by_insert) auto
  moreover have "((nxt_of L)(?p := ?q))(n := ?q, ?p := n) = nxt_of L4" "((prv_of L)(?q := ?p))(?q := n, n := ?p) = prv_of L4"
    unfolding 4(3,4) 3(3,4) 2(3,4) 1(3) by (auto simp: fun_eq_iff)
  ultimately have "linked_by (nxt_of L4) (prv_of L4) s (xs @ n # ys) s" by simp
  then have "ring L4 s (xs @ n # ys)" using d n 4(2) by (auto simp: ring_def)
  moreover have "list_replace L old n = Some L4"
    using the_node [OF o(3)] the_node [of n L1] the_node [of old L2] the_node [of n L3] o n(1) 1 2 3 4(1) ne
    unfolding list_replace_def by (simp del: last.simps)
  ultimately show ?thesis using 4(2) by blast
qed

lemma list_replace_init_ring:
  assumes r: "ring L s (xs @ old # ys)" and n: "n \<in> dom L" "n \<notin> set (s # xs @ old # ys)"
  shows "\<exists>L'. list_replace_init L old n = Some L' \<and> ring L' s (xs @ n # ys) \<and> ring L' old []"
proof -
  obtain L1 where 1: "list_replace L old n = Some L1" "ring L1 s (xs @ n # ys)" "dom L1 = dom L" using list_replace_ring [OF assms] by blast
  have "old \<in> dom L1" "old \<notin> set (s # xs @ n # ys)" using r n 1(3) by (auto simp: ring_def)
  from list_init_beside [OF 1(2) this] show ?thesis using 1(1) by (simp add: list_replace_init_def)
qed

text \<open>A segment with another start.\<close>

lemma linked_by_restart:
  assumes "linked_by f g a xs b" "f' a' = hd (xs @ [b])" "g' (hd (xs @ [b])) = a'"
    "\<And>p. p \<in> set xs \<Longrightarrow> f' p = f p" "\<And>p. p \<in> set (tl (xs @ [b])) \<Longrightarrow> g' p = g p"
  shows "linked_by f' g' a' xs b"
proof (cases xs)
  case (Cons x ys)
  have "linked_by f' g' x ys b = linked_by f g x ys b" using assms(4,5) Cons by (intro linked_by_cong) auto
  then show ?thesis using assms(1-3) Cons by simp
qed (use assms(2,3) in simp)

lemma list_cut_ring:
  assumes r: "ring L s (xs @ e # ys)" and l: "l \<in> dom L" "l \<notin> set (s # xs @ e # ys)"
  shows "\<exists>L'. list_cut L l s e = Some L' \<and> ring L' l (xs @ [e]) \<and> ring L' s ys"
proof -
  let ?x = "hd (xs @ [e])" and ?y = "hd (ys @ [s])"
  note e = ring_at [OF r]
  have lk: "linked_by (nxt_of L) (prv_of L) s xs e" "linked_by (nxt_of L) (prv_of L) e ys s" and d: "distinct (s # xs @ e # ys)" "set (s # xs @ e # ys) \<subseteq> dom L"
    using r by (auto simp: ring_def linked_by_append)
  have x: "nxt_of L s = ?x" by (rule linked_by_ends(1) [OF lk(1)])
  have xy: "?x \<in> set (xs @ [e])" "?y \<in> set (s # ys)" by (cases xs; simp) (cases ys; simp)
  then have dm: "?x \<in> dom L" "?y \<in> dom L" "s \<in> dom L" and ne: "?x \<noteq> l" "?y \<noteq> l" "e \<noteq> l" "s \<noteq> l" "e \<noteq> s" using d l(2) by auto
  obtain L1 where 1: "lh_set_next L l ?x = Some L1" "dom L1 = dom L" "nxt_of L1 = (nxt_of L)(l := ?x)" "prv_of L1 = prv_of L"
    using lh_set_next_some [OF l(1)] by metis
  obtain L2 where 2: "lh_set_prev L1 ?x l = Some L2" "dom L2 = dom L" "nxt_of L2 = nxt_of L1" "prv_of L2 = (prv_of L1)(?x := l)"
    using lh_set_prev_some [of ?x L1] dm(1) 1(2) by metis
  obtain L3 where 3: "lh_set_prev L2 l e = Some L3" "dom L3 = dom L" "nxt_of L3 = nxt_of L2" "prv_of L3 = (prv_of L2)(l := e)"
    using lh_set_prev_some [of l L2] l(1) 2(2) by metis
  obtain L4 where 4: "lh_set_next L3 e l = Some L4" "dom L4 = dom L" "nxt_of L4 = (nxt_of L3)(e := l)" "prv_of L4 = prv_of L3"
    using lh_set_next_some [of e L3] e(3) 3(2) by metis
  obtain L5 where 5: "lh_set_next L4 s ?y = Some L5" "dom L5 = dom L" "nxt_of L5 = (nxt_of L4)(s := ?y)" "prv_of L5 = prv_of L4"
    using lh_set_next_some [of s L4] dm(3) 4(2) by metis
  obtain L6 where 6: "lh_set_prev L5 ?y s = Some L6" "dom L6 = dom L" "nxt_of L6 = nxt_of L5" "prv_of L6 = (prv_of L5)(?y := s)"
    using lh_set_prev_some [of ?y L5] dm(2) 5(2) by metis
  have fg: "nxt_of L6 = (nxt_of L)(l := ?x, e := l, s := ?y)" "prv_of L6 = (prv_of L)(?x := l, l := e, ?y := s)"
    unfolding 6(3,4) 5(3,4) 4(3,4) 3(3,4) 2(3,4) 1(3,4) by (rule refl)+
  have yx: "?y \<noteq> ?x" "?y \<notin> set (xs @ [e])" "?x \<notin> set ys" using xy d(1) by auto
  have "linked_by (nxt_of L6) (prv_of L6) l xs e"
  proof (rule linked_by_restart [OF lk(1)])
    show "prv_of L6 p = prv_of L p" if "p \<in> set (tl (xs @ [e]))" for p
    proof -
      have "p \<in> set (xs @ [e])" "p \<noteq> ?x" using that d(1) by (cases xs; auto)+
      then show ?thesis unfolding fg using yx(2) l(2) by auto
    qed
  qed (use d(1) l(2) ne yx in \<open>auto simp: fg\<close>)
  moreover have "linked_by (nxt_of L6) (prv_of L6) s ys s"
  proof (rule linked_by_restart [OF lk(2)])
    show "prv_of L6 p = prv_of L p" if "p \<in> set (tl (ys @ [s]))" for p
    proof -
      have "p \<in> set (s # ys)" "p \<noteq> ?y" using that d(1) by (cases ys; auto)+
      moreover from this have "p \<noteq> ?x" using xy(1) d(1) by auto
      ultimately show ?thesis unfolding fg using l(2) by auto
    qed
  qed (use d(1) l(2) ne in \<open>auto simp: fg\<close>)
  moreover have "nxt_of L6 e = l" "prv_of L6 l = e" unfolding fg using ne by auto
  ultimately have "ring L6 l (xs @ [e])" "ring L6 s ys" using d l 6(2) by (auto simp: ring_def linked_by_append)
  moreover have "list_cut L l s e = Some L6"
    using the_node [OF e(3)] the_node [OF dm(3)] the_node [of l L1] x e(1) l(1) 1 2(1) 3(1) 4(1) 5(1) 6(1)
    unfolding list_cut_def by (simp add: Let_def del: hd_append2)
  ultimately show ?thesis by blast
qed

text \<open>Cutting at the head takes nothing; an empty list is left alone.\<close>

lemma list_cut_position_ring:
  assumes r: "ring L s xs" and l: "l \<in> dom L" "l \<notin> set (s # xs)"
  shows "xs \<noteq> [] \<Longrightarrow> \<exists>L'. list_cut_position L l s s = Some L' \<and> ring L' l [] \<and> ring L' s xs"
    "e \<in> set xs \<Longrightarrow> xs = ys @ e # zs \<Longrightarrow> \<exists>L'. list_cut_position L l s e = Some L' \<and> ring L' l (ys @ [e]) \<and> ring L' s zs"
    "xs = [] \<Longrightarrow> list_cut_position L l s e = Some L"
proof -
  note t = list_tests(1,2) [OF r]
  obtain h where h: "L s = Some h" "lh_next h = hd (xs @ [s])" using ring_ends [OF r] by blast
  show "\<exists>L'. list_cut_position L l s s = Some L' \<and> ring L' l [] \<and> ring L' s xs" if "xs \<noteq> []"
    using list_init_beside [OF r l] t h that by (auto simp: list_cut_position_def)
  show "list_cut_position L l s e = Some L" if "xs = []" using that t by (simp add: list_cut_position_def)
  show "\<exists>L'. list_cut_position L l s e = Some L' \<and> ring L' l (ys @ [e]) \<and> ring L' s zs" if e: "e \<in> set xs" "xs = ys @ e # zs"
  proof -
    have "e \<noteq> s" using r e(1) by (auto simp: ring_def)
    moreover have "lh_next h = e" if "length xs = 1" using that h(2) e(2) by (cases ys) auto
    ultimately have "list_cut_position L l s e = list_cut L l s e" using t h(1) e by (auto simp: list_cut_position_def)
    then show ?thesis using list_cut_ring [of L s ys e zs l] r l e(2) by simp
  qed
qed

lemma list_empty_careful_ring: "ring L s xs \<Longrightarrow> list_empty_careful L s = Some (xs = [])"
  using ring_ends [of L s xs] by (cases xs) (auto simp: list_empty_careful_def ring_def)

lemma ring_member:
  assumes "ring L s xs" "n \<in> set xs"
  obtains ys zs where "xs = ys @ n # zs" "remove1 n xs = ys @ zs"
proof -
  obtain ys zs where xs: "xs = ys @ n # zs" using assms(2) by (meson split_list)
  moreover have "n \<notin> set ys" using assms(1) unfolding xs by (auto simp: ring_def)
  ultimately show thesis using that by (simp add: remove1_append)
qed

end
