(* ===== verification/Evtimer.thy ===== *)
theory Evtimer
  imports Heap_Tree List_Head
begin

text \<open>
  The timers of an event loop (\<open>src/event/eventloop.c\<close>, \<open>src/event/event.h\<close>): one-shot and
  repeating timeouts kept in the binary heap of \<open>Heap_Tree\<close>, cron-like periods kept in a second
  heap, and the firing of the timers that are due, which puts them on the loop's pending lists.

  The state has the timers (\<open>evtimeout_t\<close> and \<open>eperiod_t\<close>, and for theory
  \<open>Evidle\<close> also \<open>evidle_t\<close>, as one record with the fields of all), the
  heap nodes and list nodes inside them as separate stores, so that \<open>TIMER_ENTRY\<close> and
  \<open>IDLE_ENTRY\<close> are the identity on addresses, and the loop. There is one loop; the
  field \<open>loop\<close> of an event is not modelled. The readings of the clocks,
  \<open>localtime\<close> and \<open>mktime\<close>, the allocator and the callbacks of the client,
  which may do anything to the state, are parameters; \<open>es_calls\<close> logs their calls.
\<close>

section \<open>Model\<close>

datatype event_type = EVENT_TYPE_NONE | EVENT_TYPE_IO | EVENT_TYPE_TIMEOUT | EVENT_TYPE_PERIOD
  | EVENT_TYPE_IDLE | EVENT_TYPE_CUSTOM

record evtimer =
  et_type :: event_type
  et_id :: u64
  et_cb :: nat
  et_pending_next :: ptr
  et_priority :: int
  et_destroy :: bool
  et_active :: bool
  et_pending :: bool
  et_repeat :: u32
  et_next_timeout :: u64
  et_timeout :: u32
  et_minute :: int
  et_hour :: int
  et_day :: int
  et_week :: int
  et_month :: int

type_synonym timer_mem = "ptr \<rightharpoonup> evtimer"

record evloop =
  lp_start_ms :: u64
  lp_start_hrtime :: u64
  lp_cur_hrtime :: u64
  lp_nactives :: u32
  lp_npendings :: u32
  lp_pendings :: "ptr list"
  lp_idles :: ptr
  lp_nidles :: u32
  lp_ntimers :: u32
  lp_timers :: "timer_mem heap_t"
  lp_realtimers :: "timer_mem heap_t"

record ev_state =
  es_mem :: timer_mem
  es_nodes :: nodes
  es_links :: links
  es_loop :: evloop
  es_ids :: u64
  es_calls :: "(nat \<times> ptr) list"

text \<open>Updates of different parts of the state in the order of its fields.\<close>

lemma ev_state_order [simp]:
  "S\<lparr>es_nodes := N, es_mem := m\<rparr> = S\<lparr>es_mem := m, es_nodes := N\<rparr>"
  "S\<lparr>es_links := l, es_mem := m\<rparr> = S\<lparr>es_mem := m, es_links := l\<rparr>"
  "S\<lparr>es_links := l, es_nodes := N\<rparr> = S\<lparr>es_nodes := N, es_links := l\<rparr>"
  "S\<lparr>es_loop := L, es_links := l\<rparr> = S\<lparr>es_links := l, es_loop := L\<rparr>"
  "S\<lparr>es_ids := k, es_links := l\<rparr> = S\<lparr>es_links := l, es_ids := k\<rparr>"
  "S\<lparr>es_loop := L, es_mem := m\<rparr> = S\<lparr>es_mem := m, es_loop := L\<rparr>"
  "S\<lparr>es_loop := L, es_nodes := N\<rparr> = S\<lparr>es_nodes := N, es_loop := L\<rparr>"
  "S\<lparr>es_ids := k, es_mem := m\<rparr> = S\<lparr>es_mem := m, es_ids := k\<rparr>"
  "S\<lparr>es_ids := k, es_nodes := N\<rparr> = S\<lparr>es_nodes := N, es_ids := k\<rparr>"
  "S\<lparr>es_ids := k, es_loop := L\<rparr> = S\<lparr>es_loop := L, es_ids := k\<rparr>"
  by simp_all

definition INFINITE :: u32 where
  "INFINITE = - 1"

definition EVENT_HIGHEST_PRIORITY :: int where "EVENT_HIGHEST_PRIORITY = 5"
definition EVENT_HIGH_PRIORITY :: int where "EVENT_HIGH_PRIORITY = 3"
definition EVENT_PRIORITY_INDEX :: "int \<Rightarrow> int" where "EVENT_PRIORITY_INDEX priority = priority + 5"

text \<open>\<open>calloc\<close>: every field zero.\<close>

definition zero_timer :: evtimer where
  "zero_timer = \<lparr>et_type = EVENT_TYPE_NONE, et_id = 0, et_cb = 0, et_pending_next = NULL, et_priority = 0,
     et_destroy = False, et_active = False, et_pending = False, et_repeat = 0, et_next_timeout = 0,
     et_timeout = 0, et_minute = 0, et_hour = 0, et_day = 0, et_week = 0, et_month = 0\<rparr>"

definition zero_node :: heap_node where
  "zero_node = \<lparr>hn_parent = NULL, hn_left = NULL, hn_right = NULL\<rparr>"

definition upd_timer :: "ev_state \<Rightarrow> ptr \<Rightarrow> (evtimer \<Rightarrow> evtimer) \<Rightarrow> ev_state option" where
  "upd_timer S p f = do { t \<leftarrow> es_mem S p; Some (S\<lparr>es_mem := (es_mem S)(p \<mapsto> f t)\<rparr>) }"

definition upd_loop :: "ev_state \<Rightarrow> (evloop \<Rightarrow> evloop) \<Rightarrow> ev_state" where
  "upd_loop S f = S\<lparr>es_loop := f (es_loop S)\<rparr>"

text \<open>The timeout that orders the heaps.\<close>

definition timer_key :: "timer_mem \<Rightarrow> ptr \<Rightarrow> u64" where
  "timer_key m p = (case m p of None \<Rightarrow> 0 | Some t \<Rightarrow> et_next_timeout t)"

definition timers_compare :: "timer_mem \<Rightarrow> ptr \<Rightarrow> ptr \<Rightarrow> bool" where
  "timers_compare m lhs rhs \<longleftrightarrow> timer_key m lhs < timer_key m rhs"

text \<open>The two heaps of the loop, \<open>&loop->timers\<close> and \<open>&loop->realtimers\<close>.\<close>

datatype heap_sel = Timers | Realtimers

fun sel_heap :: "heap_sel \<Rightarrow> evloop \<Rightarrow> timer_mem heap_t" where
  "sel_heap Timers L = lp_timers L"
| "sel_heap Realtimers L = lp_realtimers L"

fun set_heap :: "heap_sel \<Rightarrow> timer_mem heap_t \<Rightarrow> evloop \<Rightarrow> evloop" where
  "set_heap Timers H L = L\<lparr>lp_timers := H\<rparr>"
| "set_heap Realtimers H L = L\<lparr>lp_realtimers := H\<rparr>"

definition timer_insert :: "heap_sel \<Rightarrow> ev_state \<Rightarrow> ptr \<Rightarrow> ev_state option" where
  "timer_insert sel S p = do {
     (N, H) \<leftarrow> heap_insert (es_mem S) (es_nodes S) (sel_heap sel (es_loop S)) p;
     Some (S\<lparr>es_nodes := N, es_loop := set_heap sel H (es_loop S)\<rparr>) }"

definition timer_remove :: "heap_sel \<Rightarrow> ev_state \<Rightarrow> ptr \<Rightarrow> ev_state option" where
  "timer_remove sel S p = do {
     (N, H) \<leftarrow> heap_remove (es_mem S) (es_nodes S) (sel_heap sel (es_loop S)) p;
     Some (S\<lparr>es_nodes := N, es_loop := set_heap sel H (es_loop S)\<rparr>) }"

text \<open>The event macros.\<close>

definition EVENT_ACTIVE :: "ev_state \<Rightarrow> ptr \<Rightarrow> ev_state option" where
  "EVENT_ACTIVE S ev = do {
     t \<leftarrow> es_mem S ev;
     if \<not> et_active t then do {
       S \<leftarrow> upd_timer S ev (\<lambda>t. t\<lparr>et_active := True\<rparr>);
       Some (upd_loop S (\<lambda>L. L\<lparr>lp_nactives := lp_nactives L + 1\<rparr>)) }
     else Some S }"

definition EVENT_INACTIVE :: "ev_state \<Rightarrow> ptr \<Rightarrow> ev_state option" where
  "EVENT_INACTIVE S ev = do {
     t \<leftarrow> es_mem S ev;
     if et_active t then do {
       S \<leftarrow> upd_timer S ev (\<lambda>t. t\<lparr>et_active := False\<rparr>);
       Some (upd_loop S (\<lambda>L. L\<lparr>lp_nactives := lp_nactives L - 1\<rparr>)) }
     else Some S }"

definition EVENT_PENDING :: "ev_state \<Rightarrow> ptr \<Rightarrow> ev_state option" where
  "EVENT_PENDING S ev = do {
     t \<leftarrow> es_mem S ev;
     if \<not> et_pending t then do {
       let S = upd_loop S (\<lambda>L. L\<lparr>lp_npendings := lp_npendings L + 1\<rparr>);
       let i = EVENT_PRIORITY_INDEX (et_priority t);
       if i < 0 then None else do {
         head \<leftarrow> mem_read (lp_pendings (es_loop S)) (nat i);
         S \<leftarrow> upd_timer S ev (\<lambda>t. t\<lparr>et_pending := True, et_pending_next := head\<rparr>);
         heads \<leftarrow> mem_write (lp_pendings (es_loop S)) (nat i) ev;
         Some (upd_loop S (\<lambda>L. L\<lparr>lp_pendings := heads\<rparr>)) } }
     else Some S }"

definition EVENT_ADD :: "ev_state \<Rightarrow> ptr \<Rightarrow> nat \<Rightarrow> ev_state option" where
  "EVENT_ADD S ev cb = do {
     let S = S\<lparr>es_ids := es_ids S + 1\<rparr>;
     S \<leftarrow> upd_timer S ev (\<lambda>t. t\<lparr>et_id := es_ids S, et_cb := cb\<rparr>);
     EVENT_ACTIVE S ev }"

definition ev_free :: "ev_state \<Rightarrow> ptr \<Rightarrow> ev_state" where
  "ev_free S p = S\<lparr>es_mem := (es_mem S)(p := None), es_nodes := (es_nodes S)(p := None), es_links := (es_links S)(p := None)\<rparr>"

definition EVENT_DEL :: "ev_state \<Rightarrow> ptr \<Rightarrow> ev_state option" where
  "EVENT_DEL S ev = do {
     S \<leftarrow> EVENT_INACTIVE S ev;
     t \<leftarrow> es_mem S ev;
     if \<not> et_pending t then Some (ev_free S ev) else Some S }"

definition EVENT_RESET :: "ev_state \<Rightarrow> ptr \<Rightarrow> ev_state option" where
  "EVENT_RESET S ev = do {
     S \<leftarrow> upd_timer S ev (\<lambda>t. t\<lparr>et_destroy := False\<rparr>);
     S \<leftarrow> EVENT_ACTIVE S ev;
     upd_timer S ev (\<lambda>t. t\<lparr>et_pending := False\<rparr>) }"

text \<open>The clocks: \<open>gethrtime_us ()\<close>, \<open>time (NULL)\<close> and \<open>gettimeofday_ms ()\<close>.\<close>

record clock =
  ck_hrtime :: u64
  ck_time :: u64
  ck_tod_ms :: u64

definition evloop_now :: "evloop \<Rightarrow> u64" where
  "evloop_now L = lp_start_ms L div 1000 + (lp_cur_hrtime L - lp_start_hrtime L) div 1000000"

definition evloop_now_ms :: "evloop \<Rightarrow> u64" where
  "evloop_now_ms L = lp_start_ms L + (lp_cur_hrtime L - lp_start_hrtime L) div 1000"

definition evloop_now_us :: "evloop \<Rightarrow> u64" where
  "evloop_now_us L = lp_start_ms L * 1000 + (lp_cur_hrtime L - lp_start_hrtime L)"

definition evloop_update_time :: "clock \<Rightarrow> evloop \<Rightarrow> evloop" where
  "evloop_update_time ck L =
     (let L = L\<lparr>lp_cur_hrtime := ck_hrtime ck\<rparr>
      in if evloop_now L \<noteq> ck_time ck
         then L\<lparr>lp_start_ms := ck_tod_ms ck - (lp_cur_hrtime L - lp_start_hrtime L) div 1000\<rparr> else L)"

text \<open>\<open>cron_next_timeout\<close> of \<open>src/base/datetime.c\<close>; \<open>mktime\<close> returns the time and the normalised fields.\<close>

record tm =
  tm_sec :: int
  tm_min :: int
  tm_hour :: int
  tm_mday :: int
  tm_mon :: int
  tm_year :: int
  tm_wday :: int

datatype period_type = MINUTELY | HOURLY | DAILY | WEEKLY | MONTHLY | YEARLY

record calendar =
  cal_time :: int
  cal_localtime :: "int \<Rightarrow> tm"
  cal_mktime :: "tm \<Rightarrow> int \<times> tm"

definition cron_next_timeout :: "calendar \<Rightarrow> int \<Rightarrow> int \<Rightarrow> int \<Rightarrow> int \<Rightarrow> int \<Rightarrow> int" where
  "cron_next_timeout cal minute hour day week month =
     (let tt = cal_time cal;
          tm = (cal_localtime cal tt)\<lparr>tm_sec := 0\<rparr>;
          (ty, tm) = (if minute \<ge> 0 then (HOURLY, tm\<lparr>tm_min := minute\<rparr>) else (MINUTELY, tm));
          (ty, tm) = (if hour \<ge> 0 then (DAILY, tm\<lparr>tm_hour := hour\<rparr>) else (ty, tm));
          (ty, tm) = (if week \<ge> 0 then (WEEKLY, tm)
                      else if day > 0 then
                        (if month > 0 then (YEARLY, tm\<lparr>tm_mday := day, tm_mon := month - 1\<rparr>)
                         else (MONTHLY, tm\<lparr>tm_mday := day\<rparr>))
                      else (ty, tm));
          (tt_round, tm) = cal_mktime cal tm;
          tt_round = (if week \<ge> 0 then tt_round + (week - tm_wday tm) * 86400 else tt_round)
      in if tt_round > tt then tt_round
         else (case ty of
             MINUTELY \<Rightarrow> tt_round + 60
           | HOURLY \<Rightarrow> tt_round + 3600
           | DAILY \<Rightarrow> tt_round + 86400
           | WEEKLY \<Rightarrow> tt_round + 604800
           | MONTHLY \<Rightarrow>
               (let tm = (if tm_mon tm + 1 = 12 then tm\<lparr>tm_mon := 0, tm_year := tm_year tm + 1\<rparr>
                          else tm\<lparr>tm_mon := tm_mon tm + 1\<rparr>)
                in fst (cal_mktime cal tm))
           | YEARLY \<Rightarrow> fst (cal_mktime cal (tm\<lparr>tm_year := tm_year tm + 1\<rparr>))))"

text \<open>\<open>__evtimer_del\<close>: off its heap and marked for destruction, once.\<close>

definition evtimer_del_mark :: "ev_state \<Rightarrow> ptr \<Rightarrow> ev_state option" where
  "evtimer_del_mark S p = do {
     t \<leftarrow> es_mem S p;
     if et_destroy t then Some S else do {
       S \<leftarrow> (if et_type t = EVENT_TYPE_TIMEOUT then timer_remove Timers S p
            else if et_type t = EVENT_TYPE_PERIOD then timer_remove Realtimers S p else Some S);
       let S = upd_loop S (\<lambda>L. L\<lparr>lp_ntimers := lp_ntimers L - 1\<rparr>);
       upd_timer S p (\<lambda>t. t\<lparr>et_destroy := True\<rparr>) } }"

definition evtimer_del :: "ev_state \<Rightarrow> ptr \<Rightarrow> ev_state option" where
  "evtimer_del S p = do {
     t \<leftarrow> es_mem S p;
     if \<not> et_active t then Some S else do { S \<leftarrow> evtimer_del_mark S p; EVENT_DEL S p } }"

text \<open>\<open>NOTE: Limit granularity to 100ms\<close>.\<close>

definition round_timeout :: "u32 \<Rightarrow> u64 \<Rightarrow> u64" where
  "round_timeout timeout_ms next =
     (if timeout_ms \<ge> 1000 \<and> timeout_ms mod 100 = 0 then next div 100000 * 100000 else next)"

definition evtimer_add ::
    "(ev_state \<Rightarrow> ptr) \<Rightarrow> clock \<Rightarrow> ev_state \<Rightarrow> nat \<Rightarrow> u32 \<Rightarrow> u32 \<Rightarrow> (ev_state \<times> ptr) option" where
  "evtimer_add alloc ck S cb timeout_ms repeat =
     (if timeout_ms = 0 then Some (S, NULL) else do {
        let p = alloc S;
        let L = evloop_update_time ck (es_loop S);
        let t = zero_timer\<lparr>et_type := EVENT_TYPE_TIMEOUT, et_priority := EVENT_HIGHEST_PRIORITY,
          et_repeat := repeat, et_timeout := timeout_ms,
          et_next_timeout := round_timeout timeout_ms (lp_cur_hrtime L + ucast timeout_ms * 1000)\<rparr>;
        let S = S\<lparr>es_mem := (es_mem S)(p \<mapsto> t), es_nodes := (es_nodes S)(p \<mapsto> zero_node), es_loop := L\<rparr>;
        S \<leftarrow> timer_insert Timers S p;
        S \<leftarrow> EVENT_ADD S p cb;
        Some (upd_loop S (\<lambda>L. L\<lparr>lp_ntimers := lp_ntimers L + 1\<rparr>), p) })"

definition evtimer_reset :: "ev_state \<Rightarrow> ptr \<Rightarrow> u32 \<Rightarrow> ev_state option" where
  "evtimer_reset S p timeout_ms = do {
     t \<leftarrow> es_mem S p;
     if et_type t \<noteq> EVENT_TYPE_TIMEOUT then Some S else do {
       S \<leftarrow> (if et_destroy t then Some (upd_loop S (\<lambda>L. L\<lparr>lp_ntimers := lp_ntimers L + 1\<rparr>))
            else timer_remove Timers S p);
       S \<leftarrow> upd_timer S p (\<lambda>t. if et_repeat t = 0 then t\<lparr>et_repeat := 1\<rparr> else t);
       S \<leftarrow> upd_timer S p (\<lambda>t. if timeout_ms > 0 then t\<lparr>et_timeout := timeout_ms\<rparr> else t);
       S \<leftarrow> upd_timer S p (\<lambda>t. t\<lparr>et_next_timeout :=
              round_timeout (et_timeout t) (lp_cur_hrtime (es_loop S) + ucast (et_timeout t) * 1000)\<rparr>);
       S \<leftarrow> timer_insert Timers S p;
       EVENT_RESET S p } }"

definition cron_timeout :: "calendar \<Rightarrow> evtimer \<Rightarrow> u64" where
  "cron_timeout cal t =
     word_of_int (cron_next_timeout cal (et_minute t) (et_hour t) (et_day t) (et_week t) (et_month t)) * 1000000"

definition evtimer_add_period :: "(ev_state \<Rightarrow> ptr) \<Rightarrow> calendar \<Rightarrow> ev_state \<Rightarrow> nat \<Rightarrow>
    int \<Rightarrow> int \<Rightarrow> int \<Rightarrow> int \<Rightarrow> int \<Rightarrow> u32 \<Rightarrow> (ev_state \<times> ptr) option" where
  "evtimer_add_period alloc cal S cb minute hour day week month repeat =
     (if minute > 59 \<or> hour > 23 \<or> day > 31 \<or> week > 6 \<or> month > 12 then Some (S, NULL) else do {
        let p = alloc S;
        let t = zero_timer\<lparr>et_type := EVENT_TYPE_PERIOD, et_priority := EVENT_HIGH_PRIORITY, et_repeat := repeat,
          et_minute := minute, et_hour := hour, et_day := day, et_month := month, et_week := week\<rparr>;
        let t = t\<lparr>et_next_timeout := cron_timeout cal t\<rparr>;
        let S = S\<lparr>es_mem := (es_mem S)(p \<mapsto> t), es_nodes := (es_nodes S)(p \<mapsto> zero_node)\<rparr>;
        S \<leftarrow> timer_insert Realtimers S p;
        S \<leftarrow> EVENT_ADD S p cb;
        Some (upd_loop S (\<lambda>L. L\<lparr>lp_ntimers := lp_ntimers L + 1\<rparr>), p) })"

text \<open>\<open>while (timer->next_timeout <= timeout) timer->next_timeout += step\<close>.\<close>

partial_function (option) advance_timeout :: "u64 \<Rightarrow> u64 \<Rightarrow> u64 \<Rightarrow> u64 option" where
  "advance_timeout step timeout next =
     (if next \<le> timeout then advance_timeout step timeout (next + step) else Some next)"

text \<open>The body of the loop of \<open>__evloop_process_timers\<close> for a timer that is due.\<close>

definition rearm_timer :: "calendar \<Rightarrow> heap_sel \<Rightarrow> u64 \<Rightarrow> ev_state \<Rightarrow> ptr \<Rightarrow> ev_state option" where
  "rearm_timer cal sel timeout S p = do {
     t \<leftarrow> es_mem S p;
     S \<leftarrow> timer_remove sel S (hp_root (sel_heap sel (es_loop S)));
     next \<leftarrow> (if et_type t = EVENT_TYPE_TIMEOUT
             then advance_timeout (ucast (et_timeout t) * 1000) timeout (et_next_timeout t)
             else if et_type t = EVENT_TYPE_PERIOD then Some (cron_timeout cal t)
             else Some (et_next_timeout t));
     S \<leftarrow> upd_timer S p (\<lambda>t. t\<lparr>et_next_timeout := next\<rparr>);
     timer_insert sel S p }"

definition fire_timer :: "calendar \<Rightarrow> heap_sel \<Rightarrow> u64 \<Rightarrow> ev_state \<Rightarrow> ptr \<Rightarrow> ev_state option" where
  "fire_timer cal sel timeout S p = do {
     S \<leftarrow> upd_timer S p (\<lambda>t. if et_repeat t \<noteq> INFINITE then t\<lparr>et_repeat := et_repeat t - 1\<rparr> else t);
     t \<leftarrow> es_mem S p;
     S \<leftarrow> (if et_repeat t = 0 then evtimer_del_mark S p else rearm_timer cal sel timeout S p);
     EVENT_PENDING S p }"

partial_function (option) process_heap ::
    "calendar \<Rightarrow> heap_sel \<Rightarrow> u64 \<Rightarrow> ev_state \<Rightarrow> nat \<Rightarrow> (ev_state \<times> nat) option" where
  "process_heap cal sel timeout S ntimers =
     (let p = hp_root (sel_heap sel (es_loop S))
      in if p = NULL then Some (S, ntimers)
         else do {
           t \<leftarrow> es_mem S p;
           if et_next_timeout t > timeout then Some (S, ntimers)
           else do { S \<leftarrow> fire_timer cal sel timeout S p; process_heap cal sel timeout S (ntimers + 1) } })"

definition evloop_process_timers :: "calendar \<Rightarrow> ev_state \<Rightarrow> (ev_state \<times> nat) option" where
  "evloop_process_timers cal S = do {
     let now = evloop_now_us (es_loop S);
     (S, n1) \<leftarrow> process_heap cal Timers (lp_cur_hrtime (es_loop S)) S 0;
     (S, n2) \<leftarrow> process_heap cal Realtimers now S 0;
     Some (S, n1 + n2) }"

text \<open>
  \<open>evloop_process_pendings\<close>: the pending lists from the highest to the lowest priority. \<open>cbs\<close>
  gives the effect of the callbacks; after a callback the event must still be in memory.
\<close>

definition run_pending ::
    "(nat \<Rightarrow> ptr \<Rightarrow> ev_state \<Rightarrow> ev_state option) \<Rightarrow> ev_state \<Rightarrow> ptr \<Rightarrow> nat \<Rightarrow> (ev_state \<times> nat) option" where
  "run_pending cbs S cur ncbs = do {
     t \<leftarrow> es_mem S cur;
     if et_pending t then do {
       (S, ncbs) \<leftarrow>
         (if et_active t \<and> et_cb t \<noteq> 0 then do {
            S \<leftarrow> cbs (et_cb t) cur (S\<lparr>es_calls := es_calls S @ [(et_cb t, cur)]\<rparr>);
            Some (S, ncbs + 1) }
          else Some (S, ncbs));
       S \<leftarrow> upd_timer S cur (\<lambda>t. t\<lparr>et_pending := False\<rparr>);
       t \<leftarrow> es_mem S cur;
       S \<leftarrow> (if et_destroy t then EVENT_DEL S cur else Some S);
       Some (S, ncbs) }
     else Some (S, ncbs) }"

partial_function (option) pending_loop ::
    "(nat \<Rightarrow> ptr \<Rightarrow> ev_state \<Rightarrow> ev_state option) \<Rightarrow> ev_state \<Rightarrow> ptr \<Rightarrow> nat \<Rightarrow> (ev_state \<times> nat) option" where
  "pending_loop cbs S cur ncbs =
     (if cur = NULL then Some (S, ncbs) else do {
        t \<leftarrow> es_mem S cur;
        (S, ncbs) \<leftarrow> run_pending cbs S cur ncbs;
        pending_loop cbs S (et_pending_next t) ncbs })"

fun pending_lists ::
    "(nat \<Rightarrow> ptr \<Rightarrow> ev_state \<Rightarrow> ev_state option) \<Rightarrow> ev_state \<Rightarrow> nat \<Rightarrow> nat \<Rightarrow> (ev_state \<times> nat) option" where
  "pending_lists cbs S 0 ncbs = Some (S, ncbs)"
| "pending_lists cbs S (Suc i) ncbs = do {
     cur \<leftarrow> mem_read (lp_pendings (es_loop S)) i;
     (S, ncbs) \<leftarrow> pending_loop cbs S cur ncbs;
     heads \<leftarrow> mem_write (lp_pendings (es_loop S)) i NULL;
     pending_lists cbs (upd_loop S (\<lambda>L. L\<lparr>lp_pendings := heads\<rparr>)) i ncbs }"

definition EVENT_PRIORITY_SIZE :: nat where "EVENT_PRIORITY_SIZE = 11"

definition evloop_process_pendings ::
    "(nat \<Rightarrow> ptr \<Rightarrow> ev_state \<Rightarrow> ev_state option) \<Rightarrow> ev_state \<Rightarrow> (ev_state \<times> nat) option" where
  "evloop_process_pendings cbs S =
     (if lp_npendings (es_loop S) = 0 then Some (S, 0) else do {
        (S, ncbs) \<leftarrow> pending_lists cbs S EVENT_PRIORITY_SIZE 0;
        Some (upd_loop S (\<lambda>L. L\<lparr>lp_npendings := 0\<rparr>), ncbs) })"

text \<open>The idle events are left alone.\<close>

definition same_idles :: "ev_state \<Rightarrow> ev_state \<Rightarrow> bool" where
  "same_idles S S' \<longleftrightarrow> es_links S' = es_links S \<and> lp_idles (es_loop S') = lp_idles (es_loop S) \<and>
     lp_nidles (es_loop S') = lp_nidles (es_loop S)"

lemma same_idles_refl [simp]: "same_idles S S"
  by (simp add: same_idles_def)

lemma same_idles_trans: "same_idles S S1 \<Longrightarrow> same_idles S1 S2 \<Longrightarrow> same_idles S S2"
  by (simp add: same_idles_def)

section \<open>The order of the timers\<close>

interpretation timers: node_order "timers_compare m" for m
  by unfold_locales (auto simp: timers_compare_def)

lemma advance_timeout_step: "next \<le> timeout \<Longrightarrow> advance_timeout step timeout next = advance_timeout step timeout (next + step)"
  by (subst advance_timeout.simps) simp

text \<open>
  The next timeout after \<open>timeout\<close> on the grid of a repeating timer; the loop ends because the
  step is not zero and \<open>timeout\<close> is not within a step of the end of the clock.
\<close>

lemma advance_timeout_next:
  assumes "0 < unat step" "unat timeout + unat step < 2 ^ 64" "next \<le> timeout"
  shows "\<exists>k > 0. \<exists>r. advance_timeout step timeout next = Some r \<and> unat r = unat next + k * unat step \<and>
    unat timeout < unat r \<and> unat r \<le> unat timeout + unat step"
  using assms(3)
proof (induction "unat timeout - unat next" arbitrary: "next" rule: less_induct)
  case less
  have le: "unat next \<le> unat timeout" using less.prems by (simp add: word_le_nat_alt)
  have u: "unat (next + step) = unat next + unat step"
    using le assms(2) by (intro unat_add_lem [THEN iffD1]) simp
  show ?case
  proof (cases "next + step \<le> timeout")
    case True
    have "unat timeout - unat (next + step) < unat timeout - unat next"
      using u assms(1) True by (simp add: word_le_nat_alt)
    from less.hyps [OF this True] obtain k r where
      k: "k > 0" "advance_timeout step timeout (next + step) = Some r" "unat r = unat (next + step) + k * unat step"
      "unat timeout < unat r" "unat r \<le> unat timeout + unat step" by blast
    then show ?thesis
      using advance_timeout_step [OF less.prems] u by (intro exI [of _ "Suc k"]) simp
  next
    case False
    then have "advance_timeout step timeout next = Some (next + step)"
      using advance_timeout_step [OF less.prems, of step] by (simp add: advance_timeout.simps [of _ _ "next + step"])
    then show ?thesis
      using u le False by (intro exI [of _ 1]) (simp add: word_le_nat_alt)
  qed
qed

section \<open>The invariant of the timers\<close>

text \<open>
  \<open>T sel\<close> are the timers in heap \<open>sel\<close>. Both heaps are well formed for the present timeouts;
  a live timer is in the heap of its type; a timer in no heap has a node that can be inserted
  again; \<open>ntimers\<close> counts the live timers; priorities index the pending lists.
\<close>

fun sel_type :: "heap_sel \<Rightarrow> event_type" where
  "sel_type Timers = EVENT_TYPE_TIMEOUT"
| "sel_type Realtimers = EVENT_TYPE_PERIOD"

definition heaps_ok :: "ev_state \<Rightarrow> (heap_sel \<Rightarrow> ptr set) \<Rightarrow> bool" where
  "heaps_ok S T \<longleftrightarrow>
     (\<forall>sel. hp_compare (sel_heap sel (es_loop S)) = Some timers_compare \<and>
        heap_ok (es_mem S) (es_nodes S) (sel_heap sel (es_loop S)) (T sel) \<and> card (T sel) < 2 ^ 31) \<and>
     T Timers \<inter> T Realtimers = {}"

definition timers_ok :: "ev_state \<Rightarrow> (heap_sel \<Rightarrow> ptr set) \<Rightarrow> bool" where
  "timers_ok S T \<longleftrightarrow>
     (\<forall>sel. \<forall>p \<in> T sel. \<exists>t. es_mem S p = Some t \<and> et_type t = sel_type sel \<and> \<not> et_destroy t \<and>
        (sel = Timers \<longrightarrow> et_timeout t \<noteq> 0)) \<and>
     (\<forall>p t. es_mem S p = Some t \<longrightarrow> (p \<notin> T Timers \<union> T Realtimers \<longrightarrow> detached (es_nodes S) p) \<and>
        - 5 \<le> et_priority t \<and> et_priority t \<le> 5) \<and>
     unat (lp_ntimers (es_loop S)) = card (T Timers) + card (T Realtimers) \<and>
     length (lp_pendings (es_loop S)) = 11"

definition ev_ok :: "ev_state \<Rightarrow> (heap_sel \<Rightarrow> ptr set) \<Rightarrow> bool" where
  "ev_ok S T \<longleftrightarrow> heaps_ok S T \<and> timers_ok S T"

lemma heaps_okD:
  assumes "heaps_ok S T"
  shows "hp_compare (sel_heap sel (es_loop S)) = Some timers_compare"
    "heap_ok (es_mem S) (es_nodes S) (sel_heap sel (es_loop S)) (T sel)" "card (T sel) < 2 ^ 31"
    "finite (T sel)"
proof -
  show "hp_compare (sel_heap sel (es_loop S)) = Some timers_compare" "card (T sel) < 2 ^ 31"
    and o: "heap_ok (es_mem S) (es_nodes S) (sel_heap sel (es_loop S)) (T sel)"
    using assms by (simp_all add: heaps_ok_def)
  show "finite (T sel)" using heap_ok_card [OF o] by simp
qed

lemma heaps_disj: "heaps_ok S T \<Longrightarrow> T Timers \<inter> T Realtimers = {}"
  by (simp add: heaps_ok_def)

lemma sel_set_heap [simp]: "sel_heap sel (set_heap sel' H L) = (if sel = sel' then H else sel_heap sel L)"
  by (cases sel; cases sel') auto

lemma set_heap_fields [simp]:
  "lp_cur_hrtime (set_heap sel H L) = lp_cur_hrtime L" "lp_start_ms (set_heap sel H L) = lp_start_ms L"
  "lp_start_hrtime (set_heap sel H L) = lp_start_hrtime L" "lp_nactives (set_heap sel H L) = lp_nactives L"
  "lp_npendings (set_heap sel H L) = lp_npendings L" "lp_pendings (set_heap sel H L) = lp_pendings L"
  "lp_ntimers (set_heap sel H L) = lp_ntimers L" "lp_idles (set_heap sel H L) = lp_idles L"
  "lp_nidles (set_heap sel H L) = lp_nidles L"
  by (cases sel; simp)+

lemma sel_heap_other [simp]:
  "sel_heap sel (L\<lparr>lp_ntimers := n\<rparr>) = sel_heap sel L" "sel_heap sel (L\<lparr>lp_npendings := n\<rparr>) = sel_heap sel L"
  "sel_heap sel (L\<lparr>lp_pendings := ps\<rparr>) = sel_heap sel L" "sel_heap sel (L\<lparr>lp_nactives := n\<rparr>) = sel_heap sel L"
  "sel_heap sel (L\<lparr>lp_cur_hrtime := c\<rparr>) = sel_heap sel L" "sel_heap sel (L\<lparr>lp_start_ms := c\<rparr>) = sel_heap sel L"
  "sel_heap sel (L\<lparr>lp_nidles := n\<rparr>) = sel_heap sel L"
  by (cases sel; simp)+

text \<open>The heaps only look at the timeouts of the timers in them.\<close>

lemma heaps_ok_keys:
  assumes "heaps_ok S T" "\<And>sel p. p \<in> T sel \<Longrightarrow> timer_key (es_mem S') p = timer_key (es_mem S) p"
    "\<And>sel p. p \<in> T sel \<Longrightarrow> es_nodes S' p = es_nodes S p"
    "\<And>sel. sel_heap sel (es_loop S') = sel_heap sel (es_loop S)"
  shows "heaps_ok S' T"
proof -
  have "heap_ok (es_mem S') (es_nodes S') (sel_heap sel (es_loop S)) (T sel)" for sel
    using assms(2,3) heaps_okD(1) [OF assms(1), of sel]
    by (intro heap_ok_frame [OF heaps_okD(2) [OF assms(1)]]) (auto simp: timers_compare_def)
  then show ?thesis using assms(1,4) by (simp add: heaps_ok_def)
qed

lemma other_heap:
  assumes "heaps_ok S T" "sel' \<noteq> sel"
  shows "T sel' \<inter> T sel = {}"
  using heaps_disj [OF assms(1)] assms(2) by (cases sel; cases sel') auto

lemma disjoint_fun_upd:
  assumes "\<And>sel'. sel' \<noteq> sel \<Longrightarrow> T sel' \<inter> A = {}" "T Timers \<inter> T Realtimers = {}"
  shows "(T(sel := A)) Timers \<inter> (T(sel := A)) Realtimers = {}"
  using assms(1) [of Timers] assms(1) [of Realtimers] assms(2) by (cases sel) auto

lemma timer_remove_ok:
  assumes h: "heaps_ok S T" and p: "p \<in> T sel"
  shows "\<exists>S' N H. timer_remove sel S p = Some S' \<and> S' = S\<lparr>es_nodes := N, es_loop := set_heap sel H (es_loop S)\<rparr> \<and>
    heaps_ok S' (T(sel := T sel - {p})) \<and> detached N p \<and> (\<forall>q. q \<notin> T sel \<longrightarrow> N q = es_nodes S q)"
proof -
  note d = heaps_okD [OF h, of sel]
  obtain N H where r: "heap_remove (es_mem S) (es_nodes S) (sel_heap sel (es_loop S)) p = Some (N, H)"
    "heap_ok (es_mem S) N H (T sel - {p})" "hp_compare H = hp_compare (sel_heap sel (es_loop S))"
    "N p = Some \<lparr>hn_parent = NULL, hn_left = NULL, hn_right = NULL\<rparr>" "\<forall>q. q \<notin> T sel \<longrightarrow> N q = es_nodes S q"
    using timers.heap_remove_ok [OF d(2,1) refl p] by (elim exE conjE)
  let ?S = "S\<lparr>es_nodes := N, es_loop := set_heap sel H (es_loop S)\<rparr>"
  have "p \<noteq> NULL" using p d(2) placed_in(2) [OF rep_placed] unfolding heap_ok_def by metis
  then have "detached N p" using r(4) by (simp add: detached_def)
  moreover have "timer_remove sel S p = Some ?S" using r(1) by (simp add: timer_remove_def)
  moreover have "heaps_ok ?S (T(sel := T sel - {p}))"
  proof -
    have "heap_ok (es_mem S) N (sel_heap sel' (es_loop S)) (T sel')" if "sel' \<noteq> sel" for sel'
      using other_heap [OF h that] r(5) by (intro heap_ok_frame [OF heaps_okD(2) [OF h]]) auto
    moreover have "card (T sel - {p}) < 2 ^ 31" using d(3,4) p by (simp add: card_Diff_singleton)
    moreover have "(T(sel := T sel - {p})) Timers \<inter> (T(sel := T sel - {p})) Realtimers = {}"
      using other_heap [OF h, of _ sel] heaps_disj [OF h] by (intro disjoint_fun_upd) auto
    ultimately show ?thesis using r(2,3) heaps_okD [OF h] unfolding heaps_ok_def by simp
  qed
  ultimately show ?thesis using r(5) by blast
qed

lemma timer_insert_ok:
  assumes h: "heaps_ok S T" and p: "detached (es_nodes S) p" "p \<notin> T Timers \<union> T Realtimers"
    and n: "card (T sel) + 1 < 2 ^ 31"
  shows "\<exists>S' N H. timer_insert sel S p = Some S' \<and> S' = S\<lparr>es_nodes := N, es_loop := set_heap sel H (es_loop S)\<rparr> \<and>
    heaps_ok S' (T(sel := insert p (T sel))) \<and> (\<forall>q. q \<notin> insert p (T sel) \<longrightarrow> N q = es_nodes S q)"
proof -
  note d = heaps_okD [OF h, of sel]
  have pn: "p \<notin> T sel'" for sel' using p(2) by (cases sel') auto
  obtain N H where r: "heap_insert (es_mem S) (es_nodes S) (sel_heap sel (es_loop S)) p = Some (N, H)"
    "heap_ok (es_mem S) N H (insert p (T sel))" "hp_compare H = hp_compare (sel_heap sel (es_loop S))"
    "\<forall>q. q \<notin> insert p (T sel) \<longrightarrow> N q = es_nodes S q"
    using timers.heap_insert_ok [OF d(2,1) refl p(1) pn n] by (elim exE conjE)
  let ?S = "S\<lparr>es_nodes := N, es_loop := set_heap sel H (es_loop S)\<rparr>"
  have "timer_insert sel S p = Some ?S" using r(1) by (simp add: timer_insert_def)
  moreover have "heaps_ok ?S (T(sel := insert p (T sel)))"
  proof -
    have "heap_ok (es_mem S) N (sel_heap sel' (es_loop S)) (T sel')" if "sel' \<noteq> sel" for sel'
    proof (intro heap_ok_frame [OF heaps_okD(2) [OF h]] refl)
      fix x assume "x \<in> T sel'"
      moreover from this have "x \<noteq> p" using pn by metis
      ultimately show "N x = es_nodes S x" using other_heap [OF h that] r(4) by auto
    qed
    moreover have "card (insert p (T sel)) < 2 ^ 31" using n d(4) pn by simp
    moreover have "(T(sel := insert p (T sel))) Timers \<inter> (T(sel := insert p (T sel))) Realtimers = {}"
      using other_heap [OF h, of _ sel] heaps_disj [OF h] pn by (intro disjoint_fun_upd) auto
    ultimately show ?thesis using r(2,3) heaps_okD [OF h] unfolding heaps_ok_def by simp
  qed
  ultimately show ?thesis using r(4) by blast
qed

section \<open>Firing\<close>

lemma upd_timer_some: "es_mem S p = Some t \<Longrightarrow> upd_timer S p f = Some (S\<lparr>es_mem := (es_mem S)(p \<mapsto> f t)\<rparr>)"
  by (simp add: upd_timer_def)

text \<open>\<open>EVENT_PENDING\<close> marks the timer and puts it in front of the pending list of its priority.\<close>

lemma EVENT_PENDING_some:
  assumes "es_mem S p = Some t" "- 5 \<le> et_priority t" "et_priority t \<le> 5" "length (lp_pendings (es_loop S)) = 11"
  shows "\<exists>t' L'. EVENT_PENDING S p = Some (S\<lparr>es_mem := (es_mem S)(p \<mapsto> t'), es_loop := L'\<rparr>) \<and>
    t' = t\<lparr>et_pending := True, et_pending_next := et_pending_next t'\<rparr> \<and>
    L' = (es_loop S)\<lparr>lp_pendings := lp_pendings L', lp_npendings := lp_npendings L'\<rparr> \<and> length (lp_pendings L') = 11 \<and>
    (\<not> et_pending t \<longrightarrow> lp_npendings L' = lp_npendings (es_loop S) + 1 \<and>
       lp_pendings L' = (lp_pendings (es_loop S))[nat (et_priority t + 5) := p] \<and>
       et_pending_next t' = lp_pendings (es_loop S) ! nat (et_priority t + 5))"
proof (cases "et_pending t")
  case True
  then show ?thesis
    using assms by (intro exI [of _ t] exI [of _ "es_loop S"]) (simp add: EVENT_PENDING_def fun_upd_idem)
next
  case False
  have i: "nat (et_priority t + 5) < 11" using assms by simp
  let ?i = "nat (et_priority t + 5)"
  show ?thesis
    using assms False i
    by (intro exI [of _ "t\<lparr>et_pending := True, et_pending_next := lp_pendings (es_loop S) ! ?i\<rparr>"]
          exI [of _ "(es_loop S)\<lparr>lp_npendings := lp_npendings (es_loop S) + 1,
             lp_pendings := (lp_pendings (es_loop S))[?i := p]\<rparr>"])
      (simp add: EVENT_PENDING_def upd_loop_def upd_timer_def EVENT_PRIORITY_INDEX_def mem_read_Some mem_write_Some Let_def)
qed

text \<open>The next timeout of a timer that stays: later than now and, for a timeout, on its grid.\<close>

definition on_grid :: "u64 \<Rightarrow> evtimer \<Rightarrow> u64 \<Rightarrow> bool" where
  "on_grid timeout t nx \<longleftrightarrow>
     (\<exists>k > 0. unat nx = unat (et_next_timeout t) + k * (unat (et_timeout t) * 1000)) \<and>
     unat nx \<le> unat timeout + unat (et_timeout t) * 1000"

text \<open>What firing at time \<open>timeout\<close> makes of a timer \<open>t\<close> that is due.\<close>

definition fired :: "u64 \<Rightarrow> evtimer \<Rightarrow> evtimer \<Rightarrow> bool" where
  "fired timeout t t' \<longleftrightarrow>
     et_pending t' \<and> et_type t' = et_type t \<and> et_timeout t' = et_timeout t \<and> et_priority t' = et_priority t \<and>
     et_cb t' = et_cb t \<and> et_active t' = et_active t \<and>
     (et_minute t', et_hour t', et_day t', et_week t', et_month t') =
       (et_minute t, et_hour t, et_day t, et_week t, et_month t) \<and>
     et_repeat t' = (if et_repeat t = INFINITE then INFINITE else et_repeat t - 1) \<and>
     (if et_repeat t = 1 then et_destroy t'
      else \<not> et_destroy t' \<and> timeout < et_next_timeout t' \<and>
        (et_type t = EVENT_TYPE_TIMEOUT \<longrightarrow> on_grid timeout t (et_next_timeout t')))"

lemma fired_priority: "fired timeout t t' \<Longrightarrow> et_priority t' = et_priority t"
  by (simp add: fired_def)

lemma timers_okD:
  assumes "timers_ok S T"
  shows "p \<in> T sel \<Longrightarrow> es_mem S p = Some t \<Longrightarrow>
      et_type t = sel_type sel \<and> \<not> et_destroy t \<and> (sel = Timers \<longrightarrow> et_timeout t \<noteq> 0)"
    "p \<in> T sel \<Longrightarrow> \<exists>t. es_mem S p = Some t"
    "es_mem S p = Some t \<Longrightarrow> - 5 \<le> et_priority t \<and> et_priority t \<le> 5"
    "es_mem S p = Some t \<Longrightarrow> p \<notin> T Timers \<Longrightarrow> p \<notin> T Realtimers \<Longrightarrow> detached (es_nodes S) p"
    "unat (lp_ntimers (es_loop S)) = card (T Timers) + card (T Realtimers)"
    "length (lp_pendings (es_loop S)) = 11"
  using assms unfolding timers_ok_def by (force, force, simp_all)

lemma timers_okI:
  assumes "\<And>sel p. p \<in> T sel \<Longrightarrow> \<exists>t. es_mem S p = Some t \<and> et_type t = sel_type sel \<and> \<not> et_destroy t \<and>
      (sel = Timers \<longrightarrow> et_timeout t \<noteq> 0)"
    "\<And>p t. es_mem S p = Some t \<Longrightarrow> - 5 \<le> et_priority t \<and> et_priority t \<le> 5"
    "\<And>p t. es_mem S p = Some t \<Longrightarrow> p \<notin> T Timers \<Longrightarrow> p \<notin> T Realtimers \<Longrightarrow> detached (es_nodes S) p"
    "unat (lp_ntimers (es_loop S)) = card (T Timers) + card (T Realtimers)"
    "length (lp_pendings (es_loop S)) = 11"
  shows "timers_ok S T"
  using assms unfolding timers_ok_def by simp

text \<open>The state in which timer \<open>p\<close> has become \<open>t1\<close> and nodes outside \<open>A\<close> are as before.\<close>

lemma timers_ok_change:
  assumes ok: "timers_ok S T" and p: "es_mem S p = Some t" "et_priority t1 = et_priority t"
    and T': "\<And>sel. T' sel - {p} = T sel - {p}"
    and live: "\<And>sel. p \<in> T' sel \<Longrightarrow> et_type t1 = sel_type sel \<and> \<not> et_destroy t1 \<and> (sel = Timers \<longrightarrow> et_timeout t1 \<noteq> 0)"
    and N: "\<And>q. q \<notin> T Timers \<Longrightarrow> q \<notin> T Realtimers \<Longrightarrow> q \<noteq> p \<Longrightarrow> N q = es_nodes S q"
      "p \<notin> T' Timers \<Longrightarrow> p \<notin> T' Realtimers \<Longrightarrow> detached N p"
    and L: "unat (lp_ntimers L) = card (T' Timers) + card (T' Realtimers)" "length (lp_pendings L) = 11"
  shows "timers_ok (S\<lparr>es_mem := (es_mem S)(p \<mapsto> t1), es_nodes := N, es_loop := L\<rparr>) T'"
proof (rule timers_okI)
  note tk = timers_okD [OF ok]
  let ?S = "S\<lparr>es_mem := (es_mem S)(p \<mapsto> t1), es_nodes := N, es_loop := L\<rparr>"
  fix sel q assume q: "q \<in> T' sel"
  show "\<exists>t. es_mem ?S q = Some t \<and> et_type t = sel_type sel \<and> \<not> et_destroy t \<and> (sel = Timers \<longrightarrow> et_timeout t \<noteq> 0)"
  proof (cases "q = p")
    case True
    then show ?thesis using live q by simp
  next
    case False
    then have "q \<in> T sel" using q T' by blast
    then show ?thesis using tk(1,2) False by fastforce
  qed
next
  note tk = timers_okD [OF ok]
  let ?S = "S\<lparr>es_mem := (es_mem S)(p \<mapsto> t1), es_nodes := N, es_loop := L\<rparr>"
  fix q t' assume q: "es_mem ?S q = Some t'"
  show "- 5 \<le> et_priority t' \<and> et_priority t' \<le> 5"
    using q tk(3) [OF p(1)] tk(3) [of q t'] p(2) by (auto split: if_splits)
  assume "q \<notin> T' Timers" "q \<notin> T' Realtimers"
  moreover from this have "q = p \<or> q \<notin> T Timers \<and> q \<notin> T Realtimers" using T' by blast
  ultimately show "detached (es_nodes ?S) q"
    using q tk(4) [of q t'] N by (cases "q = p") (auto simp: detached_def)
next
  show "unat (lp_ntimers (es_loop (S\<lparr>es_mem := (es_mem S)(p \<mapsto> t1), es_nodes := N, es_loop := L\<rparr>))) =
      card (T' Timers) + card (T' Realtimers)"
    "length (lp_pendings (es_loop (S\<lparr>es_mem := (es_mem S)(p \<mapsto> t1), es_nodes := N, es_loop := L\<rparr>))) = 11"
    using L by simp_all
qed

lemma set_heap_twice [simp]: "set_heap sel H (set_heap sel H' L) = set_heap sel H L"
  by (cases sel) auto

lemma ev_okD: "ev_ok S T \<Longrightarrow> heaps_ok S T" "ev_ok S T \<Longrightarrow> timers_ok S T"
  by (simp_all add: ev_ok_def)

text \<open>Changes of a timer that keep its place in the heap.\<close>

lemma ev_ok_update:
  assumes ok: "ev_ok S T" and t: "es_mem S p = Some t"
    and t1: "et_type t1 = et_type t" "et_destroy t1 = et_destroy t" "et_timeout t1 = et_timeout t"
      "et_priority t1 = et_priority t" "et_next_timeout t1 = et_next_timeout t"
    and L: "\<And>sel. sel_heap sel L = sel_heap sel (es_loop S)" "lp_ntimers L = lp_ntimers (es_loop S)"
      "length (lp_pendings L) = 11"
  shows "ev_ok (S\<lparr>es_mem := (es_mem S)(p \<mapsto> t1), es_loop := L\<rparr>) T"
proof -
  let ?S = "S\<lparr>es_mem := (es_mem S)(p \<mapsto> t1), es_loop := L\<rparr>"
  have "heaps_ok ?S T"
    using t t1(5) L(1) by (intro heaps_ok_keys [OF ev_okD(1) [OF ok]]) (auto simp: timer_key_def)
  moreover have "timers_ok (S\<lparr>es_mem := (es_mem S)(p \<mapsto> t1), es_nodes := es_nodes S, es_loop := L\<rparr>) T"
    using timers_okD [OF ev_okD(2) [OF ok]] t t1 L(2,3)
    by (intro timers_ok_change [OF ev_okD(2) [OF ok] t]) auto
  ultimately show ?thesis by (simp add: ev_ok_def)
qed

definition ntimers_of :: "(heap_sel \<Rightarrow> ptr set) \<Rightarrow> nat" where
  "ntimers_of T = card (T Timers) + card (T Realtimers)"

text \<open>Taking a timer off its heap; \<open>t1\<close> and \<open>L\<close> are what the caller makes of the timer and the loop.\<close>

lemma dequeue_ok:
  assumes ok: "ev_ok S T" and p: "p \<in> T sel" "es_mem S p = Some t"
  shows "\<exists>N H. timer_remove sel S p = Some (S\<lparr>es_nodes := N, es_loop := set_heap sel H (es_loop S)\<rparr>) \<and>
    heaps_ok (S\<lparr>es_nodes := N, es_loop := set_heap sel H (es_loop S)\<rparr>) (T(sel := T sel - {p})) \<and>
    (\<forall>t1 L. et_priority t1 = et_priority t \<and> unat (lp_ntimers L) = ntimers_of (T(sel := T sel - {p})) \<and>
       length (lp_pendings L) = 11 \<longrightarrow>
       timers_ok (S\<lparr>es_mem := (es_mem S)(p \<mapsto> t1), es_nodes := N, es_loop := L\<rparr>) (T(sel := T sel - {p})))"
proof -
  note h = ev_okD(1) [OF ok]
  let ?T = "T(sel := T sel - {p})"
  obtain N H where r: "timer_remove sel S p = Some (S\<lparr>es_nodes := N, es_loop := set_heap sel H (es_loop S)\<rparr>)"
    "heaps_ok (S\<lparr>es_nodes := N, es_loop := set_heap sel H (es_loop S)\<rparr>) ?T" "detached N p"
    "\<forall>q. q \<notin> T sel \<longrightarrow> N q = es_nodes S q" using timer_remove_ok [OF h p(1)] by blast
  have pT: "p \<notin> ?T sel'" for sel' using other_heap [OF h, of sel' sel] p(1) by auto
  have "timers_ok (S\<lparr>es_mem := (es_mem S)(p \<mapsto> t1), es_nodes := N, es_loop := L\<rparr>) ?T"
    if t1: "et_priority t1 = et_priority t" "unat (lp_ntimers L) = ntimers_of ?T" "length (lp_pendings L) = 11" for t1 L
  proof (rule timers_ok_change [OF ev_okD(2) [OF ok] p(2)])
    show "et_type t1 = sel_type sel' \<and> \<not> et_destroy t1 \<and> (sel' = Timers \<longrightarrow> et_timeout t1 \<noteq> 0)" if "p \<in> ?T sel'" for sel'
      using pT that by blast
    show "N q = es_nodes S q" if "q \<notin> T Timers" "q \<notin> T Realtimers" for q using r(4) that by (cases sel) auto
  qed (use t1 r(3) in \<open>auto simp: ntimers_of_def\<close>)
  then show ?thesis using r(1,2) by blast
qed

lemma ntimers_less:
  assumes "ev_ok S T" "p \<in> T sel"
  shows "Suc (ntimers_of (T(sel := T sel - {p}))) = unat (lp_ntimers (es_loop S))"
    "unat (lp_ntimers (es_loop S) - 1) = ntimers_of (T(sel := T sel - {p}))"
proof -
  have "Suc (card (T sel - {p})) = card (T sel)"
    by (rule card_Suc_Diff1 [OF heaps_okD(4) [OF ev_okD(1) [OF assms(1)]] assms(2)])
  then show n: "Suc (ntimers_of (T(sel := T sel - {p}))) = unat (lp_ntimers (es_loop S))"
    using timers_okD(5) [OF ev_okD(2) [OF assms(1)]] by (cases sel) (simp_all add: ntimers_of_def)
  then have "lp_ntimers (es_loop S) \<noteq> 0" by (metis nat.distinct(1) unat_0)
  then show "unat (lp_ntimers (es_loop S) - 1) = ntimers_of (T(sel := T sel - {p}))"
    using n by (simp add: unat_minus_one)
qed

lemma evtimer_del_mark_ok:
  assumes ok: "ev_ok S T" and p: "p \<in> T sel" "es_mem S p = Some t"
  shows "\<exists>N H. evtimer_del_mark S p = Some (S\<lparr>es_mem := (es_mem S)(p \<mapsto> t\<lparr>et_destroy := True\<rparr>), es_nodes := N,
      es_loop := (set_heap sel H (es_loop S))\<lparr>lp_ntimers := lp_ntimers (es_loop S) - 1\<rparr>\<rparr>) \<and>
    ev_ok (S\<lparr>es_mem := (es_mem S)(p \<mapsto> t\<lparr>et_destroy := True\<rparr>), es_nodes := N,
      es_loop := (set_heap sel H (es_loop S))\<lparr>lp_ntimers := lp_ntimers (es_loop S) - 1\<rparr>\<rparr>) (T(sel := T sel - {p}))"
proof -
  note tk = timers_okD [OF ev_okD(2) [OF ok]]
  let ?T = "T(sel := T sel - {p})"
  obtain N H where r: "timer_remove sel S p = Some (S\<lparr>es_nodes := N, es_loop := set_heap sel H (es_loop S)\<rparr>)"
    "heaps_ok (S\<lparr>es_nodes := N, es_loop := set_heap sel H (es_loop S)\<rparr>) ?T"
    and d: "\<And>t1 L. et_priority t1 = et_priority t \<and> unat (lp_ntimers L) = ntimers_of ?T \<and> length (lp_pendings L) = 11 \<Longrightarrow>
       timers_ok (S\<lparr>es_mem := (es_mem S)(p \<mapsto> t1), es_nodes := N, es_loop := L\<rparr>) ?T"
    using dequeue_ok [OF ok p] by blast
  let ?S = "S\<lparr>es_mem := (es_mem S)(p \<mapsto> t\<lparr>et_destroy := True\<rparr>), es_nodes := N,
      es_loop := (set_heap sel H (es_loop S))\<lparr>lp_ntimers := lp_ntimers (es_loop S) - 1\<rparr>\<rparr>"
  have "et_type t = sel_type sel" "\<not> et_destroy t" using tk(1) [OF p] by auto
  then have "evtimer_del_mark S p = Some ?S"
    using r(1) p(2) by (cases sel) (simp_all add: evtimer_del_mark_def upd_timer_def upd_loop_def)
  moreover have "heaps_ok ?S ?T"
    using p(2) by (intro heaps_ok_keys [OF r(2)]) (auto simp: timer_key_def)
  moreover have "timers_ok ?S ?T" using ntimers_less(2) [OF ok p(1)] tk(6) by (intro d) simp
  ultimately show ?thesis unfolding ev_ok_def by blast
qed

text \<open>Off the heap, a new timeout, back into the heap.\<close>

lemma requeue_ok:
  assumes ok: "ev_ok S T" and p: "p \<in> T sel" "es_mem S p = Some t"
  shows "\<exists>N H S1. timer_remove sel S p = Some S1 \<and> es_mem S1 = es_mem S \<and>
    timer_insert sel (S1\<lparr>es_mem := (es_mem S)(p \<mapsto> t\<lparr>et_next_timeout := nx\<rparr>)\<rparr>) p =
      Some (S\<lparr>es_mem := (es_mem S)(p \<mapsto> t\<lparr>et_next_timeout := nx\<rparr>), es_nodes := N, es_loop := set_heap sel H (es_loop S)\<rparr>) \<and>
    ev_ok (S\<lparr>es_mem := (es_mem S)(p \<mapsto> t\<lparr>et_next_timeout := nx\<rparr>), es_nodes := N, es_loop := set_heap sel H (es_loop S)\<rparr>) T"
proof -
  note h = ev_okD(1) [OF ok] and tk = timers_okD [OF ev_okD(2) [OF ok]]
  let ?T = "T(sel := T sel - {p})" and ?m = "(es_mem S)(p \<mapsto> t\<lparr>et_next_timeout := nx\<rparr>)"
  obtain N1 H1 where r: "timer_remove sel S p = Some (S\<lparr>es_nodes := N1, es_loop := set_heap sel H1 (es_loop S)\<rparr>)"
    "heaps_ok (S\<lparr>es_nodes := N1, es_loop := set_heap sel H1 (es_loop S)\<rparr>) ?T" "detached N1 p"
    "\<forall>q. q \<notin> T sel \<longrightarrow> N1 q = es_nodes S q" using timer_remove_ok [OF h p(1)] by blast
  let ?S1 = "S\<lparr>es_nodes := N1, es_loop := set_heap sel H1 (es_loop S)\<rparr>"
  have pT: "p \<notin> ?T sel'" for sel' using other_heap [OF h, of sel' sel] p(1) by auto
  have "heaps_ok (?S1\<lparr>es_mem := ?m\<rparr>) ?T"
  proof (rule heaps_ok_keys [OF r(2)])
    fix sel' q assume "q \<in> ?T sel'"
    then have "q \<noteq> p" using pT by metis
    then show "timer_key (es_mem (?S1\<lparr>es_mem := ?m\<rparr>)) q = timer_key (es_mem ?S1) q" by (simp add: timer_key_def)
  qed simp_all
  moreover have "card (?T sel) + 1 < 2 ^ 31"
    using p(1) heaps_okD(3,4) [OF h, of sel] card_gt_0_iff [of "T sel"] by auto
  ultimately obtain N2 H2 where i: "timer_insert sel (?S1\<lparr>es_mem := ?m\<rparr>) p =
      Some (?S1\<lparr>es_mem := ?m, es_nodes := N2, es_loop := set_heap sel H2 (set_heap sel H1 (es_loop S))\<rparr>)"
    "heaps_ok (?S1\<lparr>es_mem := ?m, es_nodes := N2, es_loop := set_heap sel H2 (set_heap sel H1 (es_loop S))\<rparr>)
       (?T(sel := insert p (?T sel)))" "\<forall>q. q \<notin> insert p (?T sel) \<longrightarrow> N2 q = N1 q"
    using timer_insert_ok [of "?S1\<lparr>es_mem := ?m\<rparr>" ?T p sel] r(3) pT by auto
  let ?S2 = "S\<lparr>es_mem := ?m, es_nodes := N2, es_loop := set_heap sel H2 (es_loop S)\<rparr>"
  have T: "?T(sel := insert p (?T sel)) = T" using p(1) by (simp add: insert_absorb)
  have "timers_ok ?S2 T"
  proof (rule timers_ok_change [OF ev_okD(2) [OF ok] p(2)])
    show "et_type (t\<lparr>et_next_timeout := nx\<rparr>) = sel_type sel' \<and> \<not> et_destroy (t\<lparr>et_next_timeout := nx\<rparr>) \<and>
        (sel' = Timers \<longrightarrow> et_timeout (t\<lparr>et_next_timeout := nx\<rparr>) \<noteq> 0)" if "p \<in> T sel'" for sel'
      using tk(1) [OF that p(2)] by simp
    show "N2 q = es_nodes S q" if "q \<notin> T Timers" "q \<notin> T Realtimers" "q \<noteq> p" for q
      using r(4) i(3) that by (cases sel) auto
    show "detached N2 p" if "p \<notin> T Timers" "p \<notin> T Realtimers" using that p(1) by (cases sel) auto
  qed (use tk(5,6) in auto)
  then have "ev_ok ?S2 T" using i(2) unfolding T ev_ok_def by simp
  then show ?thesis using r(1) i(1) by (intro exI [of _ N2] exI [of _ H2] exI [of _ ?S1]) simp
qed

text \<open>
  Firing the root of a heap at time \<open>timeout\<close>. The next timeout must exist on the clock: for a
  timeout, \<open>timeout\<close> is not within the longest interval of the end of the 64-bit clock; for a
  period, \<open>cron_next_timeout\<close> is later than \<open>timeout\<close>.
\<close>

definition clock_ok :: "calendar \<Rightarrow> heap_sel \<Rightarrow> u64 \<Rightarrow> evtimer \<Rightarrow> bool" where
  "clock_ok cal sel timeout t \<longleftrightarrow>
     (case sel of Timers \<Rightarrow> unat timeout + 2 ^ 32 * 1000 < 2 ^ 64 | Realtimers \<Rightarrow> timeout < cron_timeout cal t)"

lemma unat_step: "unat (ucast (x :: u32) * 1000 :: u64) = unat x * 1000"
proof -
  have x: "unat x < 4294967296" using unsigned_less [of x] by simp
  then have "unat (ucast x :: u64) = unat x" by (simp add: unsigned_ucast_eq take_bit_eq_mod)
  then show ?thesis using x by (simp add: unat_word_ariths)
qed

lemma repeat_zero:
  "(if et_repeat t \<noteq> INFINITE then et_repeat t - 1 else et_repeat t) = 0 \<longleftrightarrow> et_repeat t = (1 :: u32)"
  by (auto simp: INFINITE_def)

lemma next_timeout_ok:
  assumes ty: "et_type t = sel_type sel" "sel = Timers \<longrightarrow> et_timeout t \<noteq> 0"
    and due: "et_next_timeout t \<le> timeout" and ck: "clock_ok cal sel timeout t"
  shows "\<exists>nx. (if et_type t = EVENT_TYPE_TIMEOUT
        then advance_timeout (ucast (et_timeout t) * 1000) timeout (et_next_timeout t)
        else if et_type t = EVENT_TYPE_PERIOD then Some (cron_timeout cal t)
        else Some (et_next_timeout t)) = Some nx \<and> timeout < nx \<and>
      (et_type t = EVENT_TYPE_TIMEOUT \<longrightarrow> on_grid timeout t nx)"
proof (cases sel)
  case Timers
  have "unat (et_timeout t) \<noteq> 0" using ty(2) Timers by (simp add: unat_eq_0)
  moreover have "unat (et_timeout t) < 2 ^ 32" using unsigned_less [of "et_timeout t"] by simp
  ultimately obtain k r where "k > 0"
    "advance_timeout (ucast (et_timeout t) * 1000) timeout (et_next_timeout t) = Some r"
    "unat r = unat (et_next_timeout t) + k * (unat (et_timeout t) * 1000)"
    "unat timeout < unat r" "unat r \<le> unat timeout + unat (et_timeout t) * 1000"
    using advance_timeout_next [of "ucast (et_timeout t) * 1000" timeout "et_next_timeout t"] due ck Timers
    by (auto simp: unat_step clock_ok_def)
  then show ?thesis using ty(1) Timers by (auto simp: on_grid_def word_less_nat_alt)
next
  case Realtimers
  then show ?thesis using ty(1) ck by (simp add: clock_ok_def)
qed

lemma rearm_timer_ok:
  assumes ok: "ev_ok S T" and p: "p \<in> T sel" "es_mem S p = Some t" "hp_root (sel_heap sel (es_loop S)) = p"
    and due: "et_next_timeout t \<le> timeout" and ck: "clock_ok cal sel timeout t"
  shows "\<exists>N H nx. rearm_timer cal sel timeout S p = Some (S\<lparr>es_mem := (es_mem S)(p \<mapsto> t\<lparr>et_next_timeout := nx\<rparr>),
      es_nodes := N, es_loop := set_heap sel H (es_loop S)\<rparr>) \<and>
    ev_ok (S\<lparr>es_mem := (es_mem S)(p \<mapsto> t\<lparr>et_next_timeout := nx\<rparr>), es_nodes := N, es_loop := set_heap sel H (es_loop S)\<rparr>) T \<and>
    timeout < nx \<and> (et_type t = EVENT_TYPE_TIMEOUT \<longrightarrow> on_grid timeout t nx)"
proof -
  obtain nx where nx: "(if et_type t = EVENT_TYPE_TIMEOUT
      then advance_timeout (ucast (et_timeout t) * 1000) timeout (et_next_timeout t)
      else if et_type t = EVENT_TYPE_PERIOD then Some (cron_timeout cal t)
      else Some (et_next_timeout t)) = Some nx" "timeout < nx" "et_type t = EVENT_TYPE_TIMEOUT \<longrightarrow> on_grid timeout t nx"
    using next_timeout_ok [of t sel timeout cal] timers_okD(1) [OF ev_okD(2) [OF ok] p(1,2)] due ck by blast
  obtain N H S1 where q: "timer_remove sel S p = Some S1" "es_mem S1 = es_mem S"
    "timer_insert sel (S1\<lparr>es_mem := (es_mem S)(p \<mapsto> t\<lparr>et_next_timeout := nx\<rparr>)\<rparr>) p =
      Some (S\<lparr>es_mem := (es_mem S)(p \<mapsto> t\<lparr>et_next_timeout := nx\<rparr>), es_nodes := N, es_loop := set_heap sel H (es_loop S)\<rparr>)"
    "ev_ok (S\<lparr>es_mem := (es_mem S)(p \<mapsto> t\<lparr>et_next_timeout := nx\<rparr>), es_nodes := N, es_loop := set_heap sel H (es_loop S)\<rparr>) T"
    using requeue_ok [OF ok p(1,2), of nx] by blast
  have "rearm_timer cal sel timeout S p = Some (S\<lparr>es_mem := (es_mem S)(p \<mapsto> t\<lparr>et_next_timeout := nx\<rparr>),
      es_nodes := N, es_loop := set_heap sel H (es_loop S)\<rparr>)"
    using p(2,3) q nx(1) by (simp add: rearm_timer_def upd_timer_def cong: if_cong split del: if_split)
  then show ?thesis using q(4) nx(2,3) by blast
qed

text \<open>The timer after the decrement of its repetitions, and after it has left the heap or been rearmed.\<close>

lemma fire_heap_ok:
  assumes ok: "ev_ok S T" and p: "p \<in> T sel" "es_mem S p = Some t" "hp_root (sel_heap sel (es_loop S)) = p"
    and due: "et_next_timeout t \<le> timeout" and ck: "clock_ok cal sel timeout t"
  shows "\<exists>S' t'. (if et_repeat t = 0 then evtimer_del_mark S p else rearm_timer cal sel timeout S p) = Some S' \<and>
    ev_ok S' (T(sel := if et_repeat t = 0 then T sel - {p} else T sel)) \<and> es_mem S' = (es_mem S)(p \<mapsto> t') \<and>
    t' = t\<lparr>et_destroy := et_destroy t', et_next_timeout := et_next_timeout t'\<rparr> \<and>
    (if et_repeat t = 0 then et_destroy t'
     else \<not> et_destroy t' \<and> timeout < et_next_timeout t' \<and>
       (et_type t = EVENT_TYPE_TIMEOUT \<longrightarrow> on_grid timeout t (et_next_timeout t'))) \<and>
    lp_cur_hrtime (es_loop S') = lp_cur_hrtime (es_loop S) \<and> es_calls S' = es_calls S \<and>
    lp_pendings (es_loop S') = lp_pendings (es_loop S) \<and> lp_npendings (es_loop S') = lp_npendings (es_loop S) \<and> same_idles S S'"
proof (cases "et_repeat t = 0")
  case True
  then show ?thesis using evtimer_del_mark_ok [OF ok p(1,2)] by (fastforce simp: same_idles_def)
next
  case False
  have "\<not> et_destroy t" using timers_okD(1) [OF ev_okD(2) [OF ok] p(1,2)] by simp
  then show ?thesis using False rearm_timer_ok [OF ok p due ck] by (fastforce simp: same_idles_def)
qed

lemma fire_timer_ok:
  assumes ok: "ev_ok S T" and p: "p \<in> T sel" "es_mem S p = Some t" "hp_root (sel_heap sel (es_loop S)) = p"
    and due: "et_next_timeout t \<le> timeout" and ck: "clock_ok cal sel timeout t"
  shows "\<exists>S' t'. fire_timer cal sel timeout S p = Some S' \<and>
    ev_ok S' (T(sel := if et_repeat t = 1 then T sel - {p} else T sel)) \<and>
    es_mem S' = (es_mem S)(p \<mapsto> t') \<and> fired timeout t t' \<and>
    lp_cur_hrtime (es_loop S') = lp_cur_hrtime (es_loop S) \<and> es_calls S' = es_calls S \<and> same_idles S S' \<and>
    (\<not> et_pending t \<longrightarrow> lp_npendings (es_loop S') = lp_npendings (es_loop S) + 1 \<and>
       lp_pendings (es_loop S') = (lp_pendings (es_loop S))[nat (et_priority t + 5) := p] \<and>
       et_pending_next t' = lp_pendings (es_loop S) ! nat (et_priority t + 5))"
proof -
  define t1 where "t1 = (if et_repeat t \<noteq> INFINITE then t\<lparr>et_repeat := et_repeat t - 1\<rparr> else t)"
  let ?S1 = "S\<lparr>es_mem := (es_mem S)(p \<mapsto> t1)\<rparr>"
  have t1: "t1 = t\<lparr>et_repeat := if et_repeat t = INFINITE then INFINITE else et_repeat t - 1\<rparr>" by (cases t) (simp add: t1_def)
  have z: "et_repeat t1 = 0 \<longleftrightarrow> et_repeat t = 1" using repeat_zero [of t] by (auto simp: t1_def)
  have u: "upd_timer S p (\<lambda>t. if et_repeat t \<noteq> INFINITE then t\<lparr>et_repeat := et_repeat t - 1\<rparr> else t) = Some ?S1"
    using p(2) by (simp add: upd_timer_def t1_def)
  have ok1: "ev_ok ?S1 T"
    using ev_ok_update [OF ok p(2), of t1 "es_loop S"] timers_okD(6) [OF ev_okD(2) [OF ok]] by (simp add: t1)
  have "clock_ok cal sel timeout t1" using ck by (simp add: clock_ok_def cron_timeout_def t1 split: heap_sel.splits)
  then obtain S2 t2 where s2: "(if et_repeat t1 = 0 then evtimer_del_mark ?S1 p else rearm_timer cal sel timeout ?S1 p) = Some S2"
    "ev_ok S2 (T(sel := if et_repeat t = 1 then T sel - {p} else T sel))" "es_mem S2 = (es_mem S)(p \<mapsto> t2)"
    "t2 = t1\<lparr>et_destroy := et_destroy t2, et_next_timeout := et_next_timeout t2\<rparr>"
    "if et_repeat t = 1 then et_destroy t2
     else \<not> et_destroy t2 \<and> timeout < et_next_timeout t2 \<and>
       (et_type t1 = EVENT_TYPE_TIMEOUT \<longrightarrow> on_grid timeout t1 (et_next_timeout t2))"
    "lp_cur_hrtime (es_loop S2) = lp_cur_hrtime (es_loop S)" "es_calls S2 = es_calls S"
    "lp_pendings (es_loop S2) = lp_pendings (es_loop S)" "lp_npendings (es_loop S2) = lp_npendings (es_loop S)"
    and si: "same_idles S S2"
    using fire_heap_ok [OF ok1 p(1), of t1 timeout cal] p(3) due z by (auto simp: t1 same_idles_def)
  have og: "et_type t1 = et_type t" "on_grid timeout t1 x = on_grid timeout t x" for x by (simp_all add: t1 on_grid_def)
  have f2: "fired timeout t (t2\<lparr>et_pending := True, et_pending_next := q\<rparr>)" for q
    using s2(5) unfolding og by (subst s2(4), cases "et_repeat t = 1") (simp_all add: t1 fired_def)
  have t2: "es_mem S2 p = Some t2" using s2(3) by simp
  have p2: "et_pending t2 = et_pending t" "et_priority t2 = et_priority t" by (subst s2(4), simp add: t1)+
  have f: "fire_timer cal sel timeout S p = EVENT_PENDING S2 p"
    unfolding fire_timer_def using u s2(1) by (simp split del: if_split)
  note tk2 = timers_okD [OF ev_okD(2) [OF s2(2)]]
  obtain t3 L3 where e: "EVENT_PENDING S2 p = Some (S2\<lparr>es_mem := (es_mem S2)(p \<mapsto> t3), es_loop := L3\<rparr>)"
    "t3 = t2\<lparr>et_pending := True, et_pending_next := et_pending_next t3\<rparr>"
    "L3 = (es_loop S2)\<lparr>lp_pendings := lp_pendings L3, lp_npendings := lp_npendings L3\<rparr>" "length (lp_pendings L3) = 11"
    and e': "\<not> et_pending t2 \<longrightarrow> lp_npendings L3 = lp_npendings (es_loop S2) + 1 \<and>
       lp_pendings L3 = (lp_pendings (es_loop S2))[nat (et_priority t2 + 5) := p] \<and>
       et_pending_next t3 = lp_pendings (es_loop S2) ! nat (et_priority t2 + 5)"
    using EVENT_PENDING_some [OF t2 _ _ tk2(6)] tk2(3) [OF t2] by blast
  have t3: "et_type t3 = et_type t2" "et_destroy t3 = et_destroy t2" "et_timeout t3 = et_timeout t2"
    "et_priority t3 = et_priority t2" "et_next_timeout t3 = et_next_timeout t2" "fired timeout t t3"
    by (subst e(2), simp)+ (subst e(2), rule f2)
  have L3: "sel_heap sel' L3 = sel_heap sel' (es_loop S2)" "lp_ntimers L3 = lp_ntimers (es_loop S2)"
    "lp_cur_hrtime L3 = lp_cur_hrtime (es_loop S2)" "lp_idles L3 = lp_idles (es_loop S2)" "lp_nidles L3 = lp_nidles (es_loop S2)"
    for sel' by (subst e(3), simp)+
  have "same_idles S (S2\<lparr>es_mem := (es_mem S2)(p \<mapsto> t3), es_loop := L3\<rparr>)" using si L3(4,5) by (simp add: same_idles_def)
  then show ?thesis
    using f e(1) ev_ok_update [OF s2(2) t2 t3(1-5) L3(1,2) e(4)] s2(3,6-9) t3(6) L3(3) e' p2
    by (intro exI [of _ t3] exI [of _ "S2\<lparr>es_mem := (es_mem S2)(p \<mapsto> t3), es_loop := L3\<rparr>"]) simp
qed

section \<open>Processing the timers of a heap\<close>

definition due_timers :: "ev_state \<Rightarrow> ptr set \<Rightarrow> u64 \<Rightarrow> ptr set" where
  "due_timers S A timeout = {p \<in> A. timer_key (es_mem S) p \<le> timeout}"

definition last_shots :: "ev_state \<Rightarrow> ptr set \<Rightarrow> ptr set" where
  "last_shots S A = {p \<in> A. \<exists>t. es_mem S p = Some t \<and> et_repeat t = 1}"

lemma root_key_min:
  assumes "heaps_ok S T" "p \<in> T sel"
  shows "hp_root (sel_heap sel (es_loop S)) \<in> T sel"
    "timer_key (es_mem S) (hp_root (sel_heap sel (es_loop S))) \<le> timer_key (es_mem S) p"
  using timers.heap_root_min [OF heaps_okD(2,1) [OF assms(1)] refl assms(2)]
  by (simp_all add: timers_compare_def not_less)

text \<open>The pending lists: list \<open>i\<close> links the pending timers \<open>Q i\<close>, which have the priority of index \<open>i\<close>.\<close>

primrec chain :: "timer_mem \<Rightarrow> ptr \<Rightarrow> ptr list \<Rightarrow> bool" where
  "chain m p [] \<longleftrightarrow> p = NULL"
| "chain m p (x # xs) \<longleftrightarrow> p = x \<and> x \<noteq> NULL \<and> (\<exists>t. m x = Some t \<and> chain m (et_pending_next t) xs)"

definition prio_index :: "timer_mem \<Rightarrow> ptr \<Rightarrow> nat" where
  "prio_index m p = (case m p of None \<Rightarrow> 0 | Some t \<Rightarrow> nat (et_priority t + 5))"

definition pend_ok :: "ev_state \<Rightarrow> (nat \<Rightarrow> ptr list) \<Rightarrow> bool" where
  "pend_ok S Q \<longleftrightarrow>
     (\<forall>i < 11. chain (es_mem S) (lp_pendings (es_loop S) ! i) (Q i) \<and> distinct (Q i) \<and>
        (\<forall>x \<in> set (Q i). prio_index (es_mem S) x = i)) \<and>
     (\<forall>x t. es_mem S x = Some t \<longrightarrow> (et_pending t \<longleftrightarrow> x \<in> set (Q (prio_index (es_mem S) x))))"

lemma chain_cong: "(\<And>x. x \<in> set xs \<Longrightarrow> m' x = m x) \<Longrightarrow> chain m' p xs = chain m p xs"
  by (induction xs arbitrary: p) auto

lemma pend_ok_push:
  assumes q: "pend_ok S Q" and p: "es_mem S p = Some t" "\<not> et_pending t" "p \<noteq> NULL"
    and i: "- 5 \<le> et_priority t" "et_priority t \<le> 5" "length (lp_pendings (es_loop S)) = 11"
    and S': "es_mem S' = (es_mem S)(p \<mapsto> t')" "et_pending t'" "et_priority t' = et_priority t"
      "lp_pendings (es_loop S') = (lp_pendings (es_loop S))[nat (et_priority t + 5) := p]"
      "et_pending_next t' = lp_pendings (es_loop S) ! nat (et_priority t + 5)"
  shows "pend_ok S' (Q(nat (et_priority t + 5) := p # Q (nat (et_priority t + 5))))"
proof -
  let ?i = "nat (et_priority t + 5)"
  have i11: "?i < 11" using i by simp
  have pi: "prio_index (es_mem S') x = prio_index (es_mem S) x" for x
    using S'(1,3) p(1) by (simp add: prio_index_def)
  have ip: "prio_index (es_mem S) p = ?i" using p(1) by (simp add: prio_index_def)
  have np: "p \<notin> set (Q j)" if "j < 11" for j
  proof
    assume "p \<in> set (Q j)"
    then have "?i = j" using q that ip by (auto simp: pend_ok_def)
    then show False using q p(1,2) ip \<open>p \<in> set (Q j)\<close> by (auto simp: pend_ok_def)
  qed
  have ch: "chain (es_mem S') (lp_pendings (es_loop S) ! j) (Q j)" if "j < 11" for j
  proof -
    have "es_mem S' x = es_mem S x" if "x \<in> set (Q j)" for x using np [OF \<open>j < 11\<close>] that S'(1) by auto
    then show ?thesis using q that chain_cong [of "Q j" "es_mem S'" "es_mem S"] by (simp add: pend_ok_def)
  qed
  show ?thesis
    unfolding pend_ok_def
  proof (intro conjI allI impI)
    fix j :: nat assume j: "j < 11"
    show "chain (es_mem S') (lp_pendings (es_loop S') ! j) ((Q(?i := p # Q ?i)) j)"
      using j i11 i(3) ch [OF j] S' p(3) by (auto simp: nth_list_update)
    show "distinct ((Q(?i := p # Q ?i)) j)" using q np j i11 by (auto simp: pend_ok_def)
    show "\<forall>x \<in> set ((Q(?i := p # Q ?i)) j). prio_index (es_mem S') x = j"
      using q j ip by (auto simp: pend_ok_def pi)
  next
    fix x u assume "es_mem S' x = Some u"
    then show "et_pending u \<longleftrightarrow> x \<in> set ((Q(?i := p # Q ?i)) (prio_index (es_mem S') x))"
      unfolding pi using q p(1) ip S'(1,2) by (cases "x = p") (auto simp: pend_ok_def)
  qed
qed

text \<open>
  Processing ends after firing every timer that is due exactly once, in the order of their
  timeouts: the count is their number, those at their last repetition have left the heap and are
  marked for destruction, the others have their next timeout in the future, and no other timer
  has changed. The fired timers are in front of the pending lists, the last fired first.
\<close>

definition fired_all :: "u64 \<Rightarrow> ev_state \<Rightarrow> ev_state \<Rightarrow> ptr list \<Rightarrow> bool" where
  "fired_all timeout S S' ps \<longleftrightarrow>
     (\<forall>p. p \<notin> set ps \<longrightarrow> es_mem S' p = es_mem S p) \<and>
     (\<forall>p \<in> set ps. \<exists>t t'. es_mem S p = Some t \<and> es_mem S' p = Some t' \<and> fired timeout t t') \<and>
     lp_cur_hrtime (es_loop S') = lp_cur_hrtime (es_loop S) \<and> es_calls S' = es_calls S \<and> same_idles S S' \<and>
     lp_npendings (es_loop S') = lp_npendings (es_loop S) + of_nat (length ps) \<and>
     (\<forall>Q. pend_ok S Q \<longrightarrow> pend_ok S' (\<lambda>i. rev (filter (\<lambda>p. prio_index (es_mem S) p = i) ps) @ Q i))"

lemma process_heap_ok:
  assumes "ev_ok S T"
    and "\<And>p t. p \<in> T sel \<Longrightarrow> es_mem S p = Some t \<Longrightarrow> clock_ok cal sel timeout t \<and> \<not> (et_pending t \<and> et_next_timeout t \<le> timeout)"
  shows "\<exists>S' ps. process_heap cal sel timeout S n = Some (S', n + length ps) \<and>
    distinct ps \<and> set ps = due_timers S (T sel) timeout \<and>
    sorted_wrt (\<lambda>p q. timer_key (es_mem S) p \<le> timer_key (es_mem S) q) ps \<and>
    ev_ok S' (T(sel := T sel - last_shots S (set ps))) \<and> fired_all timeout S S' ps"
  using assms
proof (induction "card (due_timers S (T sel) timeout)" arbitrary: S T n rule: less_induct)
  case less
  note h = ev_okD(1) [OF less.prems(1)] and tk = timers_okD [OF ev_okD(2) [OF less.prems(1)]]
  let ?r = "hp_root (sel_heap sel (es_loop S))" and ?D = "due_timers S (T sel) timeout"
  have fin: "finite ?D" using heaps_okD(4) [OF h] by (simp add: due_timers_def)
  show ?case
  proof (cases "?D = {}")
    case True
    have "process_heap cal sel timeout S n = Some (S, n)"
    proof (cases "?r = NULL")
      case False
      then have "T sel \<noteq> {}" using heap_ok_root [OF heaps_okD(2) [OF h], of sel] by simp
      then have r: "?r \<in> T sel" using root_key_min(1) [OF h] by blast
      then obtain t where "es_mem S ?r = Some t" using tk(2) by blast
      moreover have "\<not> timer_key (es_mem S) ?r \<le> timeout" using True r by (auto simp: due_timers_def)
      ultimately show ?thesis using False by (subst process_heap.simps) (simp add: timer_key_def not_le)
    qed (simp add: process_heap.simps)
    then show ?thesis
      using less.prems(1) True by (intro exI [of _ S] exI [of _ "[]"]) (simp add: last_shots_def fired_all_def)
  next
    case False
    then obtain q where q: "q \<in> T sel" "timer_key (es_mem S) q \<le> timeout" by (auto simp: due_timers_def)
    note r = root_key_min [OF h q(1)]
    obtain t where t: "es_mem S ?r = Some t" using tk(2) [OF r(1)] by blast
    have due: "et_next_timeout t \<le> timeout" using r(2) q(2) t by (simp add: timer_key_def)
    have rD: "?r \<in> ?D" using r(1) due t by (simp add: due_timers_def timer_key_def)
    have rn: "?r \<noteq> NULL" using heap_ok_root [OF heaps_okD(2) [OF h], of sel] q(1) by auto
    have np: "clock_ok cal sel timeout t" "\<not> et_pending t" using less.prems(2) [OF r(1) t] due by auto
    obtain S1 t1 where f: "fire_timer cal sel timeout S ?r = Some S1"
      "ev_ok S1 (T(sel := if et_repeat t = 1 then T sel - {?r} else T sel))" "es_mem S1 = (es_mem S)(?r \<mapsto> t1)"
      "fired timeout t t1" "lp_cur_hrtime (es_loop S1) = lp_cur_hrtime (es_loop S)" "es_calls S1 = es_calls S"
      "lp_npendings (es_loop S1) = lp_npendings (es_loop S) + 1"
      "lp_pendings (es_loop S1) = (lp_pendings (es_loop S))[nat (et_priority t + 5) := ?r]"
      "et_pending_next t1 = lp_pendings (es_loop S) ! nat (et_priority t + 5)" and fi: "same_idles S S1"
      using fire_timer_ok [OF less.prems(1) r(1) t refl due np(1)] np(2) by blast
    define T1 where "T1 = T(sel := if et_repeat t = 1 then T sel - {?r} else T sel)"
    have D1: "due_timers S1 (T1 sel) timeout = ?D - {?r}"
      using f(3,4) by (auto simp: due_timers_def T1_def timer_key_def fired_def split: if_splits)
    have c1: "card (due_timers S1 (T1 sel) timeout) < card ?D" unfolding D1 by (rule card_Diff1_less [OF fin rD])
    have ck: "clock_ok cal sel timeout t' \<and> \<not> (et_pending t' \<and> et_next_timeout t' \<le> timeout)"
      if "p \<in> T1 sel" "es_mem S1 p = Some t'" for p t'
    proof (cases "p = ?r")
      case True
      then have "t' = t1" "et_repeat t \<noteq> 1" using that f(3) by (auto simp: T1_def)
      moreover from this have "cron_timeout cal t' = cron_timeout cal t" using f(4) by (simp add: cron_timeout_def fired_def)
      ultimately show ?thesis using np(1) f(4) by (cases sel) (simp_all add: clock_ok_def fired_def not_le)
    next
      case False
      then show ?thesis using that less.prems(2) [of p t'] f(3) by (auto simp: T1_def split: if_splits)
    qed
    obtain S2 ps where g: "process_heap cal sel timeout S1 (n + 1) = Some (S2, n + 1 + length ps)"
      "distinct ps" "set ps = ?D - {?r}" "sorted_wrt (\<lambda>p q. timer_key (es_mem S1) p \<le> timer_key (es_mem S1) q) ps"
      "ev_ok S2 (T1(sel := T1 sel - last_shots S1 (set ps)))" "fired_all timeout S1 S2 ps"
      using less.hyps [of S1 T1 "n + 1"] c1 f(2) ck unfolding D1 T1_def [symmetric] by blast
    have same: "es_mem S1 p = es_mem S p" "timer_key (es_mem S1) p = timer_key (es_mem S) p" if "p \<noteq> ?r" for p
      using that f(3) by (simp_all add: timer_key_def)
    have pr: "prio_index (es_mem S1) p = prio_index (es_mem S) p" for p
      using f(3) t fired_priority [OF f(4)] by (simp add: prio_index_def)
    have rps: "?r \<notin> set ps" using g(3) by simp
    have "process_heap cal sel timeout S n = Some (S2, n + length (?r # ps))"
      using rn t due f(1) g(1) by (subst process_heap.simps) (simp add: not_less)
    moreover have "distinct (?r # ps)" "set (?r # ps) = ?D" using g(2,3) rD by auto
    moreover have "sorted_wrt (\<lambda>p q. timer_key (es_mem S) p \<le> timer_key (es_mem S) q) (?r # ps)"
    proof -
      have "\<forall>p \<in> set ps. timer_key (es_mem S) ?r \<le> timer_key (es_mem S) p"
        using g(3) root_key_min(2) [OF h] by (auto simp: due_timers_def)
      moreover have "sorted_wrt (\<lambda>p q. timer_key (es_mem S) p \<le> timer_key (es_mem S) q) ps"
      proof (rule sorted_wrt_mono_rel [OF _ g(4)])
        fix x y assume "x \<in> set ps" "y \<in> set ps" and le: "timer_key (es_mem S1) x \<le> timer_key (es_mem S1) y"
        then have "x \<noteq> ?r" "y \<noteq> ?r" using rps by auto
        with le show "timer_key (es_mem S) x \<le> timer_key (es_mem S) y" by (simp add: same(2))
      qed
      ultimately show ?thesis by simp
    qed
    moreover have "T1 sel - last_shots S1 (set ps) = T sel - last_shots S ?D"
      unfolding g(3) using f(3) t rD by (auto simp: T1_def last_shots_def)
    then have "T1(sel := T1 sel - last_shots S1 (set ps)) = T(sel := T sel - last_shots S ?D)" by (simp add: T1_def)
    moreover have "fired_all timeout S S2 (?r # ps)"
    proof -
      have "pend_ok S2 (\<lambda>i. rev (filter (\<lambda>p. prio_index (es_mem S) p = i) (?r # ps)) @ Q i)" if Q: "pend_ok S Q" for Q
      proof -
        let ?i = "nat (et_priority t + 5)"
        have "pend_ok S1 (Q(?i := ?r # Q ?i))"
          using pend_ok_push [OF Q t np(2) rn _ _ tk(6) f(3) _ fired_priority [OF f(4)] f(8,9)] tk(3) [OF t] f(4)
          by (auto simp: fired_def)
        then have "pend_ok S2 (\<lambda>i. rev (filter (\<lambda>p. prio_index (es_mem S1) p = i) ps) @ (Q(?i := ?r # Q ?i)) i)"
          using g(6) by (auto simp: fired_all_def)
        moreover have "prio_index (es_mem S) ?r = ?i" using t by (simp add: prio_index_def)
        then have "(\<lambda>i. rev (filter (\<lambda>p. prio_index (es_mem S1) p = i) ps) @ (Q(?i := ?r # Q ?i)) i) =
            (\<lambda>i. rev (filter (\<lambda>p. prio_index (es_mem S) p = i) (?r # ps)) @ Q i)"
          by (auto simp: fun_eq_iff pr)
        ultimately show ?thesis by simp
      qed
      moreover have "\<exists>u u'. es_mem S p = Some u \<and> es_mem S2 p = Some u' \<and> fired timeout u u'" if "p \<in> set (?r # ps)" for p
        using that g(6) t f(3,4) rps same(1) by (cases "p = ?r") (auto simp: fired_all_def)
      moreover have "es_mem S2 p = es_mem S p" if "p \<notin> set (?r # ps)" for p
        using that g(6) same(1) by (simp add: fired_all_def)
      moreover have "same_idles S S2" using g(6) same_idles_trans [OF fi] by (simp add: fired_all_def)
      ultimately show ?thesis using g(6) f(5-7) by (simp add: fired_all_def)
    qed
    ultimately show ?thesis
      using g(5) unfolding \<open>set (?r # ps) = ?D\<close> [symmetric] by (intro exI [of _ S2] exI [of _ "?r # ps"]) simp
  qed
qed

section \<open>Adding, resetting and deleting timers\<close>

lemma round_timeout_bounds:
  "round_timeout ms nx \<le> nx" "unat nx < unat (round_timeout ms nx) + 100000"
proof -
  have "unat (nx div 100000 * 100000) = unat nx div 100000 * 100000"
  proof -
    have "unat nx < 18446744073709551616" using unsigned_less [of nx] by simp
    moreover have "unat nx div 100000 * 100000 \<le> unat nx" by (rule div_times_less_eq_dividend)
    ultimately show ?thesis by (simp add: unat_word_ariths unat_div)
  qed
  then show "round_timeout ms nx \<le> nx" "unat nx < unat (round_timeout ms nx) + 100000"
    by (auto simp: round_timeout_def word_le_nat_alt)
qed

lemma ev_ok_ids [simp]: "ev_ok (S\<lparr>es_ids := k\<rparr>) T \<longleftrightarrow> ev_ok S T" "ev_ok (S\<lparr>es_calls := cs\<rparr>) T \<longleftrightarrow> ev_ok S T"
  by (simp_all add: ev_ok_def heaps_ok_def timers_ok_def)

text \<open>
  Putting a timer that is in no heap into heap \<open>sel\<close>; \<open>t1\<close> and \<open>L\<close> are what the caller makes
  of the timer and of the loop afterwards.
\<close>

lemma enqueue_ok:
  assumes h: "heaps_ok S T" and t: "timers_ok (S\<lparr>es_loop := L0\<rparr>) T"
    and p: "es_mem S p = Some t0" "p \<notin> T Timers" "p \<notin> T Realtimers"
    and n: "card (T Timers) + card (T Realtimers) + 1 < 2 ^ 31"
  shows "\<exists>N H. timer_insert sel S p = Some (S\<lparr>es_nodes := N, es_loop := set_heap sel H (es_loop S)\<rparr>) \<and>
    (\<forall>t1 L. et_type t1 = sel_type sel \<and> \<not> et_destroy t1 \<and> (sel = Timers \<longrightarrow> et_timeout t1 \<noteq> 0) \<and>
       et_priority t1 = et_priority t0 \<and> et_next_timeout t1 = et_next_timeout t0 \<and>
       (\<forall>sel'. sel_heap sel' L = sel_heap sel' (set_heap sel H (es_loop S))) \<and>
       unat (lp_ntimers L) = card (T Timers) + card (T Realtimers) + 1 \<and> length (lp_pendings L) = 11 \<longrightarrow>
       ev_ok (S\<lparr>es_mem := (es_mem S)(p \<mapsto> t1), es_nodes := N, es_loop := L\<rparr>) (T(sel := insert p (T sel))))"
proof -
  let ?T = "T(sel := insert p (T sel))"
  note tk = timers_okD [OF t]
  have d: "detached (es_nodes S) p" using tk(4) [of p t0] p by simp
  have "card (T sel) + 1 < 2 ^ 31" using n by (cases sel) auto
  then obtain N H where i: "timer_insert sel S p = Some (S\<lparr>es_nodes := N, es_loop := set_heap sel H (es_loop S)\<rparr>)"
    "heaps_ok (S\<lparr>es_nodes := N, es_loop := set_heap sel H (es_loop S)\<rparr>) ?T"
    "\<forall>q. q \<notin> insert p (T sel) \<longrightarrow> N q = es_nodes S q"
    using timer_insert_ok [OF h d, of sel] p(2,3) by blast
  have "ev_ok (S\<lparr>es_mem := (es_mem S)(p \<mapsto> t1), es_nodes := N, es_loop := L\<rparr>) ?T"
    if t1: "et_type t1 = sel_type sel" "\<not> et_destroy t1" "sel = Timers \<longrightarrow> et_timeout t1 \<noteq> 0"
      "et_priority t1 = et_priority t0" "et_next_timeout t1 = et_next_timeout t0"
      and L: "\<forall>sel'. sel_heap sel' L = sel_heap sel' (set_heap sel H (es_loop S))"
      "unat (lp_ntimers L) = card (T Timers) + card (T Realtimers) + 1" "length (lp_pendings L) = 11" for t1 L
  proof -
    let ?S = "S\<lparr>es_mem := (es_mem S)(p \<mapsto> t1), es_nodes := N, es_loop := L\<rparr>"
    have "heaps_ok ?S ?T"
      using p(1) t1(5) L(1) by (intro heaps_ok_keys [OF i(2)]) (auto simp: timer_key_def)
    moreover have "timers_ok ((S\<lparr>es_loop := L0\<rparr>)\<lparr>es_mem := (es_mem (S\<lparr>es_loop := L0\<rparr>))(p \<mapsto> t1), es_nodes := N, es_loop := L\<rparr>) ?T"
    proof (rule timers_ok_change [OF t])
      show "es_mem (S\<lparr>es_loop := L0\<rparr>) p = Some t0" using p(1) by simp
      show "?T sel' - {p} = T sel' - {p}" for sel' by auto
      show "et_type t1 = sel_type sel' \<and> \<not> et_destroy t1 \<and> (sel' = Timers \<longrightarrow> et_timeout t1 \<noteq> 0)" if "p \<in> ?T sel'" for sel'
      proof -
        have "sel' = sel" using that p(2,3) by (cases sel'; cases sel) auto
        then show ?thesis using t1 by simp
      qed
      show "N q = es_nodes (S\<lparr>es_loop := L0\<rparr>) q" if "q \<notin> T Timers" "q \<notin> T Realtimers" "q \<noteq> p" for q
        using i(3) that by (cases sel) auto
      show "detached N p" if "p \<notin> ?T Timers" "p \<notin> ?T Realtimers" using that by (cases sel) auto
      show "unat (lp_ntimers L) = card (?T Timers) + card (?T Realtimers)"
        using L(2) p(2,3) heaps_okD(4) [OF h] by (cases sel) auto
    qed (use t1 L in auto)
    ultimately show ?thesis by (simp add: ev_ok_def)
  qed
  then show ?thesis using i(1) by blast
qed

text \<open>A timer that has just been allocated.\<close>

lemma alloc_ok:
  assumes ok: "ev_ok S T" and p: "p \<noteq> NULL" "es_mem S p = None" and t: "- 5 \<le> et_priority t" "et_priority t \<le> 5"
    and L: "\<And>sel. sel_heap sel L = sel_heap sel (es_loop S)" "lp_ntimers L = lp_ntimers (es_loop S)"
      "lp_pendings L = lp_pendings (es_loop S)"
  defines "S' \<equiv> S\<lparr>es_mem := (es_mem S)(p \<mapsto> t), es_nodes := (es_nodes S)(p \<mapsto> zero_node), es_loop := L\<rparr>"
  shows "heaps_ok S' T" "timers_ok S' T" "p \<notin> T Timers" "p \<notin> T Realtimers"
proof -
  note h = ev_okD(1) [OF ok] and tk = timers_okD [OF ev_okD(2) [OF ok]]
  have pT: "p \<notin> T sel" for sel using tk(2) [of p sel] p(2) by auto
  then show "p \<notin> T Timers" "p \<notin> T Realtimers" by blast+
  have qp: "q \<noteq> p" if "q \<in> T sel" for q sel using pT that by metis
  show "heaps_ok S' T"
    using L(1) qp by (intro heaps_ok_keys [OF h]) (auto simp: S'_def timer_key_def)
  show "timers_ok S' T"
  proof (rule timers_okI)
    show "\<exists>t. es_mem S' q = Some t \<and> et_type t = sel_type sel \<and> \<not> et_destroy t \<and> (sel = Timers \<longrightarrow> et_timeout t \<noteq> 0)"
      if "q \<in> T sel" for sel q using tk(2) [OF that] tk(1) [OF that] qp [OF that] by (auto simp: S'_def)
    show "- 5 \<le> et_priority u \<and> et_priority u \<le> 5" if "es_mem S' q = Some u" for q u
      using that t tk(3) [of q u] by (auto simp: S'_def split: if_splits)
    show "detached (es_nodes S') q" if "es_mem S' q = Some u" "q \<notin> T Timers" "q \<notin> T Realtimers" for q u
      using that p(1) tk(4) [of q u] by (auto simp: S'_def detached_def zero_node_def split: if_splits)
  qed (use L tk(5,6) in \<open>simp_all add: S'_def\<close>)
qed

lemma EVENT_ADD_some:
  assumes "es_mem S p = Some t" "\<not> et_active t"
  shows "EVENT_ADD S p cb = Some (S\<lparr>es_ids := es_ids S + 1,
    es_mem := (es_mem S)(p \<mapsto> t\<lparr>et_id := es_ids S + 1, et_cb := cb, et_active := True\<rparr>),
    es_loop := (es_loop S)\<lparr>lp_nactives := lp_nactives (es_loop S) + 1\<rparr>\<rparr>)"
  using assms by (simp add: EVENT_ADD_def EVENT_ACTIVE_def upd_timer_def upd_loop_def)

lemma update_time_fields [simp]:
  "sel_heap sel (evloop_update_time ck L) = sel_heap sel L" "lp_ntimers (evloop_update_time ck L) = lp_ntimers L"
  "lp_pendings (evloop_update_time ck L) = lp_pendings L" "lp_cur_hrtime (evloop_update_time ck L) = ck_hrtime ck"
  by (simp_all add: evloop_update_time_def Let_def)

lemma unat_Suc: "unat (n :: u32) + 1 < 2 ^ 31 \<Longrightarrow> unat (n + 1) = unat n + 1"
  by (simp add: unat_word_ariths)

text \<open>The end of \<open>evtimer_add\<close> and of \<open>evtimer_add_period\<close>, after the timer has been filled in.\<close>

lemma new_timer_ok:
  assumes ok: "ev_ok S T" and p: "p \<noteq> NULL" "es_mem S p = None" and t: "- 5 \<le> et_priority t" "et_priority t \<le> 5"
      "et_type t = sel_type sel" "\<not> et_destroy t" "\<not> et_active t" "sel = Timers \<longrightarrow> et_timeout t \<noteq> 0"
    and L: "\<And>sel. sel_heap sel L = sel_heap sel (es_loop S)" "lp_ntimers L = lp_ntimers (es_loop S)"
      "lp_pendings L = lp_pendings (es_loop S)"
    and n: "ntimers_of T + 1 < 2 ^ 31"
  shows "\<exists>S'. do {
      S \<leftarrow> timer_insert sel (S\<lparr>es_mem := (es_mem S)(p \<mapsto> t), es_nodes := (es_nodes S)(p \<mapsto> zero_node), es_loop := L\<rparr>) p;
      S \<leftarrow> EVENT_ADD S p cb;
      Some (upd_loop S (\<lambda>L. L\<lparr>lp_ntimers := lp_ntimers L + 1\<rparr>), p) } = Some (S', p) \<and>
    ev_ok S' (T(sel := insert p (T sel))) \<and>
    es_mem S' = (es_mem S)(p \<mapsto> t\<lparr>et_id := es_ids S + 1, et_cb := cb, et_active := True\<rparr>) \<and>
    lp_cur_hrtime (es_loop S') = lp_cur_hrtime L"
proof -
  let ?t = "t\<lparr>et_id := es_ids S + 1, et_cb := cb, et_active := True\<rparr>"
  let ?S = "S\<lparr>es_mem := (es_mem S)(p \<mapsto> t), es_nodes := (es_nodes S)(p \<mapsto> zero_node), es_loop := L\<rparr>"
  note a = alloc_ok [OF ok p t(1,2) L]
  have tk: "timers_ok (?S\<lparr>es_loop := L\<rparr>) T" using a(2) by simp
  obtain N H where i: "timer_insert sel ?S p = Some (?S\<lparr>es_nodes := N, es_loop := set_heap sel H L\<rparr>)"
    and e: "\<And>t1 L'. et_type t1 = sel_type sel \<and> \<not> et_destroy t1 \<and> (sel = Timers \<longrightarrow> et_timeout t1 \<noteq> 0) \<and>
       et_priority t1 = et_priority t \<and> et_next_timeout t1 = et_next_timeout t \<and>
       (\<forall>sel'. sel_heap sel' L' = sel_heap sel' (set_heap sel H L)) \<and>
       unat (lp_ntimers L') = card (T Timers) + card (T Realtimers) + 1 \<and> length (lp_pendings L') = 11 \<Longrightarrow>
       ev_ok (?S\<lparr>es_mem := (es_mem ?S)(p \<mapsto> t1), es_nodes := N, es_loop := L'\<rparr>) (T(sel := insert p (T sel)))"
    using enqueue_ok [OF a(1) tk, of p t sel] a(3,4) n by (auto simp: ntimers_of_def)
  let ?L = "(set_heap sel H L)\<lparr>lp_nactives := lp_nactives L + 1, lp_ntimers := lp_ntimers L + 1\<rparr>"
  let ?S' = "?S\<lparr>es_mem := (es_mem ?S)(p \<mapsto> ?t), es_nodes := N, es_loop := ?L\<rparr>"
  note tk0 = timers_okD [OF ev_okD(2) [OF ok]]
  have "unat (lp_ntimers ?L) = card (T Timers) + card (T Realtimers) + 1"
    using n tk0(5) L(2) unat_Suc [of "lp_ntimers L"] by (simp add: ntimers_of_def)
  then have "ev_ok ?S' (T(sel := insert p (T sel)))" using t L(3) tk0(6) by (intro e) simp
  then have "ev_ok (?S'\<lparr>es_ids := es_ids S + 1\<rparr>) (T(sel := insert p (T sel)))" by simp
  moreover have "do { S \<leftarrow> timer_insert sel ?S p; S \<leftarrow> EVENT_ADD S p cb;
      Some (upd_loop S (\<lambda>L. L\<lparr>lp_ntimers := lp_ntimers L + 1\<rparr>), p) } = Some (?S'\<lparr>es_ids := es_ids S + 1\<rparr>, p)"
    using i t(5) by (simp add: EVENT_ADD_some [of _ _ t] upd_loop_def)
  ultimately show ?thesis by (intro exI [of _ "?S'\<lparr>es_ids := es_ids S + 1\<rparr>"]) simp
qed

lemma evtimer_add_ok:
  assumes ok: "ev_ok S T" and a: "alloc S \<noteq> NULL" "es_mem S (alloc S) = None" and ms: "ms \<noteq> 0"
    and n: "ntimers_of T + 1 < 2 ^ 31"
  shows "\<exists>S' t. evtimer_add alloc ck S cb ms rep = Some (S', alloc S) \<and>
    ev_ok S' (T(Timers := insert (alloc S) (T Timers))) \<and> es_mem S' = (es_mem S)(alloc S \<mapsto> t) \<and>
    et_type t = EVENT_TYPE_TIMEOUT \<and> et_timeout t = ms \<and> et_repeat t = rep \<and> et_cb t = cb \<and> et_active t \<and>
    \<not> et_pending t \<and> et_next_timeout t = round_timeout ms (ck_hrtime ck + ucast ms * 1000) \<and>
    lp_cur_hrtime (es_loop S') = ck_hrtime ck"
proof -
  let ?p = "alloc S" and ?L = "evloop_update_time ck (es_loop S)"
  let ?t = "zero_timer\<lparr>et_type := EVENT_TYPE_TIMEOUT, et_priority := EVENT_HIGHEST_PRIORITY,
    et_repeat := rep, et_timeout := ms, et_next_timeout := round_timeout ms (ck_hrtime ck + ucast ms * 1000)\<rparr>"
  obtain S' where "do {
      S \<leftarrow> timer_insert Timers (S\<lparr>es_mem := (es_mem S)(?p \<mapsto> ?t), es_nodes := (es_nodes S)(?p \<mapsto> zero_node), es_loop := ?L\<rparr>) ?p;
      S \<leftarrow> EVENT_ADD S ?p cb;
      Some (upd_loop S (\<lambda>L. L\<lparr>lp_ntimers := lp_ntimers L + 1\<rparr>), ?p) } = Some (S', ?p)"
    "ev_ok S' (T(Timers := insert ?p (T Timers)))"
    "es_mem S' = (es_mem S)(?p \<mapsto> ?t\<lparr>et_id := es_ids S + 1, et_cb := cb, et_active := True\<rparr>)"
    "lp_cur_hrtime (es_loop S') = lp_cur_hrtime ?L"
    using new_timer_ok [OF ok a, of ?t Timers ?L cb] ms n by (auto simp: EVENT_HIGHEST_PRIORITY_def zero_timer_def)
  then show ?thesis
    using ms by (intro exI [of _ S'] exI [of _ "?t\<lparr>et_id := es_ids S + 1, et_cb := cb, et_active := True\<rparr>"])
      (simp add: evtimer_add_def Let_def upd_loop_def zero_timer_def)
qed

lemma evtimer_add_period_ok:
  assumes ok: "ev_ok S T" and a: "alloc S \<noteq> NULL" "es_mem S (alloc S) = None"
    and f: "minute \<le> 59" "hour \<le> 23" "day \<le> 31" "week \<le> 6" "month \<le> 12" and n: "ntimers_of T + 1 < 2 ^ 31"
  shows "\<exists>S' t. evtimer_add_period alloc cal S cb minute hour day week month rep = Some (S', alloc S) \<and>
    ev_ok S' (T(Realtimers := insert (alloc S) (T Realtimers))) \<and> es_mem S' = (es_mem S)(alloc S \<mapsto> t) \<and>
    et_type t = EVENT_TYPE_PERIOD \<and> et_repeat t = rep \<and> et_cb t = cb \<and> et_active t \<and> \<not> et_pending t \<and>
    et_next_timeout t = word_of_int (cron_next_timeout cal minute hour day week month) * 1000000"
proof -
  let ?p = "alloc S"
  let ?t0 = "zero_timer\<lparr>et_type := EVENT_TYPE_PERIOD, et_priority := EVENT_HIGH_PRIORITY, et_repeat := rep,
    et_minute := minute, et_hour := hour, et_day := day, et_month := month, et_week := week\<rparr>"
  let ?t = "?t0\<lparr>et_next_timeout := cron_timeout cal ?t0\<rparr>"
  obtain S' where r: "do {
      S \<leftarrow> timer_insert Realtimers (S\<lparr>es_mem := (es_mem S)(?p \<mapsto> ?t), es_nodes := (es_nodes S)(?p \<mapsto> zero_node), es_loop := es_loop S\<rparr>) ?p;
      S \<leftarrow> EVENT_ADD S ?p cb;
      Some (upd_loop S (\<lambda>L. L\<lparr>lp_ntimers := lp_ntimers L + 1\<rparr>), ?p) } = Some (S', ?p)"
    "ev_ok S' (T(Realtimers := insert ?p (T Realtimers)))"
    "es_mem S' = (es_mem S)(?p \<mapsto> ?t\<lparr>et_id := es_ids S + 1, et_cb := cb, et_active := True\<rparr>)"
    using new_timer_ok [OF ok a, of ?t Realtimers "es_loop S" cb] n by (auto simp: EVENT_HIGH_PRIORITY_def zero_timer_def)
  have "\<not> (minute > 59 \<or> hour > 23 \<or> day > 31 \<or> week > 6 \<or> month > 12)" using f by simp
  then have "evtimer_add_period alloc cal S cb minute hour day week month rep = Some (S', ?p)"
    using r(1) by (simp add: evtimer_add_period_def Let_def)
  then show ?thesis
    using r(2,3) by (intro exI [of _ S'] exI [of _ "?t\<lparr>et_id := es_ids S + 1, et_cb := cb, et_active := True\<rparr>"])
      (simp add: zero_timer_def cron_timeout_def)
qed

lemma EVENT_RESET_some:
  assumes "es_mem S p = Some t"
  shows "\<exists>n. EVENT_RESET S p = Some (S\<lparr>es_mem := (es_mem S)(p \<mapsto> t\<lparr>et_destroy := False, et_active := True, et_pending := False\<rparr>),
    es_loop := (es_loop S)\<lparr>lp_nactives := n\<rparr>\<rparr>)"
proof (cases "et_active t")
  case True
  then have eq: "t\<lparr>et_destroy := False, et_active := True, et_pending := False\<rparr> = t\<lparr>et_destroy := False, et_pending := False\<rparr>"
    by (cases t) simp
  show ?thesis
    unfolding eq using True assms by (intro exI [of _ "lp_nactives (es_loop S)"]) (simp add: EVENT_RESET_def EVENT_ACTIVE_def upd_timer_def)
next
  case False
  then show ?thesis
    using assms by (intro exI [of _ "lp_nactives (es_loop S) + 1"]) (simp add: EVENT_RESET_def EVENT_ACTIVE_def upd_timer_def upd_loop_def)
qed

text \<open>\<open>evtimer_reset\<close> takes a timeout off its heap, or counts it again when it had left it.\<close>

lemma reset_dequeue_ok:
  assumes ok: "ev_ok S T" and p: "es_mem S p = Some t" "p \<notin> T Realtimers" "et_destroy t \<longleftrightarrow> p \<notin> T Timers"
    and t1: "et_priority t1 = et_priority t" and n: "ntimers_of T + 1 < 2 ^ 31"
  defines "T' \<equiv> T(Timers := T Timers - {p})"
  shows "\<exists>S1 L0. (if et_destroy t then Some (upd_loop S (\<lambda>L. L\<lparr>lp_ntimers := lp_ntimers L + 1\<rparr>))
        else timer_remove Timers S p) = Some S1 \<and> es_mem S1 = es_mem S \<and> heaps_ok S1 T' \<and>
      timers_ok (S1\<lparr>es_mem := (es_mem S)(p \<mapsto> t1), es_loop := L0\<rparr>) T' \<and>
      unat (lp_ntimers (es_loop S1)) = ntimers_of T' + 1 \<and> length (lp_pendings (es_loop S1)) = 11 \<and>
      lp_cur_hrtime (es_loop S1) = lp_cur_hrtime (es_loop S)"
proof -
  note h = ev_okD(1) [OF ok] and tk = timers_okD [OF ev_okD(2) [OF ok]]
  show ?thesis
  proof (cases "et_destroy t")
    case True
    then have T: "T' = T" using p(3) by (simp add: T'_def)
    have "timers_ok (S\<lparr>es_mem := (es_mem S)(p \<mapsto> t1), es_nodes := es_nodes S, es_loop := es_loop S\<rparr>) T"
    proof (rule timers_ok_change [OF ev_okD(2) [OF ok] p(1)])
      have "p \<notin> T sel" for sel using p(2,3) True by (cases sel) auto
      then show "et_type t1 = sel_type sel \<and> \<not> et_destroy t1 \<and> (sel = Timers \<longrightarrow> et_timeout t1 \<noteq> 0)"
        if "p \<in> T sel" for sel using that by blast
      show "detached (es_nodes S) p" using tk(4) [OF p(1)] p(2,3) True by blast
    qed (use tk(5,6) t1 in auto)
    moreover have "heaps_ok (upd_loop S (\<lambda>L. L\<lparr>lp_ntimers := lp_ntimers L + 1\<rparr>)) T"
      by (rule heaps_ok_keys [OF h]) (simp_all add: upd_loop_def)
    ultimately show ?thesis
      using True T tk(5,6) n unat_Suc [of "lp_ntimers (es_loop S)"]
      by (intro exI [of _ "upd_loop S (\<lambda>L. L\<lparr>lp_ntimers := lp_ntimers L + 1\<rparr>)"] exI [of _ "es_loop S"])
        (simp add: upd_loop_def ntimers_of_def)
  next
    case False
    then have pT: "p \<in> T Timers" using p(3) by simp
    obtain N H where r: "timer_remove Timers S p = Some (S\<lparr>es_nodes := N, es_loop := set_heap Timers H (es_loop S)\<rparr>)"
      "heaps_ok (S\<lparr>es_nodes := N, es_loop := set_heap Timers H (es_loop S)\<rparr>) T'"
      and d: "\<And>t1 L. et_priority t1 = et_priority t \<and> unat (lp_ntimers L) = ntimers_of T' \<and> length (lp_pendings L) = 11 \<Longrightarrow>
         timers_ok (S\<lparr>es_mem := (es_mem S)(p \<mapsto> t1), es_nodes := N, es_loop := L\<rparr>) T'"
      using dequeue_ok [OF ok pT p(1)] unfolding T'_def by blast
    have "timers_ok (S\<lparr>es_mem := (es_mem S)(p \<mapsto> t1), es_nodes := N,
        es_loop := (es_loop S)\<lparr>lp_ntimers := lp_ntimers (es_loop S) - 1\<rparr>\<rparr>) T'"
      using ntimers_less(2) [OF ok pT] tk(6) t1 by (intro d) (simp add: T'_def)
    then show ?thesis
      using False r ntimers_less(1) [OF ok pT] tk(6)
      by (intro exI [of _ "S\<lparr>es_nodes := N, es_loop := set_heap Timers H (es_loop S)\<rparr>"]
          exI [of _ "(es_loop S)\<lparr>lp_ntimers := lp_ntimers (es_loop S) - 1\<rparr>"]) (simp add: T'_def)
  qed
qed

text \<open>\<open>evtimer_reset\<close> puts a timeout back into its heap, also one that had fired for the last time.\<close>

lemma evtimer_reset_ok:
  assumes ok: "ev_ok S T" and p: "es_mem S p = Some t" "et_type t = EVENT_TYPE_TIMEOUT" "p \<notin> T Realtimers"
      "et_destroy t \<longleftrightarrow> p \<notin> T Timers"
    and ms: "ms \<noteq> 0 \<or> et_timeout t \<noteq> 0" and n: "ntimers_of T + 1 < 2 ^ 31"
  shows "\<exists>S' t'. evtimer_reset S p ms = Some S' \<and> ev_ok S' (T(Timers := insert p (T Timers))) \<and>
    es_mem S' = (es_mem S)(p \<mapsto> t') \<and> et_timeout t' = (if ms > 0 then ms else et_timeout t) \<and>
    et_repeat t' = (if et_repeat t = 0 then 1 else et_repeat t) \<and> et_active t' \<and> \<not> et_pending t' \<and>
    \<not> et_destroy t' \<and> et_type t' = et_type t \<and> et_priority t' = et_priority t \<and> et_cb t' = et_cb t \<and>
    et_pending_next t' = et_pending_next t \<and>
    et_next_timeout t' = round_timeout (et_timeout t') (lp_cur_hrtime (es_loop S) + ucast (et_timeout t') * 1000) \<and>
    lp_cur_hrtime (es_loop S') = lp_cur_hrtime (es_loop S)"
proof -
  note h = ev_okD(1) [OF ok] and tk = timers_okD [OF ev_okD(2) [OF ok]]
  let ?T = "T(Timers := T Timers - {p})"
  define t1 where "t1 = t\<lparr>et_repeat := (if et_repeat t = 0 then 1 else et_repeat t),
    et_timeout := (if ms > 0 then ms else et_timeout t),
    et_next_timeout := round_timeout (if ms > 0 then ms else et_timeout t)
      (lp_cur_hrtime (es_loop S) + ucast (if ms > 0 then ms else et_timeout t) * 1000)\<rparr>"
  obtain S1 L0 where 1: "(if et_destroy t then Some (upd_loop S (\<lambda>L. L\<lparr>lp_ntimers := lp_ntimers L + 1\<rparr>))
        else timer_remove Timers S p) = Some S1" "es_mem S1 = es_mem S" "heaps_ok S1 ?T"
      "timers_ok (S1\<lparr>es_mem := (es_mem S)(p \<mapsto> t1), es_loop := L0\<rparr>) ?T"
      "unat (lp_ntimers (es_loop S1)) = ntimers_of ?T + 1" "length (lp_pendings (es_loop S1)) = 11"
      "lp_cur_hrtime (es_loop S1) = lp_cur_hrtime (es_loop S)"
    using reset_dequeue_ok [OF ok p(1,3,4), of t1] n by (auto simp: t1_def)
  let ?S2 = "S1\<lparr>es_mem := (es_mem S)(p \<mapsto> t1)\<rparr>"
  have pn: "p \<notin> ?T Timers" "p \<notin> ?T Realtimers" using p(3) by auto
  have "q \<noteq> p" if "q \<in> ?T sel" for q sel using that pn by (cases sel) auto
  then have h2: "heaps_ok ?S2 ?T" using 1(2) by (intro heaps_ok_keys [OF 1(3)]) (auto simp: timer_key_def)
  have t2: "timers_ok (?S2\<lparr>es_loop := L0\<rparr>) ?T" using 1(4) by simp
  have n2: "card (?T Timers) + card (?T Realtimers) + 1 < 2 ^ 31"
    using n card_Diff1_le [of "T Timers" p] by (simp add: ntimers_of_def)
  have m2: "es_mem ?S2 p = Some t1" by simp
  from enqueue_ok [OF h2 t2 m2 pn n2, of Timers] obtain N H where
    i: "timer_insert Timers ?S2 p = Some (?S2\<lparr>es_nodes := N, es_loop := set_heap Timers H (es_loop ?S2)\<rparr>)"
    and e: "\<forall>t3 L'. et_type t3 = sel_type Timers \<and> \<not> et_destroy t3 \<and> (Timers = Timers \<longrightarrow> et_timeout t3 \<noteq> 0) \<and>
       et_priority t3 = et_priority t1 \<and> et_next_timeout t3 = et_next_timeout t1 \<and>
       (\<forall>sel'. sel_heap sel' L' = sel_heap sel' (set_heap Timers H (es_loop ?S2))) \<and>
       unat (lp_ntimers L') = card (?T Timers) + card (?T Realtimers) + 1 \<and> length (lp_pendings L') = 11 \<longrightarrow>
       ev_ok (?S2\<lparr>es_mem := (es_mem ?S2)(p \<mapsto> t3), es_nodes := N, es_loop := L'\<rparr>) (?T(Timers := insert p (?T Timers)))"
    by (elim exE conjE)
  let ?t3 = "t1\<lparr>et_destroy := False, et_active := True, et_pending := False\<rparr>"
  let ?S3 = "?S2\<lparr>es_nodes := N, es_loop := set_heap Timers H (es_loop S1)\<rparr>"
  obtain k where k: "EVENT_RESET ?S3 p = Some (?S3\<lparr>es_mem := (es_mem ?S3)(p \<mapsto> ?t3),
      es_loop := (es_loop ?S3)\<lparr>lp_nactives := k\<rparr>\<rparr>)" using EVENT_RESET_some [of ?S3 p t1] by auto
  let ?S4 = "?S2\<lparr>es_mem := (es_mem ?S2)(p \<mapsto> ?t3), es_nodes := N, es_loop := (set_heap Timers H (es_loop S1))\<lparr>lp_nactives := k\<rparr>\<rparr>"
  have "et_timeout t1 \<noteq> 0" "et_type t1 = EVENT_TYPE_TIMEOUT" using ms p(2) by (auto simp: t1_def word_gt_0)
  then have "ev_ok ?S4 (?T(Timers := insert p (?T Timers)))"
    using 1(5,6) by (intro e [rule_format]) (simp add: ntimers_of_def)
  moreover have "evtimer_reset S p ms = Some ?S4"
  proof -
    have "do { S \<leftarrow> upd_timer S1 p (\<lambda>t. if et_repeat t = 0 then t\<lparr>et_repeat := 1\<rparr> else t);
        S \<leftarrow> upd_timer S p (\<lambda>t. if ms > 0 then t\<lparr>et_timeout := ms\<rparr> else t);
        upd_timer S p (\<lambda>t. t\<lparr>et_next_timeout :=
          round_timeout (et_timeout t) (lp_cur_hrtime (es_loop S) + ucast (et_timeout t) * 1000)\<rparr>) } = Some ?S2"
      using 1(2,7) p(1) by (cases "et_repeat t = 0"; cases "ms > 0") (simp_all add: upd_timer_def t1_def)
    then show ?thesis using 1(1) i k p(1,2) unfolding evtimer_reset_def
      by (auto simp: upd_timer_def split: Option.bind_split_asm)
  qed
  ultimately show ?thesis
    using 1(2,7) by (intro exI [of _ ?S4] exI [of _ ?t3]) (auto simp: t1_def)
qed

lemma ev_free_ok:
  assumes ok: "ev_ok S T" and p: "p \<notin> T Timers" "p \<notin> T Realtimers"
  shows "ev_ok (ev_free S p) T"
proof -
  note h = ev_okD(1) [OF ok] and tk = timers_okD [OF ev_okD(2) [OF ok]]
  have qp: "q \<noteq> p" if "q \<in> T sel" for q sel using that p by (cases sel) auto
  have "heaps_ok (ev_free S p) T"
    using qp by (intro heaps_ok_keys [OF h]) (auto simp: ev_free_def timer_key_def)
  moreover have "timers_ok (ev_free S p) T"
  proof (rule timers_okI)
    show "\<exists>t. es_mem (ev_free S p) q = Some t \<and> et_type t = sel_type sel \<and> \<not> et_destroy t \<and> (sel = Timers \<longrightarrow> et_timeout t \<noteq> 0)"
      if "q \<in> T sel" for sel q using tk(2) [OF that] tk(1) [OF that] qp [OF that] by (auto simp: ev_free_def)
    show "- 5 \<le> et_priority u \<and> et_priority u \<le> 5" if "es_mem (ev_free S p) q = Some u" for q u
      using that tk(3) [of q u] by (auto simp: ev_free_def split: if_splits)
    show "detached (es_nodes (ev_free S p)) q" if "es_mem (ev_free S p) q = Some u" "q \<notin> T Timers" "q \<notin> T Realtimers" for q u
      using that tk(4) [of q u] by (auto simp: ev_free_def detached_def split: if_splits)
  qed (use tk(5,6) in \<open>simp_all add: ev_free_def\<close>)
  ultimately show ?thesis by (simp add: ev_ok_def)
qed

text \<open>\<open>EVENT_DEL\<close> frees a timer unless it is on a pending list.\<close>

lemma EVENT_DEL_ok:
  assumes ok: "ev_ok S T" and p: "es_mem S p = Some t" "p \<notin> T Timers" "p \<notin> T Realtimers"
  shows "\<exists>S'. EVENT_DEL S p = Some S' \<and> ev_ok S' T \<and> (\<forall>q. q \<noteq> p \<longrightarrow> es_mem S' q = es_mem S q) \<and>
    es_mem S' p = (if et_pending t then Some (t\<lparr>et_active := False\<rparr>) else None) \<and>
    lp_pendings (es_loop S') = lp_pendings (es_loop S) \<and> lp_cur_hrtime (es_loop S') = lp_cur_hrtime (es_loop S)"
proof -
  let ?n = "if et_active t then lp_nactives (es_loop S) - 1 else lp_nactives (es_loop S)"
  let ?S = "S\<lparr>es_mem := (es_mem S)(p \<mapsto> t\<lparr>et_active := False\<rparr>), es_loop := (es_loop S)\<lparr>lp_nactives := ?n\<rparr>\<rparr>"
  have i: "EVENT_INACTIVE S p = Some ?S"
  proof (cases "et_active t")
    case False
    then have "t\<lparr>et_active := False\<rparr> = t" by (cases t) simp
    then show ?thesis using False p(1) by (simp add: EVENT_INACTIVE_def fun_upd_idem)
  qed (use p(1) in \<open>simp add: EVENT_INACTIVE_def upd_timer_def upd_loop_def\<close>)
  have o: "ev_ok ?S T"
    using timers_okD(6) [OF ev_okD(2) [OF ok]] by (intro ev_ok_update [OF ok p(1)]) simp_all
  show ?thesis
    using i o ev_free_ok [OF o p(2,3)]
    by (intro exI [of _ "if et_pending t then ?S else ev_free ?S p"]) (auto simp: EVENT_DEL_def ev_free_def)
qed

lemma evtimer_del_ok:
  assumes ok: "ev_ok S T" and p: "es_mem S p = Some t" "et_active t" "et_destroy t \<longleftrightarrow> p \<notin> T Timers \<union> T Realtimers"
  shows "\<exists>S'. evtimer_del S p = Some S' \<and> ev_ok S' (\<lambda>sel. T sel - {p}) \<and>
    (\<forall>q. q \<noteq> p \<longrightarrow> es_mem S' q = es_mem S q) \<and>
    es_mem S' p = (if et_pending t then Some (t\<lparr>et_destroy := True, et_active := False\<rparr>) else None)"
proof -
  have "\<exists>S1. evtimer_del_mark S p = Some S1 \<and> ev_ok S1 (\<lambda>sel. T sel - {p}) \<and>
      es_mem S1 = (es_mem S)(p \<mapsto> t\<lparr>et_destroy := True\<rparr>)"
  proof (cases "et_destroy t")
    case True
    then have "(\<lambda>sel. T sel - {p}) = T" using p(3) by (intro ext) (case_tac sel; simp)
    moreover have "t\<lparr>et_destroy := True\<rparr> = t" using True by (cases t) simp
    ultimately show ?thesis
      using True ok p(1) by (intro exI [of _ S]) (simp add: evtimer_del_mark_def fun_upd_idem)
  next
    case False
    then obtain sel where s: "p \<in> T sel" using p(3) by blast
    have "T sel' - {p} = T sel'" if "sel' \<noteq> sel" for sel' using other_heap [OF ev_okD(1) [OF ok] that] s by auto
    then have "(\<lambda>sel. T sel - {p}) = T(sel := T sel - {p})" by (auto simp: fun_eq_iff)
    then show ?thesis using evtimer_del_mark_ok [OF ok s p(1)] by force
  qed
  then obtain S1 where 1: "evtimer_del_mark S p = Some S1" "ev_ok S1 (\<lambda>sel. T sel - {p})"
      "es_mem S1 = (es_mem S)(p \<mapsto> t\<lparr>et_destroy := True\<rparr>)" by blast
  have "es_mem S1 p = Some (t\<lparr>et_destroy := True\<rparr>)" using 1(3) by simp
  from EVENT_DEL_ok [OF 1(2) this] obtain S2 where 2: "EVENT_DEL S1 p = Some S2" "ev_ok S2 (\<lambda>sel. T sel - {p})"
    "\<forall>q. q \<noteq> p \<longrightarrow> es_mem S2 q = es_mem S1 q"
    "es_mem S2 p = (if et_pending t then Some (t\<lparr>et_destroy := True, et_active := False\<rparr>) else None)" by auto
  then show ?thesis using 1 p(1,2) by (intro exI [of _ S2]) (simp add: evtimer_del_def)
qed

end
