(* ===== verification/Evidle.thy ===== *)
theory Evidle
  imports Evtimer
begin

text \<open>
  The idle events of an event loop (\<open>src/event/eventloop.c\<close>): they hang in the circular list
  \<open>loop->idles\<close> and are all fired when a turn of the loop finds nothing else to do.
\<close>

section \<open>Model\<close>

definition EVENT_LOWEST_PRIORITY :: int where "EVENT_LOWEST_PRIORITY = - 5"

definition evidle_add :: "(ev_state \<Rightarrow> ptr) \<Rightarrow> ev_state \<Rightarrow> nat \<Rightarrow> u32 \<Rightarrow> (ev_state \<times> ptr) option" where
  "evidle_add alloc S cb repeat = do {
     let p = alloc S;
     let t = zero_timer\<lparr>et_type := EVENT_TYPE_IDLE, et_priority := EVENT_LOWEST_PRIORITY, et_repeat := repeat\<rparr>;
     let S = S\<lparr>es_mem := (es_mem S)(p \<mapsto> t), es_nodes := (es_nodes S)(p \<mapsto> zero_node),
       es_links := (es_links S)(p \<mapsto> \<lparr>lh_next = NULL, lh_prev = NULL\<rparr>)\<rparr>;
     L \<leftarrow> list_add (es_links S) p (lp_idles (es_loop S));
     S \<leftarrow> EVENT_ADD (S\<lparr>es_links := L\<rparr>) p cb;
     Some (upd_loop S (\<lambda>L. L\<lparr>lp_nidles := lp_nidles L + 1\<rparr>), p) }"

text \<open>\<open>__evidle_del\<close>.\<close>

definition evidle_del_mark :: "ev_state \<Rightarrow> ptr \<Rightarrow> ev_state option" where
  "evidle_del_mark S p = do {
     t \<leftarrow> es_mem S p;
     if et_destroy t then Some S else do {
       S \<leftarrow> upd_timer S p (\<lambda>t. t\<lparr>et_destroy := True\<rparr>);
       L \<leftarrow> list_del (es_links S) p;
       Some (upd_loop (S\<lparr>es_links := L\<rparr>) (\<lambda>L. L\<lparr>lp_nidles := lp_nidles L - 1\<rparr>)) } }"

definition evidle_del :: "ev_state \<Rightarrow> ptr \<Rightarrow> ev_state option" where
  "evidle_del S p = do {
     t \<leftarrow> es_mem S p;
     if \<not> et_active t then Some S else do { S \<leftarrow> evidle_del_mark S p; EVENT_DEL S p } }"

text \<open>The body of the loop of \<open>evloop_process_idles\<close>, and the loop from \<open>node\<close> on.\<close>

definition fire_idle :: "ev_state \<Rightarrow> ptr \<Rightarrow> ev_state option" where
  "fire_idle S p = do {
     S \<leftarrow> upd_timer S p (\<lambda>t. if et_repeat t \<noteq> INFINITE then t\<lparr>et_repeat := et_repeat t - 1\<rparr> else t);
     t \<leftarrow> es_mem S p;
     S \<leftarrow> (if et_repeat t = 0 then evidle_del_mark S p else Some S);
     EVENT_PENDING S p }"

partial_function (option) idles_loop :: "ev_state \<Rightarrow> ptr \<Rightarrow> nat \<Rightarrow> (ev_state \<times> nat) option" where
  "idles_loop S node nidles =
     (if node = lp_idles (es_loop S) then Some (S, nidles)
      else do {
        l \<leftarrow> es_links S node;
        S \<leftarrow> fire_idle S node;
        idles_loop S (lh_next l) (nidles + 1) })"

definition evloop_process_idles :: "ev_state \<Rightarrow> (ev_state \<times> nat) option" where
  "evloop_process_idles S = do {
     h \<leftarrow> es_links S (lp_idles (es_loop S));
     idles_loop S (lh_next h) 0 }"

section \<open>Invariant\<close>

text \<open>The list of idle events is \<open>I\<close>.\<close>

definition idle_ok :: "ev_state \<Rightarrow> ptr list \<Rightarrow> bool" where
  "idle_ok S I \<longleftrightarrow> ring (es_links S) (lp_idles (es_loop S)) I \<and> es_mem S (lp_idles (es_loop S)) = None \<and>
     (\<forall>p \<in> set I. \<exists>t. es_mem S p = Some t \<and> et_type t = EVENT_TYPE_IDLE \<and> \<not> et_destroy t) \<and>
     unat (lp_nidles (es_loop S)) = length I"

lemma idle_okD:
  assumes "idle_ok S I"
  shows "ring (es_links S) (lp_idles (es_loop S)) I" "es_mem S (lp_idles (es_loop S)) = None"
    "p \<in> set I \<Longrightarrow> \<exists>t. es_mem S p = Some t \<and> et_type t = EVENT_TYPE_IDLE \<and> \<not> et_destroy t"
    "unat (lp_nidles (es_loop S)) = length I"
  using assms by (auto simp: idle_ok_def)

lemma idle_ok_frame:
  assumes ok: "idle_ok S I" and m: "\<And>q. q \<in> insert (lp_idles (es_loop S)) (set I) \<Longrightarrow> es_mem S' q = es_mem S q"
    and l: "\<And>q. q \<in> insert (lp_idles (es_loop S)) (set I) \<Longrightarrow> es_links S' q = es_links S q"
    and L: "lp_idles (es_loop S') = lp_idles (es_loop S)" "lp_nidles (es_loop S') = lp_nidles (es_loop S)"
  shows "idle_ok S' I"
  using ok m L ring_cong [of "lp_idles (es_loop S)" I "es_links S'" "es_links S"] l by (simp add: idle_ok_def)

text \<open>A change of an idle event that keeps it alive.\<close>

lemma idle_ok_update:
  assumes ok: "idle_ok S I" and p: "es_mem S p = Some t" "et_type t' = et_type t" "et_destroy t' = et_destroy t"
    and S': "es_mem S' = (es_mem S)(p \<mapsto> t')" "same_idles S S'"
  shows "idle_ok S' I"
  using ok p S' by (auto simp: idle_ok_def same_idles_def)

text \<open>An event in no heap may change in all but its priority.\<close>

lemma ev_ok_outside:
  assumes ok: "ev_ok S T" and p: "es_mem S p = Some t" "p \<notin> T Timers" "p \<notin> T Realtimers" "et_priority t1 = et_priority t"
    and L: "\<And>sel. sel_heap sel L = sel_heap sel (es_loop S)" "lp_ntimers L = lp_ntimers (es_loop S)" "length (lp_pendings L) = 11"
  shows "ev_ok (S\<lparr>es_mem := (es_mem S)(p \<mapsto> t1), es_loop := L\<rparr>) T"
proof -
  let ?S = "S\<lparr>es_mem := (es_mem S)(p \<mapsto> t1), es_loop := L\<rparr>"
  note h = ev_okD(1) [OF ok] and tk = timers_okD [OF ev_okD(2) [OF ok]]
  have pT: "p \<notin> T sel" for sel using p(2,3) by (cases sel) auto
  have "q \<noteq> p" if "q \<in> T sel" for q sel using that pT by blast
  then have "heaps_ok ?S T" using L(1) by (intro heaps_ok_keys [OF h]) (auto simp: timer_key_def)
  moreover have "timers_ok (S\<lparr>es_mem := (es_mem S)(p \<mapsto> t1), es_nodes := es_nodes S, es_loop := L\<rparr>) T"
    using pT tk(4) [OF p(1)] tk(5) L p(4) by (intro timers_ok_change [OF ev_okD(2) [OF ok] p(1)]) auto
  ultimately show ?thesis by (simp add: ev_ok_def)
qed

lemma ev_ok_links [simp]: "ev_ok (S\<lparr>es_links := l\<rparr>) T \<longleftrightarrow> ev_ok S T"
  by (simp add: ev_ok_def heaps_ok_def timers_ok_def)

section \<open>Adding and deleting\<close>

lemma idle_not_in_heap:
  assumes "ev_ok S T" "es_mem S p = Some t" "et_type t = EVENT_TYPE_IDLE"
  shows "p \<notin> T sel"
  using timers_okD(1) [OF ev_okD(2) [OF assms(1)] _ assms(2), of sel] assms(3) by (cases sel) auto

lemma evidle_add_ok:
  assumes ok: "ev_ok S T" "idle_ok S I" and a: "alloc S \<noteq> NULL" "es_mem S (alloc S) = None" "es_links S (alloc S) = None"
    and n: "length I + 1 < 2 ^ 32"
  shows "\<exists>S' t. evidle_add alloc S cb rep = Some (S', alloc S) \<and> ev_ok S' T \<and> idle_ok S' (alloc S # I) \<and>
    es_mem S' = (es_mem S)(alloc S \<mapsto> t) \<and> et_type t = EVENT_TYPE_IDLE \<and> et_repeat t = rep \<and> et_cb t = cb \<and>
    et_active t \<and> \<not> et_pending t \<and> \<not> et_destroy t"
proof -
  let ?p = "alloc S" and ?s = "lp_idles (es_loop S)"
  let ?t = "zero_timer\<lparr>et_type := EVENT_TYPE_IDLE, et_priority := EVENT_LOWEST_PRIORITY, et_repeat := rep\<rparr>"
  let ?l = "(es_links S)(?p \<mapsto> \<lparr>lh_next = NULL, lh_prev = NULL\<rparr>)"
  note i = idle_okD [OF ok(2)]
  have p: "?p \<notin> set (?s # I)" using i(1) a(3) by (auto simp: ring_def)
  then have "?l q = es_links S q" if "q \<in> set (?s # I)" for q using that by auto
  then have "ring ?l ?s I" using ring_cong [of ?s I ?l "es_links S"] i(1) by blast
  then obtain l where l: "list_add ?l ?p ?s = Some l" "ring l ?s (?p # I)" using list_add_ring [of ?l ?s I ?p] p by auto
  let ?S1 = "S\<lparr>es_mem := (es_mem S)(?p \<mapsto> ?t), es_nodes := (es_nodes S)(?p \<mapsto> zero_node), es_links := l\<rparr>"
  have "ev_ok (S\<lparr>es_mem := (es_mem S)(?p \<mapsto> ?t), es_nodes := (es_nodes S)(?p \<mapsto> zero_node), es_loop := es_loop S\<rparr>) T"
    unfolding ev_ok_def using alloc_ok [OF ok(1) a(1,2), of ?t "es_loop S"] by (simp add: EVENT_LOWEST_PRIORITY_def)
  then have o1: "ev_ok ?S1 T" by (simp add: ev_ok_def heaps_ok_def timers_ok_def)
  let ?t2 = "?t\<lparr>et_id := es_ids S + 1, et_cb := cb, et_active := True\<rparr>"
  let ?L2 = "(es_loop S)\<lparr>lp_nactives := lp_nactives (es_loop S) + 1, lp_nidles := lp_nidles (es_loop S) + 1\<rparr>"
  let ?S2 = "?S1\<lparr>es_mem := (es_mem S)(?p \<mapsto> ?t2), es_loop := ?L2, es_ids := es_ids S + 1\<rparr>"
  have e: "evidle_add alloc S cb rep = Some (?S2, ?p)"
    using EVENT_ADD_some [of ?S1 ?p ?t cb] l(1) by (simp add: evidle_add_def Let_def upd_loop_def zero_timer_def)
  have "ev_ok (?S1\<lparr>es_mem := (es_mem ?S1)(?p \<mapsto> ?t2), es_loop := ?L2\<rparr>) T"
    using timers_okD(6) [OF ev_okD(2) [OF o1]] by (intro ev_ok_update [OF o1, of ?p ?t]) simp_all
  then have "ev_ok ?S2 T" by simp
  moreover have "unat (lp_nidles (es_loop S) + 1) = length I + 1"
    using i(4) n by (simp add: unat_word_ariths)
  then have "idle_ok ?S2 (?p # I)" using i p l(2) by (auto simp: idle_ok_def zero_timer_def)
  ultimately show ?thesis using e by (intro exI [of _ ?S2] exI [of _ ?t2]) (simp add: zero_timer_def)
qed

lemma evidle_del_mark_ok:
  assumes ok: "ev_ok S T" "idle_ok S I" and p: "p \<in> set I" "es_mem S p = Some t"
  shows "\<exists>l. evidle_del_mark S p = Some (S\<lparr>es_mem := (es_mem S)(p \<mapsto> t\<lparr>et_destroy := True\<rparr>), es_links := l,
      es_loop := (es_loop S)\<lparr>lp_nidles := lp_nidles (es_loop S) - 1\<rparr>\<rparr>) \<and>
    ev_ok (S\<lparr>es_mem := (es_mem S)(p \<mapsto> t\<lparr>et_destroy := True\<rparr>), es_links := l,
      es_loop := (es_loop S)\<lparr>lp_nidles := lp_nidles (es_loop S) - 1\<rparr>\<rparr>) T \<and>
    idle_ok (S\<lparr>es_mem := (es_mem S)(p \<mapsto> t\<lparr>et_destroy := True\<rparr>), es_links := l,
      es_loop := (es_loop S)\<lparr>lp_nidles := lp_nidles (es_loop S) - 1\<rparr>\<rparr>) (remove1 p I)"
proof -
  note i = idle_okD [OF ok(2)]
  obtain xs ys where I: "I = xs @ p # ys" using p(1) by (meson split_list)
  have d: "distinct I" using i(1) by (simp add: ring_def)
  have r1: "remove1 p I = xs @ ys" using d unfolding I by (simp add: remove1_append)
  have t: "et_type t = EVENT_TYPE_IDLE" "\<not> et_destroy t" using i(3) [OF p(1)] p(2) by auto
  obtain l where l: "list_del (es_links S) p = Some l" "ring l (lp_idles (es_loop S)) (xs @ ys)"
    using list_del_ring [of "es_links S" "lp_idles (es_loop S)" xs p ys] i(1) unfolding I by blast
  let ?S = "S\<lparr>es_mem := (es_mem S)(p \<mapsto> t\<lparr>et_destroy := True\<rparr>), es_links := l,
      es_loop := (es_loop S)\<lparr>lp_nidles := lp_nidles (es_loop S) - 1\<rparr>\<rparr>"
  have "evidle_del_mark S p = Some ?S" using p(2) t(2) l(1) by (simp add: evidle_del_mark_def upd_timer_def upd_loop_def)
  moreover have "ev_ok ?S T"
  proof -
    have "ev_ok (S\<lparr>es_mem := (es_mem S)(p \<mapsto> t\<lparr>et_destroy := True\<rparr>),
        es_loop := (es_loop S)\<lparr>lp_nidles := lp_nidles (es_loop S) - 1\<rparr>\<rparr>) T"
      using timers_okD(6) [OF ev_okD(2) [OF ok(1)]] idle_not_in_heap [OF ok(1) p(2) t(1)]
      by (intro ev_ok_outside [OF ok(1) p(2)]) simp_all
    then show ?thesis by (simp add: ev_ok_def heaps_ok_def timers_ok_def)
  qed
  moreover have "lp_nidles (es_loop S) \<noteq> 0" using i(4) I by auto
  then have "unat (lp_nidles (es_loop S) - 1) = length (xs @ ys)" using i(4) I by (simp add: unat_minus_one)
  then have "idle_ok ?S (xs @ ys)" using i d l(2) p(2) by (auto simp: idle_ok_def I)
  ultimately show ?thesis unfolding r1 by blast
qed

lemma EVENT_DEL_links:
  assumes "EVENT_DEL S p = Some S'"
  shows "\<And>q. q \<noteq> p \<Longrightarrow> es_links S' q = es_links S q" "lp_idles (es_loop S') = lp_idles (es_loop S)"
    "lp_nidles (es_loop S') = lp_nidles (es_loop S)"
  using assms
  by (auto simp: EVENT_DEL_def EVENT_INACTIVE_def upd_timer_def upd_loop_def ev_free_def split: Option.bind_split_asm if_splits)

lemma evidle_del_ok:
  assumes ok: "ev_ok S T" "idle_ok S I" and p: "es_mem S p = Some t" "et_type t = EVENT_TYPE_IDLE" "et_active t"
      "et_destroy t \<longleftrightarrow> p \<notin> set I"
  shows "\<exists>S'. evidle_del S p = Some S' \<and> ev_ok S' T \<and> idle_ok S' (remove1 p I) \<and> (\<forall>q. q \<noteq> p \<longrightarrow> es_mem S' q = es_mem S q) \<and>
    es_mem S' p = (if et_pending t then Some (t\<lparr>et_destroy := True, et_active := False\<rparr>) else None)"
proof -
  note i = idle_okD [OF ok(2)]
  have "\<exists>S1. evidle_del_mark S p = Some S1 \<and> ev_ok S1 T \<and> idle_ok S1 (remove1 p I) \<and> es_mem S1 = (es_mem S)(p \<mapsto> t\<lparr>et_destroy := True\<rparr>)"
  proof (cases "et_destroy t")
    case True
    then have "remove1 p I = I" "t\<lparr>et_destroy := True\<rparr> = t" using p(4) by (auto simp: remove1_idem)
    then show ?thesis using True ok p(1) by (intro exI [of _ S]) (simp add: evidle_del_mark_def fun_upd_idem)
  next
    case False
    then show ?thesis using evidle_del_mark_ok [OF ok _ p(1)] p(4) by fastforce
  qed
  then obtain S1 where 1: "evidle_del_mark S p = Some S1" "ev_ok S1 T" "idle_ok S1 (remove1 p I)"
    "es_mem S1 = (es_mem S)(p \<mapsto> t\<lparr>et_destroy := True\<rparr>)" by blast
  have m1: "es_mem S1 p = Some (t\<lparr>et_destroy := True\<rparr>)" using 1(4) by simp
  have pT: "p \<notin> T sel" for sel using idle_not_in_heap [OF ok(1) p(1,2)] .
  obtain S2 where 2: "EVENT_DEL S1 p = Some S2" "ev_ok S2 T" "\<forall>q. q \<noteq> p \<longrightarrow> es_mem S2 q = es_mem S1 q"
    "es_mem S2 p = (if et_pending t then Some (t\<lparr>et_destroy := True, et_active := False\<rparr>) else None)"
    using EVENT_DEL_ok [OF 1(2) m1 pT pT] by auto
  note l = EVENT_DEL_links [OF 2(1)]
  have n: "q \<noteq> p" if "q \<in> insert (lp_idles (es_loop S1)) (set (remove1 p I))" for q
    using that idle_okD(2) [OF 1(3)] m1 i(1) by (auto simp: ring_def)
  have "idle_ok S2 (remove1 p I)" using n l 2(3) by (intro idle_ok_frame [OF 1(3)]) auto
  then show ?thesis using 1(1,4) 2 p(1,3) by (intro exI [of _ S2]) (simp add: evidle_del_def)
qed

section \<open>Firing\<close>

definition idle_fired :: "evtimer \<Rightarrow> evtimer \<Rightarrow> bool" where
  "idle_fired t t' \<longleftrightarrow>
     et_pending t' \<and> et_type t' = et_type t \<and> et_priority t' = et_priority t \<and> et_cb t' = et_cb t \<and> et_active t' = et_active t \<and>
     et_timeout t' = et_timeout t \<and> et_repeat t' = (if et_repeat t = INFINITE then INFINITE else et_repeat t - 1) \<and>
     (et_destroy t' \<longleftrightarrow> et_repeat t = 1)"

lemma fire_idle_ok:
  assumes ok: "ev_ok S T" "idle_ok S I" and p: "p \<in> set I" "es_mem S p = Some t" "\<not> et_pending t"
  shows "\<exists>S' t'. fire_idle S p = Some S' \<and> ev_ok S' T \<and> idle_ok S' (if et_repeat t = 1 then remove1 p I else I) \<and>
    es_mem S' = (es_mem S)(p \<mapsto> t') \<and> idle_fired t t' \<and> es_calls S' = es_calls S \<and>
    lp_idles (es_loop S') = lp_idles (es_loop S) \<and>
    lp_npendings (es_loop S') = lp_npendings (es_loop S) + 1 \<and>
    lp_pendings (es_loop S') = (lp_pendings (es_loop S))[nat (et_priority t + 5) := p] \<and>
    et_pending_next t' = lp_pendings (es_loop S) ! nat (et_priority t + 5)"
proof -
  let ?I = "if et_repeat t = 1 then remove1 p I else I"
  define t1 where "t1 = (if et_repeat t \<noteq> INFINITE then t\<lparr>et_repeat := et_repeat t - 1\<rparr> else t)"
  let ?S1 = "S\<lparr>es_mem := (es_mem S)(p \<mapsto> t1)\<rparr>"
  have t: "et_type t = EVENT_TYPE_IDLE" "\<not> et_destroy t" using idle_okD(3) [OF ok(2) p(1)] p(2) by auto
  have t1: "t1 = t\<lparr>et_repeat := if et_repeat t = INFINITE then INFINITE else et_repeat t - 1\<rparr>" by (cases t) (simp add: t1_def)
  have z: "et_repeat t1 = 0 \<longleftrightarrow> et_repeat t = 1" using repeat_zero [of t] by (auto simp: t1_def)
  have o1: "ev_ok ?S1 T"
    using ev_ok_update [OF ok(1) p(2), of t1 "es_loop S"] timers_okD(6) [OF ev_okD(2) [OF ok(1)]] by (simp add: t1)
  have i1: "idle_ok ?S1 I" by (rule idle_ok_update [OF ok(2) p(2)]) (simp_all add: t1 same_idles_def)
  have "\<exists>S2 t2. (if et_repeat t1 = 0 then evidle_del_mark ?S1 p else Some ?S1) = Some S2 \<and> ev_ok S2 T \<and> idle_ok S2 ?I \<and>
      es_mem S2 = (es_mem S)(p \<mapsto> t2) \<and> t2 = t1\<lparr>et_destroy := et_repeat t = 1\<rparr> \<and> es_calls S2 = es_calls S \<and>
      (\<exists>n. es_loop S2 = (es_loop S)\<lparr>lp_nidles := n\<rparr>)"
  proof (cases "et_repeat t = 1")
    case True
    then show ?thesis using evidle_del_mark_ok [OF o1 i1 p(1), of t1] z by fastforce
  next
    case False
    have "t1\<lparr>et_destroy := et_repeat t = 1\<rparr> = t1" using False t(2) by (cases t) (simp add: t1)
    moreover have "es_loop S = (es_loop S)\<lparr>lp_nidles := lp_nidles (es_loop S)\<rparr>" by simp
    ultimately show ?thesis
      using False z o1 i1 by (intro exI [of _ ?S1] exI [of _ t1] conjI exI [of _ "lp_nidles (es_loop S)"]) simp_all
  qed
  then obtain S2 t2 n where 2: "(if et_repeat t1 = 0 then evidle_del_mark ?S1 p else Some ?S1) = Some S2" "ev_ok S2 T" "idle_ok S2 ?I"
    "es_mem S2 = (es_mem S)(p \<mapsto> t2)" "t2 = t1\<lparr>et_destroy := et_repeat t = 1\<rparr>" "es_calls S2 = es_calls S"
    "es_loop S2 = (es_loop S)\<lparr>lp_nidles := n\<rparr>" by blast
  have m2: "es_mem S2 p = Some t2" "et_priority t2 = et_priority t" "\<not> et_pending t2" using 2(4,5) p(3) by (simp_all add: t1)
  note tk2 = timers_okD [OF ev_okD(2) [OF 2(2)]]
  obtain t3 L3 where e: "EVENT_PENDING S2 p = Some (S2\<lparr>es_mem := (es_mem S2)(p \<mapsto> t3), es_loop := L3\<rparr>)"
    "t3 = t2\<lparr>et_pending := True, et_pending_next := et_pending_next t3\<rparr>"
    "L3 = (es_loop S2)\<lparr>lp_pendings := lp_pendings L3, lp_npendings := lp_npendings L3\<rparr>" "length (lp_pendings L3) = 11"
    "lp_npendings L3 = lp_npendings (es_loop S2) + 1" "lp_pendings L3 = (lp_pendings (es_loop S2))[nat (et_priority t2 + 5) := p]"
    "et_pending_next t3 = lp_pendings (es_loop S2) ! nat (et_priority t2 + 5)"
    using EVENT_PENDING_some [OF m2(1) _ _ tk2(6)] tk2(3) [OF m2(1)] m2(3) by blast
  have t3: "et_type t3 = et_type t2" "et_destroy t3 = et_destroy t2" "et_timeout t3 = et_timeout t2"
    "et_priority t3 = et_priority t2" "et_next_timeout t3 = et_next_timeout t2" "idle_fired t t3"
    by (subst e(2), simp)+ (subst e(2), simp add: 2(5) t1 idle_fired_def)
  have L3: "sel_heap sel' L3 = sel_heap sel' (es_loop S2)" "lp_ntimers L3 = lp_ntimers (es_loop S2)"
    "lp_idles L3 = lp_idles (es_loop S2)" "lp_nidles L3 = lp_nidles (es_loop S2)" for sel' by (subst e(3), simp)+
  let ?S3 = "S2\<lparr>es_mem := (es_mem S2)(p \<mapsto> t3), es_loop := L3\<rparr>"
  have "idle_ok ?S3 ?I" by (rule idle_ok_update [OF 2(3) m2(1) t3(1,2)]) (simp_all add: same_idles_def L3)
  moreover have "fire_idle S p = Some ?S3"
    using p(2) 2(1) e(1) unfolding fire_idle_def t1_def by (simp add: upd_timer_def cong: if_cong)
  ultimately show ?thesis
    using ev_ok_update [OF 2(2) m2(1) t3(1-5) L3(1,2) e(4)] 2(4,6,7) t3(6) L3(3) e(5-7) m2(2)
    by (intro exI [of _ ?S3] exI [of _ t3]) simp
qed

text \<open>
  The loop over the list: every idle event fires once, in the order of the list; those at their
  last repetition leave it.
\<close>

definition stays :: "timer_mem \<Rightarrow> ptr \<Rightarrow> bool" where
  "stays m p \<longleftrightarrow> (\<forall>t. m p = Some t \<longrightarrow> et_repeat t \<noteq> 1)"

definition idles_fired :: "ev_state \<Rightarrow> ev_state \<Rightarrow> ptr list \<Rightarrow> bool" where
  "idles_fired S S' ps \<longleftrightarrow>
     (\<forall>p. p \<notin> set ps \<longrightarrow> es_mem S' p = es_mem S p) \<and>
     (\<forall>p \<in> set ps. \<exists>t t'. es_mem S p = Some t \<and> es_mem S' p = Some t' \<and> idle_fired t t') \<and> es_calls S' = es_calls S \<and>
     lp_npendings (es_loop S') = lp_npendings (es_loop S) + of_nat (length ps) \<and>
     (\<forall>Q. pend_ok S Q \<longrightarrow> pend_ok S' (\<lambda>i. rev (filter (\<lambda>p. prio_index (es_mem S) p = i) ps) @ Q i))"

lemma idles_fired_Cons:
  assumes 1: "es_mem S p = Some t" "\<not> et_pending t" "p \<noteq> NULL" "ev_ok S T" "es_mem S1 = (es_mem S)(p \<mapsto> t')" "idle_fired t t'"
      "es_calls S1 = es_calls S" "lp_npendings (es_loop S1) = lp_npendings (es_loop S) + 1"
      "lp_pendings (es_loop S1) = (lp_pendings (es_loop S))[nat (et_priority t + 5) := p]"
      "et_pending_next t' = lp_pendings (es_loop S) ! nat (et_priority t + 5)"
    and 2: "idles_fired S1 S2 ps" and p: "p \<notin> set ps"
  shows "idles_fired S S2 (p # ps)"
proof -
  note tk = timers_okD [OF ev_okD(2) [OF 1(4)]]
  let ?i = "nat (et_priority t + 5)"
  have pr: "prio_index (es_mem S1) q = prio_index (es_mem S) q" for q
    using 1(1,5,6) by (simp add: prio_index_def idle_fired_def)
  have "pend_ok S2 (\<lambda>i. rev (filter (\<lambda>p. prio_index (es_mem S) p = i) (p # ps)) @ Q i)" if Q: "pend_ok S Q" for Q
  proof -
    have "pend_ok S1 (Q(?i := p # Q ?i))"
      using pend_ok_push [OF Q 1(1-3) _ _ tk(6) 1(5) _ _ 1(9,10)] tk(3) [OF 1(1)] 1(6) by (auto simp: idle_fired_def)
    then have "pend_ok S2 (\<lambda>i. rev (filter (\<lambda>p. prio_index (es_mem S1) p = i) ps) @ (Q(?i := p # Q ?i)) i)"
      using 2 by (auto simp: idles_fired_def)
    moreover have "prio_index (es_mem S) p = ?i" using 1(1) by (simp add: prio_index_def)
    then have "(\<lambda>i. rev (filter (\<lambda>p. prio_index (es_mem S1) p = i) ps) @ (Q(?i := p # Q ?i)) i) =
        (\<lambda>i. rev (filter (\<lambda>p. prio_index (es_mem S) p = i) (p # ps)) @ Q i)"
      by (auto simp: fun_eq_iff pr)
    ultimately show ?thesis by simp
  qed
  moreover have "\<exists>u u'. es_mem S q = Some u \<and> es_mem S2 q = Some u' \<and> idle_fired u u'" if "q \<in> set (p # ps)" for q
    using that 2 1(1,5,6) p by (cases "q = p") (auto simp: idles_fired_def)
  moreover have "es_mem S2 q = es_mem S q" if "q \<notin> set (p # ps)" for q
    using that 2 1(5) by (simp add: idles_fired_def)
  ultimately show ?thesis using 2 1(7,8) by (simp add: idles_fired_def)
qed

lemma idles_loop_ok:
  assumes "ev_ok S T" "idle_ok S (xs @ ys)" "\<And>p t. p \<in> set ys \<Longrightarrow> es_mem S p = Some t \<Longrightarrow> \<not> et_pending t \<and> p \<noteq> NULL"
  shows "\<exists>S'. idles_loop S (hd (ys @ [lp_idles (es_loop S)])) n = Some (S', n + length ys) \<and> ev_ok S' T \<and>
    idle_ok S' (xs @ filter (stays (es_mem S)) ys) \<and> idles_fired S S' ys"
  using assms
proof (induction ys arbitrary: S xs n)
  case Nil
  then show ?case by (subst idles_loop.simps) (simp add: idles_fired_def)
next
  case (Cons p ys)
  note i = idle_okD [OF Cons.prems(2)]
  have r: "ring (es_links S) (lp_idles (es_loop S)) (xs @ p # ys)" and d: "p \<notin> set ys" "p \<notin> set xs" "p \<noteq> lp_idles (es_loop S)"
    using i(1) by (auto simp: ring_def)
  obtain t where t: "es_mem S p = Some t" using i(3) [of p] by auto
  have np: "\<not> et_pending t" "p \<noteq> NULL" using Cons.prems(3) [OF _ t] by auto
  obtain l where l: "es_links S p = Some l" "lh_next l = hd (ys @ [lp_idles (es_loop S)])"
  proof -
    obtain l where "es_links S p = Some l" using r by (auto simp: ring_def)
    moreover have "linked_by (nxt_of (es_links S)) (prv_of (es_links S)) p ys (lp_idles (es_loop S))"
      using r by (simp add: ring_def linked_by_append)
    ultimately show thesis using that linked_by_ends(1) by (fastforce simp: nxt_of_def)
  qed
  obtain S1 t' where 1: "fire_idle S p = Some S1" "ev_ok S1 T" "idle_ok S1 (if et_repeat t = 1 then remove1 p (xs @ p # ys) else xs @ p # ys)"
    "es_mem S1 = (es_mem S)(p \<mapsto> t')" "idle_fired t t'" "es_calls S1 = es_calls S" "lp_idles (es_loop S1) = lp_idles (es_loop S)"
    "lp_npendings (es_loop S1) = lp_npendings (es_loop S) + 1"
    "lp_pendings (es_loop S1) = (lp_pendings (es_loop S))[nat (et_priority t + 5) := p]"
    "et_pending_next t' = lp_pendings (es_loop S) ! nat (et_priority t + 5)"
    using fire_idle_ok [OF Cons.prems(1,2) _ t np(1)] by auto
  let ?xs = "if et_repeat t = 1 then xs else xs @ [p]"
  have "idle_ok S1 (?xs @ ys)" using 1(3) d(2) by (simp add: remove1_append split: if_splits)
  moreover have "\<not> et_pending u \<and> q \<noteq> NULL" if "q \<in> set ys" "es_mem S1 q = Some u" for q u
    using that d(1) 1(4) Cons.prems(3) [of q u] by (cases "q = p") auto
  ultimately obtain S2 where 2: "idles_loop S1 (hd (ys @ [lp_idles (es_loop S1)])) (n + 1) = Some (S2, n + 1 + length ys)" "ev_ok S2 T"
    "idle_ok S2 (?xs @ filter (stays (es_mem S1)) ys)" "idles_fired S1 S2 ys" using Cons.IH [OF 1(2)] by blast
  have "filter (stays (es_mem S1)) ys = filter (stays (es_mem S)) ys"
    using d(1) 1(4) by (intro filter_cong) (auto simp: stays_def)
  moreover have "stays (es_mem S) p \<longleftrightarrow> et_repeat t \<noteq> 1" using t by (simp add: stays_def)
  ultimately have "idle_ok S2 (xs @ filter (stays (es_mem S)) (p # ys))" using 2(3) by (simp split: if_splits)
  moreover have "idles_loop S (hd ((p # ys) @ [lp_idles (es_loop S)])) n = Some (S2, n + length (p # ys))"
    using d(3) l 1(1,7) 2(1) by (subst idles_loop.simps) (simp del: hd_append2)
  moreover have "idles_fired S S2 (p # ys)" by (rule idles_fired_Cons [OF t np Cons.prems(1) 1(4-6,8-10) 2(4) d(1)])
  ultimately show ?case using 2(2) by blast
qed

lemma evloop_process_idles_ok:
  assumes "ev_ok S T" "idle_ok S I" "\<And>p t. p \<in> set I \<Longrightarrow> es_mem S p = Some t \<Longrightarrow> \<not> et_pending t \<and> p \<noteq> NULL"
  shows "\<exists>S'. evloop_process_idles S = Some (S', length I) \<and> ev_ok S' T \<and> idle_ok S' (filter (stays (es_mem S)) I) \<and> idles_fired S S' I"
  using idles_loop_ok [of S T "[]" I 0] assms ring_ends [OF idle_okD(1) [OF assms(2)]] by (auto simp: evloop_process_idles_def)

end
