(* ===== verification/Evloop.thy ===== *)
theory Evloop
  imports Evidle "HOL-Library.Sublist"
begin

text \<open>
  A turn of the event loop as far as timers and idle events are concerned
  (\<open>src/event/eventloop.c\<close>): how long the loop may sleep, the firing of the timers that are due, or
  of the idle events when there are none, and the calls of their callbacks from the pending lists,
  with callbacks that use the interface of timers and idle events themselves.
\<close>

section \<open>Model\<close>

definition EVLOOP_MAX_BLOCK_TIME :: int where "EVLOOP_MAX_BLOCK_TIME = 100"

text \<open>\<open>blocktime_us = MIN (blocktime_us, min_timeout)\<close> for one heap and its clock; the difference is an \<open>int64_t\<close>.\<close>

definition min_blocktime :: "heap_sel \<Rightarrow> u64 \<Rightarrow> ev_state \<Rightarrow> int \<Rightarrow> int option" where
  "min_blocktime sel now S blocktime_us =
     (let root = hp_root (sel_heap sel (es_loop S))
      in if root = NULL then Some blocktime_us
         else do {
           t \<leftarrow> es_mem S root;
           Some (min blocktime_us (sint (et_next_timeout t - now))) })"

text \<open>The start of \<open>evloop_process_events\<close>; the inner \<open>None\<close> is \<open>goto process_timers\<close>, without sleeping.\<close>

definition calc_blocktime :: "clock \<Rightarrow> ev_state \<Rightarrow> (ev_state \<times> int option) option" where
  "calc_blocktime ck S =
     (if lp_ntimers (es_loop S) = 0 then Some (S, Some EVLOOP_MAX_BLOCK_TIME)
      else do {
        let S = upd_loop S (evloop_update_time ck);
        us \<leftarrow> min_blocktime Timers (lp_cur_hrtime (es_loop S)) S (EVLOOP_MAX_BLOCK_TIME * 1000);
        us \<leftarrow> min_blocktime Realtimers (evloop_now_us (es_loop S)) S us;
        if us \<le> 0 then Some (S, None)
        else Some (S, Some (min (us div 1000 + 1) EVLOOP_MAX_BLOCK_TIME)) })"

text \<open>The timers that are due, and without any pending event the idle events.\<close>

definition fire_events :: "calendar \<Rightarrow> ev_state \<Rightarrow> ev_state option" where
  "fire_events cal S = do {
     (S, ntimers) \<leftarrow> (if lp_ntimers (es_loop S) \<noteq> 0 then evloop_process_timers cal S else Some (S, 0));
     (S, nidles) \<leftarrow> (if lp_npendings (es_loop S) = 0 \<and> lp_nidles (es_loop S) \<noteq> 0 then evloop_process_idles S else Some (S, 0));
     Some S }"

text \<open>
  \<open>evloop_process_events\<close> in a turn in which no watched descriptor becomes ready: the loop waits in \<open>ev_msleep\<close> or in the poll. The first clock is read before
  waiting, the second after it; \<open>stop\<close> says whether the loop was stopped meanwhile.
\<close>

definition evloop_process_events ::
    "clock \<Rightarrow> clock \<Rightarrow> bool \<Rightarrow> calendar \<Rightarrow> (nat \<Rightarrow> ptr \<Rightarrow> ev_state \<Rightarrow> ev_state option) \<Rightarrow> ev_state \<Rightarrow> (ev_state \<times> nat) option" where
  "evloop_process_events ck1 ck2 stop cal cbs S = do {
     (S, blocktime) \<leftarrow> calc_blocktime ck1 S;
     let S = (if blocktime = None then S else upd_loop S (evloop_update_time ck2));
     if blocktime \<noteq> None \<and> stop then Some (S, 0)
     else do { S \<leftarrow> fire_events cal S; evloop_process_pendings cbs S } }"

text \<open>
  The parts of \<open>evloop_new\<close> and \<open>evloop_init\<close> that concern timers and idle events: the loop is
  zeroed memory, and \<open>idles\<close> is the address of the list node in it, initialised by \<open>list_init\<close>.
\<close>

definition evloop_init :: "ptr \<Rightarrow> clock \<Rightarrow> ev_state" where
  "evloop_init idles ck =
     \<lparr>es_mem = Map.empty, es_nodes = Map.empty, es_links = [idles \<mapsto> \<lparr>lh_next = idles, lh_prev = idles\<rparr>],
      es_loop = \<lparr>lp_start_ms = ck_tod_ms ck, lp_start_hrtime = ck_hrtime ck, lp_cur_hrtime = ck_hrtime ck,
        lp_nactives = 0, lp_npendings = 0, lp_pendings = replicate EVENT_PRIORITY_SIZE NULL,
        lp_idles = idles, lp_nidles = 0, lp_ntimers = 0,
        lp_timers = heap_init (Some timers_compare), lp_realtimers = heap_init (Some timers_compare)\<rparr>,
      es_ids = 0, es_calls = []\<rparr>"

section \<open>What the timer interface keeps of the pending lists\<close>

definition same_queue :: "ev_state \<Rightarrow> ev_state \<Rightarrow> bool" where
  "same_queue S S' \<longleftrightarrow> lp_pendings (es_loop S') = lp_pendings (es_loop S) \<and>
     lp_npendings (es_loop S') = lp_npendings (es_loop S) \<and> es_calls S' = es_calls S"

lemma same_queue_refl [simp]: "same_queue S S"
  by (simp add: same_queue_def)

lemma same_queue_trans [trans]: "same_queue S S1 \<Longrightarrow> same_queue S1 S2 \<Longrightarrow> same_queue S S2"
  by (simp add: same_queue_def)


lemma timer_op_queue:
  "timer_insert sel S p = Some S' \<Longrightarrow> same_queue S S'" "timer_remove sel S p = Some S' \<Longrightarrow> same_queue S S'"
  "upd_timer S p f = Some S' \<Longrightarrow> same_queue S S'"
  by (auto simp: timer_insert_def timer_remove_def upd_timer_def same_queue_def split: Option.bind_split_asm)

lemma event_op_queue:
  "EVENT_ACTIVE S p = Some S' \<Longrightarrow> same_queue S S'" "EVENT_INACTIVE S p = Some S' \<Longrightarrow> same_queue S S'"
  "EVENT_DEL S p = Some S' \<Longrightarrow> same_queue S S'" "EVENT_RESET S p = Some S' \<Longrightarrow> same_queue S S'"
  "EVENT_ADD S p cb = Some S' \<Longrightarrow> same_queue S S'"
  by (auto simp: EVENT_ACTIVE_def EVENT_INACTIVE_def EVENT_DEL_def EVENT_RESET_def EVENT_ADD_def upd_timer_def upd_loop_def
      ev_free_def same_queue_def Let_def split: Option.bind_split_asm if_splits)

lemma update_time_queue [simp]:
  "lp_npendings (evloop_update_time ck L) = lp_npendings L" "lp_idles (evloop_update_time ck L) = lp_idles L"
  "lp_nidles (evloop_update_time ck L) = lp_nidles L"
  by (simp_all add: evloop_update_time_def Let_def)

lemma evtimer_del_queue: "evtimer_del S p = Some S' \<Longrightarrow> same_queue S S'"
proof -
  have m: "same_queue S S1" if "evtimer_del_mark S p = Some S1" for S1
    using that by (auto simp: evtimer_del_mark_def same_queue_def upd_loop_def split: Option.bind_split_asm if_splits
        dest!: timer_op_queue)
  assume "evtimer_del S p = Some S'"
  then show ?thesis
    by (auto simp: evtimer_del_def split: Option.bind_split_asm if_splits
        dest!: m event_op_queue(3) intro: same_queue_trans)
qed

lemma evtimer_reset_queue: "evtimer_reset S p ms = Some S' \<Longrightarrow> same_queue S S'"
  by (auto simp: evtimer_reset_def same_queue_def upd_loop_def split: Option.bind_split_asm if_splits
      dest!: timer_op_queue event_op_queue(4))

lemma new_timer_queue:
  assumes "do { S \<leftarrow> timer_insert sel S p; S \<leftarrow> EVENT_ADD S p cb;
      Some (upd_loop S (\<lambda>L. L\<lparr>lp_ntimers := lp_ntimers L + 1\<rparr>), p) } = Some (S', r)"
  shows "same_queue S S'"
  using assms by (auto simp: same_queue_def upd_loop_def split: Option.bind_split_asm dest!: timer_op_queue event_op_queue(5))

lemma evtimer_add_queue: "evtimer_add alloc ck S cb ms rep = Some (S', r) \<Longrightarrow> same_queue S S'"
  by (auto simp: evtimer_add_def Let_def same_queue_def split: if_splits dest!: new_timer_queue)

lemma evtimer_add_period_queue:
  "evtimer_add_period alloc cal S cb minute hour day week month rep = Some (S', r) \<Longrightarrow> same_queue S S'"
  by (auto simp: evtimer_add_period_def Let_def same_queue_def split: if_splits dest!: new_timer_queue)

lemma evidle_queue:
  "evidle_add alloc S cb rep = Some (S', r) \<Longrightarrow> same_queue S S'" "evidle_del S p = Some S' \<Longrightarrow> same_queue S S'"
  by (auto simp: evidle_add_def evidle_del_def evidle_del_mark_def Let_def same_queue_def upd_loop_def
      split: Option.bind_split_asm if_splits dest!: timer_op_queue event_op_queue(3,5))

text \<open>The timer interface leaves the idle events alone.\<close>

lemma timer_op_idles:
  "timer_insert sel S p = Some S' \<Longrightarrow> same_idles S S'" "timer_remove sel S p = Some S' \<Longrightarrow> same_idles S S'"
  "upd_timer S p f = Some S' \<Longrightarrow> same_idles S S'" "EVENT_ADD S p cb = Some S' \<Longrightarrow> same_idles S S'"
  "EVENT_RESET S p = Some S' \<Longrightarrow> same_idles S S'"
  by (cases sel; auto simp: timer_insert_def timer_remove_def upd_timer_def same_idles_def EVENT_ADD_def EVENT_RESET_def
      EVENT_ACTIVE_def upd_loop_def Let_def split: Option.bind_split_asm if_splits)+

lemma evtimer_reset_idles: "evtimer_reset S p ms = Some S' \<Longrightarrow> same_idles S S'"
  by (auto simp: evtimer_reset_def same_idles_def upd_loop_def split: Option.bind_split_asm if_splits dest!: timer_op_idles)

lemma new_timer_idles:
  assumes "do { S \<leftarrow> timer_insert sel S p; S \<leftarrow> EVENT_ADD S p cb;
      Some (upd_loop S (\<lambda>L. L\<lparr>lp_ntimers := lp_ntimers L + 1\<rparr>), p) } = Some (S', r)"
  shows "same_idles S S'"
  using assms by (auto simp: same_idles_def upd_loop_def split: Option.bind_split_asm dest!: timer_op_idles)

lemma evtimer_add_idles: "evtimer_add alloc ck S cb ms rep = Some (S', r) \<Longrightarrow> same_idles S S'"
  by (auto simp: evtimer_add_def Let_def same_idles_def split: if_splits dest!: new_timer_idles)

lemma evtimer_add_period_idles:
  "evtimer_add_period alloc cal S cb minute hour day week month rep = Some (S', r) \<Longrightarrow> same_idles S S'"
  by (auto simp: evtimer_add_period_def Let_def same_idles_def split: if_splits dest!: new_timer_idles)

lemma evtimer_del_idles:
  assumes "evtimer_del S p = Some S'"
  shows "\<And>q. q \<noteq> p \<Longrightarrow> es_links S' q = es_links S q" "lp_idles (es_loop S') = lp_idles (es_loop S)"
    "lp_nidles (es_loop S') = lp_nidles (es_loop S)"
proof -
  have m: "same_idles S S1" if "evtimer_del_mark S p = Some S1" for S1
    using that by (auto simp: evtimer_del_mark_def same_idles_def upd_loop_def split: Option.bind_split_asm if_splits
        dest!: timer_op_idles)
  show "\<And>q. q \<noteq> p \<Longrightarrow> es_links S' q = es_links S q" "lp_idles (es_loop S') = lp_idles (es_loop S)"
      "lp_nidles (es_loop S') = lp_nidles (es_loop S)"
    using assms by (auto simp: evtimer_del_def same_idles_def split: Option.bind_split_asm if_splits dest!: m dest: EVENT_DEL_links)
qed

section \<open>The invariant of the loop\<close>

text \<open>
  \<open>Q i\<close> are the timers linked from \<open>h i\<close>, the pending list of index \<open>i\<close> or what is left of it;
  every pending timer is on the list of its priority, and a timer that has been reset since may
  be there without being pending.
\<close>

definition queued_ok :: "ev_state \<Rightarrow> (nat \<Rightarrow> ptr) \<Rightarrow> (nat \<Rightarrow> ptr list) \<Rightarrow> bool" where
  "queued_ok S h Q \<longleftrightarrow>
     (\<forall>i < 11. chain (es_mem S) (h i) (Q i) \<and> distinct (Q i) \<and> (\<forall>x \<in> set (Q i). prio_index (es_mem S) x = i)) \<and>
     (\<forall>x t. es_mem S x = Some t \<longrightarrow> et_pending t \<longrightarrow> x \<in> set (Q (prio_index (es_mem S) x)))"

definition queued :: "(nat \<Rightarrow> ptr list) \<Rightarrow> ptr set" where
  "queued Q = (\<Union>i < 11. set (Q i))"

text \<open>
  An event in memory is in its heap or in the list of idle events until it is destroyed, and a
  destroyed one is still pending.
\<close>

definition life_ok :: "ev_state \<Rightarrow> (heap_sel \<Rightarrow> ptr set) \<Rightarrow> ptr list \<Rightarrow> bool" where
  "life_ok S T I \<longleftrightarrow> (\<forall>p t. es_mem S p = Some t \<longrightarrow>
     p \<noteq> NULL \<and> (et_destroy t \<longleftrightarrow> p \<notin> T Timers \<union> T Realtimers \<union> set I) \<and> (et_destroy t \<longrightarrow> et_pending t) \<and>
     (et_type t = EVENT_TYPE_TIMEOUT \<longrightarrow> et_timeout t \<noteq> 0 \<and> p \<notin> T Realtimers))"

definition loop_ok :: "ev_state \<Rightarrow> (nat \<Rightarrow> ptr) \<Rightarrow> (heap_sel \<Rightarrow> ptr set) \<Rightarrow> ptr list \<Rightarrow> (nat \<Rightarrow> ptr list) \<Rightarrow> bool" where
  "loop_ok S h T I Q \<longleftrightarrow> ev_ok S T \<and> life_ok S T I \<and> queued_ok S h Q \<and> idle_ok S I"

lemma loop_okD:
  assumes "loop_ok S h T I Q"
  shows "ev_ok S T" "life_ok S T I" "queued_ok S h Q" "idle_ok S I"
  using assms by (simp_all add: loop_ok_def)

lemma life_okD:
  assumes "life_ok S T I" "es_mem S p = Some t"
  shows "p \<noteq> NULL" "et_destroy t \<longleftrightarrow> p \<notin> T Timers \<union> T Realtimers \<union> set I" "et_destroy t \<Longrightarrow> et_pending t"
    "et_type t = EVENT_TYPE_TIMEOUT \<Longrightarrow> et_timeout t \<noteq> 0 \<and> p \<notin> T Realtimers"
  using assms unfolding life_ok_def by metis+

lemma life_ok_mem: "es_mem S' = es_mem S \<Longrightarrow> life_ok S' T I \<longleftrightarrow> life_ok S T I"
  by (simp only: life_ok_def)

lemma life_ok_change:
  assumes l: "life_ok S T I" and S': "\<And>x. x \<noteq> p \<Longrightarrow> es_mem S' x = es_mem S x" and T': "\<And>sel. T' sel - {p} = T sel - {p}" "set I' - {p} = set I - {p}"
    and t: "\<And>t. es_mem S' p = Some t \<Longrightarrow> p \<noteq> NULL \<and> (et_destroy t \<longleftrightarrow> p \<notin> T' Timers \<union> T' Realtimers \<union> set I') \<and>
      (et_destroy t \<longrightarrow> et_pending t) \<and> (et_type t = EVENT_TYPE_TIMEOUT \<longrightarrow> et_timeout t \<noteq> 0 \<and> p \<notin> T' Realtimers)"
  shows "life_ok S' T' I'"
  unfolding life_ok_def
proof (intro allI impI)
  fix x u assume x: "es_mem S' x = Some u"
  show "x \<noteq> NULL \<and> (et_destroy u \<longleftrightarrow> x \<notin> T' Timers \<union> T' Realtimers \<union> set I') \<and> (et_destroy u \<longrightarrow> et_pending u) \<and>
      (et_type u = EVENT_TYPE_TIMEOUT \<longrightarrow> et_timeout u \<noteq> 0 \<and> x \<notin> T' Realtimers)"
  proof (cases "x = p")
    case False
    then have "x \<in> T' sel \<longleftrightarrow> x \<in> T sel" "x \<in> set I' \<longleftrightarrow> x \<in> set I" for sel using T'(1) [of sel] T'(2) by blast+
    then show ?thesis using life_okD [OF l, of x u] x S' [OF False] by simp
  qed (use t x in auto)
qed

lemma chain_dom: "chain m p xs \<Longrightarrow> x \<in> set xs \<Longrightarrow> \<exists>t. m x = Some t"
  by (induction xs arbitrary: p) auto

text \<open>Changes of a timer that keep its link and its priority and do not make it pending.\<close>

lemma chain_update:
  assumes "m p = Some t" "et_pending_next t' = et_pending_next t"
  shows "chain (m(p \<mapsto> t')) q xs = chain m q xs"
  using assms by (induction xs arbitrary: q) auto

lemma queued_ok_update:
  assumes q: "queued_ok S h Q" and p: "es_mem S p = Some t" and S': "es_mem S' = (es_mem S)(p \<mapsto> t')"
    and t': "et_pending_next t' = et_pending_next t" "et_priority t' = et_priority t" "et_pending t' \<longrightarrow> et_pending t"
  shows "queued_ok S' h Q"
proof -
  have "prio_index (es_mem S') x = prio_index (es_mem S) x" for x using p S' t'(2) by (simp add: prio_index_def)
  then show ?thesis using q p t'(1,3) S' by (auto simp: queued_ok_def chain_update split: if_splits)
qed

text \<open>A new timer, and a timer that is on no list and goes away.\<close>

lemma queued_ok_outside:
  assumes q: "queued_ok S h Q" and p: "p \<notin> queued Q" and S': "\<And>x. x \<noteq> p \<Longrightarrow> es_mem S' x = es_mem S x"
    and t: "\<And>t. es_mem S' p = Some t \<Longrightarrow> \<not> et_pending t"
  shows "queued_ok S' h Q"
proof -
  have np: "x \<noteq> p" if "x \<in> set (Q i)" "i < 11" for x i using p that by (auto simp: queued_def)
  have pi: "prio_index (es_mem S') x = prio_index (es_mem S) x" if "x \<noteq> p" for x using S' [OF that] by (simp add: prio_index_def)
  have "chain (es_mem S') (h i) (Q i) = chain (es_mem S) (h i) (Q i)" if "i < 11" for i
    using S' np [OF _ that] by (intro chain_cong) auto
  moreover have "x \<in> set (Q (prio_index (es_mem S') x))" if "es_mem S' x = Some t" "et_pending t" for x t
    using that t S' [of x] pi [of x] q by (cases "x = p") (auto simp: queued_ok_def)
  ultimately show ?thesis using q pi np unfolding queued_ok_def by metis
qed

lemma queued_dom: "queued_ok S h Q \<Longrightarrow> x \<in> queued Q \<Longrightarrow> \<exists>t. es_mem S x = Some t"
  by (auto simp: queued_ok_def queued_def dest: chain_dom)

section \<open>Callbacks\<close>

text \<open>
  A step of a client. A new event has a fresh address. An event that is linked in a pending list,
  one of \<open>K\<close>, may be deleted only while it is pending, that is, unless it has been reset since it fired.
\<close>

definition fresh :: "ev_state \<Rightarrow> ptr \<Rightarrow> bool" where
  "fresh S p \<longleftrightarrow> p \<noteq> NULL \<and> es_mem S p = None \<and> es_links S p = None"

inductive api_step :: "ptr set \<Rightarrow> ev_state \<Rightarrow> ev_state \<Rightarrow> bool" for K where
  add: "fresh S (alloc S) \<Longrightarrow> unat (lp_ntimers (es_loop S)) + 1 < 2 ^ 31 \<Longrightarrow>
    evtimer_add alloc ck S cb ms rep = Some (S', r) \<Longrightarrow> api_step K S S'"
| add_period: "fresh S (alloc S) \<Longrightarrow> unat (lp_ntimers (es_loop S)) + 1 < 2 ^ 31 \<Longrightarrow>
    evtimer_add_period alloc cal S cb minute hour day week month rep = Some (S', r) \<Longrightarrow> api_step K S S'"
| reset: "unat (lp_ntimers (es_loop S)) + 1 < 2 ^ 31 \<Longrightarrow> evtimer_reset S p ms = Some S' \<Longrightarrow> api_step K S S'"
| del: "es_mem S p = Some t \<Longrightarrow> et_type t \<noteq> EVENT_TYPE_IDLE \<Longrightarrow> et_pending t \<or> p \<notin> K \<Longrightarrow>
    evtimer_del S p = Some S' \<Longrightarrow> api_step K S S'"
| idle_add: "fresh S (alloc S) \<Longrightarrow> unat (lp_nidles (es_loop S)) + 1 < 2 ^ 32 \<Longrightarrow>
    evidle_add alloc S cb rep = Some (S', r) \<Longrightarrow> api_step K S S'"
| idle_del: "es_mem S p = Some t \<Longrightarrow> et_type t = EVENT_TYPE_IDLE \<Longrightarrow> et_pending t \<or> p \<notin> K \<Longrightarrow>
    evidle_del S p = Some S' \<Longrightarrow> api_step K S S'"

lemma ntimers_eq: "ev_ok S T \<Longrightarrow> ntimers_of T = unat (lp_ntimers (es_loop S))"
  using timers_okD(5) [OF ev_okD(2)] by (simp add: ntimers_of_def)

text \<open>The operations, for which the invariant gives the preconditions of their lemmas.\<close>

lemma freshD:
  assumes "fresh S p" "queued_ok S h Q" "idle_ok S I"
  shows "p \<noteq> NULL" "es_mem S p = None" "p \<notin> queued Q" "p \<notin> insert (lp_idles (es_loop S)) (set I)"
  using assms queued_dom [of S h Q p] idle_okD(1) [OF assms(3)] by (auto simp: fresh_def ring_def)

lemma new_timer_loop_ok:
  assumes ok: "loop_ok S h T I Q" and p: "fresh S p"
    and S': "ev_ok S' (T(sel := insert p (T sel)))" "es_mem S' = (es_mem S)(p \<mapsto> t)" "\<not> et_pending t" "same_idles S S'"
  shows "loop_ok S' h (T(sel := insert p (T sel))) I Q"
proof -
  note d = loop_okD [OF ok]
  have t: "et_type t = sel_type sel \<and> \<not> et_destroy t \<and> (sel = Timers \<longrightarrow> et_timeout t \<noteq> 0)"
    using S'(2) by (intro timers_okD(1) [OF ev_okD(2) [OF S'(1)], of p]) simp_all
  note p = freshD [OF p d(3,4)]
  have "queued_ok S' h Q" using S'(2,3) p(3) by (intro queued_ok_outside [OF d(3)]) auto
  moreover have "p \<notin> T sel'" for sel' using timers_okD(2) [OF ev_okD(2) [OF d(1)]] p(2) by force
  then have "life_ok S' (T(sel := insert p (T sel))) I"
    using S'(2,3) t p(1,4) by (intro life_ok_change [OF d(2), of p]) (cases sel; auto)+
  moreover have "idle_ok S' I" using S'(2,4) p(4) by (intro idle_ok_frame [OF d(4)]) (auto simp: same_idles_def)
  ultimately show ?thesis using S'(1) by (simp add: loop_ok_def)
qed

lemma not_idle:
  assumes "idle_ok S I" "es_mem S p = Some t" "et_type t \<noteq> EVENT_TYPE_IDLE"
  shows "p \<notin> insert (lp_idles (es_loop S)) (set I)"
  using idle_okD(2,3) [OF assms(1)] assms(2,3) by fastforce

lemma evtimer_reset_loop_ok:
  assumes ok: "loop_ok S h T I Q" and n: "unat (lp_ntimers (es_loop S)) + 1 < 2 ^ 31" and p: "es_mem S p = Some t"
  shows "\<exists>S' T' I'. evtimer_reset S p ms = Some S' \<and> loop_ok S' h T' I' Q"
proof (cases "et_type t = EVENT_TYPE_TIMEOUT")
  case False
  then show ?thesis using ok p by (auto simp: evtimer_reset_def)
next
  case True
  note d = loop_okD [OF ok] and l = life_okD [OF loop_okD(2) [OF ok] p]
  have pI: "p \<notin> insert (lp_idles (es_loop S)) (set I)" using not_idle [OF d(4) p] True by simp
  have "et_destroy t \<longleftrightarrow> p \<notin> T Timers" using l(2) l(4) [OF True] pI by auto
  then obtain S' t' where r: "evtimer_reset S p ms = Some S'" "ev_ok S' (T(Timers := insert p (T Timers)))"
    "es_mem S' = (es_mem S)(p \<mapsto> t')" "et_timeout t' = (if ms > 0 then ms else et_timeout t)" "\<not> et_pending t'" "\<not> et_destroy t'"
    "et_type t' = et_type t" "et_priority t' = et_priority t" "et_pending_next t' = et_pending_next t"
    using evtimer_reset_ok [OF d(1) p True, of ms] l(4) [OF True] n ntimers_eq [OF d(1)] by auto
  have "queued_ok S' h Q" using r by (intro queued_ok_update [OF d(3) p r(3)]) auto
  moreover have "life_ok S' (T(Timers := insert p (T Timers))) I"
    using r(3-7) l(1) l(4) [OF True] by (intro life_ok_change [OF d(2), of p]) (auto simp: word_gt_0)
  moreover have "idle_ok S' I"
    using r(3) pI evtimer_reset_idles [OF r(1)] by (intro idle_ok_frame [OF d(4)]) (auto simp: same_idles_def)
  ultimately show ?thesis using r(1,2) unfolding loop_ok_def by blast
qed

text \<open>The two deletions.\<close>

lemma deleted_loop_ok:
  assumes ok: "loop_ok S h T I Q" and p: "es_mem S p = Some t" "et_pending t \<or> p \<notin> queued Q"
    and S': "ev_ok S' T'" "idle_ok S' I'" "\<forall>q. q \<noteq> p \<longrightarrow> es_mem S' q = es_mem S q"
      "es_mem S' p = (if et_pending t then Some (t\<lparr>et_destroy := True, et_active := False\<rparr>) else None)"
    and T': "\<And>sel. T' sel = T sel - {p}" "set I' = set I - {p}"
  shows "loop_ok S' h T' I' Q"
proof -
  note d = loop_okD [OF ok] and l = life_okD [OF loop_okD(2) [OF ok] p(1)]
  have "queued_ok S' h Q"
  proof (cases "et_pending t")
    case True
    then have "es_mem S' = (es_mem S)(p \<mapsto> t\<lparr>et_destroy := True, et_active := False\<rparr>)" using S'(3,4) by auto
    from queued_ok_update [OF d(3) p(1) this] show ?thesis by simp
  next
    case False
    then show ?thesis using S'(3,4) p(2) by (intro queued_ok_outside [OF d(3), of p]) auto
  qed
  moreover have "life_ok S' T' I'"
    using S'(3,4) l(1,4) T' by (intro life_ok_change [OF d(2), of p]) (auto split: if_splits)
  ultimately show ?thesis using S'(1,2) by (simp add: loop_ok_def)
qed

lemma evtimer_del_loop_ok:
  assumes ok: "loop_ok S h T I Q" and p: "es_mem S p = Some t" "et_type t \<noteq> EVENT_TYPE_IDLE" "et_pending t \<or> p \<notin> queued Q"
  shows "\<exists>S' T' I'. evtimer_del S p = Some S' \<and> loop_ok S' h T' I' Q"
proof (cases "et_active t")
  case False
  then show ?thesis using ok p by (auto simp: evtimer_del_def)
next
  case True
  note d = loop_okD [OF ok] and l = life_okD [OF loop_okD(2) [OF ok] p(1)]
  have pI: "p \<notin> insert (lp_idles (es_loop S)) (set I)" by (rule not_idle [OF d(4) p(1,2)])
  then have "et_destroy t \<longleftrightarrow> p \<notin> T Timers \<union> T Realtimers" using l(2) by auto
  then obtain S' where r: "evtimer_del S p = Some S'" "ev_ok S' (\<lambda>sel. T sel - {p})" "\<forall>q. q \<noteq> p \<longrightarrow> es_mem S' q = es_mem S q"
    "es_mem S' p = (if et_pending t then Some (t\<lparr>et_destroy := True, et_active := False\<rparr>) else None)"
    using evtimer_del_ok [OF d(1) p(1) True] by blast
  have "q \<noteq> p" if "q \<in> insert (lp_idles (es_loop S)) (set I)" for q using that pI by blast
  then have "idle_ok S' I" using r(3) evtimer_del_idles [OF r(1)] by (intro idle_ok_frame [OF d(4)]) auto
  then have "loop_ok S' h (\<lambda>sel. T sel - {p}) I Q" using pI by (intro deleted_loop_ok [OF ok p(1,3) r(2) _ r(3,4)]) auto
  then show ?thesis using r(1) by blast
qed

lemma evidle_del_loop_ok:
  assumes ok: "loop_ok S h T I Q" and p: "es_mem S p = Some t" "et_type t = EVENT_TYPE_IDLE" "et_pending t \<or> p \<notin> queued Q"
  shows "\<exists>S' T' I'. evidle_del S p = Some S' \<and> loop_ok S' h T' I' Q"
proof (cases "et_active t")
  case False
  then show ?thesis using ok p by (auto simp: evidle_del_def)
next
  case True
  note d = loop_okD [OF ok] and l = life_okD [OF loop_okD(2) [OF ok] p(1)]
  have pT: "p \<notin> T sel" for sel by (rule idle_not_in_heap [OF d(1) p(1,2)])
  then have "et_destroy t \<longleftrightarrow> p \<notin> set I" using l(2) by auto
  then obtain S' where r: "evidle_del S p = Some S'" "ev_ok S' T" "idle_ok S' (remove1 p I)" "\<forall>q. q \<noteq> p \<longrightarrow> es_mem S' q = es_mem S q"
    "es_mem S' p = (if et_pending t then Some (t\<lparr>et_destroy := True, et_active := False\<rparr>) else None)"
    using evidle_del_ok [OF d(1,4) p(1,2) True] by blast
  have "distinct I" using idle_okD(1) [OF d(4)] by (simp add: ring_def)
  then have "loop_ok S' h T (remove1 p I) Q" using pT by (intro deleted_loop_ok [OF ok p(1,3) r(2-5)]) auto
  then show ?thesis using r(1) by blast
qed

lemma evidle_add_loop_ok:
  assumes ok: "loop_ok S h T I Q" and a: "fresh S (alloc S)" "unat (lp_nidles (es_loop S)) + 1 < 2 ^ 32"
  shows "\<exists>S'. evidle_add alloc S cb rep = Some (S', alloc S) \<and> loop_ok S' h T (alloc S # I) Q"
proof -
  note d = loop_okD [OF ok] note f = freshD [OF a(1) d(3,4)]
  obtain S' t where r: "evidle_add alloc S cb rep = Some (S', alloc S)" "ev_ok S' T" "idle_ok S' (alloc S # I)"
    "es_mem S' = (es_mem S)(alloc S \<mapsto> t)" "et_type t = EVENT_TYPE_IDLE" "\<not> et_pending t" "\<not> et_destroy t"
    using evidle_add_ok [OF d(1,4), of alloc cb rep] a idle_okD(4) [OF d(4)] by (auto simp: fresh_def)
  have "queued_ok S' h Q" using r(4,6) f(3) by (intro queued_ok_outside [OF d(3)]) auto
  moreover have "life_ok S' T (alloc S # I)" using r(4-7) f(1) by (intro life_ok_change [OF d(2), of "alloc S"]) auto
  ultimately show ?thesis using r(1-3) by (simp add: loop_ok_def)
qed

lemma api_step_ok:
  assumes "api_step (queued Q) S S'" "loop_ok S h T I Q"
  shows "same_queue S S' \<and> (\<exists>T' I'. loop_ok S' h T' I' Q)"
  using assms
proof (induction rule: api_step.induct)
  case (add S alloc ck cb ms rep S' r)
  note ok = loop_okD(1) [OF add.prems]
  have "\<exists>T' I'. loop_ok S' h T' I' Q"
  proof (cases "ms = 0")
    case False
    then obtain t where "ev_ok S' (T(Timers := insert (alloc S) (T Timers)))" "es_mem S' = (es_mem S)(alloc S \<mapsto> t)" "\<not> et_pending t"
      using evtimer_add_ok [OF ok, of alloc ms ck cb rep] add.hyps ntimers_eq [OF ok] by (auto simp: fresh_def)
    then show ?thesis using new_timer_loop_ok [OF add.prems add.hyps(1) _ _ _ evtimer_add_idles [OF add.hyps(3)]] by blast
  qed (use add in \<open>auto simp: evtimer_add_def\<close>)
  then show ?case using evtimer_add_queue [OF add.hyps(3)] by simp
next
  case (add_period S alloc cal cb minute hour day week month rep S' r)
  note ok = loop_okD(1) [OF add_period.prems]
  have "\<exists>T' I'. loop_ok S' h T' I' Q"
  proof (cases "minute > 59 \<or> hour > 23 \<or> day > 31 \<or> week > 6 \<or> month > 12")
    case False
    then obtain t where "ev_ok S' (T(Realtimers := insert (alloc S) (T Realtimers)))" "es_mem S' = (es_mem S)(alloc S \<mapsto> t)" "\<not> et_pending t"
      using evtimer_add_period_ok [OF ok, of alloc minute hour day week month cal cb rep] add_period.hyps ntimers_eq [OF ok] by (auto simp: fresh_def)
    then show ?thesis
      using new_timer_loop_ok [OF add_period.prems add_period.hyps(1) _ _ _ evtimer_add_period_idles [OF add_period.hyps(3)]] by blast
  qed (use add_period in \<open>auto simp: evtimer_add_period_def\<close>)
  then show ?case using evtimer_add_period_queue [OF add_period.hyps(3)] by simp
next
  case (reset S p ms S')
  then obtain t where "es_mem S p = Some t" by (auto simp: evtimer_reset_def split: Option.bind_split_asm)
  from evtimer_reset_loop_ok [OF reset.prems reset.hyps(1) this, of ms] show ?case
    using reset.hyps(2) evtimer_reset_queue [OF reset.hyps(2)] by simp
next
  case (del S p t S')
  from evtimer_del_loop_ok [OF del.prems del.hyps(1-3)] show ?case
    using del.hyps(4) evtimer_del_queue [OF del.hyps(4)] by simp
next
  case (idle_add S alloc cb rep S' r)
  from evidle_add_loop_ok [of S h T I Q alloc cb rep, OF idle_add.prems idle_add.hyps(1,2)] show ?case
    using idle_add.hyps(3) evidle_queue(1) [OF idle_add.hyps(3)] by fastforce
next
  case (idle_del S p t S')
  from evidle_del_loop_ok [OF idle_del.prems idle_del.hyps(1-3)] show ?case
    using idle_del.hyps(4) evidle_queue(2) [OF idle_del.hyps(4)] by simp
qed

lemma api_steps_ok:
  assumes "(api_step (queued Q))\<^sup>*\<^sup>* S S'" "loop_ok S h T I Q"
  shows "same_queue S S' \<and> (\<exists>T' I'. loop_ok S' h T' I' Q)"
  using assms(1)
proof (induction rule: rtranclp_induct)
  case base
  then show ?case using assms(2) by auto
next
  case (step S1 S2)
  then show ?case using api_step_ok same_queue_trans by blast
qed

section \<open>Running the pending callbacks\<close>

text \<open>
  What is asked of the callbacks: called for a pending timer in a state in which the invariant
  holds, a callback returns after steps of the timer interface.
\<close>

definition callbacks_ok :: "(nat \<Rightarrow> ptr \<Rightarrow> ev_state \<Rightarrow> ev_state option) \<Rightarrow> bool" where
  "callbacks_ok cbs \<longleftrightarrow> (\<forall>p S h T I Q t. loop_ok S h T I Q \<longrightarrow> es_mem S p = Some t \<longrightarrow> et_pending t \<longrightarrow> et_active t \<longrightarrow>
     (\<exists>S'. cbs (et_cb t) p S = Some S' \<and> (api_step (queued Q))\<^sup>*\<^sup>* S S'))"

text \<open>Callbacks that leave the timers alone.\<close>

definition quiet :: "(nat \<Rightarrow> ptr \<Rightarrow> ev_state \<Rightarrow> ev_state option) \<Rightarrow> bool" where
  "quiet cbs \<longleftrightarrow> (\<forall>c p S. cbs c p S = Some S)"

lemma quiet_ok: "quiet cbs \<Longrightarrow> callbacks_ok cbs"
  by (auto simp: quiet_def callbacks_ok_def)

lemma loop_ok_calls [simp]: "loop_ok (S\<lparr>es_calls := cs\<rparr>) h T I Q \<longleftrightarrow> loop_ok S h T I Q"
  by (simp add: loop_ok_def life_ok_def queued_ok_def idle_ok_def)

lemma chain_Cons: "chain m p (x # xs) \<Longrightarrow> \<exists>t. m p = Some t \<and> x = p \<and> p \<noteq> NULL \<and> chain m (et_pending_next t) xs"
  by auto

lemma chain_unique: "chain m p xs \<Longrightarrow> chain m' p' xs \<Longrightarrow> p = p'"
  by (cases xs) auto

text \<open>The calls for a list of timers: those that are pending, active and have a callback.\<close>

definition ready :: "timer_mem \<Rightarrow> ptr \<Rightarrow> bool" where
  "ready m p \<longleftrightarrow> (\<exists>t. m p = Some t \<and> et_pending t \<and> et_active t \<and> et_cb t \<noteq> 0)"

definition calls_of :: "timer_mem \<Rightarrow> ptr list \<Rightarrow> (nat \<times> ptr) list" where
  "calls_of m xs = map (\<lambda>p. (et_cb (the (m p)), p)) (filter (ready m) xs)"

lemma calls_of_simps [simp]:
  "calls_of m [] = []" "calls_of m (xs @ ys) = calls_of m xs @ calls_of m ys"
  by (simp_all add: calls_of_def)

lemma calls_of_cong: "(\<And>x. x \<in> set xs \<Longrightarrow> m' x = m x) \<Longrightarrow> calls_of m' xs = calls_of m xs"
  unfolding calls_of_def ready_def by (auto cong: filter_cong)

lemma calls_of_subseq: "subseq (map snd (calls_of m xs)) xs"
  by (simp add: calls_of_def comp_def)

text \<open>The first timer of list \<open>i\<close> is done: no longer pending, and gone when it was destroyed.\<close>

lemma queued_pop:
  assumes q: "queued_ok S h Q" and i: "i < 11" "Q i = cur # xs" and t: "es_mem S cur = Some t"
    and S': "\<And>x. x \<noteq> cur \<Longrightarrow> es_mem S' x = es_mem S x"
      "\<And>u. es_mem S' cur = Some u \<Longrightarrow> \<not> et_pending u"
  shows "queued_ok S' (h(i := et_pending_next t)) (Q(i := xs))"
proof -
  have c: "chain (es_mem S) (h i) (cur # xs)" "cur \<notin> set xs" "prio_index (es_mem S) cur = i"
    using q i by (auto simp: queued_ok_def)
  have n: "x \<noteq> cur" if "j < 11" "x \<in> set ((Q(i := xs)) j)" for x j
    using q that c(2,3) by (auto simp: queued_ok_def split: if_splits)
  have pi: "prio_index (es_mem S') x = prio_index (es_mem S) x" if "x \<noteq> cur" for x
    using S'(1) [OF that] by (simp add: prio_index_def)
  have "chain (es_mem S') ((h(i := et_pending_next t)) j) ((Q(i := xs)) j)" if j: "j < 11" for j
  proof -
    have "chain (es_mem S) ((h(i := et_pending_next t)) j) ((Q(i := xs)) j)"
      using q j t chain_Cons [OF c(1)] c(1) by (auto simp: queued_ok_def)
    then show ?thesis using chain_cong [of "(Q(i := xs)) j" "es_mem S'" "es_mem S"] S'(1) n [OF j] by blast
  qed
  moreover have "distinct ((Q(i := xs)) j) \<and> (\<forall>x \<in> set ((Q(i := xs)) j). prio_index (es_mem S') x = j)" if j: "j < 11" for j
    using q i(2) j n [OF j] pi by (cases "j = i") (auto simp: queued_ok_def)
  moreover have "x \<in> set ((Q(i := xs)) (prio_index (es_mem S') x))" if "es_mem S' x = Some u" "et_pending u" for x u
  proof -
    have x: "x \<noteq> cur" using S'(2) that by auto
    then have "x \<in> set (Q (prio_index (es_mem S) x))" using q that S'(1) by (auto simp: queued_ok_def)
    then show ?thesis using x pi [OF x] i(2) by auto
  qed
  ultimately show ?thesis by (simp add: queued_ok_def)
qed

text \<open>The end of the body of the loop, after the callback.\<close>

lemma pending_done_ok:
  assumes ok: "loop_ok S h T I Q" and i: "i < 11" "Q i = cur # xs" and t: "es_mem S cur = Some t"
  shows "\<exists>S'. do { S \<leftarrow> upd_timer S cur (\<lambda>t. t\<lparr>et_pending := False\<rparr>); t \<leftarrow> es_mem S cur;
      if et_destroy t then EVENT_DEL S cur else Some S } = Some S' \<and>
    loop_ok S' (h(i := et_pending_next t)) T I (Q(i := xs)) \<and> same_queue S S' \<and> (\<forall>x. x \<noteq> cur \<longrightarrow> es_mem S' x = es_mem S x)"
proof -
  note d = loop_okD [OF ok] and l = life_okD [OF loop_okD(2) [OF ok] t]
  let ?t = "t\<lparr>et_pending := False\<rparr>" let ?S = "S\<lparr>es_mem := (es_mem S)(cur \<mapsto> ?t)\<rparr>"
  have o: "ev_ok ?S T"
    using ev_ok_update [OF d(1) t, of ?t "es_loop S"] timers_okD(6) [OF ev_okD(2) [OF d(1)]] by simp
  have i1: "idle_ok ?S I" by (rule idle_ok_update [OF d(4) t]) (simp_all add: same_idles_def)
  have "\<exists>S'. (if et_destroy t then EVENT_DEL ?S cur else Some ?S) = Some S' \<and> ev_ok S' T \<and> same_queue S S' \<and> idle_ok S' I \<and>
      (\<forall>x. x \<noteq> cur \<longrightarrow> es_mem S' x = es_mem S x) \<and> es_mem S' cur = (if et_destroy t then None else Some ?t)"
  proof (cases "et_destroy t")
    case True
    then obtain S' where r: "EVENT_DEL ?S cur = Some S'" "ev_ok S' T" "\<forall>q. q \<noteq> cur \<longrightarrow> es_mem S' q = es_mem ?S q" "es_mem S' cur = None"
      using EVENT_DEL_ok [OF o, of cur ?t] l(2) by auto
    have "x \<noteq> cur" if "x \<in> insert (lp_idles (es_loop ?S)) (set I)" for x
      using that True l(2) idle_okD(2) [OF d(4)] t by auto
    then have "idle_ok S' I" using r(3) EVENT_DEL_links [OF r(1)] by (intro idle_ok_frame [OF i1]) auto
    then show ?thesis using True r event_op_queue(3) [OF r(1)] by (auto simp: same_queue_def)
  qed (use o i1 in \<open>auto simp: same_queue_def\<close>)
  then obtain S' where r: "(if et_destroy t then EVENT_DEL ?S cur else Some ?S) = Some S'" "ev_ok S' T" "same_queue S S'"
    "\<forall>x. x \<noteq> cur \<longrightarrow> es_mem S' x = es_mem S x" "es_mem S' cur = (if et_destroy t then None else Some ?t)" "idle_ok S' I" by blast
  have "queued_ok S' (h(i := et_pending_next t)) (Q(i := xs))"
    using r(4,5) by (intro queued_pop [OF d(3) i t]) (auto split: if_splits)
  moreover have "life_ok S' T I"
    using r(4,5) l by (intro life_ok_change [OF d(2), of cur]) (auto split: if_splits)
  ultimately show ?thesis using r(1-4,6) t by (simp add: upd_timer_def loop_ok_def)
qed

lemma run_pending_ok:
  assumes cbs: "callbacks_ok cbs" and ok: "loop_ok S h T I Q" and i: "i < 11" "Q i = cur # xs" and t: "es_mem S cur = Some t"
  shows "\<exists>S' T' I' cs. run_pending cbs S cur n = Some (S', n + length cs) \<and>
    loop_ok S' (h(i := et_pending_next t)) T' I' (Q(i := xs)) \<and> lp_pendings (es_loop S') = lp_pendings (es_loop S) \<and>
    es_calls S' = es_calls S @ cs \<and> cs = calls_of (es_mem S) [cur] \<and>
    (quiet cbs \<longrightarrow> T' = T \<and> I' = I \<and> (\<forall>x. x \<noteq> cur \<longrightarrow> es_mem S' x = es_mem S x))"
proof (cases "et_pending t")
  case False
  note d = loop_okD [OF ok]
  have "queued_ok S (h(i := et_pending_next t)) (Q(i := xs))"
    using False t by (intro queued_pop [OF d(3) i t]) auto
  then show ?thesis using False t d(1,2,4) by (intro exI [of _ S] exI [of _ T] exI [of _ I] exI [of _ "[]"]) (simp add: run_pending_def loop_ok_def calls_of_def ready_def)
next
  case True
  let ?S0 = "S\<lparr>es_calls := es_calls S @ [(et_cb t, cur)]\<rparr>"
  have "\<exists>S1 T1 I1 cs. (if et_active t \<and> et_cb t \<noteq> 0 then do { S \<leftarrow> cbs (et_cb t) cur ?S0; Some (S, n + 1) } else Some (S, n)) =
      Some (S1, n + length cs) \<and> loop_ok S1 h T1 I1 Q \<and> lp_pendings (es_loop S1) = lp_pendings (es_loop S) \<and>
      es_calls S1 = es_calls S @ cs \<and> cs = calls_of (es_mem S) [cur] \<and>
      (quiet cbs \<longrightarrow> T1 = T \<and> I1 = I \<and> es_mem S1 = es_mem S)"
  proof (cases "et_active t \<and> et_cb t \<noteq> 0")
    case a: True
    have ok0: "loop_ok ?S0 h T I Q" using ok by simp
    obtain S1 where s: "cbs (et_cb t) cur ?S0 = Some S1" "(api_step (queued Q))\<^sup>*\<^sup>* ?S0 S1"
      using cbs [unfolded callbacks_ok_def, rule_format, OF ok0 _ True] t a by auto
    show ?thesis
    proof (cases "quiet cbs")
      case True
      then show ?thesis using a t ok0 \<open>et_pending t\<close> by (intro exI [of _ ?S0]) (auto simp: quiet_def calls_of_def ready_def)
    next
      case False
      then show ?thesis
        using api_steps_ok [OF s(2) ok0] s(1) a t \<open>et_pending t\<close> by (auto simp: same_queue_def calls_of_def ready_def)
    qed
  qed (use ok t True in \<open>auto simp: calls_of_def ready_def\<close>)
  then obtain S1 T1 I1 cs where 1: "(if et_active t \<and> et_cb t \<noteq> 0 then do { S \<leftarrow> cbs (et_cb t) cur ?S0; Some (S, n + 1) } else Some (S, n)) =
      Some (S1, n + length cs)" "loop_ok S1 h T1 I1 Q" "lp_pendings (es_loop S1) = lp_pendings (es_loop S)"
      "es_calls S1 = es_calls S @ cs" "cs = calls_of (es_mem S) [cur]"
      "quiet cbs \<longrightarrow> T1 = T \<and> I1 = I \<and> es_mem S1 = es_mem S" by blast
  have c: "chain (es_mem S) (h i) (cur # xs)" "chain (es_mem S1) (h i) (cur # xs)"
    using loop_okD(3) [OF ok] loop_okD(3) [OF 1(2)] i by (auto simp: queued_ok_def)
  then obtain t1 where t1: "es_mem S1 cur = Some t1" "chain (es_mem S1) (et_pending_next t1) xs" by auto
  then have "et_pending_next t1 = et_pending_next t" using c(1) t chain_unique by auto
  then obtain S2 where 2: "do { S \<leftarrow> upd_timer S1 cur (\<lambda>t. t\<lparr>et_pending := False\<rparr>); t \<leftarrow> es_mem S cur;
      if et_destroy t then EVENT_DEL S cur else Some S } = Some S2"
    "loop_ok S2 (h(i := et_pending_next t)) T1 I1 (Q(i := xs))" "same_queue S1 S2" "\<forall>x. x \<noteq> cur \<longrightarrow> es_mem S2 x = es_mem S1 x"
    using pending_done_ok [OF 1(2) i t1(1)] by auto
  have "run_pending cbs S cur n = Some (S2, n + length cs)"
    using True t 1(1) 2(1) by (auto simp: run_pending_def split: Option.bind_split_asm simp del: One_nat_def add_Suc_right)
  then show ?thesis
    using 2(2-4) 1(3-6) by (intro exI [of _ S2] exI [of _ T1] exI [of _ I1] exI [of _ cs]) (simp add: same_queue_def)
qed

text \<open>A pending list: the loop ends, and the callbacks run in the order of the list, each at most once.\<close>

lemma pending_loop_ok:
  assumes "callbacks_ok cbs" "loop_ok S h T I Q" "i < 11"
  shows "\<exists>S' T' I' cs. pending_loop cbs S (h i) n = Some (S', n + length cs) \<and> loop_ok S' (h(i := NULL)) T' I' (Q(i := [])) \<and>
    lp_pendings (es_loop S') = lp_pendings (es_loop S) \<and> es_calls S' = es_calls S @ cs \<and> subseq (map snd cs) (Q i) \<and>
    (quiet cbs \<longrightarrow> T' = T \<and> I' = I \<and> cs = calls_of (es_mem S) (Q i) \<and> (\<forall>x. x \<notin> set (Q i) \<longrightarrow> es_mem S' x = es_mem S x))"
  using assms(2)
proof (induction "Q i" arbitrary: S h T I Q n)
  case Nil
  then have "h i = NULL" using loop_okD(3) [OF Nil.prems] assms(3) by (auto simp: queued_ok_def)
  then show ?case using Nil by (subst pending_loop.simps) (force simp: fun_upd_idem)
next
  case (Cons cur xs)
  have "chain (es_mem S) (h i) (cur # xs)" using loop_okD(3) [OF Cons.prems] assms(3) Cons.hyps(2) by (simp add: queued_ok_def)
  then obtain t where t: "h i = cur" "cur \<noteq> NULL" "es_mem S cur = Some t" by auto
  obtain S1 T1 I1 cs where 1: "run_pending cbs S cur n = Some (S1, n + length cs)"
    "loop_ok S1 (h(i := et_pending_next t)) T1 I1 (Q(i := xs))" "lp_pendings (es_loop S1) = lp_pendings (es_loop S)"
    "es_calls S1 = es_calls S @ cs" "cs = calls_of (es_mem S) [cur]"
    "quiet cbs \<longrightarrow> T1 = T \<and> I1 = I \<and> (\<forall>x. x \<noteq> cur \<longrightarrow> es_mem S1 x = es_mem S x)"
    using run_pending_ok [OF assms(1) Cons.prems assms(3) Cons.hyps(2) [symmetric] t(3)] by blast
  have xs: "xs = (Q(i := xs)) i" by simp
  obtain S2 T2 I2 cs2 where 2: "pending_loop cbs S1 (et_pending_next t) (n + length cs) = Some (S2, n + length cs + length cs2)"
    "loop_ok S2 (h(i := NULL)) T2 I2 (Q(i := []))" "lp_pendings (es_loop S2) = lp_pendings (es_loop S1)"
    "es_calls S2 = es_calls S1 @ cs2" "subseq (map snd cs2) xs"
    "quiet cbs \<longrightarrow> T2 = T1 \<and> I2 = I1 \<and> cs2 = calls_of (es_mem S1) xs \<and> (\<forall>x. x \<notin> set xs \<longrightarrow> es_mem S2 x = es_mem S1 x)"
    using Cons.hyps(1) [OF xs 1(2), of "n + length cs"] by auto
  have "pending_loop cbs S (h i) n = Some (S2, n + length (cs @ cs2))"
    using t 1(1) 2(1) by (subst pending_loop.simps) (simp add: add.assoc)
  moreover have "subseq (map snd (cs @ cs2)) (Q i)"
    unfolding Cons.hyps(2) [symmetric] using 2(5) by (auto simp: 1(5) calls_of_def)
  moreover have "T2 = T \<and> I2 = I \<and> cs @ cs2 = calls_of (es_mem S) (Q i) \<and> (\<forall>x. x \<notin> set (Q i) \<longrightarrow> es_mem S2 x = es_mem S x)"
    if quiet: "quiet cbs"
  proof -
    have "cur \<notin> set xs" using loop_okD(3) [OF Cons.prems] assms(3) Cons.hyps(2) [symmetric] by (auto simp: queued_ok_def)
    then have "calls_of (es_mem S1) xs = calls_of (es_mem S) xs" using 1(6) quiet by (intro calls_of_cong) auto
    then show ?thesis
      using 1(5,6) 2(6) quiet calls_of_simps(2) [of "es_mem S" "[cur]" xs] Cons.hyps(2) [symmetric] by auto
  qed
  ultimately show ?case using 1(3,4) 2(2-4) by (intro exI [of _ S2] exI [of _ T2] exI [of _ I2] exI [of _ "cs @ cs2"]) simp
qed

lemma ev_ok_loop:
  assumes "ev_ok S T" "\<And>sel. sel_heap sel L = sel_heap sel (es_loop S)" "lp_ntimers L = lp_ntimers (es_loop S)"
    "length (lp_pendings L) = 11"
  shows "ev_ok (S\<lparr>es_loop := L\<rparr>) T"
  using assms by (simp add: ev_ok_def heaps_ok_def timers_ok_def)

text \<open>Only the memory and the heads below 11 matter to the queues.\<close>

lemma loop_ok_loop:
  assumes ok: "loop_ok S h T I Q" and L: "\<And>sel. sel_heap sel L = sel_heap sel (es_loop S)" "lp_ntimers L = lp_ntimers (es_loop S)"
      "length (lp_pendings L) = 11" "lp_idles L = lp_idles (es_loop S)" "lp_nidles L = lp_nidles (es_loop S)"
    and h: "\<And>j. j < 11 \<Longrightarrow> h' j = h j" and Q: "\<And>j. j < 11 \<Longrightarrow> Q' j = Q j"
  shows "loop_ok (S\<lparr>es_loop := L\<rparr>) h' T I Q'"
proof -
  note d = loop_okD [OF ok]
  have p: "prio_index (es_mem S) x < 11" if "es_mem S x = Some t" for x t
    using timers_okD(3) [OF ev_okD(2) [OF d(1)] that] that by (auto simp: prio_index_def nat_less_iff)
  have "queued_ok (S\<lparr>es_loop := L\<rparr>) h' Q'"
    unfolding queued_ok_def
  proof (intro conjI allI impI)
    fix x t assume x: "es_mem (S\<lparr>es_loop := L\<rparr>) x = Some t" "et_pending t"
    then have "x \<in> set (Q (prio_index (es_mem S) x))" using d(3) by (auto simp: queued_ok_def)
    then show "x \<in> set (Q' (prio_index (es_mem (S\<lparr>es_loop := L\<rparr>)) x))" using Q p x(1) by simp
  qed (use d(3) h Q in \<open>simp_all add: queued_ok_def\<close>)
  moreover have "life_ok (S\<lparr>es_loop := L\<rparr>) T I" using life_ok_mem [of "S\<lparr>es_loop := L\<rparr>" S T] d(2) by simp
  moreover have "idle_ok (S\<lparr>es_loop := L\<rparr>) I" using d(4) L(4,5) by (simp add: idle_ok_def)
  ultimately show ?thesis using ev_ok_loop [OF d(1) L(1-3)] unfolding loop_ok_def by blast
qed

abbreviation pending_heads :: "ev_state \<Rightarrow> nat \<Rightarrow> ptr" where
  "pending_heads S j \<equiv> lp_pendings (es_loop S) ! j"

lemma pending_lists_ok:
  assumes "callbacks_ok cbs" "loop_ok S (pending_heads S) T I Q" "k \<le> 11"
  shows "\<exists>S' T' I' cs. pending_lists cbs S k n = Some (S', n + length cs) \<and>
    loop_ok S' (pending_heads S') T' I' (\<lambda>j. if j < k then [] else Q j) \<and> es_calls S' = es_calls S @ cs \<and>
    subseq (map snd cs) (concat (map Q (rev [0..<k]))) \<and>
    (quiet cbs \<longrightarrow> T' = T \<and> I' = I \<and> cs = calls_of (es_mem S) (concat (map Q (rev [0..<k]))))"
  using assms(2,3)
proof (induction k arbitrary: S T I Q n)
  case 0
  then show ?case by (intro exI [of _ S] exI [of _ T] exI [of _ I] exI [of _ "[]"]) simp
next
  case (Suc k)
  have k: "k < 11" "length (lp_pendings (es_loop S)) = 11"
    using Suc.prems(2) timers_okD(6) [OF ev_okD(2) [OF loop_okD(1) [OF Suc.prems(1)]]] by auto
  obtain S1 T1 I1 cs where 1: "pending_loop cbs S (pending_heads S k) n = Some (S1, n + length cs)"
    "loop_ok S1 ((pending_heads S)(k := NULL)) T1 I1 (Q(k := []))" "lp_pendings (es_loop S1) = lp_pendings (es_loop S)"
    "es_calls S1 = es_calls S @ cs" "subseq (map snd cs) (Q k)"
    "quiet cbs \<longrightarrow> T1 = T \<and> I1 = I \<and> cs = calls_of (es_mem S) (Q k) \<and> (\<forall>x. x \<notin> set (Q k) \<longrightarrow> es_mem S1 x = es_mem S x)"
    using pending_loop_ok [OF assms(1) Suc.prems(1) k(1), of n] by blast
  define S2 where "S2 = upd_loop S1 (\<lambda>L. L\<lparr>lp_pendings := (lp_pendings (es_loop S))[k := NULL]\<rparr>)"
  have S2: "es_mem S2 = es_mem S1" "es_calls S2 = es_calls S1" by (simp_all add: S2_def upd_loop_def)
  have "loop_ok S2 (pending_heads S2) T1 I1 (Q(k := []))"
    unfolding S2_def upd_loop_def using k by (intro loop_ok_loop [OF 1(2)]) (auto simp: nth_list_update)
  from Suc.IH [OF this, of "n + length cs"] obtain S3 T3 I3 cs3 where
    3: "pending_lists cbs S2 k (n + length cs) = Some (S3, n + length cs + length cs3)"
    "loop_ok S3 (pending_heads S3) T3 I3 (\<lambda>j. if j < k then [] else (Q(k := [])) j)" "es_calls S3 = es_calls S2 @ cs3"
    "subseq (map snd cs3) (concat (map (Q(k := [])) (rev [0..<k])))"
    "quiet cbs \<longrightarrow> T3 = T1 \<and> I3 = I1 \<and> cs3 = calls_of (es_mem S2) (concat (map (Q(k := [])) (rev [0..<k])))"
    using Suc.prems(2) by (auto simp del: fun_upd_apply)
  have Q: "map (Q(k := [])) (rev [0..<k]) = map Q (rev [0..<k])" by simp
  have Q': "(\<lambda>j. if j < k then [] else (Q(k := [])) j) = (\<lambda>j. if j < Suc k then [] else Q j)" by (auto simp: fun_eq_iff less_Suc_eq)
  have "pending_lists cbs S (Suc k) n = Some (S3, n + length (cs @ cs3))"
    using k 1(1,3) 3(1) by (simp add: mem_read_def mem_write_def S2_def add.assoc)
  moreover have "T3 = T \<and> I3 = I \<and> cs @ cs3 = calls_of (es_mem S) (concat (map Q (rev [0..<Suc k])))" if q: "quiet cbs"
  proof -
    have "x \<notin> set (Q k)" if x: "x \<in> set (concat (map Q (rev [0..<k])))" for x
    proof -
      obtain j where j: "j < k" "x \<in> set (Q j)" using x by auto
      then have "prio_index (es_mem S) x = j" using loop_okD(3) [OF Suc.prems(1)] k(1) by (simp add: queued_ok_def)
      then show ?thesis using j(1) loop_okD(3) [OF Suc.prems(1)] k(1) by (auto simp: queued_ok_def)
    qed
    then have "calls_of (es_mem S2) (concat (map Q (rev [0..<k]))) = calls_of (es_mem S) (concat (map Q (rev [0..<k])))"
      using 1(6) q S2(1) by (intro calls_of_cong) auto
    then show ?thesis using 1(6) 3(5) q Q by simp
  qed
  ultimately show ?case
    using 1(4,5) 3(2-4) S2(2) Q Q' list_emb_append_mono [of "(=)" "map snd cs" "Q k"]
    by (intro exI [of _ S3] exI [of _ T3] exI [of _ I3] exI [of _ "cs @ cs3"]) simp
qed

text \<open>
  Between two turns nothing is pending: the events in memory are the timers in the heaps and the
  idle events in their list.
\<close>

definition resting :: "ev_state \<Rightarrow> (heap_sel \<Rightarrow> ptr set) \<Rightarrow> ptr list \<Rightarrow> bool" where
  "resting S T I \<longleftrightarrow> loop_ok S (pending_heads S) T I (\<lambda>_. []) \<and> lp_npendings (es_loop S) = 0"

lemma resting_timers:
  assumes "resting S T I"
  shows "dom (es_mem S) = T Timers \<union> T Realtimers \<union> set I" "(T Timers \<union> T Realtimers) \<inter> set I = {}"
    "unat (lp_ntimers (es_loop S)) = card (T Timers \<union> T Realtimers)"
    "\<And>p t. es_mem S p = Some t \<Longrightarrow> \<not> et_pending t \<and> \<not> et_destroy t"
proof -
  have d: "ev_ok S T" "life_ok S T I" "queued_ok S (pending_heads S) (\<lambda>_. [])" "idle_ok S I"
    using assms by (auto simp: resting_def loop_ok_def)
  show np: "\<not> et_pending t \<and> \<not> et_destroy t" if "es_mem S p = Some t" for p t
    using that d(3) life_okD(3) [OF d(2) that] by (auto simp: queued_ok_def)
  have "p \<in> T Timers \<union> T Realtimers \<union> set I" if "es_mem S p = Some t" for p t
    using life_okD(2) [OF d(2) that] np [OF that] by blast
  moreover have "p \<in> dom (es_mem S)" if "p \<in> T sel" for p sel using timers_okD(2) [OF ev_okD(2) [OF d(1)] that] by blast
  moreover have "p \<in> dom (es_mem S)" if "p \<in> set I" for p using idle_okD(3) [OF d(4) that] by blast
  ultimately show "dom (es_mem S) = T Timers \<union> T Realtimers \<union> set I" by (auto simp: dom_def)
  have "p \<notin> T sel" if "p \<in> set I" for p sel using idle_okD(3) [OF d(4) that] idle_not_in_heap [OF d(1)] by blast
  then show "(T Timers \<union> T Realtimers) \<inter> set I = {}" by blast
  show "unat (lp_ntimers (es_loop S)) = card (T Timers \<union> T Realtimers)"
    using timers_okD(5) [OF ev_okD(2) [OF d(1)]] heaps_okD(4) [OF ev_okD(1) [OF d(1)]]
    by (simp add: card_Un_disjoint heaps_disj [OF ev_okD(1) [OF d(1)]])
qed

lemma evloop_process_pendings_ok:
  assumes cbs: "callbacks_ok cbs" and ok: "loop_ok S (pending_heads S) T I Q"
    and n: "lp_npendings (es_loop S) = 0 \<Longrightarrow> \<forall>i < 11. Q i = []"
  shows "\<exists>S' T' I' cs. evloop_process_pendings cbs S = Some (S', length cs) \<and> resting S' T' I' \<and>
    es_calls S' = es_calls S @ cs \<and> subseq (map snd cs) (concat (map Q (rev [0..<11]))) \<and>
    (quiet cbs \<longrightarrow> T' = T \<and> I' = I \<and> cs = calls_of (es_mem S) (concat (map Q (rev [0..<11]))))"
proof (cases "lp_npendings (es_loop S) = 0")
  case True
  have "length (lp_pendings (es_loop S)) = 11" using timers_okD(6) [OF ev_okD(2) [OF loop_okD(1) [OF ok]]] .
  then have "resting S T I" using loop_ok_loop [OF ok, of "es_loop S" "pending_heads S" "\<lambda>_. []"] n [OF True] True
    by (simp add: resting_def)
  moreover have e: "concat (map Q (rev [0..<11])) = []" using n [OF True] by auto
  ultimately show ?thesis
    unfolding e using True by (intro exI [of _ S] exI [of _ T] exI [of _ I] exI [of _ "[]"]) (simp add: evloop_process_pendings_def)
next
  case False
  obtain S1 T1 I1 cs where 1: "pending_lists cbs S 11 0 = Some (S1, 0 + length cs)"
    "loop_ok S1 (pending_heads S1) T1 I1 (\<lambda>j. if j < 11 then [] else Q j)" "es_calls S1 = es_calls S @ cs"
    "subseq (map snd cs) (concat (map Q (rev [0..<11])))"
    "quiet cbs \<longrightarrow> T1 = T \<and> I1 = I \<and> cs = calls_of (es_mem S) (concat (map Q (rev [0..<11])))"
    using pending_lists_ok [OF cbs ok order.refl, of 0] by blast
  let ?S = "upd_loop S1 (\<lambda>L. L\<lparr>lp_npendings := 0\<rparr>)"
  have "resting ?S T1 I1"
    unfolding resting_def upd_loop_def using timers_okD(6) [OF ev_okD(2) [OF loop_okD(1) [OF 1(2)]]]
    by (intro conjI loop_ok_loop [OF 1(2)]) auto
  then show ?thesis
    using False 1 by (intro exI [of _ ?S] exI [of _ T1] exI [of _ I1] exI [of _ cs])
      (simp add: evloop_process_pendings_def EVENT_PRIORITY_SIZE_def upd_loop_def)
qed

section \<open>A turn of the loop\<close>

text \<open>
  The clocks at a turn: the monotonic clock is not within the longest timeout of its end, and the
  next time of a period is later than the wall clock.
\<close>

definition clocks_ok :: "calendar \<Rightarrow> ev_state \<Rightarrow> bool" where
  "clocks_ok cal S \<longleftrightarrow> unat (lp_cur_hrtime (es_loop S)) + 2 ^ 32 * 1000 < 2 ^ 64 \<and>
     (\<forall>p t. es_mem S p = Some t \<longrightarrow> et_type t = EVENT_TYPE_PERIOD \<longrightarrow> evloop_now_us (es_loop S) < cron_timeout cal t)"

lemma fired_all_life:
  assumes l: "life_ok S T I" and h: "heaps_ok S T" and f: "fired_all timeout S S' ps" and ps: "set ps \<subseteq> T sel"
    and I: "T sel \<inter> set I = {}"
  shows "life_ok S' (T(sel := T sel - last_shots S (set ps))) I"
  unfolding life_ok_def
proof (intro allI impI)
  let ?T = "T(sel := T sel - last_shots S (set ps))"
  fix x u assume x: "es_mem S' x = Some u"
  show "x \<noteq> NULL \<and> (et_destroy u \<longleftrightarrow> x \<notin> ?T Timers \<union> ?T Realtimers \<union> set I) \<and> (et_destroy u \<longrightarrow> et_pending u) \<and>
      (et_type u = EVENT_TYPE_TIMEOUT \<longrightarrow> et_timeout u \<noteq> 0 \<and> x \<notin> ?T Realtimers)"
  proof (cases "x \<in> set ps")
    case True
    then obtain t where t: "es_mem S x = Some t" "fired timeout t u" using f x by (auto simp: fired_all_def)
    have "x \<in> T sel" "x \<notin> T sel'" if "sel' \<noteq> sel" for sel' using True ps other_heap [OF h that] by auto
    moreover have "x \<in> last_shots S (set ps) \<longleftrightarrow> et_repeat t = 1" using True t(1) by (auto simp: last_shots_def)
    ultimately have "x \<in> ?T Timers \<union> ?T Realtimers \<union> set I \<longleftrightarrow> et_repeat t \<noteq> 1" using True ps I by (cases sel) auto
    moreover have "?T Realtimers \<subseteq> T Realtimers" by auto
    ultimately show ?thesis using life_okD [OF l t(1)] t(2) by (auto simp: fired_def split: if_splits)
  next
    case False
    then have "es_mem S x = Some u" "x \<notin> last_shots S (set ps)" using f x by (auto simp: fired_all_def last_shots_def)
    then show ?thesis using life_okD [OF l, of x u] by (cases sel) auto
  qed
qed

text \<open>One heap, in terms of the invariants; the timers of the other heap are left alone.\<close>

lemma heap_pass_ok:
  assumes ok: "ev_ok S T" "life_ok S T I" "pend_ok S Q" "idle_ok S I"
    and p: "\<And>p t. p \<in> T sel \<Longrightarrow> es_mem S p = Some t \<Longrightarrow> clock_ok cal sel timeout t \<and> \<not> et_pending t"
  shows "\<exists>S' ps. process_heap cal sel timeout S 0 = Some (S', length ps) \<and>
    distinct ps \<and> set ps = due_timers S (T sel) timeout \<and>
    sorted_wrt (\<lambda>p q. timer_key (es_mem S) p \<le> timer_key (es_mem S) q) ps \<and>
    ev_ok S' (T(sel := T sel - last_shots S (set ps))) \<and> life_ok S' (T(sel := T sel - last_shots S (set ps))) I \<and> idle_ok S' I \<and>
    pend_ok S' (\<lambda>i. rev (filter (\<lambda>p. prio_index (es_mem S) p = i) ps) @ Q i) \<and> fired_all timeout S S' ps \<and>
    (\<forall>sel'. sel' \<noteq> sel \<longrightarrow> (\<forall>p \<in> T sel'. es_mem S' p = es_mem S p \<and> p \<notin> set ps))"
proof -
  obtain S' ps where 1: "process_heap cal sel timeout S 0 = Some (S', 0 + length ps)" "distinct ps"
    "set ps = due_timers S (T sel) timeout" "sorted_wrt (\<lambda>p q. timer_key (es_mem S) p \<le> timer_key (es_mem S) q) ps"
    "ev_ok S' (T(sel := T sel - last_shots S (set ps)))" and f: "fired_all timeout S S' ps"
    using process_heap_ok [OF ok(1), of sel cal timeout 0] p by blast
  have "set ps \<subseteq> T sel" using 1(3) by (auto simp: due_timers_def)
  moreover have "p \<notin> set ps" if "sel' \<noteq> sel" "p \<in> T sel'" for sel' p
    using \<open>set ps \<subseteq> T sel\<close> that(2) other_heap [OF ev_okD(1) [OF ok(1)] that(1)] by blast
  moreover have I: "T sel \<inter> set I = {}" using idle_okD(3) [OF ok(4)] idle_not_in_heap [OF ok(1)] by blast
  have "q \<notin> set ps" if "q \<in> insert (lp_idles (es_loop S)) (set I)" for q
    using that I \<open>set ps \<subseteq> T sel\<close> idle_okD(2) [OF ok(4)] timers_okD(2) [OF ev_okD(2) [OF ok(1)]] by fastforce
  then have "idle_ok S' I" using f by (intro idle_ok_frame [OF ok(4)]) (auto simp: fired_all_def same_idles_def)
  ultimately show ?thesis
    using 1 f fired_all_life [OF ok(2) ev_okD(1) [OF ok(1)] f _ I] ok(3) by (auto simp: fired_all_def)
qed

text \<open>
  Every timer that is due fires exactly once, in each heap in the order of the timeouts, and is
  queued in the pending list of its priority, the last one fired in front.
\<close>

lemma evloop_process_timers_ok:
  assumes r: "resting S T I" and ck: "clocks_ok cal S"
  shows "\<exists>S' ps qs. evloop_process_timers cal S = Some (S', length ps + length qs) \<and>
    distinct ps \<and> set ps = due_timers S (T Timers) (lp_cur_hrtime (es_loop S)) \<and>
    sorted_wrt (\<lambda>p q. timer_key (es_mem S) p \<le> timer_key (es_mem S) q) ps \<and>
    distinct qs \<and> set qs = due_timers S (T Realtimers) (evloop_now_us (es_loop S)) \<and>
    sorted_wrt (\<lambda>p q. timer_key (es_mem S) p \<le> timer_key (es_mem S) q) qs \<and>
    loop_ok S' (pending_heads S') (\<lambda>sel. T sel - last_shots S (set (ps @ qs))) I
      (\<lambda>i. rev (filter (\<lambda>p. prio_index (es_mem S) p = i) (ps @ qs))) \<and>
    lp_npendings (es_loop S') = of_nat (length (ps @ qs)) \<and> es_calls S' = es_calls S \<and>
    (\<forall>p. p \<notin> set (ps @ qs) \<longrightarrow> es_mem S' p = es_mem S p) \<and>
    (\<forall>p \<in> set ps. \<exists>t t'. es_mem S p = Some t \<and> es_mem S' p = Some t' \<and> fired (lp_cur_hrtime (es_loop S)) t t') \<and>
    (\<forall>p \<in> set qs. \<exists>t t'. es_mem S p = Some t \<and> es_mem S' p = Some t' \<and> fired (evloop_now_us (es_loop S)) t t')"
proof -
  let ?c = "lp_cur_hrtime (es_loop S)" and ?now = "evloop_now_us (es_loop S)"
  have ok: "loop_ok S (pending_heads S) T I (\<lambda>_. [])" "lp_npendings (es_loop S) = 0" using r by (auto simp: resting_def)
  note d = loop_okD [OF ok(1)] and np = resting_timers(4) [OF r]
  note h = ev_okD(1) [OF d(1)] and tk = timers_okD [OF ev_okD(2) [OF d(1)]]
  have pend0: "pend_ok S (\<lambda>_. [])" using d(3) np by (auto simp: pend_ok_def queued_ok_def)
  obtain S1 ps where 1: "process_heap cal Timers ?c S 0 = Some (S1, length ps)" "distinct ps"
    "set ps = due_timers S (T Timers) ?c" "sorted_wrt (\<lambda>p q. timer_key (es_mem S) p \<le> timer_key (es_mem S) q) ps"
    "ev_ok S1 (T(Timers := T Timers - last_shots S (set ps)))" "life_ok S1 (T(Timers := T Timers - last_shots S (set ps))) I"
    "pend_ok S1 (\<lambda>i. rev (filter (\<lambda>p. prio_index (es_mem S) p = i) ps) @ [])" "fired_all ?c S S1 ps" "idle_ok S1 I"
    and m1: "\<And>p. p \<in> T Realtimers \<Longrightarrow> es_mem S1 p = es_mem S p \<and> p \<notin> set ps"
    using heap_pass_ok [OF d(1,2) pend0 d(4), of Timers cal ?c] np ck by (auto simp: clocks_ok_def clock_ok_def)
  let ?T1 = "T(Timers := T Timers - last_shots S (set ps))"
  have T1: "?T1 Realtimers = T Realtimers" by simp
  have cl: "clock_ok cal Realtimers ?now t \<and> \<not> et_pending t" if "p \<in> T Realtimers" "es_mem S1 p = Some t" for p t
    using that m1 [of p] np [of p t] tk(1) [of p Realtimers t] ck by (auto simp: clocks_ok_def clock_ok_def)
  obtain S2 qs where 2: "process_heap cal Realtimers ?now S1 0 = Some (S2, length qs)" "distinct qs"
    "set qs = due_timers S1 (T Realtimers) ?now" "sorted_wrt (\<lambda>p q. timer_key (es_mem S1) p \<le> timer_key (es_mem S1) q) qs"
    "ev_ok S2 (?T1(Realtimers := T Realtimers - last_shots S1 (set qs)))"
    "life_ok S2 (?T1(Realtimers := T Realtimers - last_shots S1 (set qs))) I"
    "pend_ok S2 (\<lambda>i. rev (filter (\<lambda>p. prio_index (es_mem S1) p = i) qs) @ rev (filter (\<lambda>p. prio_index (es_mem S) p = i) ps) @ [])"
    "fired_all ?now S1 S2 qs" "idle_ok S2 I"
    using heap_pass_ok [OF 1(5,6,7,9), of Realtimers cal ?now] cl unfolding T1 by blast
  have qT: "set qs \<subseteq> T Realtimers" using 2(3) by (auto simp: due_timers_def)
  have m: "es_mem S1 p = es_mem S p" if "p \<in> set qs" for p using that qT m1 by blast
  have q: "set qs = due_timers S (T Realtimers) ?now" "last_shots S1 (set qs) = last_shots S (set qs)"
    unfolding 2(3) due_timers_def timer_key_def last_shots_def using m1 by auto
  have srt: "sorted_wrt (\<lambda>p q. timer_key (es_mem S) p \<le> timer_key (es_mem S) q) qs"
    by (rule sorted_wrt_mono_rel [OF _ 2(4)]) (simp add: timer_key_def m)
  have "filter (\<lambda>p. prio_index (es_mem S1) p = i) qs = filter (\<lambda>p. prio_index (es_mem S) p = i) qs" for i
    by (rule filter_cong) (simp_all add: prio_index_def m)
  then have pend: "queued_ok S2 (pending_heads S2) (\<lambda>i. rev (filter (\<lambda>p. prio_index (es_mem S) p = i) (ps @ qs)))"
    using 2(7) by (auto simp: pend_ok_def queued_ok_def)
  have "last_shots S (set (ps @ qs)) = last_shots S (set ps) \<union> last_shots S (set qs)" by (auto simp: last_shots_def)
  moreover have "T Timers \<inter> last_shots S (set qs) = {}" "T Realtimers \<inter> last_shots S (set ps) = {}"
    using qT heaps_disj [OF h] m1 by (auto simp: last_shots_def)
  ultimately have "(\<lambda>sel. T sel - last_shots S (set (ps @ qs))) = ?T1(Realtimers := T Realtimers - last_shots S1 (set qs))"
    unfolding q(2) by (intro ext) (case_tac sel; auto)
  then have ok2: "loop_ok S2 (pending_heads S2) (\<lambda>sel. T sel - last_shots S (set (ps @ qs))) I
      (\<lambda>i. rev (filter (\<lambda>p. prio_index (es_mem S) p = i) (ps @ qs)))"
    using 2(5,6,9) pend by (simp add: loop_ok_def)
  have e: "evloop_process_timers cal S = Some (S2, length ps + length qs)" using 1(1) 2(1) by (simp add: evloop_process_timers_def)
  have pq: "p \<notin> set qs" if "p \<in> set ps" for p using that m1 qT by blast
  show ?thesis
    using e 1(2,3,4) 2(2) q(1) srt ok2 1(8) 2(8) ok(2) m pq
    by (intro exI [of _ S2] exI [of _ ps] exI [of _ qs] conjI) (auto simp: fired_all_def)
qed

lemma resting_update: "resting S T I \<Longrightarrow> resting (upd_loop S (evloop_update_time ck)) T I"
  using timers_okD(6) [OF ev_okD(2) [OF loop_okD(1)]] unfolding resting_def upd_loop_def
  by (auto intro!: loop_ok_loop)

lemma subseq_distinct: "distinct ys \<Longrightarrow> subseq xs ys \<Longrightarrow> distinct xs"
  by (auto simp: subseq_conv_nths)

lemma subseq_set: "subseq xs ys \<Longrightarrow> set xs \<subseteq> set ys"
  by (auto simp: subseq_conv_nths dest: in_set_nthsD)

lemma queued_distinct: "queued_ok S h Q \<Longrightarrow> k \<le> 11 \<Longrightarrow> distinct (concat (map Q (rev [0..<k])))"
proof (induction k)
  case (Suc k)
  have "set (Q k) \<inter> set (concat (map Q (rev [0..<k]))) = {}"
  proof (rule ccontr)
    assume "set (Q k) \<inter> set (concat (map Q (rev [0..<k]))) \<noteq> {}"
    then obtain j x where "j < k" "x \<in> set (Q j)" "x \<in> set (Q k)" by auto
    moreover from this have "prio_index (es_mem S) x = j" "prio_index (es_mem S) x = k"
      using Suc.prems by (auto simp: queued_ok_def)
    ultimately show False by simp
  qed
  then show ?case using Suc by (simp add: queued_ok_def)
qed simp

text \<open>The order of the calls: from the highest to the lowest priority, the last one fired first.\<close>

definition call_order :: "timer_mem \<Rightarrow> ptr list \<Rightarrow> ptr list" where
  "call_order m ps = concat (map (\<lambda>i. rev (filter (\<lambda>p. prio_index m p = i) ps)) (rev [0..<11]))"

definition has_cb :: "timer_mem \<Rightarrow> ptr \<Rightarrow> bool" where
  "has_cb m p \<longleftrightarrow> (\<exists>t. m p = Some t \<and> et_active t \<and> et_cb t \<noteq> 0)"

lemma set_call_order: "set (call_order m ps) \<subseteq> set ps"
  by (auto simp: call_order_def)

text \<open>What firing keeps of an event as far as its call is concerned.\<close>

definition called :: "evtimer \<Rightarrow> evtimer \<Rightarrow> bool" where
  "called t t' \<longleftrightarrow> et_pending t' \<and> et_cb t' = et_cb t \<and> et_active t' = et_active t"

lemma called_fired: "fired c t t' \<Longrightarrow> called t t'" "idle_fired t t' \<Longrightarrow> called t t'"
  by (simp_all add: called_def fired_def idle_fired_def)

lemma calls_of_fired:
  assumes "\<And>p. p \<in> set xs \<Longrightarrow> \<exists>t t'. m p = Some t \<and> m' p = Some t' \<and> called t t'"
  shows "calls_of m' xs = map (\<lambda>p. (et_cb (the (m p)), p)) (filter (has_cb m) xs)"
  using assms
proof (induction xs)
  case (Cons x xs)
  obtain t t' where "m x = Some t" "m' x = Some t'" "called t t'" using Cons.prems [of x] by auto
  then have "ready m' x = has_cb m x" "et_cb (the (m' x)) = et_cb (the (m x))" by (auto simp: ready_def has_cb_def called_def)
  then show ?case using Cons by (simp add: calls_of_def)
qed simp

text \<open>The events that fire at a turn: the timers that are due, or else all idle events.\<close>

definition due_events :: "ev_state \<Rightarrow> (heap_sel \<Rightarrow> ptr set) \<Rightarrow> ptr list \<Rightarrow> ptr set" where
  "due_events S T I =
     (let D = due_timers S (T Timers) (lp_cur_hrtime (es_loop S)) \<union> due_timers S (T Realtimers) (evloop_now_us (es_loop S))
      in if D = {} then set I else D)"

text \<open>All events \<open>ps\<close> have been fired, in this order, and are waiting for their callbacks.\<close>

definition waiting :: "ev_state \<Rightarrow> ev_state \<Rightarrow> (heap_sel \<Rightarrow> ptr set) \<Rightarrow> ptr list \<Rightarrow> ptr list \<Rightarrow> bool" where
  "waiting S S' T I ps \<longleftrightarrow> distinct ps \<and> length ps < 2 ^ 32 \<and>
     loop_ok S' (pending_heads S') T I (\<lambda>i. rev (filter (\<lambda>p. prio_index (es_mem S) p = i) ps)) \<and>
     lp_npendings (es_loop S') = of_nat (length ps) \<and> es_calls S' = es_calls S \<and>
     (\<forall>p. p \<notin> set ps \<longrightarrow> es_mem S' p = es_mem S p) \<and>
     (\<forall>p \<in> set ps. \<exists>t t'. es_mem S p = Some t \<and> es_mem S' p = Some t' \<and> called t t')"

lemma timers_waiting:
  assumes r: "resting S T I" and ck: "clocks_ok cal S"
  shows "\<exists>S' ps. evloop_process_timers cal S = Some (S', length ps) \<and>
    set ps = due_timers S (T Timers) (lp_cur_hrtime (es_loop S)) \<union> due_timers S (T Realtimers) (evloop_now_us (es_loop S)) \<and>
    waiting S S' (\<lambda>sel. T sel - last_shots S (set ps)) I ps"
proof -
  obtain S1 ps qs where 1: "evloop_process_timers cal S = Some (S1, length ps + length qs)"
    "distinct ps" "set ps = due_timers S (T Timers) (lp_cur_hrtime (es_loop S))"
    "distinct qs" "set qs = due_timers S (T Realtimers) (evloop_now_us (es_loop S))"
    and ok: "loop_ok S1 (pending_heads S1) (\<lambda>sel. T sel - last_shots S (set (ps @ qs))) I
      (\<lambda>i. rev (filter (\<lambda>p. prio_index (es_mem S) p = i) (ps @ qs)))"
    and n: "lp_npendings (es_loop S1) = of_nat (length (ps @ qs))" and c: "es_calls S1 = es_calls S"
    and m: "\<forall>p. p \<notin> set (ps @ qs) \<longrightarrow> es_mem S1 p = es_mem S p"
    and f: "\<forall>p \<in> set ps. \<exists>t t'. es_mem S p = Some t \<and> es_mem S1 p = Some t' \<and> fired (lp_cur_hrtime (es_loop S)) t t'"
      "\<forall>p \<in> set qs. \<exists>t t'. es_mem S p = Some t \<and> es_mem S1 p = Some t' \<and> fired (evloop_now_us (es_loop S)) t t'"
    using evloop_process_timers_ok [OF r ck] by blast
  have e: "ev_ok S T" using r by (simp add: resting_def loop_ok_def)
  note h = ev_okD(1) [OF e]
  have "set ps \<subseteq> T Timers" "set qs \<subseteq> T Realtimers" using 1(3,5) by (auto simp: due_timers_def)
  then have d: "distinct (ps @ qs)" using 1(2,4) heaps_disj [OF h] by auto
  have "length ps \<le> card (T Timers)" "length qs \<le> card (T Realtimers)"
    using \<open>set ps \<subseteq> _\<close> \<open>set qs \<subseteq> _\<close> 1(2,4) heaps_okD(4) [OF h] by (metis card_mono distinct_card)+
  then have "length (ps @ qs) \<le> unat (lp_ntimers (es_loop S))" using timers_okD(5) [OF ev_okD(2) [OF e]] by simp
  moreover have "unat (lp_ntimers (es_loop S)) < 2 ^ 32" using unsigned_less [of "lp_ntimers (es_loop S)"] by simp
  moreover have "\<forall>p \<in> set (ps @ qs). \<exists>t t'. es_mem S p = Some t \<and> es_mem S1 p = Some t' \<and> called t t'"
    using f called_fired(1) by fastforce
  ultimately have "waiting S S1 (\<lambda>sel. T sel - last_shots S (set (ps @ qs))) I (ps @ qs)"
    using ok n c m d unfolding waiting_def by (intro conjI) simp_all
  then show ?thesis using 1(1,3,5) by (intro exI [of _ S1] exI [of _ "ps @ qs"]) simp
qed

lemma idles_fired_life:
  assumes l: "life_ok S T I" and o: "ev_ok S T" "idle_ok S I" and f: "idles_fired S S' I"
  shows "life_ok S' T (filter (stays (es_mem S)) I)"
  unfolding life_ok_def
proof (intro allI impI)
  let ?I = "filter (stays (es_mem S)) I"
  fix x u assume x: "es_mem S' x = Some u"
  show "x \<noteq> NULL \<and> (et_destroy u \<longleftrightarrow> x \<notin> T Timers \<union> T Realtimers \<union> set ?I) \<and> (et_destroy u \<longrightarrow> et_pending u) \<and>
      (et_type u = EVENT_TYPE_TIMEOUT \<longrightarrow> et_timeout u \<noteq> 0 \<and> x \<notin> T Realtimers)"
  proof (cases "x \<in> set I")
    case True
    then obtain t where t: "es_mem S x = Some t" "idle_fired t u" using f x by (auto simp: idles_fired_def)
    have ty: "et_type t = EVENT_TYPE_IDLE" using idle_okD(3) [OF o(2) True] t(1) by simp
    have "x \<notin> T sel" for sel by (rule idle_not_in_heap [OF o(1) t(1) ty])
    then show ?thesis using life_okD(1) [OF l t(1)] t True ty by (auto simp: idle_fired_def stays_def)
  next
    case False
    then have "es_mem S x = Some u" using f x by (simp add: idles_fired_def)
    then show ?thesis using life_okD [OF l, of x u] False by auto
  qed
qed

lemma idles_waiting:
  assumes ok: "loop_ok S (pending_heads S) T I (\<lambda>_. [])" and n: "lp_npendings (es_loop S) = 0"
  shows "\<exists>S'. evloop_process_idles S = Some (S', length I) \<and> waiting S S' T (filter (stays (es_mem S)) I) I"
proof -
  note d = loop_okD [OF ok] and i = idle_okD [OF loop_okD(4) [OF ok]]
  have np: "\<not> et_pending t \<and> p \<noteq> NULL" if "es_mem S p = Some t" for p t
    using d(3) life_okD(1) [OF d(2) that] that by (auto simp: queued_ok_def)
  obtain S' where r: "evloop_process_idles S = Some (S', length I)" "ev_ok S' T" "idle_ok S' (filter (stays (es_mem S)) I)"
    "idles_fired S S' I" using evloop_process_idles_ok [OF d(1,4)] np by blast
  have "pend_ok S (\<lambda>_. [])" using d(3) np by (auto simp: pend_ok_def queued_ok_def)
  then have "pend_ok S' (\<lambda>i. rev (filter (\<lambda>p. prio_index (es_mem S) p = i) I) @ [])" using r(4) by (auto simp: idles_fired_def)
  then have "queued_ok S' (pending_heads S') (\<lambda>i. rev (filter (\<lambda>p. prio_index (es_mem S) p = i) I))"
    by (auto simp: pend_ok_def queued_ok_def)
  then have "loop_ok S' (pending_heads S') T (filter (stays (es_mem S)) I) (\<lambda>i. rev (filter (\<lambda>p. prio_index (es_mem S) p = i) I))"
    using r(2,3) idles_fired_life [OF d(2,1,4) r(4)] by (simp add: loop_ok_def)
  moreover have "unat (lp_nidles (es_loop S)) < 2 ^ 32" using unsigned_less [of "lp_nidles (es_loop S)"] by simp
  then have "length I < 2 ^ 32" using i(4) by simp
  moreover have "distinct I" using i(1) by (simp add: ring_def)
  moreover have "\<forall>p \<in> set I. \<exists>t t'. es_mem S p = Some t \<and> es_mem S' p = Some t' \<and> called t t'"
    using r(4) called_fired(2) unfolding idles_fired_def by meson
  ultimately have "waiting S S' T (filter (stays (es_mem S)) I) I"
    using r(4) n unfolding waiting_def idles_fired_def by simp
  then show ?thesis using r(1) by blast
qed

lemma waiting_nil: "waiting S S T I [] \<longleftrightarrow> loop_ok S (pending_heads S) T I (\<lambda>_. []) \<and> lp_npendings (es_loop S) = 0"
  by (simp add: waiting_def)

lemma fire_events_ok:
  assumes r: "resting S T I" and ck: "lp_ntimers (es_loop S) \<noteq> 0 \<longrightarrow> clocks_ok cal S"
  shows "\<exists>S' ps. fire_events cal S = Some S' \<and> set ps = due_events S T I \<and>
    waiting S S' (\<lambda>sel. T sel - last_shots S (set ps)) (filter (\<lambda>p. p \<notin> last_shots S (set ps)) I) ps"
proof -
  let ?D = "due_timers S (T Timers) (lp_cur_hrtime (es_loop S)) \<union> due_timers S (T Realtimers) (evloop_now_us (es_loop S))"
  have ok: "loop_ok S (pending_heads S) T I (\<lambda>_. [])" "lp_npendings (es_loop S) = 0" using r by (auto simp: resting_def)
  have dj: "p \<notin> set I" if "p \<in> T sel" for p sel using resting_timers(2) [OF r] that by (cases sel) auto
  have "\<exists>S1 ps. (if lp_ntimers (es_loop S) \<noteq> 0 then evloop_process_timers cal S else Some (S, 0)) = Some (S1, length ps) \<and>
      set ps = ?D \<and> waiting S S1 (\<lambda>sel. T sel - last_shots S (set ps)) I ps"
  proof (cases "lp_ntimers (es_loop S) = 0")
    case True
    have "finite (T Timers \<union> T Realtimers)" using heaps_okD(4) [OF ev_okD(1) [OF loop_okD(1) [OF ok(1)]]] by simp
    then have "T Timers = {}" "T Realtimers = {}" using resting_timers(3) [OF r] True by auto
    then show ?thesis using True ok by (intro exI [of _ S] exI [of _ "[]"]) (simp add: waiting_nil last_shots_def due_timers_def)
  qed (use timers_waiting [OF r] ck in simp)
  then obtain S1 ps where 1: "(if lp_ntimers (es_loop S) \<noteq> 0 then evloop_process_timers cal S else Some (S, 0)) = Some (S1, length ps)"
    "set ps = ?D" "waiting S S1 (\<lambda>sel. T sel - last_shots S (set ps)) I ps" by blast
  have e: "fire_events cal S = do { (S, nidles) \<leftarrow> (if lp_npendings (es_loop S1) = 0 \<and> lp_nidles (es_loop S1) \<noteq> 0
      then evloop_process_idles S1 else Some (S1, 0)); Some S }"
    unfolding fire_events_def 1(1) by simp
  show ?thesis
  proof (cases "ps = []")
    case False
    have "unat (of_nat (length ps) :: u32) = length ps"
      using 1(3) by (subst unat_of_nat) (simp add: mod_less waiting_def)
    then have "lp_npendings (es_loop S1) \<noteq> 0" using False 1(3) unfolding waiting_def by (metis length_0_conv unat_0)
    moreover have "set ps \<subseteq> T Timers \<union> T Realtimers" unfolding 1(2) by (auto simp: due_timers_def)
    then have "filter (\<lambda>p. p \<notin> last_shots S (set ps)) I = I" using dj by (auto simp: last_shots_def intro!: filter_True)
    ultimately show ?thesis
      using False 1(2,3) e by (intro exI [of _ S1] exI [of _ ps]) (auto simp: due_events_def)
  next
    case True
    then have w: "loop_ok S1 (pending_heads S1) T I (\<lambda>_. [])" "lp_npendings (es_loop S1) = 0" "es_calls S1 = es_calls S"
      "es_mem S1 = es_mem S" using 1(3) by (auto simp: waiting_def last_shots_def)
    obtain S2 where 2: "evloop_process_idles S1 = Some (S2, length I)" "waiting S1 S2 T (filter (stays (es_mem S1)) I) I"
      using idles_waiting [OF w(1,2)] by blast
    have "\<exists>S'. fire_events cal S = Some S' \<and> waiting S S' T (filter (stays (es_mem S)) I) I"
    proof (cases "lp_nidles (es_loop S1) = 0")
      case True
      then have "I = []" using idle_okD(4) [OF loop_okD(4) [OF w(1)]] by simp
      then show ?thesis using True e w by (simp add: waiting_def)
    qed (use e 2 w in \<open>simp add: waiting_def\<close>)
    moreover have "filter (stays (es_mem S)) I = filter (\<lambda>p. p \<notin> last_shots S (set I)) I"
      by (rule filter_cong) (auto simp: stays_def last_shots_def)
    moreover have "(\<lambda>sel. T sel - last_shots S (set I)) = T" using dj by (auto simp: last_shots_def fun_eq_iff)
    moreover have "due_events S T I = set I" using True 1(2) by (simp add: due_events_def)
    ultimately show ?thesis by (intro exI [of _ "the (fire_events cal S)"] exI [of _ I]) auto
  qed
qed

text \<open>
  Firing and running the callbacks, from a state at rest: a turn returns and leaves the loop at
  rest again, each event that fires is called at most once, and exactly once, in \<open>call_order\<close>,
  when the callbacks leave the events alone.
\<close>

lemma run_waiting_ok:
  assumes w: "waiting S S1 T I ps" and cbs: "callbacks_ok cbs"
  shows "\<exists>S' T' I' cs. evloop_process_pendings cbs S1 = Some (S', length cs) \<and> resting S' T' I' \<and>
    es_calls S' = es_calls S @ cs \<and> distinct (map snd cs) \<and> subseq (map snd cs) (call_order (es_mem S) ps) \<and>
    (quiet cbs \<longrightarrow> T' = T \<and> I' = I \<and>
       cs = map (\<lambda>p. (et_cb (the (es_mem S p)), p)) (filter (has_cb (es_mem S)) (call_order (es_mem S) ps)))"
proof -
  have ok: "loop_ok S1 (pending_heads S1) T I (\<lambda>i. rev (filter (\<lambda>p. prio_index (es_mem S) p = i) ps))"
    and n: "lp_npendings (es_loop S1) = of_nat (length ps)" "length ps < 2 ^ 32" and c: "es_calls S1 = es_calls S"
    and f: "\<forall>p \<in> set ps. \<exists>t t'. es_mem S p = Some t \<and> es_mem S1 p = Some t' \<and> called t t'"
    using w by (auto simp: waiting_def)
  have "unat (of_nat (length ps) :: u32) = length ps" using n(2) by (subst unat_of_nat) (simp add: mod_less)
  then have z: "ps = []" if "lp_npendings (es_loop S1) = 0" using that n(1) by (metis length_0_conv unat_0)
  have "\<exists>S' T' I' cs. evloop_process_pendings cbs S1 = Some (S', length cs) \<and> resting S' T' I' \<and> es_calls S' = es_calls S1 @ cs \<and>
      subseq (map snd cs) (call_order (es_mem S) ps) \<and>
      (quiet cbs \<longrightarrow> T' = T \<and> I' = I \<and> cs = calls_of (es_mem S1) (call_order (es_mem S) ps))"
    unfolding call_order_def using z by (intro evloop_process_pendings_ok [OF cbs ok]) auto
  then obtain S' T' I' cs where 2: "evloop_process_pendings cbs S1 = Some (S', length cs)" "resting S' T' I'" "es_calls S' = es_calls S1 @ cs"
      "subseq (map snd cs) (call_order (es_mem S) ps)"
      "quiet cbs \<longrightarrow> T' = T \<and> I' = I \<and> cs = calls_of (es_mem S1) (call_order (es_mem S) ps)"
    by blast
  have "distinct (call_order (es_mem S) ps)"
    unfolding call_order_def by (rule queued_distinct [OF loop_okD(3) [OF ok]]) simp
  then have "distinct (map snd cs)" using 2(4) by (rule subseq_distinct)
  moreover have "calls_of (es_mem S1) (call_order (es_mem S) ps) =
      map (\<lambda>p. (et_cb (the (es_mem S p)), p)) (filter (has_cb (es_mem S)) (call_order (es_mem S) ps))"
    using f set_call_order [of "es_mem S" ps] by (intro calls_of_fired) blast
  ultimately show ?thesis
    using 2 c by (intro exI [of _ S'] exI [of _ T'] exI [of _ I'] exI [of _ cs]) simp
qed

lemma fire_and_run_ok:
  assumes r: "resting S T I" and ck: "lp_ntimers (es_loop S) \<noteq> 0 \<longrightarrow> clocks_ok cal S" and cbs: "callbacks_ok cbs"
  shows "\<exists>S1 S' T' I' cs ps. fire_events cal S = Some S1 \<and> evloop_process_pendings cbs S1 = Some (S', length cs) \<and>
    resting S' T' I' \<and> es_calls S' = es_calls S @ cs \<and> distinct ps \<and> set ps = due_events S T I \<and>
    distinct (map snd cs) \<and> subseq (map snd cs) (call_order (es_mem S) ps) \<and>
    (quiet cbs \<longrightarrow> T' = (\<lambda>sel. T sel - last_shots S (set ps)) \<and> I' = filter (\<lambda>p. p \<notin> last_shots S (set ps)) I \<and>
       cs = map (\<lambda>p. (et_cb (the (es_mem S p)), p)) (filter (has_cb (es_mem S)) (call_order (es_mem S) ps)))"
proof -
  obtain S1 ps where 1: "fire_events cal S = Some S1" "set ps = due_events S T I"
    "waiting S S1 (\<lambda>sel. T sel - last_shots S (set ps)) (filter (\<lambda>p. p \<notin> last_shots S (set ps)) I) ps"
    using fire_events_ok [OF r ck] by blast
  have "distinct ps" using 1(3) by (simp add: waiting_def)
  then show ?thesis using run_waiting_ok [OF 1(3) cbs] 1(1,2) by blast
qed

text \<open>A whole turn; the clock of the state in which the timers are processed is that of \<open>ck1\<close> or \<open>ck2\<close>.\<close>

definition turn_clocks_ok :: "clock \<Rightarrow> clock \<Rightarrow> calendar \<Rightarrow> ev_state \<Rightarrow> bool" where
  "turn_clocks_ok ck1 ck2 cal S \<longleftrightarrow> clocks_ok cal (upd_loop S (evloop_update_time ck1)) \<and>
     clocks_ok cal (upd_loop (upd_loop S (evloop_update_time ck1)) (evloop_update_time ck2))"

lemma min_blocktime_cases:
  assumes ok: "ev_ok S T"
  obtains "T sel = {}" "min_blocktime sel now S b = Some b"
  | p where "p \<in> T sel" "\<And>q. q \<in> T sel \<Longrightarrow> timer_key (es_mem S) p \<le> timer_key (es_mem S) q"
      "min_blocktime sel now S b = Some (min b (sint (timer_key (es_mem S) p - now)))"
proof (cases "T sel = {}")
  case True
  then have "hp_root (sel_heap sel (es_loop S)) = NULL" using heap_ok_root [OF heaps_okD(2) [OF ev_okD(1) [OF ok]]] by simp
  then show thesis using that(1) True by (simp add: min_blocktime_def)
next
  case False
  let ?r = "hp_root (sel_heap sel (es_loop S))"
  obtain q where "q \<in> T sel" using False by blast
  then have r: "?r \<in> T sel" using root_key_min(1) [OF ev_okD(1) [OF ok]] by blast
  have n: "?r \<noteq> NULL" using heap_ok_root [OF heaps_okD(2) [OF ev_okD(1) [OF ok], of sel]] False by simp
  obtain t where "es_mem S ?r = Some t" using timers_okD(2) [OF ev_okD(2) [OF ok] r] by blast
  then have "min_blocktime sel now S b = Some (min b (sint (timer_key (es_mem S) ?r - now)))"
    using n by (simp add: min_blocktime_def timer_key_def)
  then show thesis using that(2) [OF r] root_key_min(2) [OF ev_okD(1) [OF ok]] by blast
qed

lemma calc_blocktime_some:
  assumes ok: "ev_ok S T"
  obtains b where "calc_blocktime ck S =
    Some (if lp_ntimers (es_loop S) = 0 then S else upd_loop S (evloop_update_time ck), b)"
    "b = None \<longrightarrow> lp_ntimers (es_loop S) \<noteq> 0"
proof (cases "lp_ntimers (es_loop S) = 0")
  case False
  let ?S = "upd_loop S (evloop_update_time ck)"
  have o: "ev_ok ?S T"
    unfolding upd_loop_def using timers_okD(6) [OF ev_okD(2) [OF ok]] by (intro ev_ok_loop [OF ok]) simp_all
  obtain us1 where "min_blocktime Timers (lp_cur_hrtime (es_loop ?S)) ?S (EVLOOP_MAX_BLOCK_TIME * 1000) = Some us1"
    by (rule min_blocktime_cases [OF o])
  moreover obtain us2 where "min_blocktime Realtimers (evloop_now_us (es_loop ?S)) ?S us1 = Some us2"
    by (rule min_blocktime_cases [OF o])
  ultimately show thesis using that False by (cases "us2 \<le> 0") (simp_all add: calc_blocktime_def Let_def)
qed (use that in \<open>simp add: calc_blocktime_def\<close>)

lemma due_events_subset: "due_events S T I \<subseteq> T Timers \<union> T Realtimers \<union> set I"
  by (auto simp: due_events_def due_timers_def Let_def)

lemma evloop_process_events_ok:
  assumes r: "resting S T I" and ck: "turn_clocks_ok ck1 ck2 cal S" and cbs: "callbacks_ok cbs"
  shows "\<exists>S' T' I' cs. evloop_process_events ck1 ck2 stop cal cbs S = Some (S', length cs) \<and> resting S' T' I' \<and>
    es_calls S' = es_calls S @ cs \<and> distinct (map snd cs) \<and> set (map snd cs) \<subseteq> T Timers \<union> T Realtimers \<union> set I"
proof -
  have ok: "ev_ok S T" using r by (simp add: resting_def loop_ok_def)
  obtain b where b: "calc_blocktime ck1 S =
      Some (if lp_ntimers (es_loop S) = 0 then S else upd_loop S (evloop_update_time ck1), b)"
      "b = None \<longrightarrow> lp_ntimers (es_loop S) \<noteq> 0"
    by (rule calc_blocktime_some [OF ok])
  define S1 where "S1 = (if lp_ntimers (es_loop S) = 0 then S else upd_loop S (evloop_update_time ck1))"
  define S2 where "S2 = (if b = None then S1 else upd_loop S1 (evloop_update_time ck2))"
  have r2: "resting S2 T I" using r resting_update [OF r] resting_update by (simp add: S1_def S2_def)
  have c2: "es_calls S2 = es_calls S" "lp_ntimers (es_loop S2) = lp_ntimers (es_loop S)"
    by (simp_all add: S1_def S2_def upd_loop_def)
  have e: "evloop_process_events ck1 ck2 stop cal cbs S = (if b \<noteq> None \<and> stop then Some (S2, 0) else
       do { S \<leftarrow> fire_events cal S2; evloop_process_pendings cbs S })"
    using b(1) unfolding evloop_process_events_def S1_def [symmetric] S2_def
    by (simp add: Let_def cong: if_cong split del: if_split)
  show ?thesis
  proof (cases "b \<noteq> None \<and> stop")
    case True
    then show ?thesis using e r2 c2(1) by (intro exI [of _ S2] exI [of _ T] exI [of _ I] exI [of _ "[]"]) simp
  next
    case False
    have "lp_ntimers (es_loop S2) \<noteq> 0 \<longrightarrow> clocks_ok cal S2" using ck c2(2) by (simp add: S1_def S2_def turn_clocks_ok_def)
    from fire_and_run_ok [OF r2 this cbs] obtain S3 S' T' I' cs ps where
      f: "fire_events cal S2 = Some S3" "evloop_process_pendings cbs S3 = Some (S', length cs)" "resting S' T' I'"
      "es_calls S' = es_calls S2 @ cs" "distinct (map snd cs)" and s: "subseq (map snd cs) (call_order (es_mem S2) ps)"
      "set ps = due_events S2 T I" by blast
    have "set (map snd cs) \<subseteq> T Timers \<union> T Realtimers \<union> set I"
      using subseq_set [OF s(1)] set_call_order [of "es_mem S2" ps] due_events_subset [of S2 T I] s(2) by blast
    then show ?thesis
      using e False c2 f by (intro exI [of _ S'] exI [of _ T'] exI [of _ I'] exI [of _ cs]) auto
  qed
qed

section \<open>The states of a loop\<close>

text \<open>
  The states between turns: a client uses timers and idle events before the loop runs, and each
  turn runs callbacks that use them.
\<close>

inductive loop_reach :: "ev_state \<Rightarrow> bool" where
  init: "loop_reach (evloop_init idles ck)"
| client: "loop_reach S \<Longrightarrow> api_step {} S S' \<Longrightarrow> loop_reach S'"
| turn: "loop_reach S \<Longrightarrow> callbacks_ok cbs \<Longrightarrow> turn_clocks_ok ck1 ck2 cal S \<Longrightarrow>
    evloop_process_events ck1 ck2 stop cal cbs S = Some (S', n) \<Longrightarrow> loop_reach S'"

lemma init_resting: "resting (evloop_init idles ck) (\<lambda>_. {}) []"
proof -
  let ?S = "evloop_init idles ck"
  have h: "sel_heap sel (es_loop ?S) = heap_init (Some timers_compare)"
    "hp_compare (heap_init (Some timers_compare)) = Some timers_compare" for sel
    by (cases sel; simp add: evloop_init_def) (simp add: heap_init_def)
  have "heaps_ok ?S (\<lambda>_. {})" by (simp add: heaps_ok_def h heap_ok_init)
  moreover have "timers_ok ?S (\<lambda>_. {})"
    by (rule timers_okI) (simp_all add: evloop_init_def EVENT_PRIORITY_SIZE_def)
  moreover have "idle_ok ?S []" by (simp add: idle_ok_def evloop_init_def ring_def nxt_of_def prv_of_def)
  ultimately show ?thesis
    by (simp add: resting_def loop_ok_def ev_ok_def life_ok_def queued_ok_def evloop_init_def EVENT_PRIORITY_SIZE_def)
qed

lemma queued_empty [simp]: "queued (\<lambda>_. []) = {}"
  by (simp add: queued_def)

lemma loop_reach_resting: "loop_reach S \<Longrightarrow> \<exists>T I. resting S T I"
proof (induction rule: loop_reach.induct)
  case (init idles ck)
  then show ?case using init_resting by blast
next
  case (client S S')
  then obtain T I where T: "loop_ok S (pending_heads S) T I (\<lambda>_. [])" "lp_npendings (es_loop S) = 0"
    by (auto simp: resting_def)
  have "api_step (queued (\<lambda>_. [])) S S'" using client.hyps(2) by simp
  from api_step_ok [OF this T(1)] show ?case using T(2) by (auto simp: resting_def same_queue_def)
next
  case (turn S cbs ck1 ck2 cal stop S' n)
  then obtain T I where "resting S T I" by blast
  from evloop_process_events_ok [OF this turn.hyps(3,2), of stop] show ?case using turn.hyps(4) by auto
qed

section \<open>How long the loop sleeps\<close>

lemma sint_diff:
  fixes a b :: u64
  assumes "uint a < 2 ^ 63" "uint b < 2 ^ 63"
  shows "sint (a - b) = uint a - uint b"
proof -
  have "a - b = word_of_int (uint a - uint b)" by simp
  then have "sint (a - b) = signed_take_bit 63 (uint a - uint b)" by (simp only: sint_sbintrunc') simp
  also have "\<dots> = uint a - uint b" using assms uint_ge_0 [of a] uint_ge_0 [of b] by (intro signed_take_bit_int_eq_self) linarith+
  finally show ?thesis .
qed

lemma min_blocktime_ok:
  assumes ok: "ev_ok S T" and now: "uint now < 2 ^ 63" and k: "\<And>p. p \<in> T sel \<Longrightarrow> uint (timer_key (es_mem S) p) < 2 ^ 63"
  shows "\<exists>r. min_blocktime sel now S b = Some r \<and> r \<le> b \<and>
    (\<forall>p \<in> T sel. uint now + r \<le> uint (timer_key (es_mem S) p)) \<and>
    (r = b \<or> (\<exists>p \<in> T sel. uint now + r = uint (timer_key (es_mem S) p)))"
proof (rule min_blocktime_cases [OF ok, of sel now b])
  fix p assume p: "p \<in> T sel" "\<And>q. q \<in> T sel \<Longrightarrow> timer_key (es_mem S) p \<le> timer_key (es_mem S) q"
    "min_blocktime sel now S b = Some (min b (sint (timer_key (es_mem S) p - now)))"
  let ?r = "min b (uint (timer_key (es_mem S) p) - uint now)"
  have "uint now + ?r \<le> uint (timer_key (es_mem S) q)" if "q \<in> T sel" for q
    using p(2) [OF that] by (simp add: word_le_def min_def)
  moreover have "?r = b \<or> uint now + ?r = uint (timer_key (es_mem S) p)" by (simp add: min_def)
  ultimately show ?thesis using p(1,3) sint_diff [OF k [OF p(1)] now] by (intro exI [of _ ?r]) auto
qed auto

text \<open>
  With the clocks and the timeouts in the range of an \<open>int64_t\<close>, the loop does not sleep when a
  timer is due, and otherwise sleeps between 1 and 100 ms, at most 1 ms past the first timeout
  and, unless it sleeps the whole 100 ms, until there is a timer due.
\<close>

definition wakes_for :: "ev_state \<Rightarrow> ptr set \<Rightarrow> u64 \<Rightarrow> int \<Rightarrow> bool" where
  "wakes_for S A now ms \<longleftrightarrow> (\<exists>p \<in> A. uint (timer_key (es_mem S) p) < uint now + ms * 1000)"

definition not_before :: "ev_state \<Rightarrow> ptr set \<Rightarrow> u64 \<Rightarrow> int \<Rightarrow> bool" where
  "not_before S A now ms \<longleftrightarrow>
     (\<forall>p \<in> A. now < timer_key (es_mem S) p \<and> uint now + (ms - 1) * 1000 \<le> uint (timer_key (es_mem S) p))"

text \<open>The clock of each heap when the loop decides how long to sleep.\<close>

definition heap_now :: "clock \<Rightarrow> ev_state \<Rightarrow> heap_sel \<Rightarrow> u64" where
  "heap_now ck S sel =
     (case sel of Timers \<Rightarrow> ck_hrtime ck | Realtimers \<Rightarrow> evloop_now_us (evloop_update_time ck (es_loop S)))"

lemma calc_blocktime_ok:
  assumes ok: "ev_ok S T" and n: "lp_ntimers (es_loop S) \<noteq> 0"
    and k: "\<And>sel. uint (heap_now ck S sel) < 2 ^ 63" "\<And>sel p. p \<in> T sel \<Longrightarrow> uint (timer_key (es_mem S) p) < 2 ^ 63"
  shows "\<exists>b. calc_blocktime ck S = Some (upd_loop S (evloop_update_time ck), b) \<and>
    (case b of None \<Rightarrow> \<exists>sel. due_timers S (T sel) (heap_now ck S sel) \<noteq> {}
     | Some ms \<Rightarrow> 1 \<le> ms \<and> ms \<le> 100 \<and> (\<forall>sel. not_before S (T sel) (heap_now ck S sel) ms) \<and>
         (ms < 100 \<longrightarrow> (\<exists>sel. wakes_for S (T sel) (heap_now ck S sel) ms)))"
proof -
  let ?now = "heap_now ck S" and ?S = "upd_loop S (evloop_update_time ck)"
  have S: "es_mem ?S = es_mem S" "lp_cur_hrtime (es_loop ?S) = ?now Timers" "evloop_now_us (es_loop ?S) = ?now Realtimers"
    by (simp_all add: upd_loop_def heap_now_def)
  have o: "ev_ok ?S T"
    unfolding upd_loop_def using timers_okD(6) [OF ev_okD(2) [OF ok]] by (intro ev_ok_loop [OF ok]) simp_all
  let ?key = "\<lambda>p. uint (timer_key (es_mem S) p)"
  obtain a where a: "min_blocktime Timers (?now Timers) ?S 100000 = Some a" "a \<le> 100000"
    "\<forall>p \<in> T Timers. uint (?now Timers) + a \<le> ?key p" "a = 100000 \<or> (\<exists>p \<in> T Timers. uint (?now Timers) + a = ?key p)"
    using min_blocktime_ok [OF o k(1), of Timers Timers 100000] k(2) unfolding S(1) by auto
  obtain us where us: "min_blocktime Realtimers (?now Realtimers) ?S a = Some us" "us \<le> a"
    "\<forall>p \<in> T Realtimers. uint (?now Realtimers) + us \<le> ?key p" "us = a \<or> (\<exists>p \<in> T Realtimers. uint (?now Realtimers) + us = ?key p)"
    using min_blocktime_ok [OF o k(1), of Realtimers Realtimers a] k(2) unfolding S(1) by auto
  have le: "uint (?now sel) + us \<le> ?key p" if "p \<in> T sel" for sel p using that a(3) us(2,3) by (cases sel) force+
  have eq: "us = 100000 \<or> (\<exists>sel. \<exists>p \<in> T sel. uint (?now sel) + us = ?key p)" using a(4) us(4) by blast
  have c: "calc_blocktime ck S = Some (?S, if us \<le> 0 then None else Some (min (us div 1000 + 1) 100))"
    using n a(1) us(1) by (simp add: calc_blocktime_def EVLOOP_MAX_BLOCK_TIME_def Let_def S)
  show ?thesis
  proof (cases "us \<le> 0")
    case True
    then obtain sel p where "p \<in> T sel" "uint (?now sel) + us = ?key p" using eq by auto
    then have "p \<in> due_timers S (T sel) (?now sel)" using True by (simp add: due_timers_def word_le_def)
    then show ?thesis using c True by auto
  next
    case False
    let ?ms = "min (us div 1000 + 1) 100"
    have m: "(?ms - 1) * 1000 \<le> us" "1 \<le> ?ms" using False by (auto simp: min_def)
    have "not_before S (T sel) (?now sel) ?ms" for sel
      unfolding not_before_def using le [of _ sel] m(1) False by (force simp: word_less_def)
    moreover have "\<exists>sel. wakes_for S (T sel) (?now sel) ?ms" if "?ms < 100"
    proof -
      have "us < ?ms * 1000" "us \<noteq> 100000" using that by (auto simp: min_def split: if_splits)
      then show ?thesis using eq unfolding wakes_for_def by force
    qed
    ultimately show ?thesis using c False m(2) by simp
  qed
qed

section \<open>A callback that resets and deletes its timer\<close>

text \<open>
  \<open>evtimer_reset\<close> clears \<open>pending\<close> without taking the timer off the pending list, so that a later
  \<open>evtimer_del\<close> in the same callback frees it, and the loop then writes to the freed timer.
\<close>

lemma reset_then_del_freed:
  assumes ok: "loop_ok S h T I Q" and p: "es_mem S p = Some t" "et_type t = EVENT_TYPE_TIMEOUT"
    and n: "unat (lp_ntimers (es_loop S)) + 1 < 2 ^ 31"
  shows "\<exists>S'. do { S \<leftarrow> evtimer_reset S p ms; evtimer_del S p } = Some S' \<and> es_mem S' p = None"
proof -
  note d = loop_okD [OF ok] and l = life_okD [OF loop_okD(2) [OF ok] p(1)]
  have "p \<notin> set I" using not_idle [OF d(4) p(1)] p(2) by simp
  then have "et_destroy t \<longleftrightarrow> p \<notin> T Timers" using l(2) l(4) [OF p(2)] by auto
  then obtain S1 t1 where r: "evtimer_reset S p ms = Some S1" "ev_ok S1 (T(Timers := insert p (T Timers)))"
    "es_mem S1 = (es_mem S)(p \<mapsto> t1)" "et_active t1" "\<not> et_pending t1" "\<not> et_destroy t1"
    using evtimer_reset_ok [OF d(1) p, of ms] l(4) [OF p(2)] n ntimers_eq [OF d(1)] by auto
  have "es_mem S1 p = Some t1" using r(3) by simp
  then obtain S2 where "evtimer_del S1 p = Some S2" "es_mem S2 p = None"
    using evtimer_del_ok [OF r(2) _ r(4)] r(5,6) by auto
  then show ?thesis using r(1) by simp
qed

lemma run_pending_reset_del:
  assumes ok: "loop_ok S h T I Q" and p: "es_mem S p = Some t" "et_type t = EVENT_TYPE_TIMEOUT"
      "et_pending t" "et_active t" "et_cb t \<noteq> 0"
    and n: "unat (lp_ntimers (es_loop S)) + 1 < 2 ^ 31"
  shows "run_pending (\<lambda>c p S. do { S \<leftarrow> evtimer_reset S p ms; evtimer_del S p }) S p k = None"
proof -
  let ?S = "S\<lparr>es_calls := es_calls S @ [(et_cb t, p)]\<rparr>"
  have "loop_ok ?S h T I Q" using ok by simp
  from reset_then_del_freed [OF this, of p t ms] p(1,2) n obtain S' where
    "do { S \<leftarrow> evtimer_reset ?S p ms; evtimer_del S p } = Some S'" "es_mem S' p = None" by auto
  then show ?thesis using p by (simp add: run_pending_def upd_timer_def)
qed

end
