(* ===== verification/Spec2Isabelle.thy ===== *)
theory Spec2Isabelle
  imports Ringbuf Vector Sha256 Sha1 Md5 Base64 Crc Checksum Jhash Linklist Buffer Unpack_Stream Prefix Evloop
begin

text \<open>
  \<^bold>\<open>YJC: verified models of the library's core\<close>

  YJC is a C library of containers, codecs and digests, an event loop with message framing, and network utilities.
  This development translates its self-contained core, function by function, into HOL definitions and proves them
  correct. File and function names below are those under \<open>src/src/\<close>.

  \<^bold>\<open>Conventions\<close> (theory \<open>YJC_Prelude\<close>). A struct is a record, an enum a datatype, a fixed-width integer a word
  (\<open>u8\<close>, \<open>u16\<close>, \<open>u32\<close>, \<open>u64\<close>) where its bits or its wrap-around matter and a \<open>nat\<close> or \<open>int\<close> with the conversions
  \<open>to_uint\<close>, \<open>to_int\<close>, \<open>to_size\<close> written out elsewhere. Memory is a list of cells read and written through
  \<open>mem_read\<close>, \<open>mem_write\<close>, \<open>mem_copy\<close>, \<open>mem_move\<close>, \<open>mem_set\<close>; an access outside a block, a failed assertion,
  signed overflow, or a loop that does not end is \<open>None\<close>, so a result \<open>Some\<close> is also a proof of memory safety and
  termination. Loops that may not end are \<open>partial_function (option)\<close>. What the code takes from outside is a
  parameter: the allocator (\<open>calloc\<close>, with \<open>calloc_ok\<close>: a non-null address not in use), \<open>qsort\<close> (a permutation),
  the kernel's answers to reads and writes (a script of outcomes), the clocks and the calendar functions, user
  callbacks (a log of their calls, and for events functions on the state with the contract \<open>callbacks_ok\<close>).

  \<^bold>\<open>Components\<close>
  \<^item> \<open>Interfaces\<close>: the contracts as locales, \<open>bounded_fifo\<close>, \<open>bounded_stack\<close>, \<open>comparison\<close> (a comparison function that
    is a weak order, with insertion into sorted lists), with \<open>stream_hash\<close> (\<open>Block_Hash\<close>), \<open>crc_engine\<close> (\<open>Crc\<close>),
    \<open>framer\<close> (\<open>Unpack\<close>) and \<open>node_order\<close> (\<open>Heap_Tree\<close>); each is interpreted on the definitions of the components.
  \<^item> \<open>Unpack\<close>, \<open>Unpack_Stream\<close>: the read path of a connection, \<open>event/unpack.c\<close>, the read buffer of \<open>event/event.c\<close> and
    \<open>nio_read\<close> of \<open>event/nio.c\<close>. The record \<open>evio\<close> holds the fields of \<open>evio_t\<close> the read path uses. Framing by
    fixed length, delimiter or length field is shown to deliver the packages of the stream (\<open>frames\<close>), however it is
    cut into reads.
  \<^item> \<open>Heap_Tree\<close>: \<open>container/heap.h\<close>, the intrusive binary heap, on a store of nodes; \<open>heap_ok\<close> says that the tree is
    complete, linked right in both directions and ordered, with a given set of nodes.
  \<^item> \<open>List_Head\<close>: \<open>container/list.h\<close>, the intrusive circular list, on a store of nodes; \<open>ring\<close> relates the links to the
    sequence of the nodes.
  \<^item> \<open>Evtimer\<close>, \<open>Evidle\<close>, \<open>Evloop\<close>: the timers and idle events of \<open>event/eventloop.c\<close> with the event macros of
    \<open>event/event.h\<close> and \<open>cron_next_timeout\<close> of \<open>base/datetime.c\<close>: the operations of a client, the firing of what is
    due, the pending lists and their callbacks, how long the loop sleeps. \<open>ev_ok\<close> is the invariant of the heaps,
    \<open>idle_ok\<close> that of the list of idle events, \<open>loop_ok\<close> also that of the pending lists and of the life of an event,
    \<open>resting\<close> that of the loop between turns; \<open>api_step\<close> and \<open>loop_reach\<close> are the steps of a client and the states
    of a loop.
  \<^item> \<open>Linklist\<close>: \<open>container/linklist.c\<close> on an explicit heap of nodes; \<open>list_rep\<close> relates the struct to the list of its
    nodes, every operation to its effect on that list and to what it leaves alone.
  \<^item> \<open>Buffer\<close>: \<open>container/buffer.c\<close>, a list of chunks; \<open>buffer_ok\<close> is its invariant, \<open>buffer_content\<close> its bytes.
  \<^item> \<open>Ringbuf\<close>, \<open>Vector\<close>: \<open>container/ringbuf.c\<close> and \<open>container/vector.c\<close> with invariants \<open>rb_inv\<close>, \<open>vec_inv\<close> and
    contents \<open>rb_content\<close>, \<open>vec_list\<close>.
  \<^item> \<open>Prefix\<close>: \<open>network/prefix.c\<close>, against the bits of an address (\<open>abit\<close>, \<open>agree\<close>).
  \<^item> \<open>Block_Hash\<close>, \<open>Sha256\<close>, \<open>Sha1\<close>, \<open>Md5\<close>: \<open>util/sha256.c\<close> (with HMAC and PBKDF2), \<open>util/sha1.c\<close>, \<open>util/md5.c\<close>, against
    the definitions of FIPS 180-4, RFC 2104, RFC 2898 and RFC 1321 stated in these theories.
  \<^item> \<open>Base64\<close>, \<open>Crc\<close>, \<open>Checksum\<close>, \<open>Jhash\<close>: \<open>util/base64.c\<close>, the 22 routines of \<open>util/crc.c\<close>, \<open>util/checksum.c\<close>,
    \<open>util/jhash.c\<close>.
  \<^item> \<open>Varint\<close>: \<open>base/math.h\<close>, which the length field uses.

  \<^bold>\<open>Interaction\<close>. The timers live in two heaps ordered by \<open>timers_compare\<close>, the idle events in an intrusive list, and
  callbacks use the operations on events while the loop walks the pending lists; the read path calls
  \<open>varint_decode\<close>; the hash key of a prefix is \<open>jhash\<close> of its bytes; the order of prefixes and the sorted operations of
  the list share the \<open>comparison\<close> contract; HMAC and PBKDF2 run the SHA-256 context.

  \<^bold>\<open>Bounds\<close>. Sizes are bounded where the code's integers are: chunks of a digest below \<open>2 ^ 32\<close> (less a block for
  SHA-1 and MD5, whose 32-bit loop counters wrap), vectors below \<open>2 ^ 31\<close> slots (the doubling of the allocation wraps
  beyond), \<open>package_max_length\<close> below \<open>2 ^ 30\<close> (doubling stays in an \<open>int\<close>), fewer than \<open>2 ^ 31\<close> nodes in a heap (its count
  is an \<open>int\<close>) and clocks further than the longest timeout from the end of 64 bits, 128 KiB for the plain \<open>checksum\<close>
  (its sum has no carry), \<open>2 ^ 23\<close> bytes for stored Fletcher checksums. \<open>varint_decode\<close> runs at most ten rounds and
  \<open>window_writev\<close> at most one per vector, which is the fuel they are given.

  \<^bold>\<open>Not modelled\<close>. SQLite and the other vendored code; everything that is a call of the system (sockets, netlink,
  namespaces, epoll, pthreads, pcap, files); watched descriptors and posted events of the event loop, writing,
  SSL and datagrams in \<open>event/nio.c\<close>; text processing (\<open>base/str.c\<close>, \<open>iniparser.c\<close>, \<open>csv.c\<close>, \<open>cmd.c\<close>, \<open>util/args.c\<close>, \<open>json_parser.c\<close>,
  \<open>linenoise.c\<close>); the conversions of prefixes from and to strings and the EVPN helpers; the kernel, BSD and FRR
  containers that were imported as they are; the experiments and tests under \<open>lab\<close>, \<open>tmp\<close> and \<open>test\<close>.

  The properties follow, by component; each is stated over the definitions of the code, with an instance that
  shows its hypotheses can be met.
\<close>

section \<open>Connection read path\<close>

definition idle_io :: evio where
  "idle_io = \<lparr>rb_base = [], rb_len = 0, rb_head = 0, rb_tail = 0, alloced_readbuf = False, loop_readbuf = True,
     max_read_bufsize = 65536, small_readbytes_cnt = 0, read_once = False, read_until_len = False,
     read_until_del = False, read_until = 0, unpack_set = None, io_reading = True, io_over_limit = False,
     io_closed = False, io_reads = []\<rparr>"


definition header_setting :: unpack_setting where
  "header_setting = \<lparr>u_mode = UNPACK_BY_LENGTH_FIELD, package_max_length = 65536, fixed_length = 0, delimiter = [],
     delimiter_bytes = 0, body_offset = 4, length_field_offset = 0, length_field_bytes = 4, length_adjustment = 0,
     length_field_coding = ENCODE_BY_BIG_ENDIAN\<rparr>"





text \<open>
  C3. A length field that makes the 32-bit package length zero hangs the connection: \<open>evio_unpack\<close> does not
  return, because its loop delivers the empty package for ever. The peer chooses the field: with the usual
  four-byte big-endian length before the body, the bytes FF FF FF FC do it.
\<close>

theorem unpack_zero_length_hangs:
  assumes "u_mode s = UNPACK_BY_LENGTH_FIELD" "rb_head io \<le> length (rb_base io)" "rb_head io + body_offset s \<le> buf + n"
    "length_field s (rb_base io) (rb_head io) (buf + n) = Some (Package 0)"
  shows "evio_unpack io s buf n = None"
  by (rule unpack_zero_package [OF assms])

theorem unpack_zero_length_hangs_witness:
  "evio_unpack (idle_io\<lparr>rb_base := [0xFF, 0xFF, 0xFF, 0xFC], rb_tail := 4\<rparr>) header_setting 0 4 = None"
proof (rule unpack_zero_length_hangs)
  have "(4 :: nat) = Suc (Suc (Suc (Suc 0)))" by simp
  then have "be_field [0xFF, 0xFF, 0xFF, 0xFC] 0 4 0 = Some 0xFFFFFFFC" by (simp only:) (simp add: mem_read_def)
  then show "length_field header_setting (rb_base (idle_io\<lparr>rb_base := [0xFF, 0xFF, 0xFF, 0xFC], rb_tail := 4\<rparr>))
      (rb_head (idle_io\<lparr>rb_base := [0xFF, 0xFF, 0xFF, 0xFC], rb_tail := 4\<rparr>)) (0 + 4) = Some (Package 0)"
    by (simp add: length_field_def header_setting_def idle_io_def)
qed (simp_all add: header_setting_def idle_io_def)

text \<open>
  C4. \<open>evio_read_until_delim\<close> also looks at the byte after the data: when that stale byte of the buffer is the
  delimiter, it is delivered as data and the head of the buffer runs past the tail.
\<close>

theorem read_until_delim_overread:
  assumes "rb_head io < rb_tail io" "rb_tail io < length (rb_base io)" "rb_base io ! rb_tail io = c"
    "\<forall>i. rb_head io \<le> i \<longrightarrow> i < rb_tail io \<longrightarrow> rb_base io ! i \<noteq> c"
  shows "\<exists>io'. evio_read_until_delim io c = Some (io', int (rb_tail io - rb_head io) + 1) \<and>
    rb_head io' = rb_tail io' + 1 \<and> last (last (io_reads io')) = c"
  by (rule evio_read_until_delim_stale [OF assms])

theorem read_until_delim_overread_witness:
  "\<exists>io'. evio_read_until_delim (idle_io\<lparr>rb_base := [97, 10], rb_tail := 1\<rparr>) 10 = Some (io', 2) \<and> rb_head io' = rb_tail io' + 1"
  using read_until_delim_overread [of "idle_io\<lparr>rb_base := [97, 10], rb_tail := 1\<rparr>" 10] by (auto simp: idle_io_def)

section \<open>Event loop\<close>

definition start_clock :: clock where
  "start_clock = \<lparr>ck_hrtime = 1000000, ck_time = 5, ck_tod_ms = 5000\<rparr>"

definition late_clock :: clock where
  "late_clock = \<lparr>ck_hrtime = 2000000, ck_time = 6, ck_tod_ms = 6000\<rparr>"

text \<open>The deadline of a timer, as \<open>evtimer_add\<close> and \<open>evtimer_reset\<close> compute it.\<close>

lemma deadline_bounds:
  fixes now :: u64 and ms :: u32
  assumes "unat now + 2 ^ 32 * 1000 < 2 ^ 64"
  shows "unat (round_timeout k (now + ucast ms * 1000)) \<le> unat now + unat ms * 1000"
    "unat now + unat ms * 1000 < unat (round_timeout k (now + ucast ms * 1000)) + 100000"
proof -
  have "unat ms < 2 ^ 32" using unsigned_less [of ms] by simp
  then have "unat (now + ucast ms * 1000) = unat now + unat ms * 1000"
    using assms unat_step [of ms] by (subst unat_add_lem [THEN iffD1]) simp_all
  then show "unat (round_timeout k (now + ucast ms * 1000)) \<le> unat now + unat ms * 1000"
    "unat now + unat ms * 1000 < unat (round_timeout k (now + ucast ms * 1000)) + 100000"
    using round_timeout_bounds [where ms = k and nx = "now + ucast ms * 1000"] by (simp_all add: word_le_nat_alt)
qed

lemma evtimer_add_clock:
  "evtimer_add alloc ck S cb ms rep = Some (S', p) \<Longrightarrow> ms \<noteq> 0 \<Longrightarrow>
    lp_start_ms (es_loop S') = lp_start_ms (evloop_update_time ck (es_loop S)) \<and>
    lp_start_hrtime (es_loop S') = lp_start_hrtime (evloop_update_time ck (es_loop S))"
  by (auto simp: evtimer_add_def timer_insert_def EVENT_ADD_def EVENT_ACTIVE_def upd_timer_def upd_loop_def Let_def
      split: Option.bind_split_asm if_splits)

abbreviation one_set :: "heap_sel \<Rightarrow> ptr set" where
  "one_set \<equiv> (\<lambda>_. {})(Timers := {1})"

text \<open>A loop with one timer of 5 ms at address 1 that calls the callback 7 once, at a time when it is due.\<close>

lemma one_timer:
  obtains S t where "evtimer_add (\<lambda>_. 1) start_clock (evloop_init 100 start_clock) 7 5 1 = Some (S, 1)"
    "resting S one_set []" "es_mem S = [1 \<mapsto> t]" "es_calls S = []" "et_next_timeout t = 1005000" "et_repeat t = 1" "et_cb t = 7"
    "et_active t" "et_type t = EVENT_TYPE_TIMEOUT" "et_timeout t = 5" "lp_ntimers (es_loop S) = 1"
proof -
  let ?S0 = "evloop_init 100 start_clock" and ?alloc = "\<lambda>_ :: ev_state. 1 :: ptr"
  have r0: "loop_ok ?S0 (pending_heads ?S0) (\<lambda>_. {}) [] (\<lambda>_. [])" "lp_npendings (es_loop ?S0) = 0"
    using init_resting by (auto simp: resting_def)
  have m0: "es_mem ?S0 = Map.empty" "es_calls ?S0 = []" by (simp_all add: evloop_init_def)
  obtain S t where S: "evtimer_add ?alloc start_clock ?S0 7 5 1 = Some (S, 1)" "ev_ok S one_set" "es_mem S = [1 \<mapsto> t]"
    "et_type t = EVENT_TYPE_TIMEOUT" "et_timeout t = 5" "et_repeat t = 1" "et_cb t = 7" "et_active t" "\<not> et_pending t"
    "et_next_timeout t = round_timeout 5 (ck_hrtime start_clock + ucast (5 :: u32) * 1000)"
    using evtimer_add_ok [OF loop_okD(1) [OF r0(1)], of ?alloc 5 start_clock 7 1] m0 by (auto simp: ntimers_of_def)
  have q: "same_queue ?S0 S" by (rule evtimer_add_queue [OF S(1)])
  have "loop_ok S (pending_heads ?S0) one_set [] (\<lambda>_. [])"
    using new_timer_loop_ok [OF r0(1), of 1 S Timers t] S(2,3,9) m0 evtimer_add_idles [OF S(1)] by (simp add: fresh_def evloop_init_def)
  then have "resting S one_set []" using q r0(2) by (simp add: resting_def same_queue_def)
  moreover have "unat (lp_ntimers (es_loop S)) = 1" using timers_okD(5) [OF ev_okD(2) [OF S(2)]] by simp
  then have "lp_ntimers (es_loop S) = 1" by (simp add: word_unat_eq_iff)
  moreover have "et_next_timeout t = 1005000" unfolding S(10) by (simp add: round_timeout_def start_clock_def)
  ultimately show thesis using that S q m0 by (auto simp: same_queue_def)
qed

abbreviation late :: "ev_state \<Rightarrow> ev_state" where
  "late S \<equiv> upd_loop S (evloop_update_time late_clock)"

lemma late_simps [simp]:
  "es_mem (late S) = es_mem S" "es_calls (late S) = es_calls S" "lp_cur_hrtime (es_loop (late S)) = 2000000"
  "lp_ntimers (es_loop (late S)) = lp_ntimers (es_loop S)"
  by (simp_all add: upd_loop_def late_clock_def)

abbreviation early :: "ev_state \<Rightarrow> ev_state" where
  "early S \<equiv> upd_loop S (evloop_update_time start_clock)"

lemma early_simps [simp]:
  "es_mem (early S) = es_mem S" "es_calls (early S) = es_calls S" "lp_cur_hrtime (es_loop (early S)) = 1000000"
  by (simp_all add: upd_loop_def start_clock_def)











text \<open>
  C8. \<open>evtimer_add\<close> puts a new timer into the heap with a deadline that is at most 100 ms before the timeout asked
  for and never after it, \<open>evtimer_reset\<close> gives a timer (also one that has fired for the last time) such a
  deadline counted from now and cancels its pending call, \<open>evtimer_del\<close> takes it out of its heap and frees it, or
  leaves that to the loop when it is pending. All keep the heaps and the count of timers right and leave the
  other timers alone.
\<close>

theorem timer_operations:
  assumes "ev_ok S T" "ntimers_of T + 1 < 2 ^ 31"
  shows "(\<forall>alloc (ck :: clock) cb (ms :: u32) rep. alloc S \<noteq> NULL \<longrightarrow> es_mem S (alloc S) = None \<longrightarrow> ms \<noteq> 0 \<longrightarrow>
      unat (ck_hrtime ck) + 2 ^ 32 * 1000 < 2 ^ 64 \<longrightarrow>
      (\<exists>S' t. evtimer_add alloc ck S cb ms rep = Some (S', alloc S) \<and> ev_ok S' (T(Timers := insert (alloc S) (T Timers))) \<and>
        es_mem S' = (es_mem S)(alloc S \<mapsto> t) \<and> et_timeout t = ms \<and> et_repeat t = rep \<and> et_cb t = cb \<and> et_active t \<and>
        unat (et_next_timeout t) \<le> unat (ck_hrtime ck) + unat ms * 1000 \<and>
        unat (ck_hrtime ck) + unat ms * 1000 < unat (et_next_timeout t) + 100000)) \<and>
    (\<forall>p t (ms :: u32). es_mem S p = Some t \<longrightarrow> et_type t = EVENT_TYPE_TIMEOUT \<longrightarrow> p \<notin> T Realtimers \<longrightarrow>
      (et_destroy t \<longleftrightarrow> p \<notin> T Timers) \<longrightarrow> ms \<noteq> 0 \<longrightarrow> unat (lp_cur_hrtime (es_loop S)) + 2 ^ 32 * 1000 < 2 ^ 64 \<longrightarrow>
      (\<exists>S' t'. evtimer_reset S p ms = Some S' \<and> ev_ok S' (T(Timers := insert p (T Timers))) \<and> es_mem S' = (es_mem S)(p \<mapsto> t') \<and>
        et_timeout t' = ms \<and> et_active t' \<and> \<not> et_pending t' \<and> \<not> et_destroy t' \<and>
        unat (et_next_timeout t') \<le> unat (lp_cur_hrtime (es_loop S)) + unat ms * 1000 \<and>
        unat (lp_cur_hrtime (es_loop S)) + unat ms * 1000 < unat (et_next_timeout t') + 100000)) \<and>
    (\<forall>p t. es_mem S p = Some t \<longrightarrow> et_active t \<longrightarrow> (et_destroy t \<longleftrightarrow> p \<notin> T Timers \<union> T Realtimers) \<longrightarrow>
      (\<exists>S'. evtimer_del S p = Some S' \<and> ev_ok S' (\<lambda>sel. T sel - {p}) \<and> (\<forall>q. q \<noteq> p \<longrightarrow> es_mem S' q = es_mem S q) \<and>
        es_mem S' p = (if et_pending t then Some (t\<lparr>et_destroy := True, et_active := False\<rparr>) else None)))"
proof (intro conjI allI impI)
  fix alloc cb rep and ms :: u32 and ck :: clock
  assume a: "alloc S \<noteq> NULL" "es_mem S (alloc S) = None" "ms \<noteq> 0" "unat (ck_hrtime ck) + 2 ^ 32 * 1000 < 2 ^ 64"
  show "\<exists>S' t. evtimer_add alloc ck S cb ms rep = Some (S', alloc S) \<and> ev_ok S' (T(Timers := insert (alloc S) (T Timers))) \<and>
      es_mem S' = (es_mem S)(alloc S \<mapsto> t) \<and> et_timeout t = ms \<and> et_repeat t = rep \<and> et_cb t = cb \<and> et_active t \<and>
      unat (et_next_timeout t) \<le> unat (ck_hrtime ck) + unat ms * 1000 \<and>
      unat (ck_hrtime ck) + unat ms * 1000 < unat (et_next_timeout t) + 100000"
    using evtimer_add_ok [OF assms(1), of alloc ms ck cb rep] a(1-3) assms(2) deadline_bounds [OF a(4), of ms ms] by fastforce
next
  fix p t and ms :: u32
  assume p: "es_mem S p = Some t" "et_type t = EVENT_TYPE_TIMEOUT" "p \<notin> T Realtimers" "et_destroy t \<longleftrightarrow> p \<notin> T Timers"
    and ms: "ms \<noteq> 0" and b: "unat (lp_cur_hrtime (es_loop S)) + 2 ^ 32 * 1000 < 2 ^ 64"
  have "(if ms > 0 then ms else et_timeout t) = ms" using ms by (simp add: word_gt_0)
  then show "\<exists>S' t'. evtimer_reset S p ms = Some S' \<and> ev_ok S' (T(Timers := insert p (T Timers))) \<and> es_mem S' = (es_mem S)(p \<mapsto> t') \<and>
      et_timeout t' = ms \<and> et_active t' \<and> \<not> et_pending t' \<and> \<not> et_destroy t' \<and>
      unat (et_next_timeout t') \<le> unat (lp_cur_hrtime (es_loop S)) + unat ms * 1000 \<and>
      unat (lp_cur_hrtime (es_loop S)) + unat ms * 1000 < unat (et_next_timeout t') + 100000"
    using evtimer_reset_ok [OF assms(1) p, of ms] ms assms(2) deadline_bounds [OF b, of ms ms] by fastforce
qed (use evtimer_del_ok [OF assms(1)] in blast)

theorem timer_operations_witness:
  "\<exists>S S' S'' t. es_mem S = [1 \<mapsto> t] \<and> evtimer_reset S 1 2000 = Some S' \<and> ev_ok S' one_set \<and>
    evtimer_del S 1 = Some S'' \<and> es_mem S'' 1 = None"
proof (rule one_timer)
  fix S t assume S: "evtimer_add (\<lambda>_. 1) start_clock (evloop_init 100 start_clock) 7 5 1 = Some (S, 1)" "resting S one_set []"
    "es_mem S = [1 \<mapsto> t]" "et_type t = EVENT_TYPE_TIMEOUT" "et_active t"
  have ok: "ev_ok S one_set" using S(2) by (simp add: resting_def loop_ok_def)
  have t: "\<not> et_pending t" "\<not> et_destroy t" using resting_timers(4) [OF S(2), of 1 t] S(3) by simp_all
  have c: "lp_cur_hrtime (es_loop S) = 1000000"
    using evtimer_add_ok [OF loop_okD(1), of "evloop_init 100 start_clock" _ "\<lambda>_. {}" "[]" _ "\<lambda>_. 1" 5 start_clock 7 1] init_resting [of 100 start_clock] S(1)
    by (auto simp: resting_def ntimers_of_def evloop_init_def start_clock_def)
  have "\<exists>S'. evtimer_reset S 1 2000 = Some S' \<and> ev_ok S' one_set"
    using timer_operations [OF ok, THEN conjunct2, THEN conjunct1, rule_format, of 1 t 2000] S(3,4) t(2) c by (auto simp: ntimers_of_def)
  moreover have "\<exists>S''. evtimer_del S 1 = Some S'' \<and> es_mem S'' 1 = None"
    using timer_operations [OF ok, THEN conjunct2, THEN conjunct2, rule_format, of 1 t] S(3,5) t by (auto simp: ntimers_of_def)
  ultimately show ?thesis using S(3) by blast
qed

text \<open>
  C9. A loop with timers does not sleep when one is due; otherwise it sleeps between 1 and 100 ms, at most 1 ms past
  the first timeout of either heap, and when it is less than 100 ms a timer is due after it.
\<close>

theorem blocktime_bounds:
  assumes "ev_ok S T" "lp_ntimers (es_loop S) \<noteq> 0" "\<forall>sel. uint (heap_now ck S sel) < 2 ^ 63"
    "\<forall>sel. \<forall>p \<in> T sel. uint (timer_key (es_mem S) p) < 2 ^ 63"
  shows "\<exists>b. calc_blocktime ck S = Some (upd_loop S (evloop_update_time ck), b) \<and>
    (case b of None \<Rightarrow> \<exists>sel. due_timers S (T sel) (heap_now ck S sel) \<noteq> {}
     | Some ms \<Rightarrow> 1 \<le> ms \<and> ms \<le> 100 \<and> (\<forall>sel. not_before S (T sel) (heap_now ck S sel) ms) \<and>
         (ms < 100 \<longrightarrow> (\<exists>sel. wakes_for S (T sel) (heap_now ck S sel) ms)))"
  using assms(3,4) by (intro calc_blocktime_ok [OF assms(1,2)]) auto

theorem blocktime_bounds_witness:
  "\<exists>S b. lp_ntimers (es_loop S) = 1 \<and> calc_blocktime start_clock S = Some (upd_loop S (evloop_update_time start_clock), b) \<and>
    (\<forall>ms. b = Some ms \<longrightarrow> 1 \<le> ms \<and> ms \<le> 100)"
proof (rule one_timer)
  fix S t assume S: "evtimer_add (\<lambda>_. 1) start_clock (evloop_init 100 start_clock) 7 5 1 = Some (S, 1)" "resting S one_set []"
    "es_mem S = [1 \<mapsto> t]" "et_next_timeout t = 1005000" "lp_ntimers (es_loop S) = 1"
  have ok: "ev_ok S one_set" using S(2) by (simp add: resting_def loop_ok_def)
  have "lp_start_ms (es_loop S) = 5000" "lp_start_hrtime (es_loop S) = 1000000"
    using evtimer_add_clock [OF S(1)] by (simp_all add: evloop_init_def evloop_update_time_def evloop_now_def start_clock_def)
  then have n: "\<forall>sel. uint (heap_now start_clock S sel) < 2 ^ 63"
    by (intro allI, case_tac sel) (simp_all add: heap_now_def evloop_update_time_def evloop_now_def evloop_now_us_def start_clock_def)
  have k: "\<forall>sel. \<forall>p \<in> one_set sel. uint (timer_key (es_mem S) p) < 2 ^ 63" using S(3,4) by (auto simp: timer_key_def)
  obtain b where "calc_blocktime start_clock S = Some (upd_loop S (evloop_update_time start_clock), b)"
    "\<forall>ms. b = Some ms \<longrightarrow> 1 \<le> ms \<and> ms \<le> 100"
    using blocktime_bounds [OF ok _ n k] S(5) by (auto split: option.splits)
  then show ?thesis using S(5) by blast
qed

text \<open>
  C10. A callback that resets its timer and then deletes it makes the loop write to freed memory: \<open>evtimer_reset\<close>
  clears \<open>pending\<close> but leaves the timer on the pending list, so \<open>evtimer_del\<close> frees it at once.
\<close>

theorem reset_del_use_after_free:
  assumes "loop_ok S h T I Q" "es_mem S p = Some t" "et_type t = EVENT_TYPE_TIMEOUT" "et_pending t" "et_active t" "et_cb t \<noteq> 0"
    "unat (lp_ntimers (es_loop S)) + 1 < 2 ^ 31"
  shows "pending_loop (\<lambda>c p S. do { S \<leftarrow> evtimer_reset S p ms; evtimer_del S p }) S p ncbs = None"
  using run_pending_reset_del [OF assms, of ms ncbs] assms(2) life_okD(1) [OF loop_okD(2) [OF assms(1)] assms(2)]
  by (subst pending_loop.simps) simp

theorem reset_del_use_after_free_witness:
  "\<exists>S S1 n. evloop_process_timers \<lparr>cal_time = 0, cal_localtime = undefined, cal_mktime = undefined\<rparr> S = Some (S1, n) \<and>
    pending_loop (\<lambda>c p S. do { S \<leftarrow> evtimer_reset S p 10; evtimer_del S p }) S1 1 0 = None"
proof (rule one_timer)
  let ?cal = "\<lparr>cal_time = 0, cal_localtime = undefined, cal_mktime = undefined\<rparr> :: calendar"
  fix S t assume S: "resting S one_set []" "es_mem S = [1 \<mapsto> t]" "et_next_timeout t = 1005000" "et_repeat t = 1"
    "et_cb t = 7" "et_active t" "et_type t = EVENT_TYPE_TIMEOUT"
  have r: "resting (late S) one_set []" by (rule resting_update [OF S(1)])
  have "clocks_ok ?cal (late S)" using S(2,7) by (simp add: clocks_ok_def)
  from evloop_process_timers_ok [OF r this] obtain S1 ps qs where
    e: "evloop_process_timers ?cal (late S) = Some (S1, length ps + length qs)" "set ps = due_timers (late S) {1} 2000000"
      "loop_ok S1 (pending_heads S1) (\<lambda>sel. one_set sel - last_shots (late S) (set (ps @ qs))) []
        (\<lambda>i. rev (filter (\<lambda>p. prio_index (es_mem S) p = i) (ps @ qs)))"
      "\<forall>p \<in> set ps. \<exists>t t'. es_mem S p = Some t \<and> es_mem S1 p = Some t' \<and> fired 2000000 t t'" by auto
  have "1 \<in> set ps" unfolding e(2) using S(2,3) by (auto simp: due_timers_def timer_key_def)
  then obtain t' where t': "es_mem S1 1 = Some t'" "fired 2000000 t t'" using e(4) S(2) by force
  have "unat (lp_ntimers (es_loop S1)) \<le> 1"
    using timers_okD(5) [OF ev_okD(2) [OF loop_okD(1) [OF e(3)]]] card_mono [of "{1 :: ptr}" "{1} - last_shots (late S) (set (ps @ qs))"] by auto
  then have "pending_loop (\<lambda>c p S. do { S \<leftarrow> evtimer_reset S p 10; evtimer_del S p }) S1 1 0 = None"
    using reset_del_use_after_free [OF e(3) t'(1), of 10 0] t'(2) S(5-7) by (auto simp: fired_def)
  then show ?thesis using e(1) by blast
qed

text \<open>
  C11. The intrusive binary heap of the timers, with any strict weak order, is a priority queue: inserting nodes keeps
  the tree complete, its links right in both directions and its order, and dequeuing them all returns every node
  once in ascending order and leaves the heap empty.
\<close>

theorem heap_sorts:
  assumes "node_order (compare m)" "distinct xs" "\<forall>x \<in> set xs. detached N x" "length xs < 2 ^ 31"
  shows "\<exists>N1 H1 N2 H2 ys. heap_insert_all m N (heap_init (Some compare)) xs = Some (N1, H1) \<and> heap_ok m N1 H1 (set xs) \<and>
    heap_drain m N1 H1 (length xs) = Some (N2, H2, ys) \<and> heap_ok m N2 H2 {} \<and> set ys = set xs \<and> distinct ys \<and>
    sorted_wrt (\<lambda>x y. \<not> compare m y x) ys"
proof -
  let ?H = "heap_init (Some compare)"
  have c: "hp_compare ?H = Some compare" by (simp add: heap_init_def)
  obtain N1 H1 where 1: "heap_insert_all m N ?H xs = Some (N1, H1)" "heap_ok m N1 H1 (set xs)" "hp_compare H1 = Some compare"
    using node_order.heap_insert_all_ok [OF assms(1) heap_ok_init c refl assms(2) _ assms(3)] assms(4) by auto
  from node_order.heap_drain_ok [OF assms(1) 1(2,3) refl distinct_card [OF assms(2)]] show ?thesis using 1(1,2) by blast
qed

theorem heap_sorts_witness:
  "\<exists>N1 H1 N2 H2 ys. heap_insert_all () (\<lambda>_. Some zero_node) (heap_init (Some (\<lambda>_. (<)))) [3, 1, 2] = Some (N1, H1) \<and>
    heap_drain () N1 H1 3 = Some (N2, H2, ys) \<and> ys = [1, 2, 3]"
proof -
  let ?lt = "\<lambda>_ :: unit. (<) :: ptr \<Rightarrow> ptr \<Rightarrow> bool" and ?xs = "[3, 1, 2] :: ptr list" and ?N = "\<lambda>_. Some zero_node"
  have "node_order (?lt ())" by unfold_locales auto
  moreover have "\<forall>x \<in> set ?xs. detached ?N x" by (simp add: detached_def zero_node_def)
  moreover have "distinct ?xs" "length ?xs < 2 ^ 31" by simp_all
  ultimately obtain N1 H1 N2 H2 ys where e: "heap_insert_all () ?N (heap_init (Some ?lt)) ?xs = Some (N1, H1)"
    "heap_drain () N1 H1 (length ?xs) = Some (N2, H2, ys)" "set ys = set ?xs" "distinct ys" "sorted_wrt (\<lambda>x y. \<not> y < x) ys"
    using heap_sorts [of ?lt "()" ?xs ?N] by blast
  have "length ?xs = 3" by simp
  have "sorted ys" using e(5) by (simp add: not_less)
  then have "ys = [1, 2, 3]" using e(3,4) sorted_distinct_set_unique [of ys "[1, 2, 3]"] by auto
  then show ?thesis using e(1,2) unfolding \<open>length ?xs = 3\<close> by blast
qed

section \<open>Intrusive lists\<close>

text \<open>
  C12. The circular list of \<open>list.h\<close>, with its nodes inside the objects of the client, is a sequence: adding at either
  end, deleting, replacing, moving, rotating, splicing and cutting do to the sequence what their names say and keep
  the links right in both directions, adding and deleting touch no node of another list, and the tests tell the
  truth.
\<close>

theorem list_ring_operations:
  assumes "ring L s xs"
  shows "(\<forall>n \<in> dom L - set (s # xs).
      (\<exists>L'. list_add L n s = Some L' \<and> ring L' s (n # xs) \<and> (\<forall>q. q \<notin> set (s # n # xs) \<longrightarrow> L' q = L q)) \<and>
      (\<exists>L'. list_add_tail L n s = Some L' \<and> ring L' s (xs @ [n]) \<and> (\<forall>q. q \<notin> set (s # n # xs) \<longrightarrow> L' q = L q))) \<and>
    (\<forall>n \<in> set xs.
      (\<exists>L'. list_del L n = Some L' \<and> ring L' s (remove1 n xs) \<and> (\<forall>q. q \<notin> set (s # remove1 n xs) \<longrightarrow> L' q = L q)) \<and>
      (\<forall>m \<in> dom L - set (s # xs). \<exists>L'. list_replace_init L n m = Some L' \<and> ring L' n [] \<and>
        ring L' s (map (\<lambda>x. if x = n then m else x) xs)) \<and>
      (\<forall>l \<in> dom L - set (s # xs). \<exists>L'. list_cut_position L l s n = Some L' \<and>
        ring L' l (takeWhile (\<lambda>x. x \<noteq> n) xs @ [n]) \<and> ring L' s (tl (dropWhile (\<lambda>x. x \<noteq> n) xs))) \<and>
      (\<exists>L'. list_del_init L n = Some L' \<and> ring L' s (remove1 n xs) \<and> ring L' n []) \<and>
      (\<exists>L'. list_move L n s = Some L' \<and> ring L' s (n # remove1 n xs)) \<and>
      (\<exists>L'. list_move_tail L n s = Some L' \<and> ring L' s (remove1 n xs @ [n])) \<and>
      list_is_last L n s = Some (n = last xs)) \<and>
    (\<exists>L'. list_rotate_left L s = Some L' \<and> ring L' s (rotate1 xs)) \<and>
    list_empty L s = Some (xs = []) \<and> list_is_singular L s = Some (length xs = 1) \<and>
    (\<forall>l zs. ring L l zs \<longrightarrow> set (l # zs) \<inter> set (s # xs) = {} \<longrightarrow>
      (\<exists>L'. list_splice L l s = Some L' \<and> ring L' s (zs @ xs)) \<and>
      (\<exists>L'. list_splice_tail L l s = Some L' \<and> ring L' s (xs @ zs)) \<and>
      (\<exists>L'. list_splice_init L l s = Some L' \<and> ring L' s (zs @ xs) \<and> ring L' l []) \<and>
      (\<exists>L'. list_splice_tail_init L l s = Some L' \<and> ring L' s (xs @ zs) \<and> ring L' l []))"
proof (intro conjI ballI allI impI)
  fix n assume n: "n \<in> dom L - set (s # xs)"
  show "\<exists>L'. list_add L n s = Some L' \<and> ring L' s (n # xs) \<and> (\<forall>q. q \<notin> set (s # n # xs) \<longrightarrow> L' q = L q)"
    using list_add_ring [OF assms, of n] n by auto
  show "\<exists>L'. list_add_tail L n s = Some L' \<and> ring L' s (xs @ [n]) \<and> (\<forall>q. q \<notin> set (s # n # xs) \<longrightarrow> L' q = L q)"
    using list_add_tail_ring [OF assms, of n] n by auto
next
  fix n assume n: "n \<in> set xs"
  obtain ys zs where xs: "xs = ys @ n # zs" "remove1 n xs = ys @ zs" by (rule ring_member [OF assms n])
  note r = assms [unfolded xs(1)]
  have nn: "n \<notin> set ys" "n \<notin> set zs" using r by (auto simp: ring_def)
  show "\<exists>L'. list_replace_init L n m = Some L' \<and> ring L' n [] \<and> ring L' s (map (\<lambda>x. if x = n then m else x) xs)"
    if "m \<in> dom L - set (s # xs)" for m
  proof -
    have "map (\<lambda>x. if x = n then m else x) xs = ys @ m # zs" using nn unfolding xs(1) by (auto intro!: map_idI)
    then show ?thesis using list_replace_init_ring [OF r, of m] that unfolding xs(1) by auto
  qed
  show "\<exists>L'. list_cut_position L l s n = Some L' \<and> ring L' l (takeWhile (\<lambda>x. x \<noteq> n) xs @ [n]) \<and>
      ring L' s (tl (dropWhile (\<lambda>x. x \<noteq> n) xs))" if "l \<in> dom L - set (s # xs)" for l
  proof -
    have "\<forall>x \<in> set ys. x \<noteq> n" using nn by blast
    then have "takeWhile (\<lambda>x. x \<noteq> n) xs = ys" "tl (dropWhile (\<lambda>x. x \<noteq> n) xs) = zs" by (simp_all add: xs(1))
    then show ?thesis using list_cut_position_ring(2) [OF assms, of l n ys zs] that n xs(1) by auto
  qed
  show "\<exists>L'. list_del L n = Some L' \<and> ring L' s (remove1 n xs) \<and> (\<forall>q. q \<notin> set (s # remove1 n xs) \<longrightarrow> L' q = L q)"
    unfolding xs(2) using list_del_ring [OF r] by blast
  show "\<exists>L'. list_del_init L n = Some L' \<and> ring L' s (remove1 n xs) \<and> ring L' n []"
    unfolding xs(2) by (rule list_del_init_ring [OF r])
  show "\<exists>L'. list_move L n s = Some L' \<and> ring L' s (n # remove1 n xs)"
    "\<exists>L'. list_move_tail L n s = Some L' \<and> ring L' s (remove1 n xs @ [n])"
    unfolding xs(2) using list_move_ring [OF r] by simp_all
  show "list_is_last L n s = Some (n = last xs)" by (rule list_tests(3) [OF assms n])
qed (use list_rotate_left_ring [OF assms] list_tests(1,2) [OF assms] list_splice_ring [OF assms] in blast)+

theorem list_ring_operations_witness:
  "\<exists>L L1 L2. L = [100 \<mapsto> \<lparr>lh_next = 1, lh_prev = 2\<rparr>, 1 \<mapsto> \<lparr>lh_next = 2, lh_prev = 100\<rparr>, 2 \<mapsto> \<lparr>lh_next = 100, lh_prev = 1\<rparr>,
      3 \<mapsto> \<lparr>lh_next = 0, lh_prev = 0\<rparr>] \<and> ring L 100 [1, 2] \<and>
    list_add L 3 100 = Some L1 \<and> ring L1 100 [3, 1, 2] \<and> list_del L 1 = Some L2 \<and> ring L2 100 [2]"
proof -
  let ?L = "[100 \<mapsto> \<lparr>lh_next = 1, lh_prev = 2\<rparr>, 1 \<mapsto> \<lparr>lh_next = 2, lh_prev = 100\<rparr>, 2 \<mapsto> \<lparr>lh_next = 100, lh_prev = 1\<rparr>,
      3 \<mapsto> \<lparr>lh_next = 0, lh_prev = 0\<rparr>] :: links"
  have r: "ring ?L 100 [1, 2]" by (simp add: ring_def nxt_of_def prv_of_def)
  have "\<exists>L1. list_add ?L 3 100 = Some L1 \<and> ring L1 100 [3, 1, 2]"
    using list_ring_operations [OF r, THEN conjunct1, rule_format, of 3] by auto
  moreover have "\<exists>L2. list_del ?L 1 = Some L2 \<and> ring L2 100 [2]"
    using list_ring_operations [OF r, THEN conjunct2, THEN conjunct1, rule_format, of 1] by auto
  ultimately show ?thesis using r by blast
qed

section \<open>Linked list\<close>

definition next_addr :: "heap \<Rightarrow> ptr" where
  "next_addr h = Suc (Max (insert 0 (dom h)))"

lemma next_addr_ok: "calloc_ok next_addr"
  unfolding calloc_ok_def
proof (intro allI impI conjI)
  fix h :: heap assume fin: "finite (dom h)"
  show "next_addr h \<noteq> NULL" by (simp add: next_addr_def)
  have "next_addr h \<le> Max (insert 0 (dom h))" if "next_addr h \<in> dom h" using fin that by simp
  then show "next_addr h \<notin> dom h" by (auto simp: next_addr_def)
qed

lemma list_new_rep: "list_rep Map.empty list_new []" "list_rep Map.empty (list_create cmp del) []"
  by (simp_all add: list_rep_empty list_new_def list_create_def)

text \<open>
  C13. \<open>listnode_add\<close>, \<open>listnode_add_head\<close>, \<open>listnode_add_after\<close> and \<open>listnode_add_before\<close> insert one new node into
  the list at the tail, at the head, after and before a node (a NULL node meaning the head and the tail): the
  links in both directions, head, tail and count are right again, and nothing outside the list changes.
\<close>

theorem listnode_insert:
  assumes "list_rep h l (xs @ ys)" "fresh_node calloc h l (xs @ ys) val"
  defines "n \<equiv> new_node calloc h l val" and "d \<equiv> new_data h l val"
  shows "(\<exists>h' l'. listnode_add calloc h l val = Some (h', l', n) \<and> inserted h h' l' (xs @ ys) n [] d) \<and>
    (\<exists>h' l'. listnode_add_head calloc h l val = Some (h', l') \<and> inserted h h' l' [] n (xs @ ys) d) \<and>
    (\<exists>h' l'. listnode_add_after calloc h l (last0 xs NULL) val = Some (h', l', n) \<and> inserted h h' l' xs n ys d) \<and>
    (\<exists>h' l'. listnode_add_before calloc h l (hd0 ys NULL) val = Some (h', l', n) \<and> inserted h h' l' xs n ys d)"
proof (intro conjI)
  show "\<exists>h' l'. listnode_add calloc h l val = Some (h', l', n) \<and> inserted h h' l' (xs @ ys) n [] d"
    using listnode_add_relink [OF assms(1,2)] relink_inserted [of h l "xs @ ys" "[]"] assms by simp
  show "\<exists>h' l'. listnode_add_head calloc h l val = Some (h', l') \<and> inserted h h' l' [] n (xs @ ys) d"
    using listnode_add_head_relink [OF assms(1,2)] relink_inserted [of h l "[]" "xs @ ys"] assms by simp
  show "\<exists>h' l'. listnode_add_after calloc h l (last0 xs NULL) val = Some (h', l', n) \<and> inserted h h' l' xs n ys d"
    using listnode_add_after_null [of h l ys] listnode_add_after_relink [of h l "butlast xs" "last xs" ys]
      relink_inserted [OF assms(1,2)] assms
    by (cases xs rule: rev_cases) simp_all
  show "\<exists>h' l'. listnode_add_before calloc h l (hd0 ys NULL) val = Some (h', l', n) \<and> inserted h h' l' xs n ys d"
    using listnode_add_before_null [of h l xs] listnode_add_before_relink [of h l xs "hd ys" "tl ys"]
      relink_inserted [OF assms(1,2)] assms
    by (cases ys) simp_all
qed

theorem listnode_insert_witness:
  "\<exists>h' l'. listnode_add next_addr Map.empty list_new 7 = Some (h', l', 1) \<and> list_rep h' l' [1] \<and> list_vals h' [1] = [7]"
  using listnode_insert [of Map.empty list_new "[]" "[]" next_addr 7] list_new_rep(1)
    calloc_ok_fresh [OF next_addr_ok, of Map.empty 7 list_new "[]"]
  by (auto simp: inserted_def new_node_def new_data_def next_addr_def list_vals_def)

text \<open>
  C14. \<open>list_delete_node\<close> takes exactly its node out of the list and frees it (unless the nodes belong to the
  application), and \<open>listnode_move_to_tail\<close> moves it to the end; both keep the invariant of the list.
\<close>

theorem listnode_remove:
  assumes "list_rep h l (xs @ n # ys)"
  shows "(\<exists>h' l'. list_delete_node h l n = Some (h', l') \<and> list_rep h' l' (xs @ ys) \<and>
      list_vals h' (xs @ ys) = list_vals h (xs @ ys) \<and> (by_app l \<or> h' n = None)) \<and>
    (\<exists>h' l'. listnode_move_to_tail h l n = Some (h', l') \<and> list_rep h' l' (xs @ ys @ [n]) \<and>
      list_vals h' (xs @ ys @ [n]) = list_vals h (xs @ ys @ [n]))"
proof (rule conjI)
  have "list_vals (unlink xs ys h) (xs @ ys) = list_vals h (xs @ ys)"
    unfolding list_vals_def using node_data_unlink [OF assms] by simp
  then show "\<exists>h' l'. list_delete_node h l n = Some (h', l') \<and> list_rep h' l' (xs @ ys) \<and>
      list_vals h' (xs @ ys) = list_vals h (xs @ ys) \<and> (by_app l \<or> h' n = None)"
    using list_delete_node_unlink [OF assms] list_rep_unlink [OF assms] list_vals_unlink [OF assms]
    by (cases "by_app l") simp_all
  show "\<exists>h' l'. listnode_move_to_tail h l n = Some (h', l') \<and> list_rep h' l' (xs @ ys @ [n]) \<and>
      list_vals h' (xs @ ys @ [n]) = list_vals h (xs @ ys @ [n])"
    using listnode_move_to_tail_rep [OF assms] by blast
qed

definition one_node :: heap where
  "one_node = [1 \<mapsto> \<lparr>ln_next = NULL, ln_prev = NULL, ln_data = 7\<rparr>]"

abbreviation byte_cmp :: "ptr \<Rightarrow> ptr \<Rightarrow> int" where
  "byte_cmp \<equiv> compare_strs (\<lambda>p. [of_nat p])"

definition one_list :: "(ptr \<Rightarrow> ptr \<Rightarrow> int) option \<Rightarrow> llist" where
  "one_list c = \<lparr>l_head = 1, l_tail = 1, l_count = 1, l_flags = 0, l_cmp = c, l_del = True\<rparr>"

lemma one_list_rep: "list_rep one_node (one_list c) [1]" "list_vals one_node [1] = [7]"
  "finite (dom one_node)" "\<not> by_app (one_list c)"
  by (simp_all add: list_rep_def one_node_def one_list_def list_vals_def node_data_def by_app_def)

theorem listnode_remove_witness:
  "\<exists>h' l'. list_delete_node one_node (one_list None) 1 = Some (h', l') \<and> list_rep h' l' [] \<and> h' 1 = None"
  using listnode_remove [of one_node "one_list None" "[]" 1 "[]"] one_list_rep by auto

text \<open>
  C15. With a comparison function that is a weak order, \<open>listnode_add_sort\<close> inserts the value after all that are
  not greater: a sorted list stays sorted, and equal values keep the order of their insertion.
\<close>

theorem listnode_add_sort_sorted:
  assumes "list_rep h l ns" "fresh_node calloc h l ns val" "l_cmp l = Some cmp"
  shows "\<exists>h' l' ns'. listnode_add_sort calloc h l val = Some (h', l') \<and> list_rep h' l' ns' \<and>
    list_vals h' ns' = insert_by cmp (new_data h l val) (list_vals h ns) \<and>
    (comparison cmp \<longrightarrow> sorted_by cmp (list_vals h ns) \<longrightarrow> sorted_by cmp (list_vals h' ns'))"
proof -
  let ?P = "\<lambda>m. \<not> cmp (new_data h l val) (node_data h m) < 0"
  obtain h' l' where "listnode_add_sort calloc h l val = Some (h', l')"
    "inserted h h' l' (takeWhile ?P ns) (new_node calloc h l val) (dropWhile ?P ns) (new_data h l val)"
    using listnode_add_sort_inserted [OF assms] by blast
  then show ?thesis
    using comparison.insert_by_sorted [of cmp "list_vals h ns" "new_data h l val"]
      takeWhile_vals [of h "\<lambda>x. \<not> cmp (new_data h l val) x < 0" ns] dropWhile_vals [of h "\<lambda>x. \<not> cmp (new_data h l val) x < 0" ns]
    unfolding inserted_def insert_by_def by auto
qed

theorem listnode_add_sort_sorted_witness:
  "\<exists>h' l' ns'. listnode_add_sort next_addr one_node (one_list (Some byte_cmp)) 3 = Some (h', l') \<and>
    list_rep h' l' ns' \<and> list_vals h' ns' = [3, 7] \<and> sorted_by byte_cmp (list_vals h' ns')"
proof -
  let ?l = "one_list (Some byte_cmp)"
  have f: "fresh_node next_addr one_node ?l [1] 3" by (rule calloc_ok_fresh [OF next_addr_ok]) (simp_all add: one_list_rep)
  have c: "l_cmp ?l = Some byte_cmp" by (simp add: one_list_def)
  have d: "new_data one_node ?l 3 = 3" by (simp add: new_data_def one_list_rep(4))
  have i: "insert_by byte_cmp 3 [7] = [3, 7]" by (simp add: insert_by_def compare_strs_def)
  have "sorted_by byte_cmp [7]" by (simp add: sorted_by_def)
  then show ?thesis
    using listnode_add_sort_sorted [OF one_list_rep(1) f c] compare_strs.comparison_axioms [of "\<lambda>p. [of_nat p]"]
    unfolding d one_list_rep(2) i by blast
qed

lemma case_list_map:
  "(case map f xs of [] \<Rightarrow> False | y # ys \<Rightarrow> P y) \<longleftrightarrow> (case xs of [] \<Rightarrow> False | x # xs \<Rightarrow> P (f x))"
  by (cases xs) simp_all

text \<open>
  C16. On a strictly sorted list \<open>listnode_add_sort_nodup\<close> returns false and changes nothing exactly when an equal
  value is present; otherwise it inserts the value and the list stays strictly sorted.
\<close>

theorem listnode_add_sort_nodup_strict:
  assumes "list_rep h l ns" "fresh_node calloc h l ns val" "l_cmp l = Some cmp" "comparison cmp"
    "strict_by cmp (list_vals h ns)"
  shows "(\<exists>x \<in> set (list_vals h ns). cmp (new_data h l val) x = 0) \<and> listnode_add_sort_nodup calloc h l val = Some (h, l, False) \<or>
    \<not> (\<exists>x \<in> set (list_vals h ns). cmp (new_data h l val) x = 0) \<and>
      (\<exists>h' l' ns'. listnode_add_sort_nodup calloc h l val = Some (h', l', True) \<and> list_rep h' l' ns' \<and>
        list_vals h' ns' = insert_by cmp (new_data h l val) (list_vals h ns) \<and> strict_by cmp (list_vals h' ns'))"
proof -
  let ?v = "new_data h l val"
  let ?P = "\<lambda>m. cmp ?v (node_data h m) > 0"
  have vals: "list_vals h (takeWhile ?P ns) = takeWhile (\<lambda>x. cmp ?v x > 0) (list_vals h ns)"
    "list_vals h (dropWhile ?P ns) = dropWhile (\<lambda>x. cmp ?v x > 0) (list_vals h ns)"
    by (rule takeWhile_vals, rule dropWhile_vals)
  have found: "(\<exists>x \<in> set (list_vals h ns). cmp ?v x = 0) \<longleftrightarrow>
      (case dropWhile ?P ns of [] \<Rightarrow> False | m # _ \<Rightarrow> cmp ?v (node_data h m) = 0)"
    unfolding comparison.nodup_found [OF assms(4,5)] vals(2) [symmetric]
    unfolding list_vals_def by (rule case_list_map)
  show ?thesis
  proof (cases "\<exists>x \<in> set (list_vals h ns). cmp ?v x = 0")
    case True
    then obtain m ms where "dropWhile ?P ns = m # ms" "cmp ?v (node_data h m) = 0" using found by (auto split: list.splits)
    from listnode_add_sort_nodup_found [OF assms(1-3) this] True show ?thesis by blast
  next
    case False
    then have nf: "cmp ?v (node_data h m) \<noteq> 0" if "dropWhile ?P ns = m # ms" for m ms using found that by auto
    have "\<exists>h' l'. listnode_add_sort_nodup calloc h l val = Some (h', l', True) \<and>
        inserted h h' l' (takeWhile ?P ns) (new_node calloc h l val) (dropWhile ?P ns) ?v"
      by (rule listnode_add_sort_nodup_inserted [OF assms(1-3)]) (rule nf)
    then obtain h' l' where "listnode_add_sort_nodup calloc h l val = Some (h', l', True)"
      "inserted h h' l' (takeWhile ?P ns) (new_node calloc h l val) (dropWhile ?P ns) ?v" by blast
    moreover from False have "\<forall>x \<in> set (list_vals h ns). cmp ?v x \<noteq> 0" by blast
    note comparison.nodup_insert_by [OF assms(4,5) this]
    ultimately show ?thesis using False unfolding inserted_def vals by metis
  qed
qed

theorem listnode_add_sort_nodup_strict_witness:
  "listnode_add_sort_nodup next_addr one_node (one_list (Some byte_cmp)) 7 =
    Some (one_node, one_list (Some byte_cmp), False)"
  using listnode_add_sort_nodup_strict [of one_node "one_list (Some byte_cmp)" "[1]" next_addr 7
      byte_cmp]
    one_list_rep(1,4) [of "Some byte_cmp"] one_list_rep(2,3) compare_strs.comparison_axioms [of "\<lambda>p. [of_nat p]"]
    compare_strs.cmp_refl [of "\<lambda>p. [of_nat p]" 7]
    calloc_ok_fresh [of next_addr one_node 7 "one_list (Some byte_cmp)" "[1]", OF next_addr_ok]
  by (simp add: one_list_def new_data_def by_app_def strict_by_def)



text \<open>
  C18. With a comparison function \<open>listnode_lookup\<close> finds the first node whose data compares equal or is the same
  pointer; without one it never finds anything, so \<open>listnode_delete\<close> and \<open>listnode_getdata\<close> do nothing on such a
  list even for a pointer that is in it.
\<close>

theorem listnode_lookup_finds:
  assumes "list_rep h l ns" "NULL \<notin> set (list_vals h ns)"
  shows "listnode_lookup h l v = Some (case l_cmp l of None \<Rightarrow> NULL
      | Some cmp \<Rightarrow> hd0 (dropWhile (\<lambda>n. \<not> (cmp v (node_data h n) = 0 \<or> v = node_data h n)) ns) NULL) \<and>
    (l_cmp l = None \<longrightarrow> listnode_delete h l v = Some (h, l) \<and> listnode_getdata h l v = Some NULL)"
proof -
  have r: "dseg h NULL ns NULL" "NULL \<notin> set ns" "l_head l = hd0 ns NULL" using assms(1) by (auto simp: list_rep_def)
  have none: "l_cmp l = None \<Longrightarrow> listnode_lookup h l v = Some NULL"
    using lookup_loop_no_cmp [OF r(1,2), of v] r(3) by (simp add: listnode_lookup_def)
  moreover have "l_cmp l = Some cmp \<Longrightarrow> listnode_lookup h l v =
      Some (hd0 (dropWhile (\<lambda>n. \<not> (cmp v (node_data h n) = 0 \<or> v = node_data h n)) ns) NULL)" for cmp
    using lookup_loop_dropWhile [OF r(1,2) assms(2), of cmp v] r(3) by (simp add: listnode_lookup_def)
  ultimately show ?thesis by (cases "l_cmp l") (simp_all add: listnode_delete_def listnode_getdata_def)
qed

theorem listnode_lookup_finds_witness:
  "listnode_lookup one_node (one_list (Some byte_cmp)) 7 = Some 1 \<and> listnode_lookup one_node (one_list None) 7 = Some NULL \<and>
   listnode_delete one_node (one_list None) 7 = Some (one_node, one_list None)"
proof -
  have d: "node_data one_node 1 = 7" using one_list_rep(2) by (simp add: list_vals_def)
  have c: "l_cmp (one_list c) = c" for c by (simp add: one_list_def)
  have z: "NULL \<notin> set (list_vals one_node [1])" unfolding one_list_rep(2) by simp
  show ?thesis
    using listnode_lookup_finds [OF one_list_rep(1) z, of "Some byte_cmp" 7] listnode_lookup_finds [OF one_list_rep(1) z, of None 7]
    unfolding c by (simp add: d [simplified])
qed

text \<open>
  \<open>list_delete_all_node\<close> visits every node once, in order, calls \<open>del\<close> on each datum when there is one, frees
  exactly the nodes of the list (none when they belong to the application) and leaves an empty list.
\<close>

lemma list_delete_all:
  assumes "list_rep h l ns"
  shows "\<exists>l'. list_delete_all_node h l = Some (if by_app l then h else h |` (- set ns), l', if l_del l then list_vals h ns else []) \<and>
    (\<forall>h'. list_rep h' l' [])"
  using assms delete_all_loop_restrict [of h NULL ns l]
  by (auto simp: list_delete_all_node_def list_rep_def)

section \<open>Output buffer\<close>

text \<open>
  C19. Every way of adding to an output buffer keeps its invariant and appends exactly the bytes given, across
  chunk boundaries; \<open>buffer_put_crlf\<close> appends them with every line feed preceded by a carriage return;
  \<open>buffer_getstr\<close> returns the content as a string.
\<close>

theorem buffer_put_appends:
  assumes "buffer_ok b" "n \<le> length p"
  shows "buffer_getstr b = Some (buffer_content b @ [0]) \<and>
    (\<exists>b'. buffer_put b p n = Some b' \<and> buffer_ok b' \<and> buffer_content b' = buffer_content b @ take n p) \<and>
    (\<exists>b'. buffer_put_crlf b p = Some b' \<and> buffer_ok b' \<and> buffer_content b' = buffer_content b @ crlf p) \<and>
    (\<exists>b'. buffer_putc b c = Some b' \<and> buffer_ok b' \<and> buffer_content b' = buffer_content b @ [c]) \<and>
    (\<exists>b'. buffer_putstr b p = Some b' \<and> buffer_ok b' \<and> buffer_content b' = buffer_content b @ p)"
  using buffer_getstr_content [OF assms(1)] buffer_put_content [OF assms] put_crlf_loop_content [OF assms(1), of p]
    buffer_put_content [OF assms(1), of 1 "[c]"] buffer_put_content [OF assms(1), of "length p" p]
  unfolding buffer_put_crlf_def buffer_putc_def buffer_putstr_def by auto

theorem buffer_put_appends_witness:
  "\<exists>b'. buffer_put_crlf (buffer_new 4096 2) [97, 10, 98] = Some b' \<and> buffer_ok b' \<and> buffer_content b' = [97, 13, 10, 98]"
  using buffer_put_appends [of "buffer_new 4096 2" 0 "[97, 10, 98]"] buffer_new_ok [of 4096 2] by (auto simp: crlf_def)

text \<open>
  C20. \<open>buffer_flush_all\<close> never loses, repeats or reorders a byte: the bytes written followed by what is left in
  the buffer are the old content, whatever the kernel answers, and it says BUFFER_EMPTY only for an empty buffer.
\<close>

theorem buffer_flush_all_split:
  assumes "buffer_ok b" "buffer_flush_all b fd err script = Some (st, b', err', out, rest)"
  shows "buffer_content b = out @ buffer_content b' \<and> buffer_ok b' \<and> (st = BUFFER_EMPTY \<longrightarrow> b_data b' = [])"
proof (cases "b_data b = []")
  case True
  then show ?thesis using assms by (simp add: buffer_flush_all_def)
next
  case False
  then show ?thesis using assms(2) flush_all_loop_split [OF assms(1) False] by (simp add: buffer_flush_all_def)
qed

definition two_chunks :: buffer where
  "two_chunks = \<lparr>b_data = [\<lparr>d_cp = 2, d_sp = 1, d_data = [1, 2]\<rparr>, \<lparr>d_cp = 1, d_sp = 0, d_data = [3, 0]\<rparr>], b_size = 2\<rparr>"

lemma two_chunks_ok: "buffer_ok two_chunks" "buffer_content two_chunks = [2, 3]" "b_data two_chunks \<noteq> []"
  by (simp_all add: two_chunks_def buffer_ok_def chunk_ok_def buffer_content_def chunk_content_def)

theorem buffer_flush_all_split_witness:
  "\<exists>st b' err' out rest. buffer_flush_all two_chunks 1 EAGAIN [Wrote 1, Wrote 1] = Some (st, b', err', out, rest) \<and>
    [2, 3] = out @ buffer_content b'"
proof -
  have "\<forall>x \<in> set [Wrote 1, Wrote 1]. \<exists>k>0. x = Wrote k" by auto
  from flush_all_loop_sent [OF two_chunks_ok(1) _ two_chunks_ok(3) _ this, of 1 EAGAIN]
  obtain b' rest where "flush_all_loop two_chunks 1 EAGAIN [Wrote 1, Wrote 1] = Some (BUFFER_EMPTY, b', EAGAIN, [2, 3], rest)"
    by (auto simp: two_chunks_ok(2))
  then have "buffer_flush_all two_chunks 1 EAGAIN [Wrote 1, Wrote 1] = Some (BUFFER_EMPTY, b', EAGAIN, [2, 3], rest)"
    by (simp add: buffer_flush_all_def two_chunks_ok(3))
  with buffer_flush_all_split [OF two_chunks_ok(1) this] show ?thesis by (auto simp: two_chunks_ok(2))
qed

text \<open>
  C21. When every write of the kernel takes at least one byte, \<open>buffer_flush_all\<close> ends with an empty buffer after
  at most as many writes as there are bytes, and has written the whole content.
\<close>

theorem buffer_flush_all_live:
  assumes "buffer_ok b" "0 \<le> fd" "length (buffer_content b) \<le> length script" "\<forall>x \<in> set script. \<exists>k > 0. x = Wrote k"
  shows "\<exists>b' rest. buffer_flush_all b fd err script = Some (BUFFER_EMPTY, b', err, buffer_content b, rest) \<and> b_data b' = []"
  using flush_all_loop_sent [OF assms(1,2) _ assms(3,4)]
  by (cases "b_data b = []") (auto simp: buffer_flush_all_def buffer_content_def)

theorem buffer_flush_all_live_witness:
  "\<exists>b' rest. buffer_flush_all two_chunks 1 EAGAIN [Wrote 1, Wrote 9] = Some (BUFFER_EMPTY, b', EAGAIN, [2, 3], rest) \<and> b_data b' = []"
  using buffer_flush_all_live [OF two_chunks_ok(1), of 1 "[Wrote 1, Wrote 9]" EAGAIN] by (auto simp: two_chunks_ok(2))

text \<open>
  C22. \<open>buffer_write\<close> sends what the kernel takes and buffers the rest behind what was pending: unless the kernel
  reports an error, the old content and the new bytes are the bytes sent followed by the new content, and
  nothing is sent while older bytes are pending.
\<close>

theorem buffer_write_order:
  assumes "buffer_ok b" "n \<le> length p" "b_data b \<noteq> [] \<or> script \<noteq> []"
  shows "\<exists>st b' err' out rest. buffer_write b p n err script = Some (st, b', err', out, rest) \<and> buffer_ok b' \<and>
    (if st = BUFFER_ERROR then b' = b \<and> out = []
     else buffer_content b @ take n p = out @ buffer_content b' \<and> (b_data b \<noteq> [] \<longrightarrow> out = [] \<and> rest = script) \<and>
       (st = BUFFER_EMPTY \<longleftrightarrow> buffer_content b' = []))"
  by (rule buffer_write_content [OF assms])

theorem buffer_write_order_witness:
  "\<exists>st b' err' out rest. buffer_write two_chunks [4] 1 EAGAIN [] = Some (st, b', err', out, rest) \<and>
    (st = BUFFER_ERROR \<or> [2, 3, 4] = out @ buffer_content b')"
  using buffer_write_order [OF two_chunks_ok(1), of 1 "[4]" "[]" EAGAIN] two_chunks_ok(2,3)
  by (auto split: if_splits)

text \<open>
  \<open>buffer_flush_window\<close> shows a prefix of the content (after the erase sequence, before the more prompt) and
  keeps the rest; the prompt appears only when something is left. The numbers of lines and columns keep the size
  computation within an \<open>int\<close>.
\<close>

lemma buffer_flush_window_shows:
  assumes "buffer_ok b" "b_data b \<noteq> []" "0 < iov_max" "\<forall>x \<in> set script. \<exists>k. x = Wrote k"
    "length (b_data b) + 2 \<le> length script" "max 1 height * (max 1 width + 2) < 2 ^ 31 - 10"
  shows "\<exists>b' shown more rest. buffer_flush_window iov_max b width height erase_flag no_more_flag script =
      Some (if b_data b' = [] then BUFFER_EMPTY else BUFFER_PENDING, b',
            (if erase_flag then window_erase else []) @ shown @ (if more then window_more else []), rest) \<and>
    buffer_ok b' \<and> buffer_content b = shown @ buffer_content b' \<and> (more \<longrightarrow> b_data b' \<noteq> [] \<and> \<not> no_more_flag)"
  by (rule buffer_flush_window_content [OF assms])

section \<open>Ring buffer\<close>

text \<open>
  C23. Any sequence of puts and gets on a ring buffer runs without an out-of-bounds copy, and what was in the
  buffer followed by the bytes accepted is exactly the bytes delivered followed by what is left:
  nothing is lost, duplicated or reordered, across every wrap-around.
\<close>

theorem ringbuf_fifo:
  assumes "rb_inv b"
  shows "\<exists>acc out b'. fifo_run ringbuf_put ringbuf_get b ops = Some (acc, out, b') \<and> rb_inv b' \<and>
    rb_size b' = rb_size b \<and> rb_content b @ acc = out @ rb_content b'"
  by (rule rb.run_stream [OF assms])

theorem ringbuf_fifo_witness:
  "rb_inv (ringbuf_new 4) \<and>
   (\<exists>acc out b'. fifo_run ringbuf_put ringbuf_get (ringbuf_new 4) [Put [1, 2, 3], Get 2, Put [4, 5, 6], Get 9] =
      Some (acc, out, b') \<and> acc = out @ rb_content b')"
  using ringbuf_fifo [of "ringbuf_new 4" "[Put [1, 2, 3], Get 2, Put [4, 5, 6], Get 9]"]
    ringbuf_new_content [of 4] by auto

text \<open>
  \<open>ringbuf_put\<close> takes as many bytes as there is space for and appends them, \<open>ringbuf_get\<close> delivers
  and removes the oldest bytes, and both keep the invariant.
\<close>

lemma ringbuf_put_get_spec:
  assumes "rb_inv b" "n \<le> length dp"
  defines "k \<equiv> min n (rb_size b - length (rb_content b))"
    and "j \<equiv> min (length (rb_content b)) n"
  shows "(\<exists>b'. ringbuf_put b dp n = Some (k, b') \<and> rb_inv b' \<and> rb_content b' = rb_content b @ take k dp) \<and>
    (\<exists>b'. ringbuf_get b dp n = Some (j, take j (rb_content b) @ drop j dp, b') \<and> rb_inv b' \<and>
       rb_content b' = drop j (rb_content b))"
proof (rule conjI)
  show "\<exists>b'. ringbuf_put b dp n = Some (k, b') \<and> rb_inv b' \<and> rb_content b' = rb_content b @ take k dp"
    using ringbuf_put_content [OF assms(1,2)] by (auto simp: k_def)
  show "\<exists>b'. ringbuf_get b dp n = Some (j, take j (rb_content b) @ drop j dp, b') \<and> rb_inv b' \<and>
      rb_content b' = drop j (rb_content b)"
  proof -
    have "j \<le> length dp" using assms(2) by (simp add: j_def)
    then show ?thesis
      using ringbuf_get_content [OF assms(1), of n dp, folded j_def] by blast
  qed
qed



text \<open>\<open>ringbuf_wipe\<close> leaves an empty buffer whose whole storage is zero.\<close>

lemma ringbuf_wipe_spec:
  assumes "rb_inv b"
  shows "\<exists>b'. ringbuf_wipe b = Some b' \<and> rb_inv b' \<and> rb_content b' = [] \<and> rb_data b' = replicate (rb_size b) 0"
  by (rule ringbuf_wipe_content [OF assms])

lemma ringbuf_wipe_spec_example:
  "\<exists>b'. ringbuf_wipe (ringbuf_new 3) = Some b' \<and> rb_content b' = []"
  using ringbuf_wipe_spec [of "ringbuf_new 3"] ringbuf_new_content [of 3] by auto

section \<open>Vector\<close>

text \<open>
  C25. On a vector used as a stack, every push of a list followed by as many pops returns the list reversed
  and restores the contents, whatever reallocations happen in between.
\<close>

theorem vector_lifo:
  fixes v :: "'a vector"
  assumes "vec_inv v" "active v + length xs \<le> 2 ^ 31"
  shows "\<exists>v1 v2. push_all vector_push v xs = Some v1 \<and> pop_all vector_pop v1 (length xs) = Some (rev xs, v2) \<and>
    vec_inv v2 \<and> vec_list v2 = vec_list v"
  using vec.lifo [of v xs] assms vec_list_length [OF assms(1)] by auto

theorem vector_lifo_witness:
  "\<exists>v1 v2. push_all vector_push (vector_init 1) [Some 1, None, Some (3 :: nat)] = Some v1 \<and>
     pop_all vector_pop v1 3 = Some ([Some 3, None, Some 1], v2)"
  using vector_lifo [of "vector_init 1 :: nat vector" "[Some 1, None, Some 3]"]
    vector_init_inv [of 1, where 'a = nat] by (auto simp: vector_init_def numeral_3_eq_3)

text \<open>
  \<open>vector_insert\<close> and \<open>vector_remove\<close> at an index inside the vector shift the tail by one place, and an
  insert is undone by a remove at the same index.
\<close>

lemma vector_insert_remove:
  assumes "vec_inv v" "i \<le> active v" "active v < 2 ^ 31"
  shows "\<exists>v1 v2. vector_insert v i x = Some (int i, v1) \<and> vec_inv v1 \<and>
    vec_list v1 = take i (vec_list v) @ x # drop i (vec_list v) \<and>
    vector_remove v1 i = Some v2 \<and> vec_inv v2 \<and> vec_list v2 = vec_list v"
proof -
  obtain v1 where v1: "vector_insert v i x = Some (int i, v1)" "vec_inv v1"
    "vec_list v1 = take i (vec_list v) @ x # drop i (vec_list v)"
    using vector_insert_ok [OF assms] by blast
  have "i < active v1"
    using vec_list_length [OF v1(2)] vec_list_length [OF assms(1)] v1(3) assms(2) by simp
  from vector_remove_ok [OF v1(2) this] v1 vec_list_length [OF assms(1)] assms(2) show ?thesis by auto
qed

text \<open>
  \<open>vector_compact\<close> returns, removes exactly the empty slots and keeps the order of the rest.
\<close>

lemma vector_compact_spec:
  assumes "vec_inv v"
  shows "\<exists>v'. vector_compact v = Some v' \<and> vec_inv v' \<and> vec_list v' = filter (\<lambda>x. x \<noteq> None) (vec_list v)"
  by (rule vector_compact_ok [OF assms])

text \<open>
  An array survives the trip into a vector and back.
\<close>

lemma vector_array_roundtrip:
  assumes "length src < 2 ^ 31"
  shows "\<exists>v. array_to_vector src = Some v \<and> vec_inv v \<and> vector_to_array v = Some (src, length src)"
proof -
  obtain v where v: "array_to_vector src = Some v" "vec_inv v" "vec_list v = src"
    using array_to_vector_ok [OF assms] by blast
  then show ?thesis using vector_to_array_ok [of v] vec_list_length [of v] by auto
qed



text \<open>Popping an empty vector reads outside its array.\<close>

lemma vector_pop_empty_error:
  assumes "vec_inv v" "vec_list v = []"
  shows "vector_pop v = None"
  by (rule vector_pop_empty [OF assms])

lemma vector_pop_empty_error_example:
  "vector_pop (vector_init 4 :: nat vector) = None"
  using vector_pop_empty_error [of "vector_init 4 :: nat vector"] vector_init_inv [of 4, where 'a = nat] by simp

section \<open>Network prefixes\<close>

definition net10 :: prefix where
  "net10 = \<lparr>pf_family = AF_INET, pf_len = 12, pf_val = [10, 16, 0, 1]\<rparr>"








text \<open>
  C30. \<open>apply_mask\<close> keeps the network bits of an IPv4 or IPv6 prefix and clears all others, so the result compares
  equal to the prefix; mask lengths survive the conversion to a netmask and back; the broadcast address sets
  exactly the host bits, except that it is all ones for a /31.
\<close>

theorem prefix_masks:
  assumes "pf_family p = AF_INET \<and> n = 4 \<or> pf_family p = AF_INET6 \<and> n = 16" "pf_len p \<le> 8 * n" "n \<le> length (pf_val p)"
    "k \<le> 32" "k6 \<le> 128" "length h = 4"
  shows "(\<exists>p'. apply_mask p = Some p' \<and> masked n p p' \<and> prefix_cmp mem p p' = Some 0) \<and>
    (\<exists>m. masklen2ip k = Some m \<and> ip_masklen m = k) \<and> (\<exists>m. masklen2ip6 k6 = Some m \<and> ip6_masklen m = k6) \<and>
    (\<exists>b. ipv4_broadcast_addr h k = Some b \<and> (\<forall>i < 32. abit b i \<longleftrightarrow> (if i < k \<and> k \<noteq> 31 then abit h i else True)))"
proof (intro conjI)
  have "\<exists>p'. apply_mask p = Some p' \<and> masked n p p'"
    using assms(1-3) apply_mask_ipv4_masked [of p] apply_mask_ipv6_masked [of p]
    by (auto simp: apply_mask_def AF_INET_def AF_INET6_def)
  then obtain p' where p': "apply_mask p = Some p'" "masked n p p'" by blast
  have "PSIZE (pf_len p) \<le> PSIZE (8 * n)" by (rule PSIZE_bytes(3) [OF assms(2)])
  then have "pfx_ok p" using assms(1-3) by (auto simp: pfx_ok_def PSIZE_def AF_INET_def AF_INET6_def AF_FLOWSPEC_def AF_MAX_def)
  moreover from this p'(2) have "pfx_ok p'" by (simp add: pfx_ok_def masked_def)
  ultimately have "prefix_cmp mem p p' = Some 0"
    using prefix_cmp_key prefix_key_eq [of p p'] masked_agree [OF p'(2) assms(2)] p'(2) by (simp add: masked_def)
  with p' show "\<exists>p'. apply_mask p = Some p' \<and> masked n p p' \<and> prefix_cmp mem p p' = Some 0" by blast
qed (use ip_masklen_masklen2ip [OF assms(4)] ip6_masklen_masklen2ip6 [OF assms(5)] ipv4_broadcast_abit [OF assms(4,6)] in auto)

theorem prefix_masks_witness:
  "\<exists>p'. apply_mask net10 = Some p' \<and> masked 4 net10 p' \<and> prefix_cmp Map.empty net10 p' = Some 0"
  using prefix_masks [of net10 4 24 64 "[10, 0, 0, 1]" Map.empty] by (simp add: net10_def)

section \<open>Digests\<close>





text \<open>
  C33. The HMAC context returns the HMAC-SHA256 of RFC 2104 of the concatenated chunks, for keys shorter and longer
  than a block.
\<close>

theorem HMAC_chunks:
  assumes "length K < 2 ^ 32" "\<forall>xs \<in> set xss. length xs < 2 ^ 32"
  shows "do { h \<leftarrow> HMAC__SHA256_Init K; h \<leftarrow> update_all (\<lambda>h xs. HMAC__SHA256_Update h xs (length xs)) h xss;
      HMAC__SHA256_Final h } = Some (hmac_sha256 K (concat xss))"
proof -
  obtain h where h: "HMAC__SHA256_Init K = Some h" "hmac_rep K h []" using HMAC__SHA256_Init_rep [OF assms(1)] by blast
  have "stream_hash (\<lambda>h xs. HMAC__SHA256_Update h xs (length xs)) HMAC__SHA256_Final h (hmac_rep K) (hmac_sha256 K) (2 ^ 32)"
    using h(2) by unfold_locales (auto intro: HMAC__SHA256_Update_rep HMAC__SHA256_Final_digest)
  from stream_hash.chunks_digest [OF this assms(2)] h(1) show ?thesis by simp
qed

theorem HMAC_chunks_witness:
  "do { h \<leftarrow> HMAC__SHA256_Init [1, 2]; h \<leftarrow> update_all (\<lambda>h xs. HMAC__SHA256_Update h xs (length xs)) h [[3], [4]];
      HMAC__SHA256_Final h } = Some (hmac_sha256 [1, 2] [3, 4])"
  using HMAC_chunks [of "[1, 2]" "[[3], [4]]"] by simp

text \<open>
  C34. \<open>PBKDF2_SHA256\<close> derives the key of RFC 2898 with HMAC-SHA256, writes exactly \<open>dkLen\<close> bytes and leaves the
  rest of the output alone.
\<close>

theorem PBKDF2_derives:
  assumes "length P < 2 ^ 32" "length S < 2 ^ 32" "1 \<le> c" "dkLen \<le> length buf"
  shows "PBKDF2_SHA256 P S c buf dkLen = Some (pbkdf2_DK P S c dkLen @ drop dkLen buf)"
  by (rule PBKDF2_SHA256_spec [OF assms])

theorem PBKDF2_derives_witness:
  "PBKDF2_SHA256 [1] [2] 2 (replicate 40 0) 33 = Some (pbkdf2_DK [1] [2] 2 33 @ replicate 7 0)"
  using PBKDF2_derives [of "[1]" "[2]" 2 33 "replicate 40 0"] by simp



section \<open>Codecs, checksums and hashes\<close>





text \<open>
  C38. \<open>in_cksumv\<close> is the Internet checksum of the concatenated buffers however the data are cut into them (odd
  lengths included), it agrees with the plain \<open>checksum\<close> up to 128 KiB, and a packet that carries its
  checksum sums to zero.
\<close>

theorem internet_checksum:
  "in_cksumv iov = NOT (inet_sum (concat iov)) \<and> in_cksumv iov = in_cksum (concat iov) \<and>
   (length (concat iov) \<le> 131072 \<longrightarrow> checksum (concat iov) (int (length (concat iov))) = Some (in_cksumv iov)) \<and>
   (even (length p) \<longrightarrow> in_cksum (p @ le16_bytes (in_cksum (p @ [0, 0] @ q)) @ q) = 0)"
  using checksum_sum [of "concat iov"] in_cksum_embedded [of p q "in_cksum (p @ [0, 0] @ q)"]
  by (simp add: in_cksumv_sum in_cksum_def)

theorem internet_checksum_witness:
  "in_cksum ([1, 2] @ le16_bytes (in_cksum ([1, 2] @ [0, 0] @ [3])) @ [3]) = 0 \<and> in_cksumv [[1], [2, 3]] = in_cksum [1, 2, 3]"
proof -
  have "concat [[1], [2, 3]] = [1, 2, 3 :: u8]" "even (length [1, 2 :: u8])" by simp_all
  then show ?thesis using internet_checksum [of "[[1], [2, 3]]" "[1, 2]" "[3]"] by metis
qed



text \<open>
  \<open>jhash2\<close> on words equals \<open>jhash\<close> on their little-endian bytes, and the mixing step of both loses nothing.
\<close>

lemma jhash_words:
  "jhash2 k v = jhash (concat (map le32_bytes k)) v \<and> inj jhash_mix"
  using jhash2_jhash_lem jhash_mix_inj by blast

section \<open>Integer helpers\<close>

text \<open>
  C40. A non-negative 63-bit value survives \<open>varint_encode\<close> and \<open>varint_decode\<close>, with at most nine bytes.
\<close>

theorem varint_roundtrip:
  assumes "0 \<le> v" "v < 2 ^ 63" "9 \<le> length buf"
  shows "\<exists>n buf' r. varint_encode v buf = Some (n, buf') \<and> n \<le> 9 \<and> length buf' = length buf \<and>
    varint_decode buf' 0 (int n) = Some (r, int n) \<and> uint r = v"
proof -
  let ?k = "nat v"
  have k: "?k < 2 ^ 63" using assms(1,2) by (simp add: nat_less_iff)
  then have len: "length (varint ?k) \<le> 9" by (intro length_varint) simp_all
  let ?buf = "varint ?k @ drop (length (varint ?k)) buf"
  have "varint_encode v buf = Some (length (varint ?k), ?buf)"
    using varint_encode_loop_varint [of 0 ?k buf] len assms(1,3) by (simp add: varint_encode_def)
  moreover obtain r where "varint_decode ?buf 0 (int (length (varint ?k))) = Some (r, int (length (varint ?k)))" "unat r = ?k"
    using varint_decode_varint [OF k, of 0 ?buf "int (length (varint ?k))"] by auto
  moreover from this(2) have "uint r = v" using assms(1) by (metis int_nat_eq uint_nat)
  ultimately show ?thesis using len assms(3) by auto
qed

theorem varint_roundtrip_witness:
  "\<exists>n buf' r. varint_encode 300 (replicate 10 0) = Some (n, buf') \<and> varint_decode buf' 0 (int n) = Some (r, int n) \<and> uint r = 300"
  using varint_roundtrip [of 300 "replicate 10 0"] by auto

text \<open>
  \<open>floor2e\<close> and \<open>ceil2e\<close> give the nearest powers of two below and above their argument; above \<open>2 ^ 63\<close>
  \<open>ceil2e\<close> wraps to zero. \<open>varint_encode\<close> of a negative value runs past any buffer.
\<close>

lemma powers_of_two:
  assumes "1 < unat n"
  shows "(\<exists>k. unat (floor2e n) = 2 ^ k \<and> unat (floor2e n) \<le> unat n \<and> unat n < 2 * unat (floor2e n)) \<and>
    (if unat n \<le> 2 ^ 63 then \<exists>k. unat (ceil2e n) = 2 ^ k \<and> unat n \<le> unat (ceil2e n) \<and> unat (ceil2e n) < 2 * unat n
     else ceil2e n = 0) \<and>
    (v < 0 \<longrightarrow> varint_encode v buf = None)"
proof (intro conjI)
  have "n \<noteq> 0" using assms by auto
  then show "\<exists>k. unat (floor2e n) = 2 ^ k \<and> unat (floor2e n) \<le> unat n \<and> unat n < 2 * unat (floor2e n)"
    by (rule floor2e_bounds)
  show "if unat n \<le> 2 ^ 63 then \<exists>k. unat (ceil2e n) = 2 ^ k \<and> unat n \<le> unat (ceil2e n) \<and> unat (ceil2e n) < 2 * unat n
     else ceil2e n = 0" using ceil2e_bounds [OF assms] by (simp only: not_le split: if_split) blast
  show "v < 0 \<longrightarrow> varint_encode v buf = None" using varint_encode_negative by (simp add: varint_encode_def)
qed

end
